(* ===== verification/Prelude.thy ===== *)
theory Prelude
  imports Main "HOL-Library.Multiset"
begin

text \<open>
  What every component of the development shares: the exceptions of the Python code as an error
  datatype, results that are either an exception or a value, the two loop shapes that stop at the
  first exception (\<open>rmap\<close> for a list built element by element, \<open>rfold\<close> for a loop over a state),
  Python's list indexing, slicing and \<open>range\<close>, and the generic list lemmas the component theories
  use.  Three collections carry the automation: \<open>res_simps\<close> for the result monad, \<open>py_simps\<close> for the
  Python list operations and \<open>str_simps\<close> for the string operations of theory \<open>PyString\<close>.
\<close>

named_theorems res_simps "equations of the result monad"
named_theorems py_simps "equations of the Python list operations"
named_theorems str_simps "equations of the Python string operations"

section \<open>Exceptions and results\<close>

datatype py_error =
    IndexError
  | KeyError
  | ValueError
  | TypeError
  | ZeroDivisionError
  | UnboundLocalError
  | AttributeError
  | AssertionError
  | FileNotFoundError
  | StopIteration
  | OutOfDraws
  | SysExit int
  | Raised string

type_synonym 'a res = "py_error + 'a"

definition rbind :: "'a res \<Rightarrow> ('a \<Rightarrow> 'b res) \<Rightarrow> 'b res" where
  "rbind m f = (case m of Inl e \<Rightarrow> Inl e | Inr x \<Rightarrow> f x)"

definition of_option :: "py_error \<Rightarrow> 'a option \<Rightarrow> 'a res" where
  "of_option e m = (case m of None \<Rightarrow> Inl e | Some x \<Rightarrow> Inr x)"

definition assert :: "bool \<Rightarrow> unit res" where
  "assert b = (if b then Inr () else Inl AssertionError)"

lemma rbind_simps [simp, res_simps]:
  "rbind (Inl e) f = Inl e"
  "rbind (Inr x) f = f x"
  by (simp_all add: rbind_def)

lemma rbind_eq_Inr [res_simps]: "rbind m f = Inr y \<longleftrightarrow> (\<exists>x. m = Inr x \<and> f x = Inr y)"
  by (cases m) auto

lemma rbind_eq_Inl [res_simps]:
  "rbind m f = Inl e \<longleftrightarrow> m = Inl e \<or> (\<exists>x. m = Inr x \<and> f x = Inl e)"
  by (cases m) auto

lemma rbind_assoc: "rbind (rbind m f) g = rbind m (\<lambda>x. rbind (f x) g)"
  by (cases m) auto

lemma of_option_simps [simp, res_simps]:
  "of_option e None = Inl e"
  "of_option e (Some x) = Inr x"
  by (simp_all add: of_option_def)

lemma of_option_eq_Inr [res_simps]: "of_option e m = Inr x \<longleftrightarrow> m = Some x"
  by (cases m) auto

lemma assert_eq [res_simps]:
  "assert b = Inr u \<longleftrightarrow> b"
  "assert b = Inl e \<longleftrightarrow> \<not> b \<and> e = AssertionError"
  by (auto simp: assert_def)

lemma assert_simps [simp]: "assert True = Inr ()" "assert False = Inl AssertionError"
  by (simp_all add: assert_def)

text \<open>A list built element by element, and a loop over a state; both stop at the first exception.\<close>

fun rmap :: "('a \<Rightarrow> 'b res) \<Rightarrow> 'a list \<Rightarrow> 'b list res" where
  "rmap f [] = Inr []"
| "rmap f (x # xs) = rbind (f x) (\<lambda>y. rbind (rmap f xs) (\<lambda>ys. Inr (y # ys)))"

fun rfold :: "('s \<Rightarrow> 'a \<Rightarrow> 's res) \<Rightarrow> 's \<Rightarrow> 'a list \<Rightarrow> 's res" where
  "rfold f s [] = Inr s"
| "rfold f s (x # xs) = rbind (f s x) (\<lambda>s'. rfold f s' xs)"

lemma rmap_length: "rmap f xs = Inr ys \<Longrightarrow> length ys = length xs"
  by (induction xs arbitrary: ys) (auto simp: rbind_eq_Inr)

lemma rmap_nth: "rmap f xs = Inr ys \<Longrightarrow> i < length xs \<Longrightarrow> f (xs ! i) = Inr (ys ! i)"
proof (induction xs arbitrary: ys i)
  case Nil
  then show ?case by simp
next
  case (Cons x xs)
  then show ?case by (cases i) (auto simp: rbind_eq_Inr)
qed

lemma rmap_total: "(\<And>x. x \<in> set xs \<Longrightarrow> f x = Inr (g x)) \<Longrightarrow> rmap f xs = Inr (map g xs)"
  by (induction xs) auto

lemma rmap_eq_map: "(\<And>x. x \<in> set xs \<Longrightarrow> f x = Inr (g x)) \<Longrightarrow> rmap f xs = Inr (map g xs)"
  by (induction xs) auto

lemma rmap_InrI: "(\<And>x. x \<in> set xs \<Longrightarrow> \<exists>y. f x = Inr y) \<Longrightarrow> \<exists>ys. rmap f xs = Inr ys"
proof (induction xs)
  case Nil
  then show ?case by simp
next
  case (Cons x xs)
  then obtain y ys where "f x = Inr y" "rmap f xs = Inr ys" by (metis list.set_intros)
  then show ?case by simp
qed

lemma rmap_InlI: "x \<in> set xs \<Longrightarrow> f x = Inl e \<Longrightarrow> \<exists>e'. rmap f xs = Inl e'"
proof (induction xs)
  case Nil
  then show ?case by simp
next
  case (Cons a xs)
  then show ?case by (cases "f a") auto
qed

lemma rfold_append: "rfold f s (xs @ ys) = rbind (rfold f s xs) (\<lambda>s'. rfold f s' ys)"
  by (induction xs arbitrary: s) (auto simp: rbind_assoc)

lemma rfold_total: "(\<And>s x. x \<in> set xs \<Longrightarrow> f s x = Inr (g s x)) \<Longrightarrow> rfold f s xs = Inr (foldl g s xs)"
  by (induction xs arbitrary: s) auto

lemma rfold_invariant:
  "rfold f s xs = Inr t \<Longrightarrow> P s \<Longrightarrow> (\<And>s x s'. x \<in> set xs \<Longrightarrow> P s \<Longrightarrow> f s x = Inr s' \<Longrightarrow> P s') \<Longrightarrow> P t"
proof (induction xs arbitrary: s)
  case Nil
  then show ?case by simp
next
  case (Cons x xs)
  from Cons.prems(1) obtain s' where s': "f s x = Inr s'" "rfold f s' xs = Inr t"
    by (auto simp: rbind_eq_Inr)
  from Cons.prems(2,3) s'(1) have "P s'" by (meson list.set_intros(1))
  with s'(2) Cons.prems(3) show ?case using Cons.IH by (meson list.set_intros(2))
qed

section \<open>Python lists\<close>

lemma set_tl: "set (tl xs) \<subseteq> set xs"
  by (cases xs) auto

text \<open>Indexing: a negative index counts from the end, an index out of range raises.\<close>

definition py_get :: "'a list \<Rightarrow> int \<Rightarrow> 'a res" where
  "py_get xs k =
     (if k \<ge> 0 \<and> nat k < length xs then Inr (xs ! nat k)
      else if k < 0 \<and> nat (- k) \<le> length xs then Inr (xs ! (length xs - nat (- k)))
      else Inl IndexError)"

lemma py_get_nat [py_simps]: "i < length xs \<Longrightarrow> py_get xs (int i) = Inr (xs ! i)"
  by (simp add: py_get_def)

lemma py_get_last [py_simps]: "xs \<noteq> [] \<Longrightarrow> py_get xs (- 1) = Inr (last xs)"
  by (simp add: py_get_def last_conv_nth Suc_le_eq)

lemma py_get_Nil [py_simps, simp]: "py_get [] k = Inl IndexError"
  by (simp add: py_get_def)

lemma py_get_eq_Inr_nat: "0 \<le> k \<Longrightarrow> py_get xs k = Inr x \<longleftrightarrow> nat k < length xs \<and> xs ! nat k = x"
  by (auto simp: py_get_def)

text \<open>Slices with non-negative bounds, clipped to the list as Python clips them.\<close>

definition slice :: "'a list \<Rightarrow> nat \<Rightarrow> nat \<Rightarrow> 'a list" where
  "slice xs l r = take (r - l) (drop l xs)"

lemma length_slice [py_simps]: "length (slice xs l r) = min r (length xs) - l"
  by (auto simp: slice_def)

lemma slice_append: "l \<le> m \<Longrightarrow> m \<le> r \<Longrightarrow> slice xs l m @ slice xs m r = slice xs l r"
  using take_add[of "m - l" "r - m" "drop l xs"] by (simp add: slice_def)

lemma slice_0 [py_simps]: "slice xs 0 r = take r xs"
  by (simp add: slice_def)

lemma slice_full [py_simps]: "length xs \<le> r \<Longrightarrow> slice xs 0 r = xs"
  by (simp add: slice_def)

lemma slice_empty [py_simps]: "slice xs l l = []"
  by (simp add: slice_def)

lemma set_slice: "set (slice xs l r) \<subseteq> set xs"
  unfolding slice_def by (meson order_trans set_drop_subset set_take_subset)

lemma nth_slice: "l + i < r \<Longrightarrow> r \<le> length xs \<Longrightarrow> slice xs l r ! i = xs ! (l + i)"
  by (simp add: slice_def)

text \<open>A chain of adjacent slices covers the list from the first bound to the last.\<close>

lemma chain_le: "(\<And>i. i < k \<Longrightarrow> b i \<le> (b (Suc i) :: nat)) \<Longrightarrow> j \<le> k \<Longrightarrow> b 0 \<le> b j"
proof (induction j)
  case 0
  then show ?case by simp
next
  case (Suc j)
  then have "b 0 \<le> b j" "b j \<le> b (Suc j)" by auto
  then show ?case by (rule order_trans)
qed

lemma concat_slices:
  assumes "\<And>i. i < k \<Longrightarrow> b i \<le> b (Suc i)"
  shows "concat (map (\<lambda>i. slice xs (b i) (b (Suc i))) [0..<k]) = slice xs (b 0) (b k)"
  using assms
proof (induction k)
  case 0
  then show ?case by (simp add: slice_empty)
next
  case (Suc k)
  have "b 0 \<le> b k" by (rule chain_le[of k b k]) (use Suc.prems in auto)
  moreover have "b k \<le> b (Suc k)" using Suc.prems by auto
  ultimately show ?case using Suc by (simp add: slice_append)
qed

lemma distinct_concat_map:
  assumes "distinct xs" "\<And>x. x \<in> set xs \<Longrightarrow> distinct (f x)"
    and "\<And>x y z. x \<in> set xs \<Longrightarrow> y \<in> set xs \<Longrightarrow> z \<in> set (f x) \<Longrightarrow> z \<in> set (f y) \<Longrightarrow> x = y"
  shows "distinct (concat (map f xs))"
  using assms
proof (induction xs)
  case Nil
  then show ?case by simp
next
  case (Cons x xs)
  then have "distinct (concat (map f xs))" by (metis distinct.simps(2) list.set_intros(2))
  moreover have "set (f x) \<inter> set (concat (map f xs)) = {}"
    using Cons.prems(1,3) by (auto 4 3)
  ultimately show ?case using Cons.prems(2) by simp
qed

text \<open>\<open>range (a, b, s)\<close> for a positive step.\<close>

definition range_step :: "nat \<Rightarrow> nat \<Rightarrow> nat \<Rightarrow> nat list" where
  "range_step a b s = map (\<lambda>k. a + k * s) [0..<(b - a + s - 1) div s]"

lemma length_range_step [py_simps]: "length (range_step a b s) = (b - a + s - 1) div s"
  by (simp add: range_step_def)

lemma nth_range_step [py_simps]: "k < (b - a + s - 1) div s \<Longrightarrow> range_step a b s ! k = a + k * s"
  by (simp add: range_step_def)

section \<open>Loops that run until a condition holds or an exception is raised\<close>

text \<open>The contract of every \<open>while\<close> loop of the development: one unfolding is one iteration, and an
  iteration that succeeds makes a measure smaller.  The clients are the loops of the models, which
  interpret it on their own iteration.\<close>

locale res_loop =
  fixes run :: "'s \<Rightarrow> 's res" and iter :: "'s \<Rightarrow> 's res" and finished :: "'s \<Rightarrow> bool" and left :: "'s \<Rightarrow> nat"
  assumes run_unfold: "run s = (if finished s then Inr s else rbind (iter s) run)"
    and iter_less: "\<not> finished s \<Longrightarrow> iter s = Inr s' \<Longrightarrow> left s' < left s"
begin

lemma run_finished: "finished s \<Longrightarrow> run s = Inr s"
  by (simp add: run_unfold)

lemma run_invariant:
  assumes "run s = Inr t" "I s"
    and step: "\<And>s s'. I s \<Longrightarrow> \<not> finished s \<Longrightarrow> iter s = Inr s' \<Longrightarrow> I s'"
  shows "I t \<and> finished t"
  using assms(1,2)
proof (induction "left s" arbitrary: s rule: less_induct)
  case less
  show ?case
  proof (cases "finished s")
    case True
    then show ?thesis using less.prems by (simp add: run_unfold)
  next
    case False
    with less.prems(1) obtain s' where s': "iter s = Inr s'" "run s' = Inr t"
      by (auto simp: run_unfold[of s] rbind_eq_Inr)
    then show ?thesis using less.hyps iter_less step less.prems(2) False by blast
  qed
qed

lemma run_total:
  assumes "I s" and step: "\<And>s. I s \<Longrightarrow> \<not> finished s \<Longrightarrow> \<exists>s'. iter s = Inr s' \<and> I s'"
  shows "\<exists>t. run s = Inr t"
  using assms(1)
proof (induction "left s" arbitrary: s rule: less_induct)
  case less
  show ?case
  proof (cases "finished s")
    case True
    then show ?thesis by (simp add: run_unfold)
  next
    case False
    with step less.prems obtain s' where s': "iter s = Inr s'" "I s'" by blast
    with less.hyps[OF iter_less[OF False s'(1)]] show ?thesis using False by (simp add: run_unfold[of s])
  qed
qed

lemma run_never:
  assumes "I s" "\<And>s. I s \<Longrightarrow> \<not> finished s" "\<And>s s'. I s \<Longrightarrow> iter s = Inr s' \<Longrightarrow> I s'"
  shows "run s \<noteq> Inr t"
  using run_invariant[where I = I and s = s and t = t] assms by blast

end

end
