(* ===== verification/PyFloat.thy ===== *)
theory PyFloat
  imports Prelude "HOL-Library.Log_Nat"
begin

text \<open>
  Python's \<open>float\<close>, the IEEE-754 binary64 format, on exact rationals: a float is the rational
  it denotes and every arithmetic operation rounds the exact result to nearest, ties to even,
  with gradual underflow below \<open>2^-1022\<close>.  The exponent is not bounded above (the values of the
  modelled scripts stay far below \<open>2^1024\<close>), so infinities and NaN do not occur; the sign of a
  zero is not represented.  The laws the scripts' arithmetic relies on are collected in the
  locale \<open>float_rounding\<close>, whose interpretation on \<open>rn\<close> closes the theory.
\<close>

section \<open>Powers of two\<close>

definition pow2 :: "int \<Rightarrow> rat" where
  "pow2 k = (if 0 \<le> k then 2 ^ nat k else 1 / 2 ^ nat (- k))"

lemma pow2_pos [simp]: "0 < pow2 k"
  by (simp add: pow2_def)

lemma pow2_nonneg [simp]: "0 \<le> pow2 k"
  using pow2_pos[of k] by linarith

lemma pow2_neq_0 [simp]: "pow2 k \<noteq> 0"
  using pow2_pos[of k] by linarith

lemma pow2_powi: "pow2 k = 2 powi k"
  by (auto simp: pow2_def power_int_def divide_simps)

lemma pow2_add: "pow2 (j + k) = pow2 j * pow2 k"
  by (simp add: pow2_powi power_int_add)

lemma pow2_diff: "pow2 (j - k) = pow2 j / pow2 k"
  by (simp add: pow2_powi power_int_diff)

lemma pow2_0 [simp]: "pow2 0 = 1"
  by (simp add: pow2_def)

lemma pow2_nat: "0 \<le> k \<Longrightarrow> pow2 k = of_int (2 ^ nat k)"
  by (simp add: pow2_def)

lemma pow2_less: "j < k \<Longrightarrow> pow2 j < pow2 k"
  unfolding pow2_powi by (rule power_int_strict_increasing) auto

lemma pow2_less_iff [simp]: "pow2 j < pow2 k \<longleftrightarrow> j < k"
  using pow2_less[of j k] pow2_less[of k j] by (cases j k rule: linorder_cases) auto

lemma pow2_le_iff [simp]: "pow2 j \<le> pow2 k \<longleftrightarrow> j \<le> k"
  using pow2_less_iff[of k j] by (simp add: not_less[symmetric] del: pow2_less_iff)

section \<open>Rounding to the nearest integer, ties to even\<close>

definition rhe :: "rat \<Rightarrow> int" where
  "rhe x = (let f = \<lfloor>x\<rfloor>; d = x - of_int f
            in if d < 1 / 2 then f else if 1 / 2 < d then f + 1 else if even f then f else f + 1)"

lemma rhe_of_int [simp]: "rhe (of_int n) = n"
  by (simp add: rhe_def)

lemma rhe_floor: "\<lfloor>x\<rfloor> \<le> rhe x" "rhe x \<le> \<lfloor>x\<rfloor> + 1"
  by (auto simp: rhe_def Let_def)

lemma rhe_error: "\<bar>of_int (rhe x) - x\<bar> \<le> 1 / 2"
proof -
  have "of_int \<lfloor>x\<rfloor> \<le> x" "x < of_int \<lfloor>x\<rfloor> + 1" by linarith+
  then show ?thesis by (auto simp: rhe_def Let_def abs_le_iff)
qed

lemma rhe_nonneg: "0 \<le> x \<Longrightarrow> 0 \<le> rhe x"
  using rhe_floor(1)[of x] zero_le_floor[of x] by linarith

lemma rhe_mono: "x \<le> y \<Longrightarrow> rhe x \<le> rhe y"
proof (cases "\<lfloor>x\<rfloor> = \<lfloor>y\<rfloor>")
  case True
  assume "x \<le> y"
  with True show ?thesis by (auto simp: rhe_def Let_def)
next
  case False
  assume "x \<le> y"
  then have "\<lfloor>x\<rfloor> \<le> \<lfloor>y\<rfloor>" by (rule floor_mono)
  with False have "\<lfloor>x\<rfloor> + 1 \<le> \<lfloor>y\<rfloor>" by simp
  then show ?thesis using rhe_floor(2)[of x] rhe_floor(1)[of y] by linarith
qed

lemma rhe_split:
  assumes "x = of_int f + d" "0 \<le> d" "d < 1"
  shows "rhe x = (if d < 1 / 2 then f else if 1 / 2 < d then f + 1 else if even f then f else f + 1)"
proof -
  have "\<lfloor>x\<rfloor> = f" using assms by (intro floor_unique) auto
  then show ?thesis using assms(1) by (simp add: rhe_def)
qed

lemma rhe_minus: "rhe (- x) = - rhe x"
proof (cases "x = of_int \<lfloor>x\<rfloor>")
  case True
  then show ?thesis by (metis of_int_minus rhe_of_int)
next
  case False
  define f where "f = \<lfloor>x\<rfloor>"
  define d where "d = x - of_int f"
  have x: "x = of_int f + d" by (simp add: d_def)
  have d: "0 < d" "d < 1" using False by (auto simp: d_def f_def) linarith+
  have "- x = of_int (- f - 1) + (1 - d)" by (simp add: x)
  then have "rhe (- x) = (if 1 - d < 1 / 2 then - f - 1 else if 1 / 2 < 1 - d then - f - 1 + 1
      else if even (- f - 1) then - f - 1 else - f - 1 + 1)"
    by (rule rhe_split) (use d in auto)
  moreover have "rhe x = (if d < 1 / 2 then f else if 1 / 2 < d then f + 1 else if even f then f else f + 1)"
    using x by (rule rhe_split) (use d in auto)
  ultimately show ?thesis by (cases d "1 / 2 :: rat" rule: linorder_cases) auto
qed

section \<open>The binary exponent\<close>

text \<open>\<open>expo x\<close> is the largest \<open>k\<close> with \<open>2^k \<le> \<bar>x\<bar>\<close>, read off the bit lengths of numerator and
  denominator.\<close>

definition expo :: "rat \<Rightarrow> int" where
  "expo x = (case quotient_of \<bar>x\<bar> of (n, d) \<Rightarrow>
     let k = bitlen n - bitlen d in if pow2 k \<le> \<bar>x\<bar> then k else k - 1)"

lemma expo_bounds:
  assumes "x \<noteq> 0"
  shows "pow2 (expo x) \<le> \<bar>x\<bar>" "\<bar>x\<bar> < pow2 (expo x + 1)"
proof -
  obtain n d where q: "quotient_of \<bar>x\<bar> = (n, d)" by force
  from q have d: "0 < d" by (rule quotient_of_denom_pos)
  from q have x: "\<bar>x\<bar> = of_int n / of_int d" by (rule quotient_of_div)
  with assms d have n: "0 < n" by (metis abs_ge_zero abs_eq_0 divide_eq_0_iff of_int_0_less_iff
        of_int_pos order_le_less zero_less_divide_iff not_less_iff_gr_or_eq)
  have bn: "2 ^ nat (bitlen n - 1) \<le> n" "n < 2 ^ nat (bitlen n)" using bitlen_bounds[OF n] by auto
  have bd: "2 ^ nat (bitlen d - 1) \<le> d" "d < 2 ^ nat (bitlen d)" using bitlen_bounds[OF d] by auto
  have pn: "0 < bitlen n" "0 < bitlen d"
    using n d bitlen_nonneg[of n] bitlen_nonneg[of d] bitlen_eq_zero_iff[of n] bitlen_eq_zero_iff[of d]
    by (auto simp: order_le_less)
  have n1: "pow2 (bitlen n - 1) \<le> of_int n" "of_int n < pow2 (bitlen n)"
    using bn pn by (simp_all add: pow2_nat del: of_int_power of_int_numeral)
  have d1: "pow2 (bitlen d - 1) \<le> of_int d" "of_int d < pow2 (bitlen d)"
    using bd pn by (simp_all add: pow2_nat del: of_int_power of_int_numeral)
  have lo: "pow2 (bitlen n - bitlen d - 1) < \<bar>x\<bar>"
  proof -
    have "pow2 (bitlen n - 1) / pow2 (bitlen d) < of_int n / of_int d"
      using n1(1) d1(2) d n by (intro frac_less2) auto
    moreover have "pow2 (bitlen n - 1) / pow2 (bitlen d) = pow2 (bitlen n - bitlen d - 1)"
      by (subst pow2_diff[symmetric]) (simp add: algebra_simps)
    ultimately show ?thesis unfolding x by simp
  qed
  have hi: "\<bar>x\<bar> < pow2 (bitlen n - bitlen d + 1)"
  proof -
    have "of_int n / of_int d < pow2 (bitlen n) / pow2 (bitlen d - 1)"
      using n1(2) d1(1) d n by (intro frac_less) auto
    also have "\<dots> = pow2 (bitlen n - bitlen d + 1)"
      by (subst pow2_diff[symmetric]) (simp add: algebra_simps)
    finally show ?thesis unfolding x .
  qed
  show "pow2 (expo x) \<le> \<bar>x\<bar>" "\<bar>x\<bar> < pow2 (expo x + 1)"
    using lo hi by (auto simp: expo_def q Let_def)
qed

lemma expo_unique:
  assumes "pow2 k \<le> \<bar>x\<bar>" "\<bar>x\<bar> < pow2 (k + 1)"
  shows "expo x = k"
proof -
  have x0: "x \<noteq> 0" using assms(1) pow2_pos[of k] by (metis abs_zero not_less)
  from expo_bounds[OF x0] assms have "pow2 k < pow2 (expo x + 1)" "pow2 (expo x) < pow2 (k + 1)"
    by linarith+
  then show ?thesis by simp
qed

lemma expo_minus [simp]: "expo (- x) = expo x"
  by (simp add: expo_def)

lemma expo_mono:
  assumes "x \<noteq> 0" "\<bar>x\<bar> \<le> \<bar>y\<bar>"
  shows "expo x \<le> expo y"
proof -
  have "y \<noteq> 0" using assms by auto
  then have "pow2 (expo x) < pow2 (expo y + 1)"
    using expo_bounds[OF \<open>x \<noteq> 0\<close>] expo_bounds[of y] assms(2) by linarith
  then show ?thesis by simp
qed

section \<open>Rounding to binary64\<close>

text \<open>The exponent of the last place of the float next to \<open>x\<close>: 53 significant bits, and never
  below \<open>2^-1074\<close>.\<close>

definition quantum :: "rat \<Rightarrow> int" where
  "quantum x = max (expo x - 52) (- 1074)"

definition rn :: "rat \<Rightarrow> rat" where
  "rn x = (if x = 0 then 0 else of_int (rhe (x / pow2 (quantum x))) * pow2 (quantum x))"

lemma rn_0 [simp]: "rn 0 = 0"
  by (simp add: rn_def)

lemma rn_minus: "rn (- x) = - rn x"
  by (simp add: rn_def quantum_def rhe_minus)

lemma rn_on_grid: "x \<noteq> 0 \<Longrightarrow> x = of_int m * pow2 (quantum x) \<Longrightarrow> rn x = x"
  by (simp add: rn_def divide_simps) (metis nonzero_mult_div_cancel_right pow2_neq_0 rhe_of_int)

text \<open>A power of two below the quantum's binade bounds the rounded value as it bounds \<open>x\<close>.\<close>

lemma grid_pow2:
  assumes "q \<le> k"
  shows "of_int (2 ^ nat (k - q)) * pow2 q = pow2 k"
proof -
  have "pow2 k = pow2 (k - q) * pow2 q" by (simp flip: pow2_add)
  then show ?thesis using assms by (simp add: pow2_nat)
qed

lemma round_le_pow2:
  assumes "x \<le> pow2 k" "q \<le> k"
  shows "of_int (rhe (x / pow2 q)) * pow2 q \<le> pow2 k"
proof -
  have "x / pow2 q \<le> of_int (2 ^ nat (k - q))"
    using assms grid_pow2[OF assms(2)] by (simp add: divide_le_eq del: of_int_power)
  then have "rhe (x / pow2 q) \<le> 2 ^ nat (k - q)" using rhe_mono rhe_of_int by metis
  then have "of_int (rhe (x / pow2 q)) * pow2 q \<le> of_int (2 ^ nat (k - q)) * pow2 q"
    by (intro mult_right_mono) (simp_all only: of_int_le_iff pow2_nonneg)
  then show ?thesis by (simp only: grid_pow2[OF assms(2)])
qed

lemma round_ge_pow2:
  assumes "pow2 k \<le> x" "q \<le> k"
  shows "pow2 k \<le> of_int (rhe (x / pow2 q)) * pow2 q"
proof -
  have "of_int (2 ^ nat (k - q)) \<le> x / pow2 q"
    using assms grid_pow2[OF assms(2)] by (simp add: le_divide_eq del: of_int_power)
  then have "2 ^ nat (k - q) \<le> rhe (x / pow2 q)" using rhe_mono rhe_of_int by metis
  then have "of_int (2 ^ nat (k - q)) * pow2 q \<le> of_int (rhe (x / pow2 q)) * pow2 q"
    by (intro mult_right_mono) (simp_all only: of_int_le_iff pow2_nonneg)
  then show ?thesis by (simp only: grid_pow2[OF assms(2)])
qed

lemma rn_nonneg: "0 \<le> x \<Longrightarrow> 0 \<le> rn x"
proof -
  assume "0 \<le> x"
  then have "0 \<le> x / pow2 (quantum x)" by simp
  then have "rhe 0 \<le> rhe (x / pow2 (quantum x))" by (rule rhe_mono)
  then show ?thesis using rhe_of_int[of 0] by (simp add: rn_def)
qed

lemma rn_mono_pos:
  assumes "0 < x" "x \<le> y"
  shows "rn x \<le> rn y"
proof (cases "quantum x = quantum y")
  case True
  have "x / pow2 (quantum y) \<le> y / pow2 (quantum y)" using assms by (simp add: divide_right_mono)
  then show ?thesis using assms True
    by (simp add: rn_def rhe_mono)
next
  case False
  have "expo x \<le> expo y" using assms by (intro expo_mono) auto
  with False have q: "quantum x < quantum y" "quantum y = expo y - 52" "expo x < expo y"
    by (auto simp: quantum_def)
  have "x < pow2 (expo x + 1)" using expo_bounds[of x] assms by simp
  also have "\<dots> \<le> pow2 (expo y)" using q by simp
  finally have "x \<le> pow2 (expo y)" by simp
  then have "of_int (rhe (x / pow2 (quantum x))) * pow2 (quantum x) \<le> pow2 (expo y)"
    using q by (intro round_le_pow2) auto
  also have "\<dots> \<le> of_int (rhe (y / pow2 (quantum y))) * pow2 (quantum y)"
    using expo_bounds[of y] assms q by (intro round_ge_pow2) auto
  finally show ?thesis using assms by (simp add: rn_def)
qed

lemma rn_mono: "x \<le> y \<Longrightarrow> rn x \<le> rn y"
proof -
  assume xy: "x \<le> y"
  consider "0 < x" | "x \<le> 0" "0 \<le> y" | "y < 0" by linarith
  then show ?thesis
  proof cases
    case 1
    then show ?thesis using xy by (rule rn_mono_pos)
  next
    case 2
    then have "0 \<le> rn (- x)" "0 \<le> rn y" by (auto intro: rn_nonneg)
    then show ?thesis by (simp add: rn_minus)
  next
    case 3
    with xy have "rn (- y) \<le> rn (- x)" by (intro rn_mono_pos) auto
    then show ?thesis by (simp add: rn_minus)
  qed
qed

section \<open>The representable values\<close>

definition is_float :: "rat \<Rightarrow> bool" where
  "is_float x \<longleftrightarrow> rn x = x"

lemma rn_scaled_int:
  assumes "\<bar>m\<bar> \<le> 2 ^ 53" "- 1074 \<le> q"
  shows "rn (of_int m * pow2 q) = of_int m * pow2 q"
proof (cases "\<bar>m\<bar> = 2 ^ 53")
  case True
  define x where "x = of_int m * pow2 q"
  have ax: "\<bar>x\<bar> = pow2 (53 + q)"
    using True grid_pow2[of q "53 + q"] by (simp add: x_def abs_mult flip: of_int_abs)
  then have "expo x = 53 + q" by (intro expo_unique) auto
  then have qx: "quantum x = q + 1" using assms by (simp add: quantum_def)
  have "x = of_int (m div 2) * pow2 (quantum x)"
  proof -
    have "m = 2 ^ 53 \<or> m = - (2 ^ 53)" using True by (cases "0 \<le> m") simp_all
    then have "m = (m div 2) * 2" by auto
    then have "(of_int m :: rat) = of_int (m div 2) * 2" by (metis of_int_mult of_int_numeral)
    moreover have "pow2 (q + 1) = 2 * pow2 q" using pow2_add[of 1 q] by (simp add: pow2_def add.commute)
    ultimately have "of_int m * pow2 q = of_int (m div 2) * pow2 (q + 1)" by simp
    then show ?thesis unfolding qx by (simp only: x_def)
  qed
  moreover have "x \<noteq> 0" using ax pow2_pos[of "53 + q"] by auto
  ultimately show ?thesis using rn_on_grid unfolding x_def by blast
next
  case False
  define x where "x = of_int m * pow2 q"
  show ?thesis
  proof (cases "m = 0")
    case False
    then have x0: "x \<noteq> 0" by (simp add: x_def)
    have "\<bar>x\<bar> < pow2 (53 + q)"
    proof -
      have "\<bar>m\<bar> < 2 ^ 53" using assms \<open>\<bar>m\<bar> \<noteq> 2 ^ 53\<close> by simp
      then have "of_int \<bar>m\<bar> < (of_int (2 ^ 53) :: rat)" by (simp only: of_int_less_iff)
      then have "\<bar>x\<bar> < of_int (2 ^ 53) * pow2 q" by (simp add: x_def abs_mult)
      then show ?thesis using grid_pow2[of q "53 + q"] by simp
    qed
    then have "pow2 (expo x) < pow2 (53 + q)" using expo_bounds(1)[OF x0] by linarith
    then have qq: "quantum x \<le> q" using assms by (simp add: quantum_def)
    have "x = of_int (m * 2 ^ nat (q - quantum x)) * pow2 (quantum x)"
      using grid_pow2[OF qq] by (simp add: x_def mult.assoc)
    then show ?thesis using rn_on_grid[OF x0] unfolding x_def by blast
  qed simp
qed

lemma rn_of_int: "\<bar>n\<bar> \<le> 2 ^ 53 \<Longrightarrow> rn (of_int n) = of_int n"
  using rn_scaled_int[of n 0] by simp

lemma rn_of_nat: "n \<le> 2 ^ 53 \<Longrightarrow> rn (of_nat n) = of_nat n"
  using rn_of_int[of "int n"] by simp

lemma quantum_bound: "\<bar>rhe (x / pow2 (quantum x))\<bar> \<le> 2 ^ 53"
proof (cases "x = 0")
  case True
  then show ?thesis using rhe_of_int[of 0] by simp
next
  case False
  have "\<bar>x\<bar> \<le> pow2 (expo x + 1)" using expo_bounds(2)[OF False] by simp
  also have "\<dots> \<le> pow2 (53 + quantum x)" by (simp add: quantum_def)
  finally have b: "\<bar>x\<bar> \<le> of_int (2 ^ 53) * pow2 (quantum x)" using grid_pow2[of "quantum x" "53 + quantum x"] by simp
  then have "\<bar>x / pow2 (quantum x)\<bar> \<le> of_int (2 ^ 53)"
    by (simp add: abs_divide divide_le_eq del: of_int_power)
  then have "- of_int (2 ^ 53) \<le> x / pow2 (quantum x)" "x / pow2 (quantum x) \<le> of_int (2 ^ 53)"
    by (simp_all only: abs_le_iff) linarith
  then have "rhe (of_int (- (2 ^ 53))) \<le> rhe (x / pow2 (quantum x))"
    "rhe (x / pow2 (quantum x)) \<le> rhe (of_int (2 ^ 53))" by (intro rhe_mono; simp)+
  then show ?thesis by (simp only: rhe_of_int abs_le_iff minus_le_iff simp_thms)
qed

lemma is_float_rn [simp]: "is_float (rn x)"
proof (cases "x = 0")
  case False
  then show ?thesis
    unfolding is_float_def using rn_scaled_int[OF quantum_bound[of x]]
    by (simp add: rn_def quantum_def)
qed (simp add: is_float_def)

lemma is_float_of_int: "\<bar>n\<bar> \<le> 2 ^ 53 \<Longrightarrow> is_float (of_int n)"
  by (simp add: is_float_def rn_of_int)

text \<open>Half an ulp, and the relative error of the normal range.\<close>

lemma rn_error: "\<bar>rn x - x\<bar> \<le> pow2 (quantum x - 1)"
proof (cases "x = 0")
  case False
  have "\<bar>of_int (rhe (x / pow2 (quantum x))) - x / pow2 (quantum x)\<bar> * pow2 (quantum x) \<le> 1 / 2 * pow2 (quantum x)"
    by (intro mult_right_mono rhe_error) simp
  also have "\<bar>of_int (rhe (x / pow2 (quantum x))) - x / pow2 (quantum x)\<bar> * pow2 (quantum x)
    = \<bar>(of_int (rhe (x / pow2 (quantum x))) - x / pow2 (quantum x)) * pow2 (quantum x)\<bar>"
    by (simp add: abs_mult)
  also have "(of_int (rhe (x / pow2 (quantum x))) - x / pow2 (quantum x)) * pow2 (quantum x) = rn x - x"
    using False by (simp add: rn_def left_diff_distrib)
  finally show ?thesis by (simp add: pow2_diff) (simp add: pow2_def)
qed simp

lemma rn_rel_error:
  assumes "pow2 (- 1022) \<le> \<bar>x\<bar>"
  shows "\<bar>rn x - x\<bar> \<le> \<bar>x\<bar> * pow2 (- 53)"
proof -
  have x0: "x \<noteq> 0" using assms pow2_pos[of "- 1022"] by (metis abs_zero not_less)
  have "pow2 (- 1022) < pow2 (expo x + 1)" using assms expo_bounds(2)[OF x0] by linarith
  then have "quantum x = expo x - 52" by (simp add: quantum_def)
  then have "\<bar>rn x - x\<bar> \<le> pow2 (expo x) * pow2 (- 53)"
    using rn_error[of x] by (simp flip: pow2_add)
  also have "\<dots> \<le> \<bar>x\<bar> * pow2 (- 53)" using expo_bounds(1)[OF x0] by (intro mult_right_mono) auto
  finally show ?thesis .
qed

section \<open>The laws the scripts' arithmetic relies on\<close>

locale float_rounding =
  fixes rnd :: "rat \<Rightarrow> rat"
  assumes rnd_mono: "x \<le> y \<Longrightarrow> rnd x \<le> rnd y"
    and rnd_minus: "rnd (- x) = - rnd x"
    and rnd_idem: "rnd (rnd x) = rnd x"
    and rnd_int: "\<bar>n\<bar> \<le> 2 ^ 53 \<Longrightarrow> rnd (of_int n) = of_int n"
    and rnd_rel: "pow2 (- 1022) \<le> \<bar>x\<bar> \<Longrightarrow> \<bar>rnd x - x\<bar> \<le> \<bar>x\<bar> * pow2 (- 53)"
begin

lemma rnd_0: "rnd 0 = 0"
  using rnd_int[of 0] by simp

lemma rnd_nonneg: "0 \<le> x \<Longrightarrow> 0 \<le> rnd x"
  using rnd_mono[of 0 x] rnd_0 by simp

lemma rnd_lower: "rnd a = a \<Longrightarrow> a \<le> x \<Longrightarrow> a \<le> rnd x"
  using rnd_mono[of a x] by simp

lemma rnd_upper: "rnd a = a \<Longrightarrow> x \<le> a \<Longrightarrow> rnd x \<le> a"
  using rnd_mono[of x a] by simp

lemma rnd_1: "rnd 1 = 1"
  using rnd_int[of 1] by simp

lemma rnd_le_rel: "pow2 (- 1022) \<le> x \<Longrightarrow> rnd x \<le> x * (1 + pow2 (- 53))"
proof -
  assume a: "pow2 (- 1022) \<le> x"
  then have "0 < x" using pow2_pos[of "- 1022"] by linarith
  with a rnd_rel[of x] have "rnd x - x \<le> x * pow2 (- 53)" by simp
  then show ?thesis by (simp add: distrib_left)
qed

text \<open>Linear interpolation \<open>x0 + (dx / dy) * t\<close> as the code computes it, every operation rounded:
  it never falls below its left end and is monotone in \<open>t\<close>.\<close>

lemma interpolate_lower:
  assumes "rnd x0 = x0" "0 \<le> dx" "0 \<le> dy" "0 \<le> t"
  shows "x0 \<le> rnd (x0 + rnd (rnd (dx / dy) * t))"
  using assms by (intro rnd_lower) (auto intro!: rnd_nonneg mult_nonneg_nonneg divide_nonneg_nonneg)

lemma interpolate_mono:
  assumes "0 \<le> dx" "0 \<le> dy" "t \<le> t'"
  shows "rnd (x0 + rnd (rnd (dx / dy) * t)) \<le> rnd (x0 + rnd (rnd (dx / dy) * t'))"
  using assms by (intro rnd_mono add_left_mono mult_left_mono) (auto intro!: rnd_nonneg divide_nonneg_nonneg)

text \<open>At the right end the interpolation overshoots by at most three relative roundings.\<close>

lemma interpolate_upper:
  assumes x0: "0 \<le> x0" and dx: "1 \<le> dx" and dy: "pow2 (- 100) \<le> dy" "dy \<le> pow2 100"
    and t: "0 \<le> t" "t \<le> dy"
  shows "rnd (x0 + rnd (rnd (dx / dy) * t)) \<le> (x0 + dx) * (1 + pow2 (- 53)) ^ 3"
proof -
  let ?u = "1 + pow2 (- 53)" and ?a = "rnd (dx / dy)"
  have dy0: "0 < dy" using dy(1) pow2_pos[of "- 100"] by linarith
  have q: "pow2 (- 100) \<le> dx / dy"
  proof -
    have "pow2 (- 100) * dy \<le> pow2 (- 100) * pow2 100" using dy by (intro mult_left_mono) auto
    then have "pow2 (- 100) * dy \<le> 1" by (simp flip: pow2_add)
    then have "pow2 (- 100) * dy \<le> dx" using dx by linarith
    then show ?thesis using dy0 by (simp add: le_divide_eq)
  qed
  have small: "pow2 (- 1022) \<le> pow2 (- 100)" by simp
  have a_up: "?a \<le> dx / dy * ?u" using q small by (intro rnd_le_rel) linarith
  have a_low: "pow2 (- 200) \<le> ?a"
  proof -
    define r where "r = dx / dy"
    have r: "pow2 (- 100) \<le> r" "0 \<le> r"
      using q less_imp_le[OF less_le_trans[OF pow2_pos q]] by (simp_all only: r_def)
    have "\<bar>rnd r - r\<bar> \<le> \<bar>r\<bar> * pow2 (- 53)"
      using r small by (intro rnd_rel) linarith
    moreover have "r * pow2 (- 53) \<le> r * (1 / 2)"
      by (intro mult_left_mono r(2)) (simp add: pow2_def)
    moreover have "pow2 (- 200) \<le> pow2 (- 100) * (1 / 2)" by (simp add: pow2_def)
    ultimately have "pow2 (- 200) \<le> rnd r" using r by linarith
    then show ?thesis by (simp only: r_def)
  qed
  have a0: "0 \<le> ?a" using a_low pow2_pos[of "- 200"] by linarith
  have ady_low: "pow2 (- 1022) \<le> ?a * dy"
  proof -
    have "pow2 (- 200) * pow2 (- 100) \<le> ?a * dy"
      using a_low dy(1) a0 by (intro mult_mono) auto
    moreover have "pow2 (- 1022) \<le> pow2 (- 200) * pow2 (- 100)" by (simp flip: pow2_add)
    ultimately show ?thesis by linarith
  qed
  have "rnd (?a * t) \<le> rnd (?a * dy)" using a0 t by (intro rnd_mono mult_left_mono) auto
  also have "\<dots> \<le> ?a * dy * ?u" by (rule rnd_le_rel[OF ady_low])
  also have "\<dots> \<le> (dx / dy * ?u) * dy * ?u"
    using a_up dy0 by (intro mult_right_mono) auto
  also have "\<dots> = dx * ?u ^ 2" using dy0 by (simp add: power2_eq_square)
  finally have b: "rnd (?a * t) \<le> dx * ?u ^ 2" .
  have u1: "1 \<le> ?u" by simp
  then have "x0 * 1 \<le> x0 * ?u ^ 2" using x0 by (intro mult_left_mono) (auto intro: one_le_power)
  then have s: "x0 + rnd (?a * t) \<le> (x0 + dx) * ?u ^ 2" using b by (simp add: distrib_right)
  have "1 * 1 \<le> (x0 + dx) * ?u ^ 2" using x0 dx u1 by (intro mult_mono) (auto intro: one_le_power)
  then have "pow2 (- 1022) \<le> (x0 + dx) * ?u ^ 2" by (simp add: pow2_def)
  then have "rnd ((x0 + dx) * ?u ^ 2) \<le> (x0 + dx) * ?u ^ 2 * ?u" by (rule rnd_le_rel)
  with rnd_mono[OF s] show ?thesis by (simp add: power3_eq_cube power2_eq_square mult.assoc)
qed

end

interpretation f64: float_rounding rn
proof
  show "x \<le> y \<Longrightarrow> rn x \<le> rn y" for x y by (rule rn_mono)
  show "rn (- x) = - rn x" for x by (rule rn_minus)
  show "rn (rn x) = rn x" for x using is_float_rn[of x] by (simp add: is_float_def)
  show "\<bar>n\<bar> \<le> 2 ^ 53 \<Longrightarrow> rn (of_int n) = of_int n" for n by (rule rn_of_int)
  show "pow2 (- 1022) \<le> \<bar>x\<bar> \<Longrightarrow> \<bar>rn x - x\<bar> \<le> \<bar>x\<bar> * pow2 (- 53)" for x by (rule rn_rel_error)
qed

section \<open>The operations\<close>

type_synonym flt = rat

definition fadd :: "flt \<Rightarrow> flt \<Rightarrow> flt" where "fadd x y = rn (x + y)"
definition fsub :: "flt \<Rightarrow> flt \<Rightarrow> flt" where "fsub x y = rn (x - y)"
definition fmul :: "flt \<Rightarrow> flt \<Rightarrow> flt" where "fmul x y = rn (x * y)"

text \<open>True division raises on a zero divisor; \<open>fquo\<close> is its value elsewhere.\<close>

definition fquo :: "flt \<Rightarrow> flt \<Rightarrow> flt" where "fquo x y = rn (x / y)"

definition fdiv :: "flt \<Rightarrow> flt \<Rightarrow> flt res" where
  "fdiv x y = (if y = 0 then Inl ZeroDivisionError else Inr (fquo x y))"

text \<open>An integer operand of a mixed operation is converted first; \<open>int ()\<close> truncates.\<close>

definition f_of_int :: "int \<Rightarrow> flt" where "f_of_int n = rn (of_int n)"

definition py_trunc :: "flt \<Rightarrow> int" where
  "py_trunc x = (if 0 \<le> x then \<lfloor>x\<rfloor> else \<lceil>x\<rceil>)"

lemmas flt_defs = fadd_def fsub_def fmul_def fquo_def f_of_int_def

lemma is_float_ops [simp]:
  "is_float (fadd x y)" "is_float (fsub x y)" "is_float (fmul x y)" "is_float (fquo x y)"
  "is_float (f_of_int n)"
  by (simp_all add: flt_defs)

lemma py_trunc_of_int [simp]: "py_trunc (of_int n) = n"
  by (simp add: py_trunc_def)

lemma py_trunc_nonneg: "0 \<le> x \<Longrightarrow> 0 \<le> py_trunc x"
  by (simp add: py_trunc_def)

lemma py_trunc_mono: "x \<le> y \<Longrightarrow> py_trunc x \<le> py_trunc y"
proof -
  assume le: "x \<le> y"
  show ?thesis
  proof (cases "0 \<le> x")
    case True
    then show ?thesis using le floor_mono[OF le] by (simp add: py_trunc_def)
  next
    case x: False
    then have "\<lceil>x\<rceil> \<le> 0" by (simp add: ceiling_le_iff)
    then have "\<lceil>x\<rceil> \<le> \<lfloor>y\<rfloor>" if "0 \<le> y"
      using that zero_le_floor[of y] by linarith
    then show ?thesis using x ceiling_mono[OF le] by (simp add: py_trunc_def)
  qed
qed

lemma fdiv_nonzero [simp]: "y \<noteq> 0 \<Longrightarrow> fdiv x y = Inr (fquo x y)" "fdiv x 0 = Inl ZeroDivisionError"
  by (simp_all add: fdiv_def)

lemma f_of_int_small: "\<bar>n\<bar> \<le> 2 ^ 53 \<Longrightarrow> f_of_int n = of_int n"
  by (simp add: f_of_int_def rn_of_int)

text \<open>Subtraction of distinct floats is never zero (gradual underflow), so a guard on distinct
  operands protects a division by their difference.\<close>

lemma is_float_multiple: "is_float x \<Longrightarrow> \<exists>m. x = of_int m * pow2 (- 1074)"
proof -
  assume "is_float x"
  then have x: "x = (if x = 0 then 0 else of_int (rhe (x / pow2 (quantum x))) * pow2 (quantum x))"
    by (simp add: is_float_def rn_def)
  have q: "0 \<le> quantum x + 1074" by (simp add: quantum_def)
  have "pow2 (quantum x) = of_int (2 ^ nat (quantum x + 1074)) * pow2 (- 1074)"
    using pow2_add[of "quantum x + 1074" "- 1074"] pow2_nat[OF q] by simp
  then have "x = of_int (if x = 0 then 0 else rhe (x / pow2 (quantum x)) * 2 ^ nat (quantum x + 1074)) * pow2 (- 1074)"
    using x by (cases "x = 0") (simp_all add: mult.assoc)
  then show ?thesis by blast
qed

lemma fsub_pos: "is_float x \<Longrightarrow> is_float y \<Longrightarrow> x < y \<Longrightarrow> 0 < fsub y x"
proof -
  assume "is_float x" "is_float y" and less: "x < y"
  then obtain m n where xy: "x = of_int m * pow2 (- 1074)" "y = of_int n * pow2 (- 1074)"
    using is_float_multiple by metis
  with less have "m < n" by simp
  then have "(of_int (m + 1) :: rat) \<le> of_int n" by (simp only: of_int_le_iff)
  then have "(1 :: rat) * pow2 (- 1074) \<le> (of_int n - of_int m) * pow2 (- 1074)"
    by (intro mult_right_mono) auto
  then have "pow2 (- 1074) \<le> y - x" by (simp add: xy left_diff_distrib)
  then have "rn (pow2 (- 1074)) \<le> rn (y - x)" by (rule rn_mono)
  moreover have "rn (pow2 (- 1074)) = pow2 (- 1074)" using rn_scaled_int[of 1 "- 1074"] by simp
  ultimately show ?thesis unfolding fsub_def by (metis pow2_pos less_le_trans)
qed

lemma fsub_nonneg: "x \<le> y \<Longrightarrow> 0 \<le> fsub y x"
  by (simp add: fsub_def f64.rnd_nonneg)

lemma fsub_mono: "x \<le> y \<Longrightarrow> fsub x z \<le> fsub y z"
  by (simp add: fsub_def rn_mono)

section \<open>Evaluation on concrete numbers\<close>

text \<open>A representable number is its own rounding: a whole number up to \<open>2^53\<close> over a power of two.  With
  these rules the simplifier evaluates the operations on such numbers without the general algorithm.\<close>

named_theorems float_eval "rounding of representable numerals"

fun pow2_num :: "num \<Rightarrow> bool" where
  "pow2_num num.One = True"
| "pow2_num (num.Bit0 n) = pow2_num n"
| "pow2_num (num.Bit1 n) = False"

lemma pow2_num_exp: "pow2_num n \<Longrightarrow> \<exists>k. (numeral n :: rat) = 2 ^ k"
proof (induction n)
  case One
  then show ?case by (intro exI[of _ 0]) simp
next
  case (Bit0 n)
  then obtain k where k: "(numeral n :: rat) = 2 ^ k" by auto
  have "(numeral (num.Bit0 n) :: rat) = 2 * numeral n" by (rule trans[OF numeral_Bit0 mult_2[symmetric]])
  with k show ?case by (intro exI[of _ "Suc k"]) (simp only: power_Suc)
qed simp

lemma rn_dyadic:
  assumes "pow2_num b" "(numeral b :: rat) \<le> 2 ^ 1000" "\<bar>a\<bar> \<le> 2 ^ 53"
  shows "rn (of_int a / numeral b) = of_int a / numeral b"
proof -
  obtain k where k: "(numeral b :: rat) = 2 ^ k" using pow2_num_exp[OF assms(1)] by blast
  with assms(2) have "k \<le> 1000" by (simp only: power_increasing_iff)
  moreover have "pow2 (- int k) = 1 / 2 ^ k" by (simp add: pow2_def)
  ultimately show ?thesis using rn_scaled_int[of a "- int k"] assms(3) by (simp add: k)
qed

lemma rn_numerals [float_eval]:
  "rn 0 = 0" "rn 1 = 1" "rn (- 1) = - 1"
  "(numeral a :: int) \<le> 2 ^ 53 \<Longrightarrow> rn (numeral a) = numeral a"
  "(numeral a :: int) \<le> 2 ^ 53 \<Longrightarrow> rn (- numeral a) = - numeral a"
  using rn_of_int[of 1] rn_of_int[of "numeral a"] rn_minus[of 1] rn_minus[of "numeral a"] by simp_all

lemma rn_fractions [float_eval]:
  "pow2_num b \<Longrightarrow> (numeral b :: rat) \<le> 2 ^ 1000 \<Longrightarrow> rn (1 / numeral b) = 1 / numeral b"
  "pow2_num b \<Longrightarrow> (numeral b :: rat) \<le> 2 ^ 1000 \<Longrightarrow> rn (- (1 / numeral b)) = - (1 / numeral b)"
  "pow2_num b \<Longrightarrow> (numeral b :: rat) \<le> 2 ^ 1000 \<Longrightarrow> (numeral a :: int) \<le> 2 ^ 53 \<Longrightarrow>
     rn (numeral a / numeral b) = numeral a / numeral b"
  "pow2_num b \<Longrightarrow> (numeral b :: rat) \<le> 2 ^ 1000 \<Longrightarrow> (numeral a :: int) \<le> 2 ^ 53 \<Longrightarrow>
     rn (- (numeral a / numeral b)) = - (numeral a / numeral b)"
  using rn_dyadic[of b 1] rn_dyadic[of b "numeral a"] by (simp_all add: rn_minus)

lemma floor_fractions [float_eval]:
  "\<lfloor>numeral a / numeral b :: rat\<rfloor> = numeral a div numeral b"
  "\<lfloor>1 / numeral b :: rat\<rfloor> = 1 div numeral b"
  using floor_divide_of_int_eq[of "numeral a" "numeral b", where ?'a = rat]
    floor_divide_of_int_eq[of 1 "numeral b", where ?'a = rat] by simp_all

lemmas float_simps = float_eval flt_defs py_trunc_def

end
