(* ===== verification/CustomRand.thy ===== *)
theory CustomRand
  imports PyFloat
begin

text \<open>
  \<open>traffic_gen/custom_rand.py\<close>: the random variable given by a piecewise linear distribution, a list
  of points \<open>[x, percentage]\<close>.  The object has no attribute \<open>cdf\<close> before \<open>setCdf\<close> accepted one, so
  the state is an option and every method that reads it may raise.  The loops over
  \<open>range (1, len (cdf))\<close> compare consecutive points and are recursions over the list of points.  All
  arithmetic is rounded to binary64.

  The lemmas: \<open>setCdf\<close> accepts exactly the strictly increasing lists from percentage 0 to 100; with
  an accepted list \<open>getValueFromPercentile\<close> is total on \<open>[0, 100]\<close>, its value lies in the segment it
  selects (exactly at the left end, up to rounding at the right end, exactly after \<open>int ()\<close>) and it
  is monotone in a segment.
\<close>

section \<open>The object and its methods\<close>

type_synonym cdf = "(flt \<times> flt) list"

record custom_rand =
  rand_cdf :: "cdf option"

definition new_custom_rand :: custom_rand where
  "new_custom_rand = \<lparr>rand_cdf = None\<rparr>"

text \<open>The loop of \<open>testCdf\<close>: no point may fail to exceed its predecessor in either coordinate.\<close>

fun increasing :: "cdf \<Rightarrow> bool" where
  "increasing ((x0, y0) # (x1, y1) # r) =
     (if y1 \<le> y0 \<or> x1 \<le> x0 then False else increasing ((x1, y1) # r))"
| "increasing _ = True"

definition testCdf :: "cdf \<Rightarrow> bool res" where
  "testCdf c = (case c of [] \<Rightarrow> Inl IndexError
     | p # _ \<Rightarrow> if snd p \<noteq> 0 then Inr False
        else if snd (last c) \<noteq> 100 then Inr False
        else Inr (increasing c))"

definition setCdf :: "custom_rand \<Rightarrow> cdf \<Rightarrow> (custom_rand \<times> bool) res" where
  "setCdf self c = rbind (testCdf c) (\<lambda>ok.
     if \<not> ok then Inr (self, False) else Inr (self\<lparr>rand_cdf := Some c\<rparr>, True))"

definition get_cdf :: "custom_rand \<Rightarrow> cdf res" where
  "get_cdf self = of_option AttributeError (rand_cdf self)"

fun avg_loop :: "flt \<Rightarrow> flt \<Rightarrow> flt \<Rightarrow> cdf \<Rightarrow> flt" where
  "avg_loop s last_x last_y [] = s"
| "avg_loop s last_x last_y ((x, y) # r) =
     avg_loop (fadd s (fmul (fquo (fadd x last_x) 2) (fsub y last_y))) x y r"

definition getAvg :: "custom_rand \<Rightarrow> flt res" where
  "getAvg self = rbind (get_cdf self) (\<lambda>c.
     case c of [] \<Rightarrow> Inl IndexError | (x, y) # r \<Rightarrow> fdiv (avg_loop 0 x y r) 100)"

text \<open>\<open>v0 + (v1 - v0) / (w1 - w0) * (w - w0)\<close>, in the order of evaluation of the code.\<close>

definition interpolate :: "flt \<Rightarrow> flt \<Rightarrow> flt \<Rightarrow> flt \<Rightarrow> flt \<Rightarrow> flt res" where
  "interpolate v0 v1 w0 w1 w =
     rbind (fdiv (fsub v1 v0) (fsub w1 w0)) (\<lambda>k. Inr (fadd v0 (fmul k (fsub w w0))))"

fun percentile_loop :: "cdf \<Rightarrow> flt \<Rightarrow> flt option res" where
  "percentile_loop ((x0, y0) # (x1, y1) # r) x =
     (if x \<le> x1 then rbind (interpolate y0 y1 x0 x1 x) (\<lambda>v. Inr (Some v))
      else percentile_loop ((x1, y1) # r) x)"
| "percentile_loop _ x = Inr None"

definition getPercentileFromValue :: "custom_rand \<Rightarrow> flt \<Rightarrow> flt option res" where
  "getPercentileFromValue self x =
     (if x < 0 then Inr (Some (- 1))
      else rbind (get_cdf self) (\<lambda>c. rbind (py_get c (- 1)) (\<lambda>p.
        if fst p < x then Inr (Some (- 1)) else percentile_loop c x)))"

fun value_loop :: "cdf \<Rightarrow> flt \<Rightarrow> flt option res" where
  "value_loop ((x0, y0) # (x1, y1) # r) y =
     (if y \<le> y1 then rbind (interpolate x0 x1 y0 y1 y) (\<lambda>v. Inr (Some v))
      else value_loop ((x1, y1) # r) y)"
| "value_loop _ y = Inr None"

definition getValueFromPercentile :: "custom_rand \<Rightarrow> flt \<Rightarrow> flt option res" where
  "getValueFromPercentile self y = rbind (get_cdf self) (\<lambda>c. value_loop c y)"

text \<open>\<open>u\<close> is the value of \<open>random.random ()\<close>.\<close>

definition rand :: "custom_rand \<Rightarrow> flt \<Rightarrow> flt option res" where
  "rand self u = getValueFromPercentile self (fmul u 100)"

fun integral_loop :: "flt \<Rightarrow> cdf \<Rightarrow> flt \<Rightarrow> flt res" where
  "integral_loop s ((x0, y0) # (x1, y1) # r) y =
     (if y \<le> y1 then
        rbind (fdiv (fsub x1 x0) (fsub y1 y0)) (\<lambda>k.
        rbind (fdiv (fmul (fmul (1 / 2) (fadd (fadd x0 x0) (fmul k (fsub y y0)))) (fsub y y0)) 100) (\<lambda>a.
        Inr (fadd s a)))
      else
        rbind (fdiv (fmul (fmul (1 / 2) (fadd x1 x0)) (fsub y1 y0)) 100) (\<lambda>a.
        integral_loop (fadd s a) ((x1, y1) # r) y))"
| "integral_loop s _ y = Inr s"

definition getIntegralY :: "custom_rand \<Rightarrow> flt \<Rightarrow> flt res" where
  "getIntegralY self y = rbind (get_cdf self) (\<lambda>c. integral_loop 0 c y)"

section \<open>Accepted distributions\<close>

definition valid_cdf :: "cdf \<Rightarrow> bool" where
  "valid_cdf c = (c \<noteq> [] \<and> snd (hd c) = 0 \<and> snd (last c) = 100 \<and> increasing c)"

definition float_cdf :: "cdf \<Rightarrow> bool" where
  "float_cdf c = list_all (\<lambda>p. is_float (fst p) \<and> is_float (snd p)) c"

lemma testCdf_True: "testCdf c = Inr True \<longleftrightarrow> valid_cdf c"
  by (cases c) (auto simp: testCdf_def valid_cdf_def)

lemma increasing_sorted:
  "increasing c \<longleftrightarrow> sorted_wrt (<) (map fst c) \<and> sorted_wrt (<) (map snd c)"
proof (induction c rule: increasing.induct)
  case (1 x0 y0 x1 y1 r)
  then show ?case by (auto simp: not_le)
qed auto

lemma valid_cdf_length: "valid_cdf c \<Longrightarrow> 2 \<le> length c"
  by (cases c rule: increasing.cases) (auto simp: valid_cdf_def)

lemma get_cdf_setCdf: "setCdf self c = Inr (self', True) \<Longrightarrow> get_cdf self' = Inr c"
  by (auto simp: setCdf_def get_cdf_def rbind_eq_Inr split: if_splits)

lemma setCdf_False: "setCdf self c = Inr (self', False) \<Longrightarrow> self' = self"
  by (auto simp: setCdf_def rbind_eq_Inr split: if_splits)

lemma avg_loop_nonneg:
  assumes "0 \<le> s" "0 \<le> x" "increasing ((x, y) # r)"
  shows "0 \<le> avg_loop s x y r"
  using assms
proof (induction r arbitrary: s x y)
  case Nil
  then show ?case by simp
next
  case (Cons p r)
  obtain x' y' where p: "p = (x', y')" by (cases p)
  have "0 \<le> fadd s (fmul (fquo (fadd x' x) 2) (fsub y' y))"
    using Cons.prems p
    by (auto simp: flt_defs intro!: f64.rnd_nonneg add_nonneg_nonneg mult_nonneg_nonneg divide_nonneg_nonneg
        split: if_splits)
  then show ?case using Cons.prems Cons.IH[of _ x' y'] p by (auto split: if_splits)
qed

lemma getAvg_nonneg:
  assumes "rand_cdf self = Some c" "valid_cdf c" "0 \<le> fst (hd c)" "getAvg self = Inr a"
  shows "0 \<le> a"
proof -
  obtain x y r where c: "c = (x, y) # r" using assms(2) by (cases c) (auto simp: valid_cdf_def)
  then have "0 \<le> avg_loop 0 x y r" using assms by (intro avg_loop_nonneg) (auto simp: valid_cdf_def)
  then show ?thesis using assms(1,4) c
    by (auto simp: getAvg_def get_cdf_def fquo_def intro!: f64.rnd_nonneg)
qed

section \<open>The value at a percentage\<close>

text \<open>The segment a percentage selects.\<close>

definition in_segment :: "cdf \<Rightarrow> flt \<Rightarrow> nat \<Rightarrow> bool" where
  "in_segment c y i =
     (Suc i < length c \<and> snd (c ! i) \<le> y \<and> y \<le> snd (c ! Suc i) \<and> (\<forall>j \<in> {1..i}. snd (c ! j) < y))"

lemma in_segment_shift:
  "in_segment ((x1, y1) # r) y i \<Longrightarrow> y1 < y \<Longrightarrow> in_segment ((x0, y0) # (x1, y1) # r) y (Suc i)"
  unfolding in_segment_def by (auto simp: nth_Cons split: nat.splits)

lemma value_loop_segment:
  assumes "increasing c" "2 \<le> length c" "snd (hd c) \<le> y" "y \<le> snd (last c)"
  shows "\<exists>i. in_segment c y i \<and>
    value_loop c y = rbind (interpolate (fst (c ! i)) (fst (c ! Suc i)) (snd (c ! i)) (snd (c ! Suc i)) y)
      (\<lambda>v. Inr (Some v))"
  using assms
proof (induction c y rule: value_loop.induct)
  case (1 x0 y0 x1 y1 r y)
  show ?case
  proof (cases "y \<le> y1")
    case True
    then show ?thesis using "1.prems" by (intro exI[of _ 0]) (auto simp: in_segment_def)
  next
    case False
    with "1.prems" have "r \<noteq> []" by auto
    with False "1.prems" have "2 \<le> length ((x1, y1) # r)" "increasing ((x1, y1) # r)"
      "snd (hd ((x1, y1) # r)) \<le> y" "y \<le> snd (last ((x1, y1) # r))"
      by (cases r; auto split: if_splits)+
    from "1.IH"[OF False this(2,1,3,4)] obtain i where "in_segment ((x1, y1) # r) y i"
      "value_loop ((x1, y1) # r) y = rbind (interpolate (fst (((x1, y1) # r) ! i)) (fst (((x1, y1) # r) ! Suc i))
        (snd (((x1, y1) # r) ! i)) (snd (((x1, y1) # r) ! Suc i)) y) (\<lambda>v. Inr (Some v))" by blast
    with False show ?thesis
      by (intro exI[of _ "Suc i"] conjI in_segment_shift) (simp_all add: not_le)
  qed
qed auto

lemma interpolate_defined:
  assumes "is_float w0" "is_float w1" "w0 < w1"
  shows "interpolate v0 v1 w0 w1 w = Inr (fadd v0 (fmul (fquo (fsub v1 v0) (fsub w1 w0)) (fsub w w0)))"
  using fsub_pos[OF assms] by (simp add: interpolate_def)

lemma float_cdf_nth: "float_cdf c \<Longrightarrow> i < length c \<Longrightarrow> is_float (fst (c ! i)) \<and> is_float (snd (c ! i))"
  by (simp add: float_cdf_def list_all_length)

lemma increasing_nth:
  assumes "increasing c" "i < j" "j < length c"
  shows "fst (c ! i) < fst (c ! j)" "snd (c ! i) < snd (c ! j)"
  using assms by (auto simp: increasing_sorted sorted_wrt_iff_nth_less)

lemma increasing_ends:
  assumes "increasing c" "i < length c"
  shows "fst (hd c) \<le> fst (c ! i)" "snd (hd c) \<le> snd (c ! i)"
    "fst (c ! i) \<le> fst (last c)" "snd (c ! i) \<le> snd (last c)"
proof -
  have ends: "c \<noteq> []" "hd c = c ! 0" "last c = c ! (length c - 1)"
    using assms(2) by (cases c; simp add: last_conv_nth)+
  have "c ! 0 = c ! i \<or> fst (c ! 0) < fst (c ! i) \<and> snd (c ! 0) < snd (c ! i)"
    using increasing_nth[OF assms(1), of 0 i] assms(2) by (cases i) auto
  then show "fst (hd c) \<le> fst (c ! i)" "snd (hd c) \<le> snd (c ! i)" using ends(2) by auto
  have "i = length c - 1 \<or> i < length c - 1" using assms(2) by linarith
  then show "fst (c ! i) \<le> fst (last c)" "snd (c ! i) \<le> snd (last c)"
    using increasing_nth[OF assms(1), of i "length c - 1"] assms(2) ends(1,3) by auto
qed

text \<open>The value of an accepted distribution at a percentage in \<open>[0, 100]\<close>, in its segment.\<close>

lemma value_in_segment:
  assumes "rand_cdf self = Some c" "valid_cdf c" "float_cdf c" "0 \<le> y" "y \<le> 100"
  obtains i v where "in_segment c y i" "getValueFromPercentile self y = Inr (Some v)"
    "v = fadd (fst (c ! i)) (fmul (fquo (fsub (fst (c ! Suc i)) (fst (c ! i)))
           (fsub (snd (c ! Suc i)) (snd (c ! i)))) (fsub y (snd (c ! i))))"
proof -
  have "increasing c" "snd (hd c) \<le> y" "y \<le> snd (last c)"
    using assms by (auto simp: valid_cdf_def)
  with value_loop_segment[OF _ valid_cdf_length] assms(2) obtain i where
    i: "in_segment c y i" "value_loop c y = rbind (interpolate (fst (c ! i)) (fst (c ! Suc i))
      (snd (c ! i)) (snd (c ! Suc i)) y) (\<lambda>v. Inr (Some v))" by blast
  moreover have "is_float (snd (c ! i))" "is_float (snd (c ! Suc i))" "snd (c ! i) < snd (c ! Suc i)"
    using i(1) float_cdf_nth[OF assms(3)] increasing_nth(2)[OF \<open>increasing c\<close>] by (auto simp: in_segment_def)
  ultimately show ?thesis using that assms(1)
    by (simp add: getValueFromPercentile_def get_cdf_def interpolate_defined)
qed

lemma value_lower:
  assumes "in_segment c y i" "increasing c" "float_cdf c"
  shows "fst (c ! i) \<le> fadd (fst (c ! i)) (fmul (fquo (fsub (fst (c ! Suc i)) (fst (c ! i)))
           (fsub (snd (c ! Suc i)) (snd (c ! i)))) (fsub y (snd (c ! i))))"
proof -
  have "rn (fst (c ! i)) = fst (c ! i)"
    using assms(1) float_cdf_nth[OF assms(3), of i] by (simp add: in_segment_def is_float_def)
  then show ?thesis
    using f64.interpolate_lower[of "fst (c ! i)" "fsub (fst (c ! Suc i)) (fst (c ! i))"
        "fsub (snd (c ! Suc i)) (snd (c ! i))" "fsub y (snd (c ! i))"] assms(1)
      increasing_nth[OF assms(2), of i "Suc i"]
    by (simp add: in_segment_def flt_defs fsub_nonneg[unfolded fsub_def])
qed

text \<open>The distributions of flow sizes: whole numbers of bytes, and percentages that are not absurdly
  close.\<close>

definition byte_cdf :: "cdf \<Rightarrow> bool" where
  "byte_cdf c = (list_all (\<lambda>p. fst p = of_int \<lfloor>fst p\<rfloor> \<and> 0 \<le> fst p \<and> fst p \<le> 2 ^ 50) c \<and>
     list_all (\<lambda>(p, q). pow2 (- 100) \<le> fsub (snd q) (snd p)) (zip c (tl c)))"

lemma byte_cdf_nth:
  assumes "byte_cdf c" "i < length c"
  obtains n where "fst (c ! i) = of_int n" "0 \<le> n" "n \<le> 2 ^ 50"
proof -
  have "fst (c ! i) = of_int \<lfloor>fst (c ! i)\<rfloor>" "0 \<le> fst (c ! i)" "fst (c ! i) \<le> 2 ^ 50"
    using assms by (simp_all add: byte_cdf_def list_all_length)
  moreover from this(3) have "\<lfloor>fst (c ! i)\<rfloor> \<le> 2 ^ 50" by (simp add: floor_le_iff)
  ultimately show ?thesis using that[of "\<lfloor>fst (c ! i)\<rfloor>"] by simp
qed

lemma byte_cdf_step:
  assumes "byte_cdf c" "Suc i < length c"
  shows "pow2 (- 100) \<le> fsub (snd (c ! Suc i)) (snd (c ! i))"
  using assms by (auto simp: byte_cdf_def list_all_length nth_tl)

lemma three_roundings: "0 \<le> x \<Longrightarrow> x \<le> 2 ^ 50 \<Longrightarrow> x * (1 + pow2 (- 53)) ^ 3 < x + 1"
proof -
  assume x: "0 \<le> x" "x \<le> (2 ^ 50 :: rat)"
  have u: "(1 + pow2 (- 53)) ^ 3 \<le> 1 + 1 / 2 ^ 51" by (simp add: pow2_def power3_eq_cube)
  have "x * (1 + pow2 (- 53)) ^ 3 \<le> x * (1 + 1 / 2 ^ 51)" using x(1) u by (intro mult_left_mono)
  also have "\<dots> = x + x * (1 / 2 ^ 51)" by (simp add: distrib_left)
  also have "x * (1 / 2 ^ 51) \<le> 2 ^ 50 * (1 / 2 ^ 51)" using x(2) by (intro mult_right_mono) auto
  finally show ?thesis by simp
qed

lemma value_upper:
  assumes seg: "in_segment c y i" and c: "increasing c" "byte_cdf c" "snd (hd c) = 0" "snd (last c) = 100"
  shows "fadd (fst (c ! i)) (fmul (fquo (fsub (fst (c ! Suc i)) (fst (c ! i)))
           (fsub (snd (c ! Suc i)) (snd (c ! i)))) (fsub y (snd (c ! i)))) < fst (c ! Suc i) + 1"
proof -
  from seg have i: "Suc i < length c" and y: "snd (c ! i) \<le> y" "y \<le> snd (c ! Suc i)"
    by (simp_all add: in_segment_def)
  obtain m where m: "fst (c ! i) = of_int m" "0 \<le> m" "m \<le> 2 ^ 50"
    using byte_cdf_nth[OF c(2), of i] i by auto
  obtain n where n: "fst (c ! Suc i) = of_int n" "0 \<le> n" "n \<le> 2 ^ 50"
    using byte_cdf_nth[OF c(2) i] by auto
  have "m < n" using increasing_nth(1)[OF c(1) lessI i] by (simp add: m n)
  have dx: "fsub (fst (c ! Suc i)) (fst (c ! i)) = of_int (n - m)"
    using m n rn_of_int[of "n - m"] by (simp add: fsub_def)
  have "fsub (snd (c ! Suc i)) (snd (c ! i)) \<le> 100"
  proof -
    have "snd (c ! Suc i) \<le> 100" using increasing_ends(4)[OF c(1) i] c(4) by simp
    moreover have "0 \<le> snd (c ! i)" using increasing_ends(2)[OF c(1), of i] i c(3) by simp
    ultimately have "rn (snd (c ! Suc i) - snd (c ! i)) \<le> rn (of_int 100)" by (intro rn_mono) simp
    then show ?thesis by (simp add: fsub_def rn_of_int del: of_int_numeral)
  qed
  moreover have "(100 :: rat) \<le> pow2 100" by (simp add: pow2_def)
  ultimately have "fsub (snd (c ! Suc i)) (snd (c ! i)) \<le> pow2 100" by linarith
  then have "fadd (fst (c ! i)) (fmul (fquo (fsub (fst (c ! Suc i)) (fst (c ! i)))
           (fsub (snd (c ! Suc i)) (snd (c ! i)))) (fsub y (snd (c ! i))))
        \<le> (fst (c ! i) + fsub (fst (c ! Suc i)) (fst (c ! i))) * (1 + pow2 (- 53)) ^ 3"
    using f64.interpolate_upper[of "fst (c ! i)" "of_int (n - m)"
        "fsub (snd (c ! Suc i)) (snd (c ! i))" "fsub y (snd (c ! i))"]
      byte_cdf_step[OF c(2) i] m \<open>m < n\<close> fsub_nonneg[OF y(1)] fsub_mono[OF y(2)]
    unfolding dx by (simp add: fadd_def fmul_def fquo_def)
  also have "\<dots> < fst (c ! Suc i) + 1"
    using three_roundings[of "of_int n"] n by (simp add: dx[unfolded m(1) n(1)] m(1))
  finally show ?thesis .
qed

section \<open>Properties\<close>

text \<open>The percentage of a value is the same search on the points with their coordinates swapped.\<close>

lemma percentile_loop_swap: "percentile_loop c x = value_loop (map prod.swap c) x"
  by (induction c x rule: percentile_loop.induct) auto

lemma increasing_swap: "increasing (map prod.swap c) = increasing c"
  by (auto simp: increasing_sorted o_def)

lemma in_segment_unique:
  assumes "in_segment c y i" "in_segment c y' j" "y \<le> y'"
  shows "i \<le> j"
proof (rule ccontr)
  assume "\<not> i \<le> j"
  then have "snd (c ! Suc j) < y" using assms(1) by (simp add: in_segment_def)
  then show False using assms(2,3) by (simp add: in_segment_def)
qed

lemma setCdf_True: "setCdf self c = Inr (self', True) \<Longrightarrow> valid_cdf c \<and> rand_cdf self' = Some c"
  by (auto simp: setCdf_def rbind_eq_Inr testCdf_True split: if_splits)

text \<open>\<open>setCdf\<close> accepts a list of points exactly when its percentages start at 0, end at 100 and both
  coordinates strictly increase; otherwise the object is unchanged and it returns \<open>False\<close>, and the
  empty list raises an \<open>IndexError\<close>.\<close>

theorem setCdf_spec:
  "setCdf self c =
     (if c = [] then Inl IndexError
      else if snd (hd c) = 0 \<and> snd (last c) = 100 \<and>
        sorted_wrt (<) (map fst c) \<and> sorted_wrt (<) (map snd c)
      then Inr (self\<lparr>rand_cdf := Some c\<rparr>, True) else Inr (self, False))"
  by (cases c) (auto simp: setCdf_def testCdf_def increasing_sorted)

lemma value_size:
  assumes "setCdf self0 c = Inr (self, True)" "float_cdf c" "byte_cdf c" "0 \<le> y" "y \<le> 100"
  obtains i v m n where "in_segment c y i" "getValueFromPercentile self y = Inr (Some v)"
    "v = fadd (fst (c ! i)) (fmul (fquo (fsub (fst (c ! Suc i)) (fst (c ! i)))
           (fsub (snd (c ! Suc i)) (snd (c ! i)))) (fsub y (snd (c ! i))))"
    "fst (c ! i) = of_int m" "fst (c ! Suc i) = of_int n" "of_int m \<le> v" "m \<le> py_trunc v" "py_trunc v \<le> n"
proof -
  from setCdf_True[OF assms(1)] have c: "valid_cdf c" "rand_cdf self = Some c" by auto
  then have inc: "increasing c" "snd (hd c) = 0" "snd (last c) = 100" by (auto simp: valid_cdf_def)
  obtain i v where seg: "in_segment c y i" and v: "getValueFromPercentile self y = Inr (Some v)"
    and v_eq: "v = fadd (fst (c ! i)) (fmul (fquo (fsub (fst (c ! Suc i)) (fst (c ! i)))
           (fsub (snd (c ! Suc i)) (snd (c ! i)))) (fsub y (snd (c ! i))))"
    using value_in_segment[OF c(2,1) assms(2,4,5)] by blast
  from seg have i: "Suc i < length c" by (simp add: in_segment_def)
  obtain n where n: "fst (c ! Suc i) = of_int n" using byte_cdf_nth[OF assms(3) i] by blast
  obtain m where m: "fst (c ! i) = of_int m" "0 \<le> m" using byte_cdf_nth[OF assms(3), of i] i by auto
  have low: "of_int m \<le> v" using value_lower[OF seg inc(1) assms(2)] m(1) by (simp add: v_eq)
  moreover have "v < of_int n + 1" using value_upper[OF seg inc(1) assms(3) inc(2,3)] by (simp add: v_eq n)
  ultimately have "m \<le> py_trunc v" "py_trunc v \<le> n" using m(2)
    by (simp_all add: py_trunc_def le_floor_iff floor_le_iff)
  with that seg v v_eq m(1) n low show ?thesis by blast
qed

text \<open>The distribution of \<open>traffic_gen/flowCDF/WebSearch_distribution.txt\<close>.\<close>

definition web_search :: cdf where
  "web_search = [(0, 0), (10000, 15), (20000, 20), (30000, 30), (50000, 40), (80000, 53), (200000, 60),
     (1000000, 70), (2000000, 80), (5000000, 90), (10000000, 97), (30000000, 100)]"

lemma web_search_ok:
  "setCdf new_custom_rand web_search = Inr (\<lparr>rand_cdf = Some web_search\<rparr>, True)"
  "float_cdf web_search" "byte_cdf web_search"
  by code_simp+

text \<open>C5. With an accepted distribution of whole byte sizes, \<open>getValueFromPercentile\<close> returns a value for
  every percentage in \<open>[0, 100]\<close>, never \<open>None\<close> and never a division by zero, and that value truncated
  as the traffic generators truncate it lies between the smallest and the largest size, in spite of
  the rounding of every operation.\<close>

theorem value_bounds:
  assumes "setCdf self0 c = Inr (self, True)" "float_cdf c" "byte_cdf c" "0 \<le> y" "y \<le> 100"
  shows "\<exists>v. getValueFromPercentile self y = Inr (Some v) \<and>
    fst (hd c) \<le> v \<and> of_int (py_trunc v) \<le> fst (last c)"
proof -
  have inc: "increasing c" using setCdf_True[OF assms(1)] by (simp add: valid_cdf_def)
  obtain i v m n where "in_segment c y i" and v: "getValueFromPercentile self y = Inr (Some v)"
    and mn: "fst (c ! i) = of_int m" "fst (c ! Suc i) = of_int n" "of_int m \<le> v" "py_trunc v \<le> n"
    using value_size[OF assms] by metis
  then have i: "Suc i < length c" by (simp add: in_segment_def)
  have "fst (hd c) \<le> v" using increasing_ends(1)[OF inc, of i] i mn by simp
  moreover have "of_int (py_trunc v) \<le> (of_int n :: rat)" using mn by simp
  then have "of_int (py_trunc v) \<le> fst (last c)" using increasing_ends(3)[OF inc i] mn(2) by linarith
  ultimately show ?thesis using v by blast
qed

theorem value_bounds_witness:
  "\<exists>v. getValueFromPercentile \<lparr>rand_cdf = Some web_search\<rparr> (1 / 2) = Inr (Some v) \<and>
    fst (hd web_search) \<le> v \<and> of_int (py_trunc v) \<le> fst (last web_search)"
  by (rule value_bounds[OF web_search_ok]) simp_all

lemma size_monotone:
  assumes "setCdf self0 c = Inr (self, True)" "float_cdf c" "byte_cdf c" "0 \<le> y" "y \<le> y'" "y' \<le> 100"
    and "getValueFromPercentile self y = Inr (Some v)" "getValueFromPercentile self y' = Inr (Some v')"
  shows "py_trunc v \<le> py_trunc v'"
proof -
  have inc: "increasing c" using setCdf_True[OF assms(1)] by (simp add: valid_cdf_def)
  have y: "y \<le> 100" "0 \<le> y'" using assms(4-6) by auto
  obtain i m n where i: "in_segment c y i" "fst (c ! Suc i) = of_int n" "py_trunc v \<le> n"
    and v: "v = fadd (fst (c ! i)) (fmul (fquo (fsub (fst (c ! Suc i)) (fst (c ! i)))
           (fsub (snd (c ! Suc i)) (snd (c ! i)))) (fsub y (snd (c ! i))))"
    by (rule value_size[OF assms(1-4) y(1)]) (use assms(7) in auto)
  obtain j m' where j: "in_segment c y' j" "fst (c ! j) = of_int m'" "m' \<le> py_trunc v'"
    and v': "v' = fadd (fst (c ! j)) (fmul (fquo (fsub (fst (c ! Suc j)) (fst (c ! j)))
           (fsub (snd (c ! Suc j)) (snd (c ! j)))) (fsub y' (snd (c ! j))))"
    by (rule value_size[OF assms(1-3) y(2) assms(6)]) (use assms(8) in auto)
  have len: "Suc i < length c" "Suc j < length c" using i(1) j(1) by (simp_all add: in_segment_def)
  show ?thesis
  proof (cases "i = j")
    case True
    have "v \<le> v'" unfolding v v' True fadd_def fmul_def fquo_def
      using increasing_nth[OF inc lessI len(2)] fsub_mono[OF assms(5)]
      by (intro f64.interpolate_mono fsub_nonneg) auto
    then show ?thesis by (rule py_trunc_mono)
  next
    case False
    then have "Suc i \<le> j" using in_segment_unique[OF i(1) j(1) assms(5)] by simp
    then have "fst (c ! Suc i) \<le> fst (c ! j)"
      using increasing_nth(1)[OF inc, of "Suc i" j] len by (cases "Suc i = j") auto
    then have "n \<le> m'" using i(2) j(2) by simp
    with i(3) j(3) show ?thesis by linarith
  qed
qed

text \<open>C6. The truncated size never decreases when the percentage grows, also across the points of the
  distribution: the generator samples the inverse of the distribution it was given.\<close>

theorem size_mono:
  assumes "setCdf self0 c = Inr (self, True)" "float_cdf c" "byte_cdf c" "0 \<le> y" "y \<le> y'" "y' \<le> 100"
    and "getValueFromPercentile self y = Inr (Some v)" "getValueFromPercentile self y' = Inr (Some v')"
  shows "py_trunc v \<le> py_trunc v'"
  using assms by (rule size_monotone)

theorem size_mono_witness:
  "py_trunc (5864062014805333 / 8796093022208) \<le> py_trunc (3131746986666667 / 134217728)"
proof (rule size_mono[OF web_search_ok, of 1 99])
  show "getValueFromPercentile \<lparr>rand_cdf = Some web_search\<rparr> 1 = Inr (Some (5864062014805333 / 8796093022208))"
    by code_simp
  show "getValueFromPercentile \<lparr>rand_cdf = Some web_search\<rparr> 99 = Inr (Some (3131746986666667 / 134217728))"
    by code_simp
qed simp_all

lemma percentile_in_segment:
  assumes "setCdf self0 c = Inr (self, True)" "float_cdf c" "fst (hd c) \<le> x" "x \<le> fst (last c)" "0 \<le> x"
  obtains i where "Suc i < length c" "fst (c ! i) \<le> x" "x \<le> fst (c ! Suc i)"
    "getPercentileFromValue self x = Inr (Some (fadd (snd (c ! i)) (fmul (fquo (fsub (snd (c ! Suc i)) (snd (c ! i)))
       (fsub (fst (c ! Suc i)) (fst (c ! i)))) (fsub x (fst (c ! i))))))"
proof -
  from setCdf_True[OF assms(1)] have c: "valid_cdf c" "rand_cdf self = Some c" by auto
  then have inc: "increasing c" "c \<noteq> []" and len: "2 \<le> length c"
    using valid_cdf_length by (auto simp: valid_cdf_def)
  let ?s = "map prod.swap c"
  have "snd (hd ?s) \<le> x" "x \<le> snd (last ?s)" using assms(3,4) inc(2) by (simp_all add: hd_map last_map)
  with value_loop_segment[of ?s x] inc(1) len obtain i where i: "in_segment ?s x i"
    "value_loop ?s x = rbind (interpolate (fst (?s ! i)) (fst (?s ! Suc i)) (snd (?s ! i)) (snd (?s ! Suc i)) x)
      (\<lambda>v. Inr (Some v))" by (auto simp: increasing_swap)
  have fl: "float_cdf ?s" using assms(2) by (auto simp: float_cdf_def list_all_iff)
  from i(1) have l: "Suc i < length c" by (simp add: in_segment_def)
  have "interpolate (fst (?s ! i)) (fst (?s ! Suc i)) (snd (?s ! i)) (snd (?s ! Suc i)) x =
      Inr (fadd (fst (?s ! i)) (fmul (fquo (fsub (fst (?s ! Suc i)) (fst (?s ! i)))
        (fsub (snd (?s ! Suc i)) (snd (?s ! i)))) (fsub x (snd (?s ! i)))))"
    using increasing_nth(2)[of ?s i "Suc i"] inc(1) float_cdf_nth[OF fl] l
    by (intro interpolate_defined) (auto simp: increasing_swap)
  then show ?thesis using that[of i] i l assms(4,5) inc(2) c(2)
    by (auto simp: percentile_loop_swap in_segment_def getPercentileFromValue_def get_cdf_def py_get_last)
qed

text \<open>\<open>getPercentileFromValue\<close> on an accepted distribution: \<open>-1\<close> exactly for the values outside
  \<open>[0, max]\<close>; every value from the smallest to the largest point has a percentage, not below the
  percentage of the point to its left, and \<open>None\<close> is never returned.\<close>

theorem percentile_spec:
  assumes "setCdf self0 c = Inr (self, True)" "float_cdf c"
  shows "if x < 0 \<or> fst (last c) < x then getPercentileFromValue self x = Inr (Some (- 1))
    else if fst (hd c) \<le> x then
      \<exists>i p. Suc i < length c \<and> fst (c ! i) \<le> x \<and> x \<le> fst (c ! Suc i) \<and>
        getPercentileFromValue self x = Inr (Some p) \<and> snd (c ! i) \<le> p
    else \<exists>p. getPercentileFromValue self x = Inr (Some p)"
proof -
  from setCdf_True[OF assms(1)] have c: "valid_cdf c" "rand_cdf self = Some c" by auto
  then have inc: "increasing c" "c \<noteq> []" and len: "2 \<le> length c"
    using valid_cdf_length by (auto simp: valid_cdf_def)
  have get: "getPercentileFromValue self x =
      (if x < 0 \<or> fst (last c) < x then Inr (Some (- 1)) else percentile_loop c x)"
    using inc(2) c(2) by (simp add: getPercentileFromValue_def get_cdf_def py_get_last)
  have seg: "\<exists>i p. Suc i < length c \<and> fst (c ! i) \<le> x \<and> x \<le> fst (c ! Suc i) \<and>
      percentile_loop c x = Inr (Some p) \<and> snd (c ! i) \<le> p" if x: "fst (hd c) \<le> x" "x \<le> fst (last c)" "0 \<le> x"
  proof -
    obtain i where i: "Suc i < length c" "fst (c ! i) \<le> x" "x \<le> fst (c ! Suc i)"
        "getPercentileFromValue self x = Inr (Some (fadd (snd (c ! i)) (fmul (fquo (fsub (snd (c ! Suc i)) (snd (c ! i)))
          (fsub (fst (c ! Suc i)) (fst (c ! i)))) (fsub x (fst (c ! i))))))"
      by (rule percentile_in_segment[OF assms x])
    have "snd (c ! i) \<le> fadd (snd (c ! i)) (fmul (fquo (fsub (snd (c ! Suc i)) (snd (c ! i)))
          (fsub (fst (c ! Suc i)) (fst (c ! i)))) (fsub x (fst (c ! i))))"
      using float_cdf_nth[OF assms(2), of i] increasing_nth[OF inc(1), of i "Suc i"] i
        f64.interpolate_lower[of "snd (c ! i)" "fsub (snd (c ! Suc i)) (snd (c ! i))" "fsub (fst (c ! Suc i)) (fst (c ! i))" "fsub x (fst (c ! i))"]
      by (simp add: is_float_def fsub_nonneg flt_defs[symmetric])
    then show ?thesis using i get x by auto
  qed
  have low: "\<exists>p. percentile_loop c x = Inr (Some p)" if "x < fst (hd c)"
  proof -
    obtain x0 y0 x1 y1 r where c_eq: "c = (x0, y0) # (x1, y1) # r"
      using len by (cases c rule: increasing.cases) auto
    then show ?thesis using that inc(1) assms(2)
      by (auto simp: float_cdf_def interpolate_defined split: if_splits)
  qed
  show ?thesis using get seg low by (auto simp: not_less not_le)
qed

theorem percentile_spec_witness:
  "\<exists>i p. Suc i < length web_search \<and> fst (web_search ! i) \<le> 15000 \<and> 15000 \<le> fst (web_search ! Suc i) \<and>
     getPercentileFromValue \<lparr>rand_cdf = Some web_search\<rparr> 15000 = Inr (Some p) \<and> snd (web_search ! i) \<le> p"
  using percentile_spec[OF web_search_ok(1,2), of 15000] by (simp add: web_search_def)

end
