(* ===== verification/PyString.thy ===== *)
theory PyString
  imports PyFloat "HOL-Library.Sublist"
begin

text \<open>
  Python's strings as lists of characters (the bytes of the UTF-8 text), with the operations the
  code uses: \<open>str\<close> and \<open>int\<close> of an integer, \<open>float\<close> of a decimal literal, the fixed-point \<open>%.nf\<close>,
  \<open>strip\<close>, \<open>split\<close> by a character, by a string and by white space, \<open>join\<close>, \<open>startswith\<close>, \<open>endswith\<close>,
  \<open>in\<close>, \<open>replace\<close> and \<open>readlines\<close>.  The lemmas are the round trips the file formats rest on
  (\<open>int (str n) = n\<close>, \<open>split (join xs) = xs\<close>, the lines of a text concatenate to it).
\<close>

section \<open>Characters\<close>

abbreviation nl :: char where "nl \<equiv> CHR 0x0A"
abbreviation tab :: char where "tab \<equiv> CHR 0x09"
abbreviation sp :: char where "sp \<equiv> CHR 0x20"

definition is_ws :: "char \<Rightarrow> bool" where
  "is_ws c = (c \<in> {CHR 0x09, CHR 0x0A, CHR 0x0B, CHR 0x0C, CHR 0x0D,
                   CHR 0x1C, CHR 0x1D, CHR 0x1E, CHR 0x1F, CHR 0x20})"

definition is_digit :: "char \<Rightarrow> bool" where
  "is_digit c = (c \<in> set ''0123456789'')"

definition digit_val :: "char \<Rightarrow> int" where "digit_val c = of_char c - 48"
definition digit_char :: "nat \<Rightarrow> char" where "digit_char d = char_of (48 + d)"

lemma digit_char_all: "list_all (\<lambda>d. is_digit (digit_char d) \<and> digit_val (digit_char d) = int d) [0..<10]"
  by code_simp

lemma digit_char [simp]:
  assumes "d < 10"
  shows "is_digit (digit_char d)" "digit_val (digit_char d) = int d"
  using digit_char_all assms by (simp_all only: list_all_iff atLeastLessThan_upt[symmetric]) simp_all

lemma digit_not_ws: "is_digit c \<Longrightarrow> \<not> is_ws c"
  by (auto simp: is_digit_def is_ws_def)

lemma is_digit_distinct [simp]:
  "is_digit c \<Longrightarrow> c \<noteq> sp" "is_digit c \<Longrightarrow> c \<noteq> nl" "is_digit c \<Longrightarrow> c \<noteq> tab"
  "is_digit c \<Longrightarrow> c \<noteq> CHR ''-''" "is_digit c \<Longrightarrow> c \<noteq> CHR ''+''" "is_digit c \<Longrightarrow> c \<noteq> CHR ''_''"
  "is_digit c \<Longrightarrow> c \<noteq> CHR ''.''" "is_digit c \<Longrightarrow> c \<noteq> CHR ''e''" "is_digit c \<Longrightarrow> c \<noteq> CHR ''E''"
  "is_digit c \<Longrightarrow> c \<noteq> CHR '',''"
  by (auto simp: is_digit_def)

text \<open>Text outside ASCII is written by its UTF-8 bytes.\<close>

definition bytes :: "nat list \<Rightarrow> string" where "bytes ns = map char_of ns"

lemma nl_in_bytes [simp]: "nl \<in> set (bytes ns) \<longleftrightarrow> 10 \<in> set (map (\<lambda>n. n mod 256) ns)"
proof -
  have "nl = char_of n \<longleftrightarrow> n mod 256 = 10" for n :: nat
  proof -
    have "nl = char_of n \<longleftrightarrow> (of_char nl :: nat) = of_char (char_of n)" by (simp only: of_char_eq_iff)
    then show ?thesis by (auto simp: of_char_of)
  qed
  then show ?thesis by (auto simp: bytes_def image_iff)
qed

section \<open>Numbers as text\<close>

function digits_of :: "int \<Rightarrow> string" where
  "digits_of n = (if n < 10 then [digit_char (nat n)] else digits_of (n div 10) @ [digit_char (nat (n mod 10))])"
  by pat_completeness auto
termination
  by (relation "measure nat") auto

declare digits_of.simps [simp del]

definition str_nat :: "nat \<Rightarrow> string" where "str_nat n = digits_of (int n)"

definition str_int :: "int \<Rightarrow> string" where
  "str_int n = (if n < 0 then CHR ''-'' # digits_of (- n) else digits_of n)"

lemma digits_of_nat: "0 \<le> n \<Longrightarrow> digits_of n = str_nat (nat n)"
  by (simp add: str_nat_def)

lemma str_nat_simps: "str_nat n = (if n < 10 then [digit_char n] else str_nat (n div 10) @ [digit_char (n mod 10)])"
proof -
  have "int n div 10 = int (n div 10)" "int n mod 10 = int (n mod 10)" "(int n < 10) = (n < 10)"
    by (simp_all add: of_nat_div of_nat_mod)
  then show ?thesis unfolding str_nat_def by (subst digits_of.simps) (simp only: nat_int)
qed

lemma str_nat_induct:
  assumes "\<And>n. (\<not> n < 10 \<Longrightarrow> P (n div 10)) \<Longrightarrow> P n"
  shows "P (n :: nat)"
proof (induction n rule: less_induct)
  case (less n)
  show ?case by (rule assms) (rule less, simp)
qed

lemma str_int_nat: "str_int n = (if n < 0 then CHR ''-'' # str_nat (nat (- n)) else str_nat (nat n))"
  by (simp add: str_int_def digits_of_nat)

definition digits_val :: "string \<Rightarrow> int" where
  "digits_val s = foldl (\<lambda>n c. 10 * n + digit_val c) 0 s"

lemma digits_val_snoc [simp]: "digits_val (s @ [c]) = 10 * digits_val s + digit_val c"
  by (simp add: digits_val_def)

lemma digits_val_Nil [simp]: "digits_val [] = 0"
  by (simp add: digits_val_def)

lemma digits_val_single [simp]: "digits_val [c] = digit_val c"
  by (simp add: digits_val_def)

lemma str_nat_digits: "c \<in> set (str_nat n) \<Longrightarrow> is_digit c"
proof (induction n rule: str_nat_induct)
  case (1 n)
  then show ?case by (subst (asm) (2) str_nat_simps) (auto split: if_splits)
qed

lemma str_nat_not_Nil [simp]: "str_nat n \<noteq> []"
  by (subst str_nat_simps) simp

lemma digits_val_str_nat [simp]: "digits_val (str_nat n) = int n"
proof (induction n rule: str_nat_induct)
  case (1 n)
  have "10 * int (n div 10) + int (n mod 10) = int n" by presburger
  with 1 show ?case by (subst str_nat_simps) auto
qed

lemma str_nat_inject [simp]: "str_nat m = str_nat n \<longleftrightarrow> m = n"
  by (metis digits_val_str_nat of_nat_eq_iff)

lemma str_nat_no: "\<not> is_digit c \<Longrightarrow> c \<notin> set (str_nat n)"
  using str_nat_digits by blast

lemma str_nat_hd: "is_digit (hd (str_nat n))"
  by (rule str_nat_digits[OF hd_in_set]) simp

lemma str_int_not_Nil [simp]: "str_int n \<noteq> []"
  by (simp add: str_int_nat)

lemma str_int_chars: "c \<in> set (str_int n) \<Longrightarrow> is_digit c \<or> c = CHR ''-''"
  by (auto simp: str_int_nat str_nat_digits split: if_splits)

lemma str_int_no_ws: "c \<in> set (str_int n) \<Longrightarrow> \<not> is_ws c"
  using str_int_chars[of c n] by (auto simp: digit_not_ws) (simp add: is_ws_def)

lemma nl_str_int [simp]: "nl \<notin> set (str_int n)" "nl \<notin> set (str_nat m)"
  using str_int_no_ws[of nl n] str_nat_no[of nl m] by (auto simp: is_ws_def is_digit_def)

section \<open>Cutting and joining\<close>

definition rstrip_by :: "(char \<Rightarrow> bool) \<Rightarrow> string \<Rightarrow> string" where
  "rstrip_by P s = rev (dropWhile P (rev s))"

definition rstrip :: "string \<Rightarrow> string" where "rstrip s = rstrip_by is_ws s"
definition lstrip :: "string \<Rightarrow> string" where "lstrip s = dropWhile is_ws s"
definition strip :: "string \<Rightarrow> string" where "strip s = rstrip (lstrip s)"

lemma rstrip_by_id: "s = [] \<or> \<not> P (last s) \<Longrightarrow> rstrip_by P s = s"
  by (cases s rule: rev_cases) (auto simp: rstrip_by_def)

lemma rstrip_by_snoc [simp]: "rstrip_by P (s @ [c]) = (if P c then rstrip_by P s else s @ [c])"
  by (simp add: rstrip_by_def)

lemma strip_id: "s = [] \<or> \<not> is_ws (hd s) \<and> \<not> is_ws (last s) \<Longrightarrow> strip s = s"
  by (cases s) (auto simp: strip_def lstrip_def rstrip_def intro!: rstrip_by_id)

lemma strip_id_all: "(\<And>c. c \<in> set s \<Longrightarrow> \<not> is_ws c) \<Longrightarrow> strip s = s"
  by (rule strip_id) (metis hd_in_set last_in_set)

lemma is_ws_nl [simp]: "is_ws nl" "is_ws sp" "is_ws tab"
  by (simp_all add: is_ws_def)

lemma strip_nl: "s \<noteq> [] \<Longrightarrow> \<not> is_ws (hd s) \<Longrightarrow> \<not> is_ws (last s) \<Longrightarrow> strip (s @ [nl]) = s"
proof -
  assume s: "s \<noteq> []" "\<not> is_ws (hd s)" "\<not> is_ws (last s)"
  then have "lstrip (s @ [nl]) = s @ [nl]" by (cases s) (auto simp: lstrip_def)
  with s show ?thesis by (simp add: strip_def rstrip_def rstrip_by_id)
qed

text \<open>\<open>s.split (c)\<close> for one character: never the empty list.\<close>

fun split_on :: "char \<Rightarrow> string \<Rightarrow> string list" where
  "split_on c [] = [[]]"
| "split_on c (x # xs) =
     (if x = c then [] # split_on c xs
      else (case split_on c xs of [] \<Rightarrow> [[x]] | w # ws \<Rightarrow> (x # w) # ws))"

fun join :: "string \<Rightarrow> string list \<Rightarrow> string" where
  "join sep [] = []"
| "join sep [x] = x"
| "join sep (x # y # xs) = x @ sep @ join sep (y # xs)"

lemma split_on_not_Nil [simp]: "split_on c s \<noteq> []"
  by (induction s) (auto split: list.splits)

lemma split_on_single [str_simps]: "c \<notin> set s \<Longrightarrow> split_on c s = [s]"
  by (induction s) auto

lemma split_on_append [str_simps]: "c \<notin> set w \<Longrightarrow> split_on c (w @ c # s) = w # split_on c s"
  by (induction w) auto

lemma join_Cons: "xs \<noteq> [] \<Longrightarrow> join sep (x # xs) = x @ sep @ join sep xs"
  by (cases xs) auto

lemma split_on_join: "xs \<noteq> [] \<Longrightarrow> (\<And>x. x \<in> set xs \<Longrightarrow> c \<notin> set x) \<Longrightarrow> split_on c (join [c] xs) = xs"
proof (induction xs)
  case Nil
  then show ?case by simp
next
  case (Cons x xs)
  then show ?case by (cases "xs = []") (auto simp: join_Cons str_simps)
qed

lemma join_split_on: "join [c] (split_on c s) = s"
proof (induction s)
  case Nil
  then show ?case by simp
next
  case (Cons x s)
  obtain w ws where "split_on c s = w # ws" by (cases "split_on c s") auto
  with Cons show ?case by (cases "ws = []") (auto simp: join_Cons)
qed

lemma split_on_no_sep: "w \<in> set (split_on c s) \<Longrightarrow> c \<notin> set w"
  by (induction s arbitrary: w) (auto split: list.splits if_splits)

lemma join_append: "xs \<noteq> [] \<Longrightarrow> ys \<noteq> [] \<Longrightarrow> join sep (xs @ ys) = join sep xs @ sep @ join sep ys"
proof (induction xs)
  case Nil
  then show ?case by simp
next
  case (Cons x xs)
  then show ?case by (cases "xs = []") (auto simp: join_Cons)
qed

text \<open>\<open>s.split ()\<close>: the maximal runs of characters that are not white space.\<close>

definition split_ws :: "string \<Rightarrow> string list" where
  "split_ws s = filter (\<lambda>w. w \<noteq> []) (split_on sp (map (\<lambda>c. if is_ws c then sp else c) s))"

lemma split_ws_join:
  assumes "\<And>x c. x \<in> set xs \<Longrightarrow> c \<in> set x \<Longrightarrow> \<not> is_ws c" "\<And>x. x \<in> set xs \<Longrightarrow> x \<noteq> []"
  shows "split_ws (join [sp] xs) = xs"
proof (cases "xs = []")
  case True
  then show ?thesis by (simp add: split_ws_def)
next
  case False
  have word: "map (\<lambda>c. if is_ws c then sp else c) x = x" if "x \<in> set xs" for x
    using assms(1)[OF that] by (intro map_idI) auto
  have "map (\<lambda>c. if is_ws c then sp else c) (join [sp] ys) = join [sp] ys" if "set ys \<subseteq> set xs" for ys
    using that
  proof (induction ys)
    case Nil
    then show ?case by simp
  next
    case (Cons y ys)
    then show ?case using word by (cases "ys = []") (auto simp: join_Cons)
  qed
  moreover have "sp \<notin> set x" if "x \<in> set xs" for x
    using assms(1)[OF that, of sp] by auto
  then have "split_on sp (join [sp] xs) = xs" by (rule split_on_join[OF False])
  ultimately have "split_on sp (map (\<lambda>c. if is_ws c then sp else c) (join [sp] xs)) = xs"
    by (simp only: order_refl)
  then show ?thesis using assms(2) by (simp add: split_ws_def filter_id_conv)
qed

lemma split_on_snoc: "split_on c (w @ [c]) = split_on c w @ [[]]"
  by (induction w) (auto split: list.splits)

lemma split_ws_nl [simp]: "split_ws (s @ [nl]) = split_ws s"
  by (simp add: split_ws_def split_on_snoc)

text \<open>Prefix, suffix and substring tests; a separator or pattern that is a string.\<close>

definition startswith :: "string \<Rightarrow> string \<Rightarrow> bool" where
  "startswith p s = (take (length p) s = p)"

definition endswith :: "string \<Rightarrow> string \<Rightarrow> bool" where
  "endswith p s = (length p \<le> length s \<and> drop (length s - length p) s = p)"

fun contains :: "string \<Rightarrow> string \<Rightarrow> bool" where
  "contains p [] = (p = [])"
| "contains p (x # xs) = (startswith p (x # xs) \<or> contains p xs)"

text \<open>\<open>s.find (p)\<close> with \<open>None\<close> for \<open>-1\<close>.\<close>

fun str_find :: "string \<Rightarrow> string \<Rightarrow> nat option" where
  "str_find p [] = (if p = [] then Some 0 else None)"
| "str_find p (x # xs) = (if startswith p (x # xs) then Some 0 else map_option Suc (str_find p xs))"

text \<open>\<open>s.split (p)\<close> and \<open>s.replace (p, r)\<close> for a non-empty \<open>p\<close>, scanning from the left; \<open>acc\<close> is the piece
  read so far, reversed.\<close>

function split_str_acc :: "string \<Rightarrow> string \<Rightarrow> string \<Rightarrow> string list" where
  "split_str_acc p acc s =
     (if s = [] then [rev acc]
      else if p \<noteq> [] \<and> startswith p s then rev acc # split_str_acc p [] (drop (length p) s)
      else split_str_acc p (hd s # acc) (tl s))"
  by pat_completeness auto
termination
  by (relation "measure (\<lambda>(p, acc, s). length s)") auto

declare split_str_acc.simps [simp del]

definition split_str :: "string \<Rightarrow> string \<Rightarrow> string list" where
  "split_str p s = split_str_acc p [] s"

definition replace_str :: "string \<Rightarrow> string \<Rightarrow> string \<Rightarrow> string" where
  "replace_str p r s = join r (split_str p s)"

lemma startswith_iff_prefix: "startswith p s \<longleftrightarrow> prefix p s"
  by (metis append_take_drop_id prefix_def startswith_def append_eq_conv_conj)

lemma startswith_append [simp]: "startswith p (p @ s)"
  by (simp add: startswith_def)

lemma startswith_Nil [simp]: "startswith [] s" "startswith (x # p) [] = False"
  by (simp_all add: startswith_def)

lemma startswith_Cons [simp]: "startswith (x # p) (y # s) \<longleftrightarrow> x = y \<and> startswith p s"
  by (auto simp: startswith_def)

lemma endswith_iff_suffix: "endswith p s \<longleftrightarrow> suffix p s"
  unfolding endswith_def by (metis append_take_drop_id suffix_def suffix_length_le append_eq_conv_conj
      diff_add_inverse2 length_append)

lemma contains_iff_sublist: "contains p s \<longleftrightarrow> sublist p s"
  by (induction s) (auto simp: startswith_iff_prefix sublist_Cons_right)

lemma join_split_str_acc: "join p (split_str_acc p acc s) = rev acc @ s"
proof (induction p acc s rule: split_str_acc.induct)
  case (1 p acc s)
  consider "s = []" | "s \<noteq> []" "p \<noteq> []" "startswith p s" | "s \<noteq> []" "\<not> (p \<noteq> [] \<and> startswith p s)" by blast
  then show ?case
  proof cases
    case 1
    then show ?thesis by (simp add: split_str_acc.simps)
  next
    case 2
    have "split_str_acc p a b \<noteq> []" for a b
      by (induction p a b rule: split_str_acc.induct) (subst split_str_acc.simps, simp)
    moreover have "s = p @ drop (length p) s" using 2 by (metis append_take_drop_id startswith_def)
    ultimately show ?thesis using 2 "1.IH"(1) by (subst split_str_acc.simps) (simp add: join_Cons)
  next
    case 3
    then show ?thesis using "1.IH"(2) by (subst split_str_acc.simps) (cases s, auto)
  qed
qed

lemma join_split_str: "join p (split_str p s) = s"
  by (simp add: split_str_def join_split_str_acc)

lemma replace_str_same: "replace_str p p s = s"
  by (simp add: replace_str_def join_split_str)

text \<open>\<open>readlines\<close> keeps the line ends; a text is the concatenation of its lines.\<close>

fun readlines :: "string \<Rightarrow> string list" where
  "readlines [] = []"
| "readlines (x # xs) =
     (if x = nl then [nl] # readlines xs
      else (case readlines xs of [] \<Rightarrow> [[x]] | l # ls \<Rightarrow> (x # l) # ls))"

lemma concat_readlines: "concat (readlines s) = s"
proof (induction s)
  case Nil
  then show ?case by simp
next
  case (Cons x s)
  then show ?case by (cases "readlines s") auto
qed

lemma readlines_line: "nl \<notin> set l \<Longrightarrow> readlines (l @ nl # s) = (l @ [nl]) # readlines s"
  by (induction l) auto

definition is_line :: "string \<Rightarrow> bool" where
  "is_line l = (l \<noteq> [] \<and> last l = nl \<and> nl \<notin> set (butlast l))"

lemma is_line_iff: "is_line l \<longleftrightarrow> (\<exists>w. l = w @ [nl] \<and> nl \<notin> set w)"
  unfolding is_line_def by (metis append_butlast_last_id butlast_snoc last_snoc snoc_eq_iff_butlast)

lemma readlines_concat: "(\<And>l. l \<in> set ls \<Longrightarrow> is_line l) \<Longrightarrow> readlines (concat ls) = ls"
proof (induction ls)
  case Nil
  then show ?case by simp
next
  case (Cons l ls)
  then obtain w where "l = w @ [nl]" "nl \<notin> set w" by (metis is_line_iff list.set_intros(1))
  with Cons show ?case by (simp add: readlines_line)
qed

section \<open>Reading numbers\<close>

text \<open>Digit groups may be separated by single underscores, as in Python's own literals.\<close>

definition read_digits :: "string \<Rightarrow> int option" where
  "read_digits s =
     (let ps = split_on (CHR ''_'') s
      in if list_all (\<lambda>p. p \<noteq> [] \<and> list_all is_digit p) ps then Some (digits_val (concat ps)) else None)"

definition read_sign :: "string \<Rightarrow> int \<times> string" where
  "read_sign s = (case s of [] \<Rightarrow> (1, [])
     | c # cs \<Rightarrow> if c = CHR ''-'' then (- 1, cs) else if c = CHR ''+'' then (1, cs) else (1, s))"

definition py_int :: "string \<Rightarrow> int res" where
  "py_int s = (let (sg, ds) = read_sign (strip s)
     in case read_digits ds of None \<Rightarrow> Inl ValueError | Some n \<Rightarrow> Inr (sg * n))"

text \<open>\<open>float (s)\<close> of a decimal literal \<open>digits [. digits] [e [sign] digits]\<close>, correctly rounded.  The
  literals \<open>inf\<close> and \<open>nan\<close> and the overflow to infinity are outside the model of binary64 used here.\<close>

definition read_mantissa :: "string \<Rightarrow> rat option" where
  "read_mantissa s = (case split_on (CHR ''.'') s of
       [a] \<Rightarrow> map_option of_int (read_digits a)
     | [a, b] \<Rightarrow>
         if a = [] then (case read_digits b of None \<Rightarrow> None
           | Some m \<Rightarrow> Some (of_int m / 10 ^ length (filter is_digit b)))
         else if b = [] then map_option of_int (read_digits a)
         else (case (read_digits a, read_digits b) of
            (Some n, Some m) \<Rightarrow> Some (of_int n + of_int m / 10 ^ length (filter is_digit b))
          | _ \<Rightarrow> None)
     | _ \<Rightarrow> None)"

definition pow10 :: "int \<Rightarrow> rat" where
  "pow10 e = (if 0 \<le> e then 10 ^ nat e else 1 / 10 ^ nat (- e))"

definition py_float :: "string \<Rightarrow> flt res" where
  "py_float s = (let (sg, r) = read_sign (strip s)
     in case split_on (CHR ''e'') (map (\<lambda>c. if c = CHR ''E'' then CHR ''e'' else c) r) of
          [m] \<Rightarrow> (case read_mantissa m of None \<Rightarrow> Inl ValueError | Some q \<Rightarrow> Inr (rn (of_int sg * q)))
        | [m, x] \<Rightarrow>
            (let (xsg, xs) = read_sign x
             in case (read_mantissa m, read_digits xs) of
                  (Some q, Some e) \<Rightarrow> Inr (rn (of_int sg * q * pow10 (xsg * e)))
                | _ \<Rightarrow> Inl ValueError)
        | _ \<Rightarrow> Inl ValueError)"

lemma read_digits_str_nat [simp]: "read_digits (str_nat n) = Some (int n)"
proof -
  have "split_on (CHR ''_'') (str_nat n) = [str_nat n]"
    by (rule split_on_single) (rule str_nat_no, simp add: is_digit_def)
  moreover have "list_all is_digit (str_nat n)" using str_nat_digits by (simp add: list_all_iff)
  ultimately show ?thesis by (simp add: read_digits_def)
qed

lemma read_sign_str_int: "read_sign (str_int n) = (if n < 0 then - 1 else 1, str_nat (nat \<bar>n\<bar>))"
proof (cases "n < 0")
  case True
  then show ?thesis by (simp add: str_int_nat read_sign_def)
next
  case False
  obtain c cs where c: "str_nat (nat n) = c # cs" by (cases "str_nat (nat n)") auto
  then have "is_digit c" using str_nat_hd[of "nat n"] by simp
  then show ?thesis using False c by (simp add: str_int_nat read_sign_def)
qed

lemma strip_str_int [simp]: "strip (str_int n) = str_int n"
  by (rule strip_id_all) (rule str_int_no_ws)

lemma py_int_str_int [simp]: "py_int (str_int n) = Inr n"
  by (simp add: py_int_def read_sign_str_int)

lemma str_int_inject [simp]: "str_int m = str_int n \<longleftrightarrow> m = n"
  by (metis py_int_str_int sum.inject(2))

lemma py_int_str_int_nl [simp]: "py_int (str_int n @ [nl]) = Inr n"
proof -
  have "strip (str_int n @ [nl]) = str_int n"
    by (rule strip_nl) (simp_all add: str_int_no_ws[OF hd_in_set] str_int_no_ws[OF last_in_set])
  then show ?thesis by (simp add: py_int_def read_sign_str_int)
qed

section \<open>Writing numbers\<close>

text \<open>\<open>%.kf\<close>: the exact decimal value of the float, rounded half to even at the \<open>k\<close>-th place.\<close>

definition pad_zeros :: "nat \<Rightarrow> string \<Rightarrow> string" where
  "pad_zeros k s = replicate (k - length s) (CHR ''0'') @ s"

definition fmt_fixed :: "nat \<Rightarrow> flt \<Rightarrow> string" where
  "fmt_fixed k x =
     (let n = \<bar>rhe (x * 10 ^ k)\<bar>
      in (if x < 0 then ''-'' else []) @ digits_of (n div 10 ^ k) @
         (if k = 0 then [] else CHR ''.'' # pad_zeros k (digits_of (n mod 10 ^ k))))"

lemma digits_of_digits: "0 \<le> n \<Longrightarrow> c \<in> set (digits_of n) \<Longrightarrow> is_digit c"
  by (simp add: digits_of_nat str_nat_digits)

lemma digits_of_not_Nil [simp]: "digits_of n \<noteq> []"
  by (subst digits_of.simps) simp

lemma fmt_fixed_not_Nil [simp]: "fmt_fixed k x \<noteq> []" "[] \<noteq> fmt_fixed k x"
  by (simp_all add: fmt_fixed_def Let_def)

lemma fmt_fixed_no_ws: "c \<in> set (fmt_fixed k x) \<Longrightarrow> \<not> is_ws c"
proof -
  assume c: "c \<in> set (fmt_fixed k x)"
  define n where "n = \<bar>rhe (x * 10 ^ k)\<bar>"
  have d: "is_digit c" if "c \<in> set (digits_of (n div 10 ^ k)) \<or> c \<in> set (digits_of (n mod 10 ^ k))"
    using that digits_of_digits[of "n div 10 ^ k" c] digits_of_digits[of "n mod 10 ^ k" c]
    by (auto simp: n_def pos_imp_zdiv_nonneg_iff)
  have "is_digit c \<or> c = CHR ''-'' \<or> c = CHR ''.'' \<or> c = CHR ''0''"
    using c d by (auto simp: fmt_fixed_def pad_zeros_def n_def[symmetric] split: if_splits)
  then show ?thesis by (auto simp: digit_not_ws) (simp_all add: is_ws_def)
qed

end
