(* ===== verification/PyFiles.thy ===== *)
theory PyFiles
  imports PyString
begin

text \<open>
  The files a script reads and writes: a map from paths to contents.  Opening a path that is not in the
  map for reading is a \<open>FileNotFoundError\<close>; opening for writing replaces the content.
\<close>

type_synonym files = "string \<Rightarrow> string option"

definition open_text :: "files \<Rightarrow> string \<Rightarrow> string res" where
  "open_text fs path = of_option FileNotFoundError (fs path)"

lemma open_text_eq [res_simps]:
  "open_text fs path = Inr t \<longleftrightarrow> fs path = Some t"
  "open_text fs path = Inl e \<longleftrightarrow> fs path = None \<and> e = FileNotFoundError"
  by (cases "fs path"; auto simp: open_text_def)+

section \<open>Paths\<close>

text \<open>\<open>os.path.dirname\<close>: up to the last slash, without the slashes that end it; \<open>os.path.basename\<close>: what
  follows the last slash; \<open>os.path.join\<close>: an absolute second path wins, otherwise one slash in between.\<close>

definition dirname :: "string \<Rightarrow> string" where
  "dirname p =
     (let h = rev (dropWhile (\<lambda>c. c \<noteq> CHR ''/'') (rev p)); r = rstrip_by (\<lambda>c. c = CHR ''/'') h
      in if r = [] then h else r)"

definition basename :: "string \<Rightarrow> string" where
  "basename p = rev (takeWhile (\<lambda>c. c \<noteq> CHR ''/'') (rev p))"

definition path_join :: "string \<Rightarrow> string \<Rightarrow> string" where
  "path_join a b = (if startswith ''/'' b then b else if a = [] \<or> last a = CHR ''/'' then a @ b else a @ ''/'' @ b)"

lemma dirname_slash: "d \<noteq> [] \<Longrightarrow> last d \<noteq> CHR ''/'' \<Longrightarrow> dirname (d @ ''/'') = d"
  by (simp add: dirname_def rstrip_by_id Let_def)

text \<open>Every part of a path joined with slashes is determined by the path when the last part has none.\<close>

lemma basename_append: "CHR ''/'' \<notin> set b \<Longrightarrow> basename (a @ CHR ''/'' # b) = b"
  by (auto simp: basename_def takeWhile_append)

end
