(* ===== verification/PyHeap.thy ===== *)
theory PyHeap
  imports Prelude "HOL-Library.Product_Lexorder"
begin

text \<open>
  \<open>heapq\<close>: the contract the traffic generators rely on, as a locale, and the list kept in order that
  provides it.  The generators read a heap only through \<open>heap[0]\<close>, \<open>heappop\<close>, \<open>heappush\<close>,
  \<open>heapreplace\<close>, \<open>heapify\<close> and its length, and its elements \<open>(time, host)\<close> are totally ordered, so the
  layout of the array inside is not observable.
\<close>

section \<open>The contract\<close>

locale heap_queue =
  fixes heapify :: "'a::linorder list \<Rightarrow> 'q"
    and top :: "'q \<Rightarrow> 'a res"
    and heappop :: "'q \<Rightarrow> ('a \<times> 'q) res"
    and heappush :: "'q \<Rightarrow> 'a \<Rightarrow> 'q"
    and items :: "'q \<Rightarrow> 'a multiset"
  assumes items_heapify: "items (heapify xs) = mset xs"
    and items_push: "items (heappush q x) = add_mset x (items q)"
    and pop_empty: "items q = {#} \<Longrightarrow> heappop q = Inl IndexError"
    and pop_ok: "items q \<noteq> {#} \<Longrightarrow>
      \<exists>x q'. heappop q = Inr (x, q') \<and> items q = add_mset x (items q') \<and> (\<forall>y \<in># items q'. x \<le> y)"
    and top_pop: "top q = rbind (heappop q) (\<lambda>(x, q'). Inr x)"
begin

lemma pop_items: "heappop q = Inr (x, q') \<Longrightarrow> items q = add_mset x (items q')"
  using pop_ok[of q] pop_empty[of q] by (cases "items q = {#}") auto

lemma pop_least: "heappop q = Inr (x, q') \<Longrightarrow> y \<in># items q \<Longrightarrow> x \<le> y"
  using pop_ok[of q] pop_empty[of q] by (cases "items q = {#}") auto

lemma pop_size: "heappop q = Inr (x, q') \<Longrightarrow> size (items q) = Suc (size (items q'))"
  by (simp add: pop_items)

text \<open>An event loop that pops the least element and pushes a later one never goes back in time.\<close>

lemma pop_push_least:
  assumes "heappop q = Inr (x, q')" "x \<le> y" "z \<in># items (heappush q' y)"
  shows "x \<le> z"
  using assms pop_least[OF assms(1), of z] pop_items[OF assms(1)] by (auto simp: items_push)

lemma top_least: "top q = Inr x \<Longrightarrow> y \<in># items q \<Longrightarrow> x \<le> y"
  using pop_least by (auto simp: top_pop rbind_eq_Inr)

end

section \<open>An ordered list\<close>

type_synonym 'a heap = "'a list"

definition heapify :: "'a::linorder list \<Rightarrow> 'a heap" where "heapify xs = sort xs"
definition heappush :: "'a::linorder heap \<Rightarrow> 'a \<Rightarrow> 'a heap" where "heappush q x = insort x q"

definition heappop :: "'a::linorder heap \<Rightarrow> ('a \<times> 'a heap) res" where
  "heappop q = (case sort q of [] \<Rightarrow> Inl IndexError | x # q' \<Rightarrow> Inr (x, q'))"

definition heap_top :: "'a::linorder heap \<Rightarrow> 'a res" where
  "heap_top q = (case sort q of [] \<Rightarrow> Inl IndexError | x # q' \<Rightarrow> Inr x)"

definition heapreplace :: "'a::linorder heap \<Rightarrow> 'a \<Rightarrow> ('a \<times> 'a heap) res" where
  "heapreplace q y = rbind (heappop q) (\<lambda>(x, q'). Inr (x, heappush q' y))"

interpretation hq: heap_queue heapify heap_top heappop heappush mset
proof
  fix xs :: "'a list" and q :: "'a heap" and x :: 'a
  show "mset (heapify xs) = mset xs" by (simp add: heapify_def)
  show "mset (heappush q x) = add_mset x (mset q)" by (simp add: heappush_def)
  show "heappop q = Inl IndexError" if "mset q = {#}" using that by (simp add: heappop_def)
  show "heap_top q = rbind (heappop q) (\<lambda>(x, q'). Inr x)"
    by (simp add: heap_top_def heappop_def split: list.splits)
  show "\<exists>x q'. heappop q = Inr (x, q') \<and> mset q = add_mset x (mset q') \<and> (\<forall>y \<in># mset q'. x \<le> y)"
    if "mset q \<noteq> {#}"
  proof -
    have "length (sort q) \<noteq> 0" using that by simp
    then obtain x q' where s: "sort q = x # q'" by (cases "sort q") simp_all
    then have "mset q = add_mset x (mset q')" by (metis mset.simps(2) mset_sort)
    moreover have "\<forall>y \<in> set q'. x \<le> y" using sorted_sort[of q] by (simp add: s)
    ultimately show ?thesis using s by (auto simp: heappop_def)
  qed
qed

lemma heappush_not_Nil [simp]: "heappush q x \<noteq> []" "length (heappush q x) = Suc (length q)"
  by (auto simp: heappush_def dest: arg_cong[where f = length])

lemma set_heappush [simp]: "set (heappush q x) = insert x (set q)"
  by (simp add: heappush_def set_insort_key)

lemma set_heapify [simp]: "set (heapify xs) = set xs" "length (heapify xs) = length xs"
  by (simp_all add: heapify_def)

lemma heappop_Cons: "q \<noteq> [] \<Longrightarrow> \<exists>x q'. heappop q = Inr (x, q')"
  using hq.pop_ok[of q] by auto

lemma heappop_set: "heappop q = Inr (x, q') \<Longrightarrow> set q = insert x (set q')"
  using hq.pop_items[of q x q'] by (metis set_mset_add_mset_insert set_mset_mset)

lemma heappop_mset: "heappop q = Inr (x, q') \<Longrightarrow> mset q = add_mset x (mset q')"
  by (rule hq.pop_items)

lemma heappop_least: "heappop q = Inr (x, q') \<Longrightarrow> y \<in> set q \<Longrightarrow> x \<le> y"
  using hq.pop_least[of q x q' y] by simp

lemma heap_top_eq: "heap_top q = Inr x \<longleftrightarrow> (\<exists>q'. heappop q = Inr (x, q'))"
  by (auto simp: hq.top_pop rbind_eq_Inr)

end
