(* ===== verification/PyRandom.thy ===== *)
theory PyRandom
  imports PyFloat
begin

text \<open>
  The module \<open>random\<close> as the sequence of its results: a state holds the values \<open>random.random ()\<close> will
  return and the raw draws behind \<open>randint\<close> and \<open>choice\<close>, each reduced to the range asked for.  Every
  sequence of legal results is the result of some such state; a state that has run out of draws is the
  error \<open>OutOfDraws\<close>, so a loop that needs more draws than it was given does not return a value.
\<close>

record rng =
  floats :: "flt list"
  raws :: "nat list"

definition random_random :: "rng \<Rightarrow> (flt \<times> rng) res" where
  "random_random g = (case floats g of [] \<Rightarrow> Inl OutOfDraws | u # us \<Rightarrow> Inr (u, g\<lparr>floats := us\<rparr>))"

definition randbelow :: "nat \<Rightarrow> rng \<Rightarrow> (nat \<times> rng) res" where
  "randbelow n g = (case raws g of [] \<Rightarrow> Inl OutOfDraws | d # ds \<Rightarrow> Inr (d mod n, g\<lparr>raws := ds\<rparr>))"

definition randint :: "int \<Rightarrow> int \<Rightarrow> rng \<Rightarrow> (int \<times> rng) res" where
  "randint a b g = (if b < a then Inl ValueError
     else rbind (randbelow (nat (b - a + 1)) g) (\<lambda>(k, g). Inr (a + int k, g)))"

definition choice :: "'a list \<Rightarrow> rng \<Rightarrow> ('a \<times> rng) res" where
  "choice xs g = (if xs = [] then Inl IndexError
     else rbind (randbelow (length xs) g) (\<lambda>(k, g). Inr (xs ! k, g)))"

definition draws_ok :: "rng \<Rightarrow> bool" where
  "draws_ok g = list_all (\<lambda>u. 0 \<le> u \<and> u < 1) (floats g)"

lemma random_random_Inr:
  "random_random g = Inr (u, g') \<longleftrightarrow> floats g = u # floats g' \<and> g' = g\<lparr>floats := floats g'\<rparr>"
  by (cases g; cases g') (auto simp: random_random_def split: list.splits)

lemma randint_range: "randint a b g = Inr (x, g') \<Longrightarrow> a \<le> x \<and> x \<le> b"
proof -
  assume "randint a b g = Inr (x, g')"
  then obtain d where d: "a \<le> b" "x = a + int (d mod nat (b - a + 1))"
    by (auto simp: randint_def randbelow_def rbind_eq_Inr split: if_splits list.splits)
  then have "d mod nat (b - a + 1) < nat (b - a + 1)" by (intro mod_less_divisor) simp
  then have "int (d mod nat (b - a + 1)) < b - a + 1" by (simp only: zless_nat_eq_int_zless)
  then show ?thesis using d by linarith
qed

lemma choice_mem: "choice xs g = Inr (x, g') \<Longrightarrow> x \<in> set xs"
  by (auto simp: choice_def randbelow_def rbind_eq_Inr split: if_splits list.splits)

lemma random_draws:
  "random_random g = Inr (u, g') \<Longrightarrow> Suc (length (floats g')) = length (floats g) \<and> raws g' = raws g"
  by (cases g) (auto simp: random_random_def split: list.splits)

lemma random_tl: "random_random g = Inr (u, g') \<Longrightarrow> floats g' = tl (floats g) \<and> raws g' = raws g"
  by (cases g) (auto simp: random_random_def split: list.splits)

lemma randint_draws:
  "randint a b g = Inr (x, g') \<Longrightarrow> floats g' = floats g \<and> Suc (length (raws g')) = length (raws g)"
  by (cases g) (auto simp: randint_def randbelow_def rbind_eq_Inr split: if_splits list.splits)

lemma choice_draws:
  "choice xs g = Inr (x, g') \<Longrightarrow> floats g' = floats g \<and> Suc (length (raws g')) = length (raws g)"
  by (cases g) (auto simp: choice_def randbelow_def rbind_eq_Inr split: if_splits list.splits)

lemma draws_ok_random: "draws_ok g \<Longrightarrow> random_random g = Inr (u, g') \<Longrightarrow> draws_ok g' \<and> 0 \<le> u \<and> u < 1"
  by (cases g) (auto simp: draws_ok_def random_random_def split: list.splits)

lemma draws_ok_floats: "floats g' = floats g \<Longrightarrow> draws_ok g' = draws_ok g"
  by (simp add: draws_ok_def)

lemma random_defined: "floats g \<noteq> [] \<Longrightarrow> \<exists>u g'. random_random g = Inr (u, g')"
  by (cases "floats g") (auto simp: random_random_def)

lemma randint_defined: "raws g \<noteq> [] \<Longrightarrow> a \<le> b \<Longrightarrow> \<exists>x g'. randint a b g = Inr (x, g')"
  by (cases "raws g") (auto simp: randint_def randbelow_def)

lemma choice_defined: "raws g \<noteq> [] \<Longrightarrow> xs \<noteq> [] \<Longrightarrow> \<exists>x g'. choice xs g = Inr (x, g')"
  by (cases "raws g") (auto simp: choice_def randbelow_def)

end
