(* ===== verification/TrafficGen.thy ===== *)
theory TrafficGen
  imports CustomRand PyFiles PyHeap PyRandom
begin

text \<open>
  \<open>traffic_gen/traffic_gen.py\<close>: the generator of flows between random hosts.  The options are strings,
  files a map from paths to contents, the results of \<open>random\<close> a state \<open>rng\<close>, and \<open>math.log\<close> a function
  \<open>mlog\<close>.  The main loop is one iteration \<open>gen_step\<close> (top of the heap, next arrival, destination drawn
  until it differs from the source, end of the host or a new flow) run until the heap is empty.

  The lemmas on \<open>gen_inv\<close> (every event at or after the base time, flows in order of time and never later
  than the events still in the heap, the counter equal to the number of flows) serve the three
  generators.  The theorems: the file written holds the header, the count and one line per flow, every
  flow has two different hosts, a size within the distribution and a start in order; with one host the
  loop never ends.
\<close>

section \<open>Flows and the parts of the script before the loop\<close>

record flow =
  f_src :: int
  f_dst :: int
  f_size :: int
  f_t :: flt

definition flow_str :: "flow \<Rightarrow> string" where
  "flow_str f = str_int (f_src f) @ '' '' @ str_int (f_dst f) @ '' 3 100 '' @ str_int (f_size f) @ '' '' @
     fmt_fixed 9 (f_t f)"

definition translate_bandwidth :: "string option \<Rightarrow> flt option res" where
  "translate_bandwidth b = (case b of None \<Rightarrow> Inr None
     | Some s \<Rightarrow> rbind (py_get s (- 1)) (\<lambda>c.
         if c = CHR ''G'' then rbind (py_float (butlast s)) (\<lambda>x. Inr (Some (fmul x 1000000000)))
         else if c = CHR ''M'' then rbind (py_float (butlast s)) (\<lambda>x. Inr (Some (fmul x 1000000)))
         else if c = CHR ''K'' then rbind (py_float (butlast s)) (\<lambda>x. Inr (Some (fmul x 1000)))
         else rbind (py_float s) (\<lambda>x. Inr (Some x))))"

definition poisson :: "(flt \<Rightarrow> flt) \<Rightarrow> flt \<Rightarrow> rng \<Rightarrow> (flt \<times> rng) res" where
  "poisson mlog lam g = rbind (random_random g) (\<lambda>(u, g). Inr (fmul (- mlog (fsub 1 u)) lam, g))"

definition base_t :: int where "base_t = 2000000000"

record gen_options =
  cdf_file :: string
  opt_nhost :: "string option"
  opt_load :: string
  opt_bandwidth :: string
  opt_time :: string
  opt_output :: string

definition gen_defaults :: gen_options where
  "gen_defaults = \<lparr>cdf_file = ''uniform_distribution.txt'', opt_nhost = None, opt_load = ''0.3'',
     opt_bandwidth = ''10G'', opt_time = ''10'', opt_output = ''tmp_traffic.txt''\<rparr>"

definition read_point :: "string \<Rightarrow> (flt \<times> flt) res" where
  "read_point line = rbind (rmap py_float (split_on sp (strip line)))
     (\<lambda>xs. case xs of [x, y] \<Rightarrow> Inr (x, y) | _ \<Rightarrow> Inl ValueError)"

definition read_cdf :: "string \<Rightarrow> cdf res" where
  "read_cdf text = rmap read_point (readlines text)"

definition load_distribution :: "cdf \<Rightarrow> custom_rand res" where
  "load_distribution c = rbind (setCdf new_custom_rand c) (\<lambda>(cr, ok). if ok then Inr cr else Inl (SysExit 0))"

definition avg_inter_arrival :: "flt \<Rightarrow> flt \<Rightarrow> flt \<Rightarrow> flt res" where
  "avg_inter_arrival bandwidth load avg =
     rbind (fdiv (fmul bandwidth load) 8) (\<lambda>a. rbind (fdiv a avg) (\<lambda>b. rbind (fdiv 1 b) (\<lambda>c.
       Inr (fmul c 1000000000))))"

definition n_flow_estimate :: "flt \<Rightarrow> flt \<Rightarrow> int \<Rightarrow> int res" where
  "n_flow_estimate time lam nhost =
     rbind (fdiv time lam) (\<lambda>q. Inr (py_trunc (fmul q (f_of_int nhost))))"

section \<open>The event loop\<close>

text \<open>The state of the loop: the heap of pairs (time of the next flow in ns, host), the flows so far, their
  counter and the random numbers.\<close>

record gen_state =
  g_heap :: "(int \<times> int) heap"
  g_flows :: "flow list"
  g_count :: int
  g_rng :: rng

text \<open>A start time in seconds, \<open>t * 1e-9\<close>.\<close>

definition secs :: "int \<Rightarrow> flt" where "secs t = fmul (f_of_int t) (rn (1 / 10 ^ 9))"

definition draw_size :: "custom_rand \<Rightarrow> rng \<Rightarrow> (int \<times> rng) res" where
  "draw_size cr g = rbind (random_random g) (\<lambda>(u, g). rbind (rand cr u) (\<lambda>v.
     case v of None \<Rightarrow> Inl TypeError
     | Some x \<Rightarrow> let size = py_trunc x in Inr (if size \<le> 0 then 1 else size, g)))"

text \<open>\<open>while (dst == src): dst = random.randint (0, nhost-1)\<close>.\<close>

function redraw_dst :: "int \<Rightarrow> int \<Rightarrow> int \<times> rng \<Rightarrow> (int \<times> rng) res" where
  "redraw_dst nhost src p = (if fst p \<noteq> src then Inr p
     else case randint 0 (nhost - 1) (snd p) of Inl e \<Rightarrow> Inl e | Inr p' \<Rightarrow> redraw_dst nhost src p')"
  by pat_completeness auto
termination
proof (relation "measure (\<lambda>(n, s, p). length (raws (snd p)))")
  fix nhost src :: int and p p' :: "int \<times> rng"
  assume "randint 0 (nhost - 1) (snd p) = Inr p'"
  then show "((nhost, src, p'), nhost, src, p) \<in> measure (\<lambda>(n, s, p). length (raws (snd p)))"
    using randint_draws[of 0 "nhost - 1" "snd p" "fst p'" "snd p'"] by simp
qed simp

declare redraw_dst.simps [simp del]

definition init_host :: "(flt \<Rightarrow> flt) \<Rightarrow> flt \<Rightarrow> (int \<times> int) list \<times> rng \<Rightarrow> int \<Rightarrow> ((int \<times> int) list \<times> rng) res" where
  "init_host mlog lam s i = rbind (poisson mlog lam (snd s)) (\<lambda>(p, g). Inr (fst s @ [(base_t + py_trunc p, i)], g))"

definition init_hosts :: "(flt \<Rightarrow> flt) \<Rightarrow> flt \<Rightarrow> int list \<Rightarrow> rng \<Rightarrow> gen_state res" where
  "init_hosts mlog lam is g = rbind (rfold (init_host mlog lam) ([], g) is) (\<lambda>(hosts, g).
     Inr \<lparr>g_heap = heapify hosts, g_flows = [], g_count = 0, g_rng = g\<rparr>)"

definition gen_step :: "(flt \<Rightarrow> flt) \<Rightarrow> custom_rand \<Rightarrow> flt \<Rightarrow> flt \<Rightarrow> int \<Rightarrow> gen_state \<Rightarrow> gen_state res" where
  "gen_step mlog cr lam time nhost s =
     rbind (heap_top (g_heap s)) (\<lambda>(t, src).
     rbind (poisson mlog lam (g_rng s)) (\<lambda>(p, g).
     let inter_t = py_trunc p in
     rbind (randint 0 (nhost - 1) g) (\<lambda>d.
     rbind (redraw_dst nhost src d) (\<lambda>(dst, g).
     if fadd time (f_of_int base_t) < of_int (t + inter_t) then
       rbind (heappop (g_heap s)) (\<lambda>(_, h). Inr (s\<lparr>g_heap := h, g_rng := g\<rparr>))
     else
       rbind (draw_size cr g) (\<lambda>(size, g).
       rbind (heapreplace (g_heap s) (t + inter_t, src)) (\<lambda>(_, h).
       Inr \<lparr>g_heap = h,
            g_flows = g_flows s @ [\<lparr>f_src = src, f_dst = dst, f_size = size, f_t = secs t\<rparr>],
            g_count = g_count s + 1, g_rng = g\<rparr>))))))"

lemma poisson_draws: "poisson mlog lam g = Inr (p, g') \<Longrightarrow> Suc (length (floats g')) = length (floats g) \<and> raws g' = raws g"
  by (auto simp: poisson_def rbind_eq_Inr dest: random_draws)

lemma draw_size_draws: "draw_size cr g = Inr (n, g') \<Longrightarrow> Suc (length (floats g')) = length (floats g) \<and> raws g' = raws g"
  by (auto simp: draw_size_def rbind_eq_Inr Let_def dest: random_draws split: option.splits)

lemma redraw_dst_floats: "redraw_dst nhost src p = Inr p' \<Longrightarrow> floats (snd p') = floats (snd p) \<and> fst p' \<noteq> src"
proof (induction nhost src p rule: redraw_dst.induct)
  case (1 nhost src p)
  show ?case
  proof (cases "fst p = src")
    case False
    then show ?thesis using "1.prems" by (simp add: redraw_dst.simps)
  next
    case True
    then obtain q where q: "randint 0 (nhost - 1) (snd p) = Inr q" "redraw_dst nhost src q = Inr p'"
      using "1.prems" by (auto simp: redraw_dst.simps[of nhost src p] split: sum.splits)
    then show ?thesis using "1.IH"[of q] True randint_draws[of 0 "nhost - 1" "snd p" "fst q" "snd q"] by simp
  qed
qed

lemma gen_step_draws:
  "gen_step mlog cr lam time nhost s = Inr s' \<Longrightarrow> length (floats (g_rng s')) < length (floats (g_rng s))"
  by (auto simp: gen_step_def rbind_eq_Inr Let_def
      dest!: poisson_draws draw_size_draws randint_draws redraw_dst_floats split: if_splits)

function gen_loop :: "(flt \<Rightarrow> flt) \<Rightarrow> custom_rand \<Rightarrow> flt \<Rightarrow> flt \<Rightarrow> int \<Rightarrow> gen_state \<Rightarrow> gen_state res" where
  "gen_loop mlog cr lam time nhost s = (if g_heap s = [] then Inr s
     else case gen_step mlog cr lam time nhost s of Inl e \<Rightarrow> Inl e | Inr s' \<Rightarrow> gen_loop mlog cr lam time nhost s')"
  by pat_completeness auto
termination
  by (relation "measure (\<lambda>(m, c, l, t, n, s). length (floats (g_rng s)))") (auto dest: gen_step_draws)

declare gen_loop.simps [simp del]

interpretation gl: res_loop "gen_loop mlog cr lam time nhost" "gen_step mlog cr lam time nhost"
  "\<lambda>s. g_heap s = []" "\<lambda>s. length (floats (g_rng s))" for mlog cr lam time nhost
proof
  show "gen_loop mlog cr lam time nhost s = (if g_heap s = [] then Inr s
      else rbind (gen_step mlog cr lam time nhost s) (gen_loop mlog cr lam time nhost))" for s
    by (subst gen_loop.simps) (simp add: rbind_def)
qed (rule gen_step_draws)

section \<open>The output file\<close>

definition header_cn :: string where
  "header_cn =
   ''# '' @ [CHR 0xE6, CHR 0xB5, CHR 0x81, CHR 0xE6, CHR 0xBA, CHR 0x90] @ ''IP '' @ [CHR 0xE7, CHR
   0x9B, CHR 0xAE, CHR 0xE7, CHR 0x9A, CHR 0x84] @ ''IP '' @ [CHR 0xE4, CHR 0xBC, CHR 0x98, CHR 0xE5,
   CHR 0x85, CHR 0x88, CHR 0xE7, CHR 0xBA, CHR 0xA7] @ ''pg '' @ [CHR 0xE7, CHR 0x9B, CHR 0xAE, CHR
   0xE7, CHR 0x9A, CHR 0x84, CHR 0xE7, CHR 0xAB, CHR 0xAF, CHR 0xE5, CHR 0x8F, CHR 0xA3] @ '' '' @ [CHR
   0xE6, CHR 0x95, CHR 0xB0, CHR 0xE6, CHR 0x8D, CHR 0xAE, CHR 0xE9, CHR 0x87, CHR 0x8F] @ ''(Bytes) ''
   @ [CHR 0xE6, CHR 0xB5, CHR 0x81, CHR 0xE5, CHR 0xBC, CHR 0x80, CHR 0xE5, CHR 0xA7, CHR 0x8B, CHR
   0xE6, CHR 0x97, CHR 0xB6, CHR 0xE9, CHR 0x97, CHR 0xB4] @ ''(s)'' @ [CHR 0x0A]"

definition header_en :: string where
  "header_en =
   ''# src '' @ [CHR 0x09, CHR 0x09] @ ''dst '' @ [CHR 0x09] @ ''pg    '' @ [CHR 0x09, CHR 0x09] @
   ''dport  '' @ [CHR 0x09] @ '' size'' @ [CHR 0x09, CHR 0x09, CHR 0x09, CHR 0x09] @ ''start_time'' @
   [CHR 0x0A]"

definition flow_line :: "flow \<Rightarrow> string" where "flow_line f = flow_str f @ [nl]"

definition flow_lines :: "gen_state \<Rightarrow> string list" where
  "flow_lines s = header_cn # header_en # (str_int (g_count s) @ [nl]) # map flow_line (g_flows s)"

definition output_path :: "string \<Rightarrow> string" where
  "output_path name = ''output_traffic_load/'' @ name"

definition gen_main :: "(flt \<Rightarrow> flt) \<Rightarrow> files \<Rightarrow> gen_options \<Rightarrow> rng \<Rightarrow> (files \<times> gen_state) res" where
  "gen_main mlog fs opts g =
     (case opt_nhost opts of None \<Rightarrow> Inl (SysExit 0) | Some n \<Rightarrow>
     if n = [] then Inl (SysExit 0) else
     rbind (py_int n) (\<lambda>nhost.
     rbind (py_float (opt_load opts)) (\<lambda>load.
     rbind (translate_bandwidth (Some (opt_bandwidth opts))) (\<lambda>bw.
     rbind (py_float (opt_time opts)) (\<lambda>tm.
     let time = fmul tm 1000000000 in
     (case bw of None \<Rightarrow> Inl (SysExit 0) | Some bandwidth \<Rightarrow>
     rbind (open_text fs (cdf_file opts)) (\<lambda>text.
     rbind (read_cdf text) (\<lambda>c.
     rbind (load_distribution c) (\<lambda>cr.
     rbind (getAvg cr) (\<lambda>avg.
     rbind (avg_inter_arrival bandwidth load avg) (\<lambda>lam.
     rbind (n_flow_estimate time lam nhost) (\<lambda>_.
     rbind (init_hosts mlog lam [0..nhost - 1] g) (\<lambda>s.
     rbind (gen_loop mlog cr lam time nhost s) (\<lambda>s.
     Inr (fs(output_path (opt_output opts) \<mapsto> concat (flow_lines s)), s)))))))))))))))"

section \<open>The invariant of the event loops\<close>

text \<open>\<open>ok\<close> is what a generator promises of each flow, \<open>host\<close> of each source in the heap.\<close>

definition gen_inv :: "(flow \<Rightarrow> bool) \<Rightarrow> (int \<Rightarrow> bool) \<Rightarrow> gen_state \<Rightarrow> bool" where
  "gen_inv ok host s =
     ((\<forall>e \<in> set (g_heap s). base_t \<le> fst e \<and> host (snd e)) \<and>
      (\<forall>f \<in> set (g_flows s). ok f \<and> (\<forall>e \<in> set (g_heap s). f_t f \<le> secs (fst e))) \<and>
      sorted (map f_t (g_flows s)) \<and> g_count s = int (length (g_flows s)))"

lemma secs_mono: "t \<le> t' \<Longrightarrow> secs t \<le> secs t'"
  unfolding secs_def fmul_def f_of_int_def by (intro rn_mono mult_right_mono rn_nonneg) auto

lemma gen_inv_drop:
  assumes "gen_inv ok host s" "heappop (g_heap s) = Inr (e, h)"
  shows "gen_inv ok host (s\<lparr>g_heap := h, g_rng := g\<rparr>)"
  using assms heappop_set[OF assms(2)] by (auto simp: gen_inv_def)

lemma gen_inv_emit:
  assumes inv: "gen_inv ok host s" and pop: "heappop (g_heap s) = Inr ((t, src), h)" and "0 \<le> i"
    and "ok \<lparr>f_src = src, f_dst = dst, f_size = sz, f_t = secs t\<rparr>"
  shows "gen_inv ok host \<lparr>g_heap = heappush h (t + i, src),
     g_flows = g_flows s @ [\<lparr>f_src = src, f_dst = dst, f_size = sz, f_t = secs t\<rparr>],
     g_count = g_count s + 1, g_rng = g\<rparr>"
proof -
  have old: "set (g_heap s) = insert (t, src) (set h)" by (rule heappop_set[OF pop])
  have "secs t \<le> secs (fst e)" if "e \<in> insert (t + i, src) (set h)" for e
  proof (rule secs_mono)
    show "t \<le> fst e"
      using that heappop_least[OF pop, of e] old assms(3) by (auto simp: less_eq_prod_def)
  qed
  moreover have "\<forall>f \<in> set (g_flows s). f_t f \<le> secs t" using inv old by (auto simp: gen_inv_def)
  ultimately show ?thesis using inv old assms(3,4)
    by (fastforce simp: gen_inv_def sorted_append)
qed

text \<open>What \<open>-log (1 - u) * lam\<close> gives.\<close>

definition log_ok :: "(flt \<Rightarrow> flt) \<Rightarrow> bool" where
  "log_ok mlog = (\<forall>x. 0 < x \<and> x \<le> 1 \<longrightarrow> mlog x \<le> 0)"

lemma fsub_1_range: "0 \<le> u \<Longrightarrow> u < 1 \<Longrightarrow> is_float u \<Longrightarrow> 0 < fsub 1 u \<and> fsub 1 u \<le> 1"
  using fsub_pos[of u 1] fsub_mono[of 0 u] rn_mono[of "1 - u" 1] rn_of_int[of 1]
  by (auto simp: is_float_def fsub_def)

section \<open>Files and lines\<close>

lemma flow_str_chars: "c \<in> set (flow_str f) \<Longrightarrow> c = sp \<or> \<not> is_ws c"
  by (auto simp: flow_str_def dest: str_int_no_ws fmt_fixed_no_ws) (auto simp: is_ws_def)

lemma nl_not_in [simp]: "nl \<notin> set (fmt_fixed k x)" "nl \<notin> set (flow_str f)"
  using fmt_fixed_no_ws[of nl k x] flow_str_chars[of nl f] by auto

lemma flow_lines_are_lines: "l \<in> set (flow_lines s) \<Longrightarrow> is_line l"
  by (auto simp: flow_lines_def flow_line_def is_line_def butlast_append header_cn_def header_en_def)

lemma flow_str_fields:
  "split_ws (flow_str f) = [str_int (f_src f), str_int (f_dst f), ''3'', ''100'', str_int (f_size f), fmt_fixed 9 (f_t f)]"
proof -
  have "flow_str f = join [sp] [str_int (f_src f), str_int (f_dst f), ''3'', ''100'', str_int (f_size f), fmt_fixed 9 (f_t f)]"
    by (simp add: flow_str_def)
  then show ?thesis
    by (simp only:, intro split_ws_join) (auto dest: str_int_no_ws fmt_fixed_no_ws sym[of "[]"] simp: is_ws_def)
qed


section \<open>The flows of a run\<close>

text \<open>A flow of this generator: two different hosts of the \<open>nhost\<close>, at least one byte and at most the
  largest size of the distribution, and a start between the base time and the end of the run.\<close>

definition flow_ok :: "int \<Rightarrow> flt \<Rightarrow> cdf \<Rightarrow> flow \<Rightarrow> bool" where
  "flow_ok nhost time c f =
     (0 \<le> f_src f \<and> f_src f < nhost \<and> 0 \<le> f_dst f \<and> f_dst f < nhost \<and> f_src f \<noteq> f_dst f \<and>
      1 \<le> f_size f \<and> of_int (f_size f) \<le> max 1 (fst (last c)) \<and>
      secs base_t \<le> f_t f \<and> f_t f \<le> secs \<lfloor>fadd time (f_of_int base_t)\<rfloor>)"

definition good_draws :: "rng \<Rightarrow> bool" where
  "good_draws g = list_all (\<lambda>u. 0 \<le> u \<and> u < 1 \<and> is_float u) (floats g)"

lemma good_draws_floats: "floats g' = floats g \<Longrightarrow> good_draws g' = good_draws g"
  by (simp add: good_draws_def)

lemma good_random:
  "good_draws g \<Longrightarrow> random_random g = Inr (u, g') \<Longrightarrow> good_draws g' \<and> 0 \<le> u \<and> u < 1 \<and> is_float u"
  by (cases g) (auto simp: good_draws_def random_random_def split: list.splits)

lemma poisson_good:
  assumes "log_ok mlog" "0 \<le> lam" "good_draws g" "poisson mlog lam g = Inr (p, g')"
  shows "good_draws g' \<and> 0 \<le> py_trunc p"
proof -
  obtain u where u: "random_random g = Inr (u, g')" and p: "p = fmul (- mlog (fsub 1 u)) lam"
    using assms(4) by (auto simp: poisson_def rbind_eq_Inr)
  have g': "good_draws g'" and r: "0 \<le> u" "u < 1" "is_float u" using good_random[OF assms(3) u] by auto
  have "0 < fsub 1 u \<and> fsub 1 u \<le> 1" by (rule fsub_1_range[OF r])
  then have "mlog (fsub 1 u) \<le> 0" using assms(1) unfolding log_ok_def by blast
  then have "0 \<le> p" using assms(2) unfolding p fmul_def
    by (intro f64.rnd_nonneg mult_nonneg_nonneg) auto
  with g' show ?thesis by (simp add: py_trunc_nonneg)
qed

text \<open>The distribution a run has loaded.\<close>

definition loaded :: "cdf \<Rightarrow> custom_rand \<Rightarrow> bool" where
  "loaded c cr = (setCdf new_custom_rand c = Inr (cr, True) \<and> float_cdf c \<and> byte_cdf c)"

lemma percent_range: "0 \<le> u \<Longrightarrow> u < 1 \<Longrightarrow> 0 \<le> fmul u 100 \<and> fmul u 100 \<le> 100"
  using rn_mono[of "u * 100" 100] rn_of_int[of 100] by (auto simp: fmul_def intro: f64.rnd_nonneg)

lemma draw_size_defined:
  assumes "loaded c cr" "good_draws g" "floats g \<noteq> []"
  shows "\<exists>n g'. draw_size cr g = Inr (n, g')"
proof -
  obtain u g' where u: "random_random g = Inr (u, g')" using random_defined[OF assms(3)] by blast
  with good_random[OF assms(2)] have "0 \<le> u" "u < 1" by auto
  with percent_range have "0 \<le> fmul u 100" "fmul u 100 \<le> 100" by auto
  with assms(1) value_size[of new_custom_rand c cr] show ?thesis
    by (fastforce simp: loaded_def draw_size_def u rand_def Let_def)
qed

lemma draw_size_good:
  assumes "loaded c cr" "good_draws g" "draw_size cr g = Inr (n, g')"
  shows "good_draws g' \<and> 1 \<le> n \<and> of_int n \<le> max 1 (fst (last c))"
proof -
  obtain u v where u: "random_random g = Inr (u, g')" and v: "rand cr u = Inr (Some v)"
    and n: "n = (if py_trunc v \<le> 0 then 1 else py_trunc v)"
    using assms(3) by (auto simp: draw_size_def rbind_eq_Inr Let_def split: option.splits)
  have g': "good_draws g'" and r: "0 \<le> fmul u 100" "fmul u 100 \<le> 100"
    using good_random[OF assms(2) u] percent_range by auto
  have ld: "setCdf new_custom_rand c = Inr (cr, True)" "float_cdf c" "byte_cdf c"
    using assms(1) by (auto simp: loaded_def)
  then have inc: "increasing c" using setCdf_True by (auto simp: valid_cdf_def)
  obtain i m where i: "in_segment c (fmul u 100) i" "fst (c ! Suc i) = of_int m" "py_trunc v \<le> m"
    by (rule value_size[OF ld r]) (use v in \<open>auto simp: rand_def\<close>)
  have "fst (c ! Suc i) \<le> fst (last c)" using i(1) by (intro increasing_ends(3)[OF inc]) (simp add: in_segment_def)
  moreover have "of_int (py_trunc v) \<le> fst (c ! Suc i)" using i(2,3) by simp
  ultimately show ?thesis using g' n by (auto simp: max_def)
qed

lemma redraw_dst_range:
  "redraw_dst nhost src p = Inr p' \<Longrightarrow> 0 \<le> fst p \<Longrightarrow> fst p < nhost \<Longrightarrow> 0 \<le> fst p' \<and> fst p' < nhost"
proof (induction nhost src p rule: redraw_dst.induct)
  case (1 nhost src p)
  show ?case
  proof (cases "fst p = src")
    case False
    then show ?thesis using "1.prems" by (simp add: redraw_dst.simps)
  next
    case True
    then obtain q where q: "randint 0 (nhost - 1) (snd p) = Inr q" "redraw_dst nhost src q = Inr p'"
      using "1.prems" by (auto simp: redraw_dst.simps[of nhost src p] split: sum.splits)
    then show ?thesis using "1.IH"[of q] True randint_range[of 0 "nhost - 1" "snd p" "fst q" "snd q"] by simp
  qed
qed

text \<open>The invariant of the loop with the draws still to come.\<close>

definition run_inv :: "(flow \<Rightarrow> bool) \<Rightarrow> (int \<Rightarrow> bool) \<Rightarrow> gen_state \<Rightarrow> bool" where
  "run_inv ok host s = (gen_inv ok host s \<and> good_draws (g_rng s))"

abbreviation is_host :: "int \<Rightarrow> int \<Rightarrow> bool" where
  "is_host nhost h \<equiv> 0 \<le> h \<and> h < nhost"

lemma time_ok:
  assumes "\<not> fadd time (f_of_int base_t) < of_int (t + i)" "0 \<le> i" "base_t \<le> t"
  shows "secs base_t \<le> secs t" "secs t \<le> secs \<lfloor>fadd time (f_of_int base_t)\<rfloor>"
proof -
  have "of_int (t + i) \<le> fadd time (f_of_int base_t)" using assms(1) by simp
  then have "t + i \<le> \<lfloor>fadd time (f_of_int base_t)\<rfloor>" by (simp add: le_floor_iff)
  with assms show "secs base_t \<le> secs t" "secs t \<le> secs \<lfloor>fadd time (f_of_int base_t)\<rfloor>"
    by (auto intro: secs_mono)
qed

lemma gen_step_inv:
  assumes "log_ok mlog" "0 \<le> lam" "loaded c cr"
    and inv: "run_inv (flow_ok nhost time c) (is_host nhost) s"
    and step: "gen_step mlog cr lam time nhost s = Inr s'"
  shows "run_inv (flow_ok nhost time c) (is_host nhost) s'"
proof -
  have gi: "gen_inv (flow_ok nhost time c) (is_host nhost) s" and dr: "good_draws (g_rng s)"
    using inv by (auto simp: run_inv_def)
  obtain t src p g1 d g2 dst g3 where top: "heap_top (g_heap s) = Inr (t, src)"
    and p: "poisson mlog lam (g_rng s) = Inr (p, g1)" and d: "randint 0 (nhost - 1) g1 = Inr (d, g2)"
    and dst: "redraw_dst nhost src (d, g2) = Inr (dst, g3)"
    and rest: "(if fadd time (f_of_int base_t) < of_int (t + py_trunc p) then
       rbind (heappop (g_heap s)) (\<lambda>(_, h). Inr (s\<lparr>g_heap := h, g_rng := g3\<rparr>))
     else rbind (draw_size cr g3) (\<lambda>(sz, g).
       rbind (heapreplace (g_heap s) (t + py_trunc p, src)) (\<lambda>(_, h).
       Inr \<lparr>g_heap = h, g_flows = g_flows s @ [\<lparr>f_src = src, f_dst = dst, f_size = sz, f_t = secs t\<rparr>],
            g_count = g_count s + 1, g_rng = g\<rparr>))) = Inr s'"
    using step by (auto simp: gen_step_def rbind_eq_Inr Let_def)
  obtain h where pop: "heappop (g_heap s) = Inr ((t, src), h)" using top by (auto simp: heap_top_eq)
  have i: "good_draws g1" "0 \<le> py_trunc p" using poisson_good[OF assms(1,2) dr p] by auto
  have g3: "good_draws g3" "dst \<noteq> src" using i(1) randint_draws[OF d] redraw_dst_floats[OF dst]
    by (auto simp: good_draws_def)
  have src: "is_host nhost src" "base_t \<le> t" using gi heappop_set[OF pop] by (auto simp: gen_inv_def)
  have dst_host: "is_host nhost dst" using redraw_dst_range[OF dst] randint_range[OF d] by auto
  show ?thesis
  proof (cases "fadd time (f_of_int base_t) < of_int (t + py_trunc p)")
    case True
    then show ?thesis using rest pop gen_inv_drop[OF gi pop] g3(1) by (auto simp: run_inv_def)
  next
    case late: False
    then obtain sz g where sz: "draw_size cr g3 = Inr (sz, g)" and s': "s' = \<lparr>g_heap = heappush h (t + py_trunc p, src),
        g_flows = g_flows s @ [\<lparr>f_src = src, f_dst = dst, f_size = sz, f_t = secs t\<rparr>],
        g_count = g_count s + 1, g_rng = g\<rparr>"
      using rest pop by (auto simp: rbind_eq_Inr heapreplace_def)
    have "flow_ok nhost time c \<lparr>f_src = src, f_dst = dst, f_size = sz, f_t = secs t\<rparr>"
      using draw_size_good[OF assms(3) g3(1) sz] time_ok[OF late i(2) src(2)] src dst_host g3(2)
      by (simp add: flow_ok_def)
    then show ?thesis using gen_inv_emit[OF gi pop i(2)] draw_size_good[OF assms(3) g3(1) sz]
      by (simp add: run_inv_def s')
  qed
qed

lemma init_hosts_inv:
  assumes "log_ok mlog" "0 \<le> lam" "good_draws g" "\<forall>i \<in> set is. host i"
    and "init_hosts mlog lam is g = Inr s"
  shows "run_inv ok host s"
proof -
  obtain hosts g' where f: "rfold (init_host mlog lam) ([], g) is = Inr (hosts, g')"
    and s: "s = \<lparr>g_heap = heapify hosts, g_flows = [], g_count = 0, g_rng = g'\<rparr>"
    using assms(5) by (auto simp: init_hosts_def rbind_eq_Inr)
  let ?I = "\<lambda>p. good_draws (snd p) \<and> (\<forall>e \<in> set (fst p). base_t \<le> fst e \<and> host (snd e))"
  have "?I (hosts, g')"
  proof (rule rfold_invariant[OF f])
    show "?I ([], g)" using assms(3) by simp
    show "?I p'" if "i \<in> set is" "?I p" "init_host mlog lam p i = Inr p'" for p i p'
      using that assms(4) poisson_good[OF assms(1,2), of "snd p"]
      by (auto simp: init_host_def rbind_eq_Inr)
  qed
  then show ?thesis by (auto simp: run_inv_def gen_inv_def s)
qed

lemma read_point_Inr:
  assumes "read_point l = Inr p"
  shows "rmap py_float (split_on sp (strip l)) = Inr [fst p, snd p]"
proof -
  obtain xs where xs: "rmap py_float (split_on sp (strip l)) = Inr xs"
    and p: "(case xs of [x, y] \<Rightarrow> Inr (x, y) | _ \<Rightarrow> Inl ValueError) = Inr p"
    using assms unfolding read_point_def rbind_eq_Inr by blast
  from p have "xs = [fst p, snd p]" by (cases xs rule: remdups_adj.cases) (auto split: list.split_asm)
  with xs show ?thesis by simp
qed

lemma read_cdf_float: "read_cdf text = Inr c \<Longrightarrow> float_cdf c"
proof -
  have fl: "is_float x" if "py_float s = Inr x" for s x
    using that by (auto simp: py_float_def Let_def split: prod.splits list.splits option.splits)
  assume "read_cdf text = Inr c"
  then have l: "rmap read_point (readlines text) = Inr c" by (simp add: read_cdf_def)
  have "is_float (fst (c ! i)) \<and> is_float (snd (c ! i))" if i: "i < length c" for i
  proof -
    have "read_point (readlines text ! i) = Inr (c ! i)"
      using rmap_nth[OF l] rmap_length[OF l] i by simp
    then have xs: "rmap py_float (split_on sp (strip (readlines text ! i))) = Inr [fst (c ! i), snd (c ! i)]"
      by (rule read_point_Inr)
    with rmap_nth[OF xs(1), of 0] rmap_nth[OF xs(1), of 1] rmap_length[OF xs(1)] show ?thesis
      by (auto intro: fl)
  qed
  then show ?thesis by (simp add: float_cdf_def list_all_length)
qed

lemma load_distribution_Inr: "load_distribution c = Inr cr \<longleftrightarrow> setCdf new_custom_rand c = Inr (cr, True)"
  by (auto simp: load_distribution_def rbind_eq_Inr split: if_splits)

lemma avg_inter_arrival_nonneg:
  "0 \<le> b \<Longrightarrow> 0 \<le> l \<Longrightarrow> 0 \<le> a \<Longrightarrow> avg_inter_arrival b l a = Inr lam \<Longrightarrow> 0 \<le> lam"
  unfolding avg_inter_arrival_def
  by (auto simp: rbind_eq_Inr fdiv_def fquo_def fmul_def split: if_splits
      intro!: f64.rnd_nonneg mult_nonneg_nonneg divide_nonneg_nonneg)

text \<open>The mean time between arrivals is not negative when the distribution and the options are not.\<close>

lemma lam_nonneg:
  assumes "load_distribution c = Inr cr" "float_cdf c" "byte_cdf c" "getAvg cr = Inr a" "0 \<le> b" "0 \<le> l"
    "avg_inter_arrival b l a = Inr lam"
  shows "loaded c cr" "0 \<le> lam"
proof -
  show "loaded c cr" using assms(1-3) by (simp add: loaded_def load_distribution_Inr)
  have v: "valid_cdf c" "rand_cdf cr = Some c" using setCdf_True assms(1) by (auto simp: load_distribution_Inr)
  then have "0 \<le> fst (hd c)" using assms(3) by (cases c) (auto simp: byte_cdf_def valid_cdf_def)
  then have "0 \<le> a" using getAvg_nonneg[OF v(2,1) _ assms(4)] by simp
  then show "0 \<le> lam" using avg_inter_arrival_nonneg assms(5-7) by blast
qed

text \<open>The options and files of a run that asks for a traffic it can generate.\<close>

definition sensible_run :: "files \<Rightarrow> string \<Rightarrow> string \<Rightarrow> string \<Rightarrow> cdf \<Rightarrow> bool" where
  "sensible_run fs cdf bw load c =
     (rbind (open_text fs cdf) read_cdf = Inr c \<and> byte_cdf c \<and>
      (case translate_bandwidth (Some bw) of Inr (Some b) \<Rightarrow> 0 \<le> b | _ \<Rightarrow> False) \<and>
      (case py_float load of Inr l \<Rightarrow> 0 \<le> l | _ \<Rightarrow> False))"

text \<open>C2. Every flow a successful run writes goes from one host to a different one, both among the hosts
  \<open>0..nhost-1\<close>, carries at least one byte and at most the largest size of the distribution, and starts
  between the base time (2 s) and the base time plus the duration asked for; the flows are written in
  the order of their start times, and the count written is their number.\<close>

theorem gen_flows_ok:
  assumes "gen_main mlog fs opts g = Inr (fs', s)" "log_ok mlog" "good_draws g"
    and "sensible_run fs (cdf_file opts) (opt_bandwidth opts) (opt_load opts) c"
    and "opt_nhost opts = Some n" "py_int n = Inr nhost" "py_float (opt_time opts) = Inr tm"
  shows "(\<forall>f \<in> set (g_flows s). flow_ok nhost (fmul tm 1000000000) c f) \<and>
    sorted (map f_t (g_flows s)) \<and> g_count s = int (length (g_flows s))"
proof -
  let ?time = "fmul tm 1000000000"
  obtain load b body cr avg lam s0 where p: "py_float (opt_load opts) = Inr load"
    "translate_bandwidth (Some (opt_bandwidth opts)) = Inr (Some b)" "open_text fs (cdf_file opts) = Inr body"
    "read_cdf body = Inr c" "load_distribution c = Inr cr" "getAvg cr = Inr avg"
    "avg_inter_arrival b load avg = Inr lam"
    and s0: "init_hosts mlog lam [0..nhost - 1] g = Inr s0" "gen_loop mlog cr lam ?time nhost s0 = Inr s"
    using assms(1,4-7)
    by (auto simp: gen_main_def sensible_run_def rbind_eq_Inr Let_def split: option.splits if_splits sum.splits)
  have bl: "0 \<le> b" "0 \<le> load" "byte_cdf c" using assms(4) p(1,2) by (auto simp: sensible_run_def)
  note lam = lam_nonneg[OF p(5) read_cdf_float[OF p(4)] bl(3) p(6) bl(1,2) p(7)]
  have "run_inv (flow_ok nhost ?time c) (is_host nhost) s0"
    by (rule init_hosts_inv[OF assms(2) lam(2) assms(3) _ s0(1)]) simp
  then have "run_inv (flow_ok nhost ?time c) (is_host nhost) s"
    using gl.run_invariant[OF s0(2), where I = "run_inv (flow_ok nhost ?time c) (is_host nhost)"]
      gen_step_inv[OF assms(2) lam(2,1)] by blast
  then show ?thesis by (simp add: run_inv_def gen_inv_def)
qed

section \<open>The loop ends\<close>

text \<open>The work left in a heap: each event counts one more than the nanoseconds to the end of the run, so
  ending a host or moving it to a later event makes it smaller.\<close>

definition event_work :: "flt \<Rightarrow> int \<times> int \<Rightarrow> nat" where
  "event_work time e = Suc (nat (\<lfloor>fadd time (f_of_int base_t)\<rfloor> + 1 - fst e))"

definition work :: "flt \<Rightarrow> (int \<times> int) heap \<Rightarrow> nat" where
  "work time h = sum_mset (image_mset (event_work time) (mset h))"

lemma work_pop: "heappop h = Inr (e, h') \<Longrightarrow> work time h = event_work time e + work time h'"
  by (simp add: work_def heappop_mset)

lemma work_push: "work time (heappush h e) = event_work time e + work time h"
  by (simp add: work_def hq.items_push)

lemma work_later:
  assumes "heappop h = Inr ((t, src), h')" "\<not> fadd time (f_of_int base_t) < of_int (t + i)" "1 \<le> i"
  shows "work time (heappush h' (t + i, src)) < work time h"
proof -
  have "of_int (t + i) \<le> fadd time (f_of_int base_t)" using assms(2) by simp
  then have "t + i \<le> \<lfloor>fadd time (f_of_int base_t)\<rfloor>" by (simp only: le_floor_iff)
  then have "event_work time (t + i, src) < event_work time (t, src)"
    using assms(3) by (simp add: event_work_def)
  then show ?thesis using work_pop[OF assms(1)] by (simp add: work_push)
qed

lemma work_drop: "heappop h = Inr (e, h') \<Longrightarrow> work time h' < work time h"
  by (simp add: work_pop event_work_def)

text \<open>Enough random numbers for \<open>k\<close> iterations: two of each kind per iteration, no arrival sooner than a
  nanosecond.\<close>

definition enough :: "(flt \<Rightarrow> flt) \<Rightarrow> flt \<Rightarrow> nat \<Rightarrow> rng \<Rightarrow> bool" where
  "enough mlog lam k g = (2 * k \<le> length (floats g) \<and> 2 * k \<le> length (raws g) \<and> good_draws g \<and>
     list_all (\<lambda>u. 1 \<le> py_trunc (fmul (- mlog (fsub 1 u)) lam)) (floats g))"

lemma enough_poisson:
  assumes "enough mlog lam k g" "0 < k"
  shows "\<exists>p g'. poisson mlog lam g = Inr (p, g') \<and> 1 \<le> py_trunc p \<and> floats g' = tl (floats g) \<and> raws g' = raws g"
  using assms by (cases "floats g") (auto simp: enough_def poisson_def random_random_def)

lemma enough_smaller:
  assumes "enough mlog lam k g" "k' < k" "length (floats g) \<le> length (floats g') + 2"
    "length (raws g) \<le> length (raws g') + 2" "set (floats g') \<subseteq> set (floats g)"
  shows "enough mlog lam k' g'"
  using assms by (auto simp: enough_def good_draws_def list_all_iff)

text \<open>For the rejection of destinations: no two consecutive draws name the same host.\<close>

definition alternating :: "int \<Rightarrow> rng \<Rightarrow> bool" where
  "alternating nhost g = successively (\<lambda>a b. a mod nat nhost \<noteq> b mod nat nhost) (raws g)"

lemma redraw_total:
  assumes "2 \<le> nhost" "alternating nhost g" "2 \<le> length (raws g)"
  shows "\<exists>d g1 dst g2. randint 0 (nhost - 1) g = Inr (d, g1) \<and> redraw_dst nhost src (d, g1) = Inr (dst, g2) \<and>
    floats g2 = floats g \<and> length (raws g) \<le> length (raws g2) + 2 \<and> alternating nhost g2"
proof -
  obtain a b ds where r: "raws g = a # b # ds" using assms(3) by (cases "raws g" rule: remdups_adj.cases) auto
  let ?n = "nat nhost"
  have draw: "randint 0 (nhost - 1) g' = Inr (int (x mod ?n), g'\<lparr>raws := xs\<rparr>)" if "raws g' = x # xs" for g' x xs
    using assms(1) that by (simp add: randint_def randbelow_def)
  have stop: "redraw_dst nhost src (d, g') = Inr (d, g')" if "d \<noteq> src" for d g'
    using that by (subst redraw_dst.simps) simp
  have neq: "a mod ?n \<noteq> b mod ?n" and alt: "alternating nhost (g\<lparr>raws := b # ds\<rparr>)" "alternating nhost (g\<lparr>raws := ds\<rparr>)"
    using assms(2) by (auto simp: alternating_def r successively_Cons)
  show ?thesis
  proof (cases "int (a mod ?n) = src")
    case False
    then show ?thesis using draw[OF r] stop[OF False] alt(1) by (simp add: r)
  next
    case True
    then have "int (b mod ?n) \<noteq> src" using neq by auto
    moreover have "redraw_dst nhost src (src, g\<lparr>raws := b # ds\<rparr>) =
        redraw_dst nhost src (int (b mod ?n), g\<lparr>raws := ds\<rparr>)"
      using draw[of "g\<lparr>raws := b # ds\<rparr>" b ds] by (subst redraw_dst.simps) simp
    ultimately show ?thesis using draw[OF r] True alt(2) stop by (simp add: r)
  qed
qed

lemma gen_step_total:
  assumes "loaded c cr" "2 \<le> nhost" "g_heap s \<noteq> []"
    and sup: "enough mlog lam (work time (g_heap s)) (g_rng s)" and alt: "alternating nhost (g_rng s)"
  shows "\<exists>s'. gen_step mlog cr lam time nhost s = Inr s' \<and>
    enough mlog lam (work time (g_heap s')) (g_rng s') \<and> alternating nhost (g_rng s')"
proof -
  let ?g = "g_rng s"
  obtain t src h where pop: "heappop (g_heap s) = Inr ((t, src), h)" using heappop_Cons[OF assms(3)] by auto
  then have top: "heap_top (g_heap s) = Inr (t, src)" by (auto simp: heap_top_eq)
  have k: "0 < work time (g_heap s)" using work_drop[OF pop, of time] by simp
  obtain p g1 where p: "poisson mlog lam ?g = Inr (p, g1)" "1 \<le> py_trunc p" "floats g1 = tl (floats ?g)" "raws g1 = raws ?g"
    using enough_poisson[OF sup k] by blast
  have l: "2 \<le> length (floats ?g)" "2 \<le> length (raws g1)" "alternating nhost g1" "good_draws ?g"
    using sup k alt p(4) by (auto simp: enough_def alternating_def)
  obtain d g2 dst g3 where r: "randint 0 (nhost - 1) g1 = Inr (d, g2)" "redraw_dst nhost src (d, g2) = Inr (dst, g3)"
    "floats g3 = floats g1" "length (raws g1) \<le> length (raws g3) + 2" "alternating nhost g3"
    using redraw_total[OF assms(2) l(3,2)] by blast
  have sub: "set (floats g3) \<subseteq> set (floats ?g)" using p(3) r(3) set_tl by simp
  show ?thesis
  proof (cases "fadd time (f_of_int base_t) < of_int (t + py_trunc p)")
    case True
    have "enough mlog lam (work time h) g3"
      by (rule enough_smaller[OF sup work_drop[OF pop]]) (use p(3,4) r(3,4) sub in auto)
    then show ?thesis using True top p(1) r(1,2,5) pop by (simp add: gen_step_def)
  next
    case late: False
    have "good_draws g3" using l(4) sub by (auto simp: good_draws_def list_all_iff)
    moreover have "floats g3 \<noteq> []" using l(1) p(3) r(3) by (cases "floats ?g") auto
    ultimately obtain sz g4 where sz: "draw_size cr g3 = Inr (sz, g4)" using draw_size_defined[OF assms(1)] by blast
    then have g4: "floats g4 = tl (floats g3)" "raws g4 = raws g3"
      by (auto simp: draw_size_def rbind_eq_Inr Let_def dest: random_tl split: option.splits)
    have "enough mlog lam (work time (heappush h (t + py_trunc p, src))) g4"
      by (rule enough_smaller[OF sup work_later[OF pop late p(2)]])
        (use p(3,4) r(3,4) g4 sub set_tl[of "floats g3"] in auto)
    then show ?thesis using late top p(1) r(1,2,5) pop sz g4(2)
      by (simp add: gen_step_def heapreplace_def alternating_def)
  qed
qed


text \<open>C38. With a single host the destination can never differ from the source: whatever the random
  numbers, the loop ends only when they are exhausted, so the program does not return.\<close>

theorem gen_one_host:
  assumes "g_heap s = [(t, 0)]"
  shows "gen_loop mlog cr lam time 1 s = Inl OutOfDraws"
proof -
  have red: "redraw_dst 1 0 (0, g) = Inl OutOfDraws" for g
  proof (induction "raws g" arbitrary: g)
    case Nil
    then show ?case by (subst redraw_dst.simps) (simp add: randint_def randbelow_def Nil[symmetric])
  next
    case (Cons d ds)
    then show ?case by (subst redraw_dst.simps) (simp add: randint_def randbelow_def Cons(2)[symmetric])
  qed
  have "gen_step mlog cr lam time 1 s = Inl OutOfDraws"
    using assms by (cases "g_rng s")
      (auto simp: gen_step_def heap_top_def poisson_def random_random_def randint_def randbelow_def red
        Let_def split: list.splits)
  then show ?thesis using assms by (subst gen_loop.simps) simp
qed

section \<open>A run on concrete input\<close>

text \<open>Two hosts for a second, flow sizes up to 1600 bytes; \<open>x - 1\<close> stands for the logarithm.  Every number
  of the run is representable, so the simplifier evaluates it.\<close>

definition ex_cdf :: cdf where "ex_cdf = [(0, 0), (1600, 100)]"

definition ex_files :: files where
  "ex_files = [''cdf.txt'' \<mapsto> ''0 0'' @ [nl] @ ''1600 100'' @ [nl]]"

definition ex_options :: gen_options where
  "ex_options = gen_defaults\<lparr>cdf_file := ''cdf.txt'', opt_nhost := Some ''2'', opt_load := ''1'',
     opt_bandwidth := ''6400'', opt_time := ''1''\<rparr>"

definition ex_rng :: rng where
  "ex_rng = \<lparr>floats = replicate 8 (1 / 2), raws = [0, 1, 0, 1, 0, 1, 0, 1]\<rparr>"

definition ex_log :: "flt \<Rightarrow> flt" where "ex_log x = x - 1"

definition ex_state :: gen_state where
  "ex_state = \<lparr>g_heap = [(2500000000, 0), (2500000000, 1)], g_flows = [], g_count = 0,
     g_rng = \<lparr>floats = replicate 6 (1 / 2), raws = [0, 1, 0, 1, 0, 1, 0, 1]\<rparr>\<rparr>"

definition ex_flows :: "flow list" where
  "ex_flows = [\<lparr>f_src = 0, f_dst = 1, f_size = 800, f_t = secs 2500000000\<rparr>,
     \<lparr>f_src = 1, f_dst = 0, f_size = 800, f_t = secs 2500000000\<rparr>]"

definition ex_final :: gen_state where
  "ex_final = \<lparr>g_heap = [], g_flows = ex_flows, g_count = 2, g_rng = \<lparr>floats = [], raws = [1, 0, 1]\<rparr>\<rparr>"

lemma ex_log_ok: "log_ok ex_log"
  by (simp add: log_ok_def ex_log_def)

lemma ex_draws: "good_draws ex_rng"
  by (simp add: good_draws_def ex_rng_def is_float_def rn_fractions list_all_iff)

lemma ex_options_parse:
  "py_int ''2'' = Inr 2" "py_float ''1'' = Inr 1" "translate_bandwidth (Some ''6400'') = Inr (Some 6400)"
  "read_cdf (''0 0'' @ [nl] @ ''1600 100'' @ [nl]) = Inr ex_cdf"
  by code_simp+

lemma ex_loaded: "load_distribution ex_cdf = Inr \<lparr>rand_cdf = Some ex_cdf\<rparr>" "byte_cdf ex_cdf" "float_cdf ex_cdf"
  by code_simp+

lemma ex_sensible: "sensible_run ex_files (cdf_file ex_options) (opt_bandwidth ex_options) (opt_load ex_options) ex_cdf"
  using ex_options_parse ex_loaded by (simp add: sensible_run_def ex_options_def ex_files_def open_text_def)

lemmas gen_eval = gen_step_def heap_top_def poisson_def random_random_def ex_log_def
  flt_defs py_trunc_def float_eval base_t_def numeral_eq_Suc randint_def randbelow_def redraw_dst.simps
  draw_size_def rand_def getValueFromPercentile_def get_cdf_def interpolate_def heapreplace_def heappop_def
  heappush_def fdiv_def heapify_def

lemma ex_init: "init_hosts ex_log 1000000000 [0..1] ex_rng = Inr ex_state"
  by (simp add: init_hosts_def init_host_def upto.simps gen_eval ex_rng_def ex_state_def)

lemma ex_loop: "gen_loop ex_log \<lparr>rand_cdf = Some ex_cdf\<rparr> 1000000000 1000000000 2 ex_state = Inr ex_final"
  by (simp add: gen_loop.simps gen_eval ex_state_def ex_cdf_def ex_final_def ex_flows_def)

lemma ex_times:
  "getAvg \<lparr>rand_cdf = Some ex_cdf\<rparr> = Inr 800" "avg_inter_arrival 6400 1 800 = Inr 1000000000"
  "fmul 1 1000000000 = 1000000000" "n_flow_estimate 1000000000 1000000000 2 = Inr 2"
  by (simp_all add: getAvg_def avg_inter_arrival_def n_flow_estimate_def gen_eval ex_cdf_def)

lemma ex_main:
  "gen_main ex_log ex_files ex_options ex_rng =
     Inr (ex_files(output_path ''tmp_traffic.txt'' \<mapsto> concat (flow_lines ex_final)), ex_final)"
  using ex_options_parse ex_loaded(1) ex_init ex_loop ex_times
  by (simp add: gen_main_def ex_options_def gen_defaults_def open_text_def ex_files_def)


theorem gen_flows_ok_witness:
  "flow_ok 2 1000000000 ex_cdf (ex_flows ! 0) \<and> flow_ok 2 1000000000 ex_cdf (ex_flows ! 1) \<and> sorted (map f_t ex_flows)"
proof -
  have o: "opt_nhost ex_options = Some ''2''" "opt_time ex_options = ''1''"
    by (simp_all add: ex_options_def gen_defaults_def)
  show ?thesis
    using gen_flows_ok[OF ex_main ex_log_ok ex_draws ex_sensible o(1)] o(2) ex_options_parse(1,2) ex_times(3)
    by (simp add: ex_final_def ex_flows_def)
qed

theorem gen_one_host_witness:
  "gen_loop ex_log \<lparr>rand_cdf = Some ex_cdf\<rparr> 1000000000 1000000000 1 (ex_state\<lparr>g_heap := [(2500000000, 0)]\<rparr>) = Inl OutOfDraws"
  by (rule gen_one_host) simp


end
