(* ===== verification/InterDC.thy ===== *)
theory InterDC
  imports TrafficGen
begin

text \<open>
  \<open>traffic_gen/traffic_gen_only_for_interDC.py\<close>: the generator of flows between hosts of different data
  centres.  Hosts are numbered data centre by data centre, so the data centre of a host is its number
  divided by the hosts per data centre.  The class \<open>Flow\<close>, the bandwidth parser, \<open>poisson\<close> and the
  preparation are the same code as in \<open>traffic_gen.py\<close>; the loop pops an event first and pushes the
  next one only when it lies within the run.  The branch for \<open>dc_count\<close> being \<open>None\<close> cannot be reached:
  the option has a default and is converted by \<open>int\<close>.

  The theorems: the endpoints of every flow lie in different data centres; the loop returns when there
  are two data centres or more; with a single one the first flow raises an \<open>IndexError\<close>.
\<close>

section \<open>The script\<close>

definition flow_str_interDC :: "flow \<Rightarrow> string" where "flow_str_interDC = flow_str"

definition translate_bandwidth_interDC :: "string option \<Rightarrow> flt option res" where
  "translate_bandwidth_interDC = translate_bandwidth"

definition poisson_interDC :: "(flt \<Rightarrow> flt) \<Rightarrow> flt \<Rightarrow> rng \<Rightarrow> (flt \<times> rng) res" where
  "poisson_interDC = poisson"

record inter_options = gen_options +
  opt_dc_count :: string
  opt_dc_nnodes :: "string option"

definition inter_defaults :: inter_options where
  "inter_defaults = gen_options.extend gen_defaults \<lparr>opt_dc_count = ''1'', opt_dc_nnodes = None\<rparr>"

definition py_floordiv :: "int \<Rightarrow> int \<Rightarrow> int res" where
  "py_floordiv a b = (if b = 0 then Inl ZeroDivisionError else Inr (a div b))"

text \<open>\<open>xs.remove (x)\<close>.\<close>

definition py_remove :: "'a \<Rightarrow> 'a list \<Rightarrow> 'a list res" where
  "py_remove x xs = (if x \<in> set xs then Inr (remove1 x xs) else Inl ValueError)"

definition inter_step :: "(flt \<Rightarrow> flt) \<Rightarrow> custom_rand \<Rightarrow> flt \<Rightarrow> flt \<Rightarrow> int \<Rightarrow> int \<Rightarrow> gen_state \<Rightarrow> gen_state res" where
  "inter_step mlog cr lam time dc_count dc_nnodes s =
     rbind (heappop (g_heap s)) (\<lambda>((t, src), h).
     rbind (poisson_interDC mlog lam (g_rng s)) (\<lambda>(p, g).
     let next_t = t + py_trunc p in
     if fadd time (f_of_int base_t) < of_int next_t then Inr (s\<lparr>g_heap := h, g_rng := g\<rparr>)
     else
       rbind (py_floordiv src dc_nnodes) (\<lambda>src_dc.
       rbind (py_remove src_dc [0..dc_count - 1]) (\<lambda>other_dcs.
       rbind (choice other_dcs g) (\<lambda>(dst_dc, g).
       rbind (randint (dst_dc * dc_nnodes) ((dst_dc + 1) * dc_nnodes - 1) g) (\<lambda>(dst, g).
       rbind (draw_size cr g) (\<lambda>(size, g).
       Inr \<lparr>g_heap = heappush h (next_t, src),
            g_flows = g_flows s @ [\<lparr>f_src = src, f_dst = dst, f_size = size, f_t = secs t\<rparr>],
            g_count = g_count s + 1, g_rng = g\<rparr>)))))))"

lemma inter_step_draws:
  "inter_step mlog cr lam time d n s = Inr s' \<Longrightarrow> length (floats (g_rng s')) < length (floats (g_rng s))"
  by (auto simp: inter_step_def poisson_interDC_def rbind_eq_Inr Let_def
      dest!: poisson_draws draw_size_draws randint_draws choice_draws split: if_splits)

function inter_loop :: "(flt \<Rightarrow> flt) \<Rightarrow> custom_rand \<Rightarrow> flt \<Rightarrow> flt \<Rightarrow> int \<Rightarrow> int \<Rightarrow> gen_state \<Rightarrow> gen_state res" where
  "inter_loop mlog cr lam time d n s = (if g_heap s = [] then Inr s
     else case inter_step mlog cr lam time d n s of Inl e \<Rightarrow> Inl e | Inr s' \<Rightarrow> inter_loop mlog cr lam time d n s')"
  by pat_completeness auto
termination
  by (relation "measure (\<lambda>(m, c, l, t, d, n, s). length (floats (g_rng s)))") (auto dest: inter_step_draws)

declare inter_loop.simps [simp del]

interpretation il: res_loop "inter_loop mlog cr lam time d n" "inter_step mlog cr lam time d n"
  "\<lambda>s. g_heap s = []" "\<lambda>s. length (floats (g_rng s))" for mlog cr lam time d n
proof
  show "inter_loop mlog cr lam time d n s = (if g_heap s = [] then Inr s
      else rbind (inter_step mlog cr lam time d n s) (inter_loop mlog cr lam time d n))" for s
    by (subst inter_loop.simps) (simp add: rbind_def)
qed (rule inter_step_draws)

definition inter_main :: "(flt \<Rightarrow> flt) \<Rightarrow> files \<Rightarrow> inter_options \<Rightarrow> rng \<Rightarrow> (files \<times> gen_state) res" where
  "inter_main mlog fs opts g =
     rbind (py_int (opt_dc_count opts)) (\<lambda>dc_count.
     (case opt_dc_nnodes opts of None \<Rightarrow> Inl (SysExit 1) | Some m \<Rightarrow>
     if m = [] then Inl (SysExit 1) else
     rbind (py_int m) (\<lambda>dc_nnodes.
     let nhost = dc_count * dc_nnodes in
     rbind (py_float (opt_load opts)) (\<lambda>load.
     rbind (translate_bandwidth_interDC (Some (opt_bandwidth opts))) (\<lambda>bw.
     rbind (py_float (opt_time opts)) (\<lambda>tm.
     let time = fmul tm 1000000000 in
     (case bw of None \<Rightarrow> Inl (SysExit 0) | Some bandwidth \<Rightarrow>
     rbind (open_text fs (cdf_file opts)) (\<lambda>text.
     rbind (read_cdf text) (\<lambda>c.
     rbind (load_distribution c) (\<lambda>cr.
     rbind (getAvg cr) (\<lambda>avg.
     rbind (avg_inter_arrival bandwidth load avg) (\<lambda>lam.
     rbind (n_flow_estimate time lam nhost) (\<lambda>_.
     rbind (init_hosts mlog lam [0..nhost - 1] g) (\<lambda>s.
     rbind (inter_loop mlog cr lam time dc_count dc_nnodes s) (\<lambda>s.
     Inr (fs(output_path (opt_output opts) \<mapsto> concat (flow_lines s)), s))))))))))))))))"

section \<open>The endpoints of the flows\<close>

text \<open>Both ends are hosts, and their data centres differ.\<close>

definition inter_ok :: "int \<Rightarrow> int \<Rightarrow> flt \<Rightarrow> cdf \<Rightarrow> flow \<Rightarrow> bool" where
  "inter_ok dc_count dc_nnodes time c f =
     (flow_ok (dc_count * dc_nnodes) time c f \<and>
      f_src f div dc_nnodes \<noteq> f_dst f div dc_nnodes \<and>
      0 \<le> f_src f div dc_nnodes \<and> f_src f div dc_nnodes < dc_count \<and>
      0 \<le> f_dst f div dc_nnodes \<and> f_dst f div dc_nnodes < dc_count)"

lemma host_in_dc:
  assumes "d * n \<le> (x :: int)" "x \<le> (d + 1) * n - 1" "0 < n"
  shows "x div n = d"
  using assms by (intro int_div_pos_eq[of x n d "x - d * n"]) (auto simp: algebra_simps)

lemma dc_range:
  assumes "0 \<le> (d :: int)" "d < k" "d * n \<le> x" "x \<le> (d + 1) * n - 1" "0 < n"
  shows "0 \<le> x" "x < k * n"
proof -
  have "0 \<le> d * n" "(d + 1) * n \<le> k * n" using assms by (auto intro: mult_right_mono)
  with assms show "0 \<le> x" "x < k * n" by linarith+
qed

lemma dc_of_host:
  assumes "0 < (n :: int)" "0 \<le> h" "h < d * n"
  shows "0 \<le> h div n" "h div n < d"
proof -
  have "h div n * n \<le> h" using assms(1) by (simp add: minus_mod_eq_div_mult[symmetric])
  then have "h div n * n < d * n" using assms(3) by linarith
  with assms(1,2) show "0 \<le> h div n" "h div n < d" by (auto simp: pos_imp_zdiv_nonneg_iff)
qed

lemma inter_step_inv:
  assumes "log_ok mlog" "0 \<le> lam" "loaded c cr" "0 < n"
    and inv: "run_inv (inter_ok d n time c) (is_host (d * n)) s"
    and step: "inter_step mlog cr lam time d n s = Inr s'"
  shows "run_inv (inter_ok d n time c) (is_host (d * n)) s'"
proof -
  have gi: "gen_inv (inter_ok d n time c) (is_host (d * n)) s" and dr: "good_draws (g_rng s)"
    using inv by (auto simp: run_inv_def)
  obtain t src h p g1 where pop: "heappop (g_heap s) = Inr ((t, src), h)"
    and p: "poisson mlog lam (g_rng s) = Inr (p, g1)"
    using step by (auto simp: inter_step_def poisson_interDC_def rbind_eq_Inr)
  have i: "good_draws g1" "0 \<le> py_trunc p" using poisson_good[OF assms(1,2) dr p] by auto
  have src: "is_host (d * n) src" "base_t \<le> t" using gi heappop_set[OF pop] by (auto simp: gen_inv_def)
  have sdc: "0 \<le> src div n" "src div n < d"
    using src(1) dc_of_host[OF assms(4)] by auto
  show ?thesis
  proof (cases "fadd time (f_of_int base_t) < of_int (t + py_trunc p)")
    case True
    then show ?thesis using step pop p gen_inv_drop[OF gi pop] i(1)
      by (auto simp: inter_step_def poisson_interDC_def run_inv_def)
  next
    case late: False
    then obtain others dd g2 dst g3 sz g where
      others: "py_remove (src div n) [0..d - 1] = Inr others" and dd: "choice others g1 = Inr (dd, g2)"
      and dst: "randint (dd * n) ((dd + 1) * n - 1) g2 = Inr (dst, g3)" and sz: "draw_size cr g3 = Inr (sz, g)"
      and s': "s' = \<lparr>g_heap = heappush h (t + py_trunc p, src),
        g_flows = g_flows s @ [\<lparr>f_src = src, f_dst = dst, f_size = sz, f_t = secs t\<rparr>],
        g_count = g_count s + 1, g_rng = g\<rparr>"
      using step pop p assms(4)
      by (auto simp: inter_step_def poisson_interDC_def rbind_eq_Inr Let_def py_floordiv_def)
    have g3: "good_draws g3" using i(1) randint_draws[OF dst] choice_draws[OF dd] by (simp add: good_draws_def)
    have "dd \<in> set [0..d - 1]" "dd \<noteq> src div n"
      using choice_mem[OF dd] others by (auto simp: py_remove_def split: if_splits)
    then have dd': "0 \<le> dd" "dd < d" "dd \<noteq> src div n" by auto
    have r: "dd * n \<le> dst" "dst \<le> (dd + 1) * n - 1" using randint_range[OF dst] by auto
    have "inter_ok d n time c \<lparr>f_src = src, f_dst = dst, f_size = sz, f_t = secs t\<rparr>"
      using draw_size_good[OF assms(3) g3 sz] time_ok[OF late i(2) src(2)] src(1) sdc dd'
        host_in_dc[OF r assms(4)] dc_range[OF dd'(1,2) r assms(4)]
      by (auto simp: inter_ok_def flow_ok_def)
    then show ?thesis using gen_inv_emit[OF gi pop i(2)] draw_size_good[OF assms(3) g3 sz]
      by (simp add: run_inv_def s')
  qed
qed

text \<open>C1. Every flow a successful run writes joins hosts of two different data centres out of the
  \<open>dc_count\<close>, both hosts numbered within the run, with a size and a start as promised, and the flows
  are written in the order of their start times.\<close>

theorem inter_flows_ok:
  assumes "inter_main mlog fs opts g = Inr (fs', s)" "log_ok mlog" "good_draws g"
    and "sensible_run fs (cdf_file opts) (opt_bandwidth opts) (opt_load opts) c"
    and "py_int (opt_dc_count opts) = Inr d" "opt_dc_nnodes opts = Some m" "py_int m = Inr n" "0 < n"
    and "py_float (opt_time opts) = Inr tm"
  shows "(\<forall>f \<in> set (g_flows s). inter_ok d n (fmul tm 1000000000) c f) \<and>
    sorted (map f_t (g_flows s)) \<and> g_count s = int (length (g_flows s))"
proof -
  let ?time = "fmul tm 1000000000"
  obtain load b body cr avg lam s0 where p: "py_float (opt_load opts) = Inr load"
    "translate_bandwidth (Some (opt_bandwidth opts)) = Inr (Some b)" "open_text fs (cdf_file opts) = Inr body"
    "read_cdf body = Inr c" "load_distribution c = Inr cr" "getAvg cr = Inr avg"
    "avg_inter_arrival b load avg = Inr lam"
    and s0: "init_hosts mlog lam [0..d * n - 1] g = Inr s0" "inter_loop mlog cr lam ?time d n s0 = Inr s"
    using assms(1,4-9)
    by (auto simp: inter_main_def translate_bandwidth_interDC_def sensible_run_def rbind_eq_Inr Let_def
        split: option.splits if_splits sum.splits)
  have bl: "0 \<le> b" "0 \<le> load" "byte_cdf c" using assms(4) p(1,2) by (auto simp: sensible_run_def)
  note lam = lam_nonneg[OF p(5) read_cdf_float[OF p(4)] bl(3) p(6) bl(1,2) p(7)]
  have "run_inv (inter_ok d n ?time c) (is_host (d * n)) s0"
    by (rule init_hosts_inv[OF assms(2) lam(2) assms(3) _ s0(1)]) simp
  then have "run_inv (inter_ok d n ?time c) (is_host (d * n)) s"
    using il.run_invariant[OF s0(2), where I = "run_inv (inter_ok d n ?time c) (is_host (d * n))"]
      inter_step_inv[OF assms(2) lam(2,1) assms(8)] by blast
  then show ?thesis by (simp add: run_inv_def gen_inv_def)
qed

text \<open>With draws left for the work that is to be done, an iteration succeeds and leaves enough for the rest.\<close>

definition has_draws :: "(flt \<Rightarrow> flt) \<Rightarrow> flt \<Rightarrow> flt \<Rightarrow> int \<Rightarrow> int \<Rightarrow> gen_state \<Rightarrow> bool" where
  "has_draws mlog lam time d n s = (enough mlog lam (work time (g_heap s)) (g_rng s) \<and> (\<forall>e \<in> set (g_heap s). is_host (d * n) (snd e)))"

lemma inter_step_runs:
  assumes loaded: "loaded c cr" and d: "2 \<le> d" and n: "0 < n" and inv: "has_draws mlog lam time d n s" and ne: "g_heap s \<noteq> []"
  shows "\<exists>s'. inter_step mlog cr lam time d n s = Inr s' \<and> has_draws mlog lam time d n s'"
proof -
  let ?g = "g_rng s"
  obtain t src h where pop: "heappop (g_heap s) = Inr ((t, src), h)" using heappop_Cons[OF ne] by auto
  have sup: "enough mlog lam (work time (g_heap s)) ?g" and hosts: "is_host (d * n) src" "\<forall>e \<in> set h. is_host (d * n) (snd e)"
    using inv[unfolded has_draws_def] heappop_set[OF pop] by auto
  have k: "0 < work time (g_heap s)" using work_drop[OF pop, of time] by simp
  obtain p g1 where p: "poisson mlog lam ?g = Inr (p, g1)" "1 \<le> py_trunc p" "floats g1 = tl (floats ?g)" "raws g1 = raws ?g"
    using enough_poisson[OF sup k] by blast
  have l: "2 \<le> length (floats ?g)" "2 \<le> length (raws ?g)" "good_draws ?g"
    using sup k by (auto simp: enough_def)
  show ?thesis
  proof (cases "fadd time (f_of_int base_t) < of_int (t + py_trunc p)")
    case True
    have "enough mlog lam (work time h) g1"
      by (rule enough_smaller[OF sup work_drop[OF pop]]) (use p(3,4) set_tl[of "floats ?g"] in auto)
    then show ?thesis using True p(1) pop hosts(2) by (simp add: inter_step_def poisson_interDC_def has_draws_def)
  next
    case late: False
    have sdc: "src div n \<in> set [0..d - 1]" using hosts(1) dc_of_host[OF n] by auto
    have "remove1 (src div n) [0..d - 1] \<noteq> []"
      using d sdc by (auto simp flip: length_0_conv simp: length_remove1)
    moreover have "raws g1 \<noteq> []" using l(2) p(4) by auto
    ultimately obtain dd g2 where dd: "choice (remove1 (src div n) [0..d - 1]) g1 = Inr (dd, g2)"
      using choice_defined by blast
    have "dd * n \<le> (dd + 1) * n - 1" using n by (simp add: distrib_right)
    moreover have "raws g2 \<noteq> []" using choice_draws[OF dd] l(2) p(4) by auto
    ultimately obtain dst g3 where dst: "randint (dd * n) ((dd + 1) * n - 1) g2 = Inr (dst, g3)"
      using randint_defined by blast
    have f3: "floats g3 = tl (floats ?g)" "length (raws ?g) = length (raws g3) + 2"
      using choice_draws[OF dd] randint_draws[OF dst] p(3,4) by auto
    then have "good_draws g3" "floats g3 \<noteq> []"
      using l(1,3) set_tl[of "floats ?g"] by (auto simp: good_draws_def list_all_iff simp flip: length_0_conv)
    then obtain sz g4 where sz: "draw_size cr g3 = Inr (sz, g4)" using draw_size_defined[OF loaded] by blast
    then have g4: "floats g4 = tl (floats g3)" "raws g4 = raws g3"
      by (auto simp: draw_size_def rbind_eq_Inr Let_def dest: random_tl split: option.splits)
    have "enough mlog lam (work time (heappush h (t + py_trunc p, src))) g4"
      by (rule enough_smaller[OF sup work_later[OF pop late p(2)]])
        (use f3 g4 set_tl[of "floats ?g"] set_tl[of "floats g3"] in auto)
    then show ?thesis using late p(1) pop dd dst sz sdc hosts n
      by (simp add: inter_step_def poisson_interDC_def py_floordiv_def py_remove_def has_draws_def)
  qed
qed

text \<open>C7. The loop returns when there are at least two data centres, whatever hosts are drawn: two random
  numbers of each kind per unit of work are enough.\<close>

theorem inter_terminates:
  assumes "loaded c cr" "2 \<le> d" "0 < n" "enough mlog lam (work time (g_heap s)) (g_rng s)"
    and "\<forall>e \<in> set (g_heap s). 0 \<le> snd e \<and> snd e < d * n"
  shows "\<exists>s'. inter_loop mlog cr lam time d n s = Inr s' \<and> g_heap s' = []"
proof -
  have "has_draws mlog lam time d n s" using assms(4,5) by (simp add: has_draws_def)
  then obtain s' where "inter_loop mlog cr lam time d n s = Inr s'"
    using il.run_total[where I = "has_draws mlog lam time d n"] inter_step_runs[OF assms(1-3)] by blast
  with il.run_invariant[OF this, of "\<lambda>_. True"] show ?thesis by blast
qed

text \<open>With a single data centre (the default of the option) no destination can be chosen: the first
  event within the run raises an \<open>IndexError\<close>.\<close>

theorem inter_one_dc:
  assumes "0 < n" "heappop (g_heap s) = Inr ((t, src), h)" "0 \<le> src" "src < n"
    and "poisson mlog lam (g_rng s) = Inr (p, g)" "of_int (t + py_trunc p) \<le> fadd time (f_of_int base_t)"
  shows "inter_loop mlog cr lam time 1 n s = Inl IndexError"
proof -
  have "g_heap s \<noteq> []" using assms(2) by (auto simp: heappop_def)
  moreover have "inter_step mlog cr lam time 1 n s = Inl IndexError"
    using assms by (simp add: inter_step_def poisson_interDC_def Let_def not_less[symmetric] py_floordiv_def
        py_remove_def choice_def upto.simps)
  ultimately show ?thesis by (subst inter_loop.simps) simp
qed

section \<open>A run on concrete input\<close>

text \<open>Two data centres of one host each.\<close>

definition ex_inter_options :: inter_options where
  "ex_inter_options = inter_defaults\<lparr>cdf_file := ''cdf.txt'', opt_load := ''1'', opt_bandwidth := ''6400'',
     opt_time := ''1'', opt_dc_count := ''2'', opt_dc_nnodes := Some ''1''\<rparr>"

definition ex_inter_final :: gen_state where
  "ex_inter_final = ex_final\<lparr>g_rng := \<lparr>floats = [], raws = [0, 1, 0, 1]\<rparr>\<rparr>"

lemmas inter_eval = gen_eval inter_step_def poisson_interDC_def py_floordiv_def py_remove_def choice_def upto.simps

lemma ex_inter_loop:
  "inter_loop ex_log \<lparr>rand_cdf = Some ex_cdf\<rparr> 1000000000 1000000000 2 1 ex_state = Inr ex_inter_final"
  by (simp add: inter_loop.simps inter_eval ex_state_def ex_cdf_def ex_inter_final_def ex_final_def ex_flows_def)

lemma ex_inter_main:
  "inter_main ex_log ex_files ex_inter_options ex_rng =
     Inr (ex_files(output_path ''tmp_traffic.txt'' \<mapsto> concat (flow_lines ex_inter_final)), ex_inter_final)"
proof -
  have "py_int ''1'' = Inr 1" by code_simp
  then show ?thesis
    using ex_options_parse ex_loaded(1) ex_init ex_inter_loop ex_times
    by (simp add: inter_main_def translate_bandwidth_interDC_def ex_inter_options_def inter_defaults_def
        gen_options.defs gen_defaults_def open_text_def ex_files_def)
qed

theorem inter_flows_ok_witness:
  "inter_ok 2 1 1000000000 ex_cdf (ex_flows ! 0) \<and> inter_ok 2 1 1000000000 ex_cdf (ex_flows ! 1) \<and> sorted (map f_t ex_flows)"
proof -
  have o: "opt_dc_count ex_inter_options = ''2''" "opt_dc_nnodes ex_inter_options = Some ''1''"
    "opt_time ex_inter_options = ''1''"
    by (simp_all add: ex_inter_options_def inter_defaults_def gen_options.defs gen_defaults_def)
  have s: "sensible_run ex_files (cdf_file ex_inter_options) (opt_bandwidth ex_inter_options)
      (opt_load ex_inter_options) ex_cdf"
    using ex_sensible by (simp add: ex_inter_options_def inter_defaults_def gen_options.defs ex_options_def gen_defaults_def)
  have "py_int ''1'' = Inr 1" by code_simp
  then show ?thesis
    using inter_flows_ok[OF ex_inter_main ex_log_ok ex_draws s _ o(2)] o ex_options_parse(1,2) ex_times(3)
    by (simp add: ex_inter_final_def ex_final_def ex_flows_def)
qed

theorem inter_terminates_witness:
  "\<exists>s'. inter_loop ex_log \<lparr>rand_cdf = Some ex_cdf\<rparr> 1000000000 1000000000 2 1
     (ex_state\<lparr>g_heap := [(2999999999, 0)], g_rng := ex_rng\<rparr>) = Inr s' \<and> g_heap s' = []"
proof (rule inter_terminates)
  show "loaded ex_cdf \<lparr>rand_cdf = Some ex_cdf\<rparr>"
    using ex_loaded by (simp add: loaded_def load_distribution_Inr)
  have "event_work 1000000000 (2999999999, 0) = 3" by (simp add: event_work_def gen_eval)
  then show "enough ex_log 1000000000 (work 1000000000 (g_heap (ex_state\<lparr>g_heap := [(2999999999, 0)], g_rng := ex_rng\<rparr>)))
      (g_rng (ex_state\<lparr>g_heap := [(2999999999, 0)], g_rng := ex_rng\<rparr>))"
    using ex_draws unfolding enough_def
    by (simp add: work_def ex_rng_def list_all_iff ex_log_def flt_defs py_trunc_def float_eval)
qed simp_all

theorem inter_one_dc_witness:
  "inter_loop ex_log \<lparr>rand_cdf = Some ex_cdf\<rparr> 1000000000 1000000000 1 2 ex_state = Inl IndexError"
  by (rule inter_one_dc[where t = 2500000000 and src = 0 and p = 500000000 and h = "[(2500000000, 1)]"
        and g = "\<lparr>floats = replicate 5 (1 / 2), raws = [0, 1, 0, 1, 0, 1, 0, 1]\<rparr>"])
    (simp_all add: gen_eval ex_state_def)

end
