(* ===== verification/InterDC2.thy ===== *)
theory InterDC2
  imports InterDC
begin

text \<open>
  \<open>traffic_gen/traffic_gen_only_for_interDC_specify2dc.py\<close>: the generator of flows from the hosts of one
  data centre to the hosts of another; both are written in the script (\<open>user_src_dc = 0\<close>,
  \<open>user_dst_dc = 7\<close>).  Only the source data centre has events in the heap.

  The theorems: every flow goes from data centre 0 to data centre 7; with fewer than eight data centres
  the script stops with exit code 1.
\<close>

section \<open>The script\<close>

definition flow_str_specify2dc :: "flow \<Rightarrow> string" where "flow_str_specify2dc = flow_str"

definition translate_bandwidth_specify2dc :: "string option \<Rightarrow> flt option res" where
  "translate_bandwidth_specify2dc = translate_bandwidth"

definition poisson_specify2dc :: "(flt \<Rightarrow> flt) \<Rightarrow> flt \<Rightarrow> rng \<Rightarrow> (flt \<times> rng) res" where
  "poisson_specify2dc = poisson"

definition user_src_dc :: int where "user_src_dc = 0"
definition user_dst_dc :: int where "user_dst_dc = 7"

definition pair_step :: "(flt \<Rightarrow> flt) \<Rightarrow> custom_rand \<Rightarrow> flt \<Rightarrow> flt \<Rightarrow> int list \<Rightarrow> gen_state \<Rightarrow> gen_state res" where
  "pair_step mlog cr lam time dst_hosts s =
     rbind (heappop (g_heap s)) (\<lambda>((t, src), h).
     rbind (poisson_specify2dc mlog lam (g_rng s)) (\<lambda>(p, g).
     let next_t = t + py_trunc p in
     if fadd time (f_of_int base_t) < of_int next_t then Inr (s\<lparr>g_heap := h, g_rng := g\<rparr>)
     else
       rbind (choice dst_hosts g) (\<lambda>(dst, g).
       rbind (draw_size cr g) (\<lambda>(size, g).
       Inr \<lparr>g_heap = heappush h (next_t, src),
            g_flows = g_flows s @ [\<lparr>f_src = src, f_dst = dst, f_size = size, f_t = secs t\<rparr>],
            g_count = g_count s + 1, g_rng = g\<rparr>))))"

lemma pair_step_draws:
  "pair_step mlog cr lam time ds s = Inr s' \<Longrightarrow> length (floats (g_rng s')) < length (floats (g_rng s))"
  by (auto simp: pair_step_def poisson_specify2dc_def rbind_eq_Inr Let_def
      dest!: poisson_draws draw_size_draws choice_draws split: if_splits)

function pair_loop :: "(flt \<Rightarrow> flt) \<Rightarrow> custom_rand \<Rightarrow> flt \<Rightarrow> flt \<Rightarrow> int list \<Rightarrow> gen_state \<Rightarrow> gen_state res" where
  "pair_loop mlog cr lam time ds s = (if g_heap s = [] then Inr s
     else case pair_step mlog cr lam time ds s of Inl e \<Rightarrow> Inl e | Inr s' \<Rightarrow> pair_loop mlog cr lam time ds s')"
  by pat_completeness auto
termination
  by (relation "measure (\<lambda>(m, c, l, t, ds, s). length (floats (g_rng s)))") (auto dest: pair_step_draws)

declare pair_loop.simps [simp del]

interpretation pl: res_loop "pair_loop mlog cr lam time ds" "pair_step mlog cr lam time ds"
  "\<lambda>s. g_heap s = []" "\<lambda>s. length (floats (g_rng s))" for mlog cr lam time ds
proof
  show "pair_loop mlog cr lam time ds s = (if g_heap s = [] then Inr s
      else rbind (pair_step mlog cr lam time ds s) (pair_loop mlog cr lam time ds))" for s
    by (subst pair_loop.simps) (simp add: rbind_def)
qed (rule pair_step_draws)

definition dc_hosts :: "int \<Rightarrow> int \<Rightarrow> int list" where
  "dc_hosts dc dc_nnodes = [dc * dc_nnodes..(dc + 1) * dc_nnodes - 1]"

definition pair_main :: "(flt \<Rightarrow> flt) \<Rightarrow> files \<Rightarrow> inter_options \<Rightarrow> rng \<Rightarrow> (files \<times> gen_state) res" where
  "pair_main mlog fs opts g =
     rbind (py_int (opt_dc_count opts)) (\<lambda>dc_count.
     (case opt_dc_nnodes opts of None \<Rightarrow> Inl (SysExit 1) | Some m \<Rightarrow>
     if m = [] then Inl (SysExit 1) else
     rbind (py_int m) (\<lambda>dc_nnodes.
     let nhost = dc_count * dc_nnodes in
     rbind (py_float (opt_load opts)) (\<lambda>load.
     rbind (translate_bandwidth_specify2dc (Some (opt_bandwidth opts))) (\<lambda>bw.
     rbind (py_float (opt_time opts)) (\<lambda>tm.
     let time = fmul tm 1000000000 in
     (case bw of None \<Rightarrow> Inl (SysExit 0) | Some bandwidth \<Rightarrow>
     rbind (open_text fs (cdf_file opts)) (\<lambda>text.
     rbind (read_cdf text) (\<lambda>c.
     rbind (load_distribution c) (\<lambda>cr.
     rbind (getAvg cr) (\<lambda>avg.
     rbind (avg_inter_arrival bandwidth load avg) (\<lambda>lam.
     rbind (n_flow_estimate time lam nhost) (\<lambda>_.
     if dc_count \<le> user_src_dc \<or> dc_count \<le> user_dst_dc \<or> user_src_dc = user_dst_dc then Inl (SysExit 1)
     else
     rbind (init_hosts mlog lam (dc_hosts user_src_dc dc_nnodes) g) (\<lambda>s.
     rbind (pair_loop mlog cr lam time (dc_hosts user_dst_dc dc_nnodes) s) (\<lambda>s.
     Inr (fs(output_path (opt_output opts) \<mapsto> concat (flow_lines s)), s))))))))))))))))"

section \<open>The endpoints of the flows\<close>

definition pair_ok :: "int \<Rightarrow> flt \<Rightarrow> cdf \<Rightarrow> flow \<Rightarrow> bool" where
  "pair_ok n time c f =
     (f_src f \<in> set (dc_hosts user_src_dc n) \<and> f_dst f \<in> set (dc_hosts user_dst_dc n) \<and>
      1 \<le> f_size f \<and> of_int (f_size f) \<le> max 1 (fst (last c)) \<and>
      secs base_t \<le> f_t f \<and> f_t f \<le> secs \<lfloor>fadd time (f_of_int base_t)\<rfloor>)"

lemma pair_step_inv:
  assumes "log_ok mlog" "0 \<le> lam" "loaded c cr"
    and inv: "run_inv (pair_ok n time c) (\<lambda>h. h \<in> set (dc_hosts user_src_dc n)) s"
    and step: "pair_step mlog cr lam time (dc_hosts user_dst_dc n) s = Inr s'"
  shows "run_inv (pair_ok n time c) (\<lambda>h. h \<in> set (dc_hosts user_src_dc n)) s'"
proof -
  have gi: "gen_inv (pair_ok n time c) (\<lambda>h. h \<in> set (dc_hosts user_src_dc n)) s" and dr: "good_draws (g_rng s)"
    using inv by (auto simp: run_inv_def)
  obtain t src h p g1 where pop: "heappop (g_heap s) = Inr ((t, src), h)"
    and p: "poisson mlog lam (g_rng s) = Inr (p, g1)"
    using step by (auto simp: pair_step_def poisson_specify2dc_def rbind_eq_Inr)
  have i: "good_draws g1" "0 \<le> py_trunc p" using poisson_good[OF assms(1,2) dr p] by auto
  have src: "src \<in> set (dc_hosts user_src_dc n)" "base_t \<le> t"
    using gi heappop_set[OF pop] by (auto simp: gen_inv_def)
  show ?thesis
  proof (cases "fadd time (f_of_int base_t) < of_int (t + py_trunc p)")
    case True
    then show ?thesis using step pop p gen_inv_drop[OF gi pop] i(1)
      by (auto simp: pair_step_def poisson_specify2dc_def run_inv_def)
  next
    case late: False
    then obtain dst g3 sz g where dst: "choice (dc_hosts user_dst_dc n) g1 = Inr (dst, g3)"
      and sz: "draw_size cr g3 = Inr (sz, g)"
      and s': "s' = \<lparr>g_heap = heappush h (t + py_trunc p, src),
        g_flows = g_flows s @ [\<lparr>f_src = src, f_dst = dst, f_size = sz, f_t = secs t\<rparr>],
        g_count = g_count s + 1, g_rng = g\<rparr>"
      using step pop p by (auto simp: pair_step_def poisson_specify2dc_def rbind_eq_Inr Let_def)
    have g3: "good_draws g3" using i(1) choice_draws[OF dst] by (simp add: good_draws_def)
    have "pair_ok n time c \<lparr>f_src = src, f_dst = dst, f_size = sz, f_t = secs t\<rparr>"
      using draw_size_good[OF assms(3) g3 sz] time_ok[OF late i(2) src(2)] src(1) choice_mem[OF dst]
      by (simp add: pair_ok_def)
    then show ?thesis using gen_inv_emit[OF gi pop i(2)] draw_size_good[OF assms(3) g3 sz]
      by (simp add: run_inv_def s')
  qed
qed

text \<open>C29. Every flow a successful run writes goes from a host of data centre 0 to a host of data centre 7,
  with a size and a start as promised, in the order of the start times.\<close>

theorem pair_flows_ok:
  assumes "pair_main mlog fs opts g = Inr (fs', s)" "log_ok mlog" "good_draws g"
    and "sensible_run fs (cdf_file opts) (opt_bandwidth opts) (opt_load opts) c"
    and "opt_dc_nnodes opts = Some m" "py_int m = Inr n" "py_float (opt_time opts) = Inr tm"
  shows "(\<forall>f \<in> set (g_flows s). 0 \<le> f_src f \<and> f_src f < n \<and> 7 * n \<le> f_dst f \<and> f_dst f < 8 * n \<and>
      pair_ok n (fmul tm 1000000000) c f) \<and>
    sorted (map f_t (g_flows s)) \<and> g_count s = int (length (g_flows s))"
proof -
  let ?time = "fmul tm 1000000000" and ?H = "\<lambda>h. h \<in> set (dc_hosts user_src_dc n)"
  obtain load b body cr avg lam s0 where p: "py_float (opt_load opts) = Inr load"
    "translate_bandwidth (Some (opt_bandwidth opts)) = Inr (Some b)" "open_text fs (cdf_file opts) = Inr body"
    "read_cdf body = Inr c" "load_distribution c = Inr cr" "getAvg cr = Inr avg"
    "avg_inter_arrival b load avg = Inr lam"
    and s0: "init_hosts mlog lam (dc_hosts user_src_dc n) g = Inr s0"
      "pair_loop mlog cr lam ?time (dc_hosts user_dst_dc n) s0 = Inr s"
    using assms(1,4-7)
    by (auto simp: pair_main_def translate_bandwidth_specify2dc_def sensible_run_def rbind_eq_Inr Let_def
        split: option.splits if_splits sum.splits)
  have bl: "0 \<le> b" "0 \<le> load" "byte_cdf c" using assms(4) p(1,2) by (auto simp: sensible_run_def)
  note lam = lam_nonneg[OF p(5) read_cdf_float[OF p(4)] bl(3) p(6) bl(1,2) p(7)]
  have "run_inv (pair_ok n ?time c) ?H s0"
    by (rule init_hosts_inv[OF assms(2) lam(2) assms(3) _ s0(1)]) simp
  then have "run_inv (pair_ok n ?time c) ?H s"
    using pl.run_invariant[OF s0(2), where I = "run_inv (pair_ok n ?time c) ?H"]
      pair_step_inv[OF assms(2) lam(2,1)] by blast
  then show ?thesis
    by (fastforce simp: run_inv_def gen_inv_def pair_ok_def dc_hosts_def user_src_dc_def user_dst_dc_def)
qed

text \<open>With fewer than eight data centres the script never succeeds: it leaves no traffic file, whatever
  the other options and the random numbers are.\<close>

theorem pair_needs_eight:
  assumes "py_int (opt_dc_count opts) = Inr d" "d < 8"
  shows "pair_main mlog fs opts g \<noteq> Inr r"
  using assms
  by (auto simp: pair_main_def rbind_eq_Inr Let_def user_src_dc_def user_dst_dc_def split: option.splits if_splits)

section \<open>A run on concrete input\<close>

text \<open>Eight data centres of one host each.\<close>

definition ex_pair_options :: inter_options where
  "ex_pair_options = ex_inter_options\<lparr>opt_dc_count := ''8''\<rparr>"

definition ex_pair_flow :: flow where
  "ex_pair_flow = \<lparr>f_src = 0, f_dst = 7, f_size = 800, f_t = secs 2500000000\<rparr>"

definition ex_pair_final :: gen_state where
  "ex_pair_final = \<lparr>g_heap = [], g_flows = [ex_pair_flow], g_count = 1,
     g_rng = \<lparr>floats = replicate 4 (1 / 2), raws = [1, 0, 1, 0, 1, 0, 1]\<rparr>\<rparr>"

lemma ex_pair_run:
  "init_hosts ex_log 1000000000 (dc_hosts user_src_dc 1) ex_rng =
     Inr \<lparr>g_heap = [(2500000000, 0)], g_flows = [], g_count = 0,
       g_rng = \<lparr>floats = replicate 7 (1 / 2), raws = [0, 1, 0, 1, 0, 1, 0, 1]\<rparr>\<rparr>"
  "pair_loop ex_log \<lparr>rand_cdf = Some ex_cdf\<rparr> 1000000000 1000000000 (dc_hosts user_dst_dc 1)
     \<lparr>g_heap = [(2500000000, 0)], g_flows = [], g_count = 0,
       g_rng = \<lparr>floats = replicate 7 (1 / 2), raws = [0, 1, 0, 1, 0, 1, 0, 1]\<rparr>\<rparr> = Inr ex_pair_final"
  by (simp_all add: init_hosts_def init_host_def ex_rng_def pair_loop.simps inter_eval pair_step_def
      poisson_specify2dc_def dc_hosts_def user_src_dc_def user_dst_dc_def ex_cdf_def ex_pair_final_def ex_pair_flow_def)

lemma ex_pair_main:
  "pair_main ex_log ex_files ex_pair_options ex_rng =
     Inr (ex_files(output_path ''tmp_traffic.txt'' \<mapsto> concat (flow_lines ex_pair_final)), ex_pair_final)"
proof -
  have "py_int ''1'' = Inr 1" "py_int ''8'' = Inr 8" by code_simp+
  moreover have "n_flow_estimate 1000000000 1000000000 8 = Inr 8" by (simp add: n_flow_estimate_def gen_eval)
  ultimately show ?thesis
    using ex_options_parse ex_loaded(1) ex_pair_run ex_times
    by (simp add: pair_main_def translate_bandwidth_specify2dc_def ex_pair_options_def ex_inter_options_def
        inter_defaults_def gen_options.defs gen_defaults_def open_text_def ex_files_def user_src_dc_def user_dst_dc_def)
qed

theorem pair_flows_ok_witness: "pair_ok 1 1000000000 ex_cdf ex_pair_flow"
proof -
  have o: "opt_dc_nnodes ex_pair_options = Some ''1''" "opt_time ex_pair_options = ''1''"
    by (simp_all add: ex_pair_options_def ex_inter_options_def inter_defaults_def gen_options.defs gen_defaults_def)
  have s: "sensible_run ex_files (cdf_file ex_pair_options) (opt_bandwidth ex_pair_options)
      (opt_load ex_pair_options) ex_cdf"
    using ex_sensible by (simp add: ex_pair_options_def ex_inter_options_def inter_defaults_def gen_options.defs
        ex_options_def gen_defaults_def)
  have "py_int ''1'' = Inr 1" by code_simp
  then show ?thesis
    using pair_flows_ok[OF ex_pair_main ex_log_ok ex_draws s o(1)] o ex_options_parse(2) ex_times(3)
    by (simp add: ex_pair_final_def)
qed

theorem pair_needs_eight_witness: "\<forall>r. pair_main ex_log ex_files ex_inter_options ex_rng \<noteq> Inr r"
proof -
  have "py_int (opt_dc_count ex_inter_options) = Inr 2"
    using ex_options_parse(1) by (simp add: ex_inter_options_def inter_defaults_def gen_options.defs)
  then show ?thesis using pair_needs_eight[of ex_inter_options 2] by simp
qed

end
