(* ===== verification/Topology.thy ===== *)
theory Topology
  imports PyFiles
begin

text \<open>
  \<open>simulation/mix/config/combined_topology_generator.py\<close>: the topology files of several data centres.  The
  module constants are a record of parameters (\<open>shipped\<close> holds the values of the repository); the
  attributes that \<open>calculate_node_counts\<close> sets are a record of identifiers.  A line of the file is a
  comment or a link; \<open>render\<close> gives its text.  Counts and identifiers are natural numbers.

  The theorems: the number of links announced in the file is the number written; the links are exactly
  the host, leaf, spine and data centre tiers, without repetition and without loops; every host hangs
  on one leaf of its own data centre; any two nodes are connected.
\<close>

section \<open>Parameters and lines\<close>

record topo_params =
  topology_type :: nat
  dc_num :: nat
  dci_per_dc :: nat
  dci_link_rate :: string
  dci_link_latency :: string
  simple_hosts_per_dc :: nat
  simple_tors_per_dc :: nat
  simple_link_rate :: string
  simple_link_latency :: string
  leafspine_hosts_per_dc :: nat
  leafspine_leaves_per_dc :: nat
  leafspine_spines_per_dc :: nat
  leafspine_hosts_per_leaf :: nat
  leafspine_oversubscript :: nat
  leafspine_link_rate :: string
  leafspine_link_latency :: string

definition shipped :: topo_params where
  "shipped = \<lparr>topology_type = 2, dc_num = 8, dci_per_dc = 1, dci_link_rate = ''100Gbps'',
     dci_link_latency = ''10ms'', simple_hosts_per_dc = 2, simple_tors_per_dc = 1,
     simple_link_rate = ''100Gbps'', simple_link_latency = ''1us'', leafspine_hosts_per_dc = 32,
     leafspine_leaves_per_dc = 8, leafspine_spines_per_dc = 4, leafspine_hosts_per_leaf = 4,
     leafspine_oversubscript = 2, leafspine_link_rate = ''100Gbps'', leafspine_link_latency = ''1us''\<rparr>"

datatype entry = Note string | Link nat nat string string

fun render :: "entry \<Rightarrow> string" where
  "render (Note s) = s"
| "render (Link a b rate latency) =
     str_nat a @ '' '' @ str_nat b @ '' '' @ rate @ '' '' @ latency @ '' 0''"

fun ends :: "entry \<Rightarrow> (nat \<times> nat) option" where
  "ends (Note s) = None"
| "ends (Link a b rate latency) = Some (a, b)"

definition links :: "entry list \<Rightarrow> (nat \<times> nat) list" where
  "links es = List.map_filter ends es"

text \<open>\<open>int (n * (n - 1) / 2)\<close>: the true division of Python rounds.\<close>

definition pairs_of :: "nat \<Rightarrow> int" where
  "pairs_of n = py_trunc (rn (of_int (int n * (int n - 1)) / 2))"

record node_counts =
  total_nodes :: nat
  total_intra_dc_switches :: nat
  total_dcis :: nat

text \<open>The full mesh of the data centre switches, common to both generators.\<close>

definition dci_mesh :: "topo_params \<Rightarrow> nat \<Rightarrow> entry list" where
  "dci_mesh p dci_id_start =
     (if dci_per_dc p = 0 then [Note (''# '' @ bytes [0xE6, 0x97, 0xA0] @ ''DCI'' @ bytes [0xE4, 0xBA, 0xA4, 0xE6, 0x8D, 0xA2, 0xE6, 0x9C,
          0xBA, 0xEF, 0xBC, 0x8C, 0xE8, 0xB7, 0xB3, 0xE8, 0xBF, 0x87] @ ''DCI'' @ bytes [0xE9, 0x97, 0xB4, 0xE4,
          0xBA, 0x92, 0xE8, 0x81, 0x94])]
      else Note (''# DCI'' @ bytes [0xE4, 0xBA, 0xA4, 0xE6, 0x8D, 0xA2, 0xE6, 0x9C, 0xBA, 0xE9, 0x97, 0xB4, 0xE4, 0xBA,
          0x92, 0xE8, 0x81, 0x94, 0xEF, 0xBC, 0x88, 0xE5, 0xAE, 0x8C, 0xE5, 0x85, 0xA8, 0xE5, 0x9B, 0xBE, 0xEF,
          0xBC, 0x89]) #
        concat (map (\<lambda>i. map (\<lambda>j. Link (dci_id_start + i) (dci_id_start + j) (dci_link_rate p) (dci_link_latency p))
          [i + 1..<dc_num p]) [0..<dc_num p]))"

definition end_note :: string where
  "end_note = ''# '' @ bytes [0xE5, 0xA6, 0x82, 0xE6, 0x9E, 0x9C, 0xE5, 0x88, 0xA0, 0xE5, 0x87, 0x8F] @ ''DCI'' @
    bytes [0xE4, 0xBA, 0x92, 0xE8, 0xBF, 0x9E, 0xE9, 0x93, 0xBE, 0xE8, 0xB7, 0xAF, 0xEF, 0xBC, 0x8C, 0xE5,
    0x88, 0xAB, 0xE5, 0xBF, 0x98, 0xE8, 0xAE, 0xB0, 0xE4, 0xBF, 0xAE, 0xE6, 0x94, 0xB9, 0xE6, 0x96, 0x87,
    0xE4, 0xBB, 0xB6, 0xE5, 0xBC, 0x80, 0xE5, 0xA4, 0xB4, 0xE7, 0x9A, 0x84] @ ''<'' @ bytes [0xE6, 0x80,
    0xBB, 0xE9, 0x93, 0xBE, 0xE8, 0xB7, 0xAF, 0xE6, 0x95, 0xB0] @ ''>''"

section \<open>The simple topology\<close>

record simple_ids =
  s_total_hosts :: nat
  s_total_tors :: nat
  s_total_dcis :: nat
  s_total_nodes :: nat
  s_tor_id_start :: nat
  s_dci_id_start :: nat

definition simple_node_counts :: "topo_params \<Rightarrow> simple_ids \<times> node_counts" where
  "simple_node_counts p =
     (let hosts = dc_num p * simple_hosts_per_dc p; tors = dc_num p * simple_tors_per_dc p;
          dcis = dc_num p * dci_per_dc p; nodes = hosts + tors + dcis
      in (\<lparr>s_total_hosts = hosts, s_total_tors = tors, s_total_dcis = dcis, s_total_nodes = nodes,
           s_tor_id_start = hosts, s_dci_id_start = hosts + tors\<rparr>,
          \<lparr>total_nodes = nodes, total_intra_dc_switches = tors, total_dcis = dcis\<rparr>))"

definition simple_link_counts :: "topo_params \<Rightarrow> simple_ids \<Rightarrow> int" where
  "simple_link_counts p s =
     int ((simple_hosts_per_dc p + simple_tors_per_dc p) * dc_num p) + pairs_of (s_total_dcis s)"

definition simple_header :: "topo_params \<Rightarrow> string list" where
  "simple_header p =
    [''# '' @ bytes [0xE5, 0xA4, 0x9A, 0xE6, 0x95, 0xB0, 0xE6, 0x8D, 0xAE, 0xE4, 0xB8, 0xAD, 0xE5, 0xBF,
       0x83] @ bytes [0xE7, 0xAE, 0x80, 0xE5, 0x8D, 0x95, 0xE6, 0x8B, 0x93, 0xE6, 0x89, 0x91] @ bytes [0xE7,
       0xBB, 0x93, 0xE6, 0x9E, 0x84],
     ''# '' @ bytes [0xE6, 0x8B, 0x93, 0xE6, 0x89, 0x91, 0xE7, 0xB1, 0xBB, 0xE5, 0x9E, 0x8B] @ '': '' @ bytes
       [0xE7, 0xAE, 0x80, 0xE5, 0x8D, 0x95, 0xE6, 0x8B, 0x93, 0xE6, 0x89, 0x91, 0xEF, 0xBC, 0x88] @ ''2'' @
       bytes [0xE4, 0xB8, 0xAA, 0xE4, 0xB8, 0xBB, 0xE6, 0x9C, 0xBA] @ '' '' @ bytes [0xE2, 0x86, 0x92] @ '' 1''
       @ bytes [0xE4, 0xB8, 0xAA] @ ''ToR'' @ bytes [0xE4, 0xBA, 0xA4, 0xE6, 0x8D, 0xA2, 0xE6, 0x9C, 0xBA] @ ''
       '' @ bytes [0xE2, 0x86, 0x92] @ '' 1'' @ bytes [0xE4, 0xB8, 0xAA] @ ''DCI'' @ bytes [0xE4, 0xBA, 0xA4,
       0xE6, 0x8D, 0xA2, 0xE6, 0x9C, 0xBA, 0xEF, 0xBC, 0x89],
     ''# '' @ bytes [0xE5, 0x8F, 0x82, 0xE6, 0x95, 0xB0, 0xE8, 0xAE, 0xBE, 0xE7, 0xBD, 0xAE] @ '':'',
     ''# '' @ bytes [0xE6, 0x95, 0xB0, 0xE6, 0x8D, 0xAE, 0xE4, 0xB8, 0xAD, 0xE5, 0xBF, 0x83, 0xE6, 0x95,
       0xB0, 0xE9, 0x87, 0x8F] @ '': '' @ str_nat (dc_num p),
     ''# '' @ bytes [0xE6, 0xAF, 0x8F, 0xE4, 0xB8, 0xAA, 0xE6, 0x95, 0xB0, 0xE6, 0x8D, 0xAE, 0xE4, 0xB8,
       0xAD, 0xE5, 0xBF, 0x83, 0xE7, 0x9A, 0x84, 0xE4, 0xB8, 0xBB, 0xE6, 0x9C, 0xBA, 0xE6, 0x95, 0xB0, 0xE9,
       0x87, 0x8F] @ '': '' @ str_nat (simple_hosts_per_dc p),
     ''# '' @ bytes [0xE6, 0xAF, 0x8F, 0xE4, 0xB8, 0xAA, 0xE6, 0x95, 0xB0, 0xE6, 0x8D, 0xAE, 0xE4, 0xB8,
       0xAD, 0xE5, 0xBF, 0x83, 0xE7, 0x9A, 0x84] @ ''ToR'' @ bytes [0xE4, 0xBA, 0xA4, 0xE6, 0x8D, 0xA2, 0xE6,
       0x9C, 0xBA, 0xE6, 0x95, 0xB0, 0xE9, 0x87, 0x8F] @ '': '' @ str_nat (simple_tors_per_dc p),
     ''# '' @ bytes [0xE6, 0xAF, 0x8F, 0xE4, 0xB8, 0xAA, 0xE6, 0x95, 0xB0, 0xE6, 0x8D, 0xAE, 0xE4, 0xB8,
       0xAD, 0xE5, 0xBF, 0x83, 0xE7, 0x9A, 0x84] @ ''DCI'' @ bytes [0xE4, 0xBA, 0xA4, 0xE6, 0x8D, 0xA2, 0xE6,
       0x9C, 0xBA, 0xE6, 0x95, 0xB0, 0xE9, 0x87, 0x8F] @ '': '' @ str_nat (dci_per_dc p),
     ''# DC'' @ bytes [0xE5, 0x86, 0x85, 0xE9, 0x93, 0xBE, 0xE8, 0xB7, 0xAF, 0xE9, 0x80, 0x9F, 0xE7, 0x8E,
       0x87] @ '': '' @ simple_link_rate p,
     ''# DC'' @ bytes [0xE5, 0x86, 0x85, 0xE9, 0x93, 0xBE, 0xE8, 0xB7, 0xAF, 0xE5, 0xBB, 0xB6, 0xE8, 0xBF,
       0x9F] @ '': '' @ simple_link_latency p,
     ''# DCI'' @ bytes [0xE9, 0x93, 0xBE, 0xE8, 0xB7, 0xAF, 0xE9, 0x80, 0x9F, 0xE7, 0x8E, 0x87] @ '': '' @
       dci_link_rate p,
     ''# DCI'' @ bytes [0xE9, 0x93, 0xBE, 0xE8, 0xB7, 0xAF, 0xE5, 0xBB, 0xB6, 0xE8, 0xBF, 0x9F] @ '': '' @
       dci_link_latency p,
     []]"

definition simple_allocation :: "topo_params \<Rightarrow> simple_ids \<Rightarrow> string list" where
  "simple_allocation p s =
    [''# '' @ bytes [0xE6, 0x95, 0xB0, 0xE6, 0x8D, 0xAE, 0xE4, 0xB8, 0xAD, 0xE5, 0xBF, 0x83, 0xE8, 0x8A,
      0x82, 0xE7, 0x82, 0xB9, 0xE5, 0x88, 0x86, 0xE9, 0x85, 0x8D] @ '':''] @
    map (\<lambda>i.
      let host_start = i * simple_hosts_per_dc p;
          host_end = host_start + simple_hosts_per_dc p - 1;
          tor = s_tor_id_start s + i * simple_tors_per_dc p
      in if 0 < dci_per_dc p then
           let dci = s_dci_id_start s + i
           in ''# DC'' @ str_nat (i + 1) @ '': '' @ bytes [0xE4, 0xB8, 0xBB, 0xE6, 0x9C, 0xBA] @ '' '' @ str_nat
           host_start @ ''-'' @ str_nat host_end @ '', ToR'' @ bytes [0xE4, 0xBA, 0xA4, 0xE6, 0x8D, 0xA2, 0xE6,
           0x9C, 0xBA] @ '' '' @ str_nat tor @ '', DCI'' @ bytes [0xE4, 0xBA, 0xA4, 0xE6, 0x8D, 0xA2, 0xE6, 0x9C,
           0xBA] @ '' '' @ str_nat dci
         else
           ''# DC'' @ str_nat (i + 1) @ '': '' @ bytes [0xE4, 0xB8, 0xBB, 0xE6, 0x9C, 0xBA] @ '' '' @ str_nat
           host_start @ ''-'' @ str_nat host_end @ '', ToR'' @ bytes [0xE4, 0xBA, 0xA4, 0xE6, 0x8D, 0xA2, 0xE6,
           0x9C, 0xBA] @ '' '' @ str_nat tor @ '', '' @ bytes [0xE6, 0x97, 0xA0] @ ''DCI'' @ bytes [0xE4, 0xBA,
           0xA4, 0xE6, 0x8D, 0xA2, 0xE6, 0x9C, 0xBA])
      [0..<dc_num p] @
    [[],
     ''# '' @ bytes [0xE6, 0x96, 0x87, 0xE4, 0xBB, 0xB6, 0xE6, 0xA0, 0xBC, 0xE5, 0xBC, 0x8F] @ '':'',
     ''# '' @ bytes [0xE7, 0xAC, 0xAC, 0xE4, 0xB8, 0x80, 0xE8, 0xA1, 0x8C] @ '': <'' @ bytes [0xE6, 0x80,
       0xBB, 0xE8, 0x8A, 0x82, 0xE7, 0x82, 0xB9, 0xE6, 0x95, 0xB0] @ ''> <'' @ bytes [0xE6, 0x80, 0xBB] @
       ''DC'' @ bytes [0xE5, 0x86, 0x85, 0xE4, 0xBA, 0xA4, 0xE6, 0x8D, 0xA2, 0xE6, 0x9C, 0xBA, 0xE6, 0x95,
       0xB0] @ ''> <'' @ bytes [0xE6, 0x80, 0xBB] @ ''DCI'' @ bytes [0xE4, 0xBA, 0xA4, 0xE6, 0x8D, 0xA2, 0xE6,
       0x9C, 0xBA, 0xE6, 0x95, 0xB0] @ ''> <'' @ bytes [0xE6, 0x80, 0xBB, 0xE9, 0x93, 0xBE, 0xE8, 0xB7, 0xAF,
       0xE6, 0x95, 0xB0] @ ''>'',
     ''# '' @ bytes [0xE7, 0xAC, 0xAC, 0xE4, 0xBA, 0x8C, 0xE8, 0xA1, 0x8C] @ '': '' @ bytes [0xE6, 0x89,
       0x80, 0xE6, 0x9C, 0x89] @ ''DC'' @ bytes [0xE5, 0x86, 0x85] @ '' '' @ bytes [0xE4, 0xBA, 0xA4, 0xE6,
       0x8D, 0xA2, 0xE6, 0x9C, 0xBA] @ ''ID'' @ bytes [0xE5, 0x88, 0x97, 0xE8, 0xA1, 0xA8],
     ''# '' @ bytes [0xE7, 0xAC, 0xAC, 0xE4, 0xB8, 0x89, 0xE8, 0xA1, 0x8C] @ '': '' @ bytes [0xE6, 0x89,
       0x80, 0xE6, 0x9C, 0x89] @ ''DCI '' @ bytes [0xE4, 0xBA, 0xA4, 0xE6, 0x8D, 0xA2, 0xE6, 0x9C, 0xBA] @
       ''ID'' @ bytes [0xE5, 0x88, 0x97, 0xE8, 0xA1, 0xA8],
     ''# '' @ bytes [0xE5, 0x90, 0x8E, 0xE7, 0xBB, 0xAD, 0xE8, 0xA1, 0x8C] @ '': <'' @ bytes [0xE6, 0xBA,
       0x90, 0xE8, 0x8A, 0x82, 0xE7, 0x82, 0xB9] @ ''> <'' @ bytes [0xE7, 0x9B, 0xAE, 0xE6, 0xA0, 0x87, 0xE8,
       0x8A, 0x82, 0xE7, 0x82, 0xB9] @ ''> <'' @ bytes [0xE5, 0xB8, 0xA6, 0xE5, 0xAE, 0xBD] @ ''> <'' @ bytes
       [0xE5, 0xBB, 0xB6, 0xE8, 0xBF, 0x9F] @ ''> <'' @ bytes [0xE4, 0xB8, 0xA2, 0xE5, 0x8C, 0x85, 0xE7, 0x8E,
       0x87] @ ''>'',
     []]"

definition simple_switch_ids :: "topo_params \<Rightarrow> simple_ids \<Rightarrow> string" where
  "simple_switch_ids p s =
     join '' '' (map (\<lambda>i. str_nat (s_tor_id_start s + i * simple_tors_per_dc p)) [0..<dc_num p]) @ [nl] @
     join '' '' (map (\<lambda>i. str_nat (s_dci_id_start s + i)) [0..<dc_num p])"

definition simple_dc :: "topo_params \<Rightarrow> simple_ids \<Rightarrow> nat \<Rightarrow> entry list" where
  "simple_dc p s dc_idx =
     (let host_start = dc_idx * simple_hosts_per_dc p;
          tor = s_tor_id_start s + dc_idx * simple_tors_per_dc p;
          dci = s_dci_id_start s + dc_idx
      in [Note (''# DC'' @ str_nat (dc_idx + 1) @ '' '' @ bytes [0xE5, 0x86, 0x85, 0xE9, 0x83, 0xA8, 0xE8, 0xBF, 0x9E,
          0xE6, 0x8E, 0xA5]), Note (''# '' @ bytes [0xE4, 0xB8, 0xBB, 0xE6, 0x9C, 0xBA, 0xE5, 0x88, 0xB0] @ ''ToR'' @ bytes [0xE4, 0xBA,
          0xA4, 0xE6, 0x8D, 0xA2, 0xE6, 0x9C, 0xBA, 0xE8, 0xBF, 0x9E, 0xE6, 0x8E, 0xA5])] @
         map (\<lambda>i. Link (host_start + i) tor (simple_link_rate p) (simple_link_latency p)) [0..<simple_hosts_per_dc p] @
         [Note (''# ToR'' @ bytes [0xE4, 0xBA, 0xA4, 0xE6, 0x8D, 0xA2, 0xE6, 0x9C, 0xBA, 0xE5, 0x88, 0xB0] @ ''DCI'' @
          bytes [0xE4, 0xBA, 0xA4, 0xE6, 0x8D, 0xA2, 0xE6, 0x9C, 0xBA, 0xE8, 0xBF, 0x9E, 0xE6, 0x8E, 0xA5]),
          Link tor dci (simple_link_rate p) (simple_link_latency p), Note []])"

definition simple_connections :: "topo_params \<Rightarrow> simple_ids \<Rightarrow> entry list" where
  "simple_connections p s = concat (map (simple_dc p s) [0..<dc_num p])"

definition simple_links :: "topo_params \<Rightarrow> entry list" where
  "simple_links p = (let s = fst (simple_node_counts p) in simple_connections p s @ dci_mesh p (s_dci_id_start s))"

definition counts_line :: "node_counts \<Rightarrow> int \<Rightarrow> string" where
  "counts_line c l = str_nat (total_nodes c) @ '' '' @ str_nat (total_intra_dc_switches c) @ '' '' @
     str_nat (total_dcis c) @ '' '' @ str_int l"

definition simple_content :: "topo_params \<Rightarrow> string list" where
  "simple_content p =
     (let (s, c) = simple_node_counts p; total_links = simple_link_counts p s
      in simple_header p @ simple_allocation p s @ [counts_line c total_links] @
         [simple_switch_ids p s, []] @ map render (simple_links p) @ [[], end_note])"

section \<open>The leaf-spine topology\<close>

record leafspine_ids =
  l_total_hosts :: nat
  l_total_leaves :: nat
  l_total_spines :: nat
  l_total_dcis :: nat
  l_total_nodes :: nat
  l_leaf_id_start :: nat
  l_spine_id_start :: nat
  l_dci_id_start :: nat

definition leafspine_node_counts :: "topo_params \<Rightarrow> leafspine_ids \<times> node_counts" where
  "leafspine_node_counts p =
     (let hosts = dc_num p * leafspine_hosts_per_dc p; leaves = dc_num p * leafspine_leaves_per_dc p;
          spines = dc_num p * leafspine_spines_per_dc p; dcis = dc_num p * dci_per_dc p;
          nodes = hosts + leaves + spines + dcis
      in (\<lparr>l_total_hosts = hosts, l_total_leaves = leaves, l_total_spines = spines, l_total_dcis = dcis,
           l_total_nodes = nodes, l_leaf_id_start = hosts, l_spine_id_start = hosts + leaves,
           l_dci_id_start = hosts + leaves + spines\<rparr>,
          \<lparr>total_nodes = nodes, total_intra_dc_switches = leaves + spines, total_dcis = dcis\<rparr>))"

definition leafspine_link_counts :: "topo_params \<Rightarrow> leafspine_ids \<Rightarrow> int" where
  "leafspine_link_counts p s =
     (let links_per_dc =
        (if 0 < dci_per_dc p
         then leafspine_hosts_per_dc p + leafspine_leaves_per_dc p * leafspine_spines_per_dc p + leafspine_spines_per_dc p
         else leafspine_hosts_per_dc p + leafspine_leaves_per_dc p * leafspine_spines_per_dc p)
      in int (links_per_dc * dc_num p) + pairs_of (l_total_dcis s))"

definition leafspine_header :: "topo_params \<Rightarrow> string list" where
  "leafspine_header p =
    [''# '' @ bytes [0xE5, 0xA4, 0x9A, 0xE6, 0x95, 0xB0, 0xE6, 0x8D, 0xAE, 0xE4, 0xB8, 0xAD, 0xE5, 0xBF,
       0x83] @ bytes [0xE5, 0x8F, 0xB6, 0xE8, 0x84, 0x8A, 0xE6, 0x8B, 0x93, 0xE6, 0x89, 0x91] @ bytes [0xE7,
       0xBB, 0x93, 0xE6, 0x9E, 0x84],
     ''# '' @ bytes [0xE6, 0x8B, 0x93, 0xE6, 0x89, 0x91, 0xE7, 0xB1, 0xBB, 0xE5, 0x9E, 0x8B] @ '': '' @ bytes
       [0xE5, 0x8F, 0xB6, 0xE8, 0x84, 0x8A, 0xE6, 0x8B, 0x93, 0xE6, 0x89, 0x91, 0xEF, 0xBC, 0x88, 0xE4, 0xB8,
       0xBB, 0xE6, 0x9C, 0xBA] @ '' '' @ bytes [0xE2, 0x86, 0x92] @ '' '' @ bytes [0xE5, 0x8F, 0xB6, 0xE5,
       0xB1, 0x82, 0xE4, 0xBA, 0xA4, 0xE6, 0x8D, 0xA2, 0xE6, 0x9C, 0xBA] @ '' '' @ bytes [0xE2, 0x86, 0x92] @
       '' '' @ bytes [0xE8, 0x84, 0x8A, 0xE5, 0xB1, 0x82, 0xE4, 0xBA, 0xA4, 0xE6, 0x8D, 0xA2, 0xE6, 0x9C, 0xBA]
       @ '' '' @ bytes [0xE2, 0x86, 0x92] @ '' DCI'' @ bytes [0xE4, 0xBA, 0xA4, 0xE6, 0x8D, 0xA2, 0xE6, 0x9C,
       0xBA, 0xEF, 0xBC, 0x89],
     ''# '' @ bytes [0xE5, 0x8F, 0x82, 0xE6, 0x95, 0xB0, 0xE8, 0xAE, 0xBE, 0xE7, 0xBD, 0xAE] @ '':'',
     ''# '' @ bytes [0xE6, 0x95, 0xB0, 0xE6, 0x8D, 0xAE, 0xE4, 0xB8, 0xAD, 0xE5, 0xBF, 0x83, 0xE6, 0x95,
       0xB0, 0xE9, 0x87, 0x8F] @ '': '' @ str_nat (dc_num p),
     ''# '' @ bytes [0xE6, 0xAF, 0x8F, 0xE4, 0xB8, 0xAA, 0xE6, 0x95, 0xB0, 0xE6, 0x8D, 0xAE, 0xE4, 0xB8,
       0xAD, 0xE5, 0xBF, 0x83, 0xE7, 0x9A, 0x84, 0xE4, 0xB8, 0xBB, 0xE6, 0x9C, 0xBA, 0xE6, 0x95, 0xB0, 0xE9,
       0x87, 0x8F] @ '': '' @ str_nat (leafspine_hosts_per_dc p),
     ''# '' @ bytes [0xE6, 0xAF, 0x8F, 0xE4, 0xB8, 0xAA, 0xE6, 0x95, 0xB0, 0xE6, 0x8D, 0xAE, 0xE4, 0xB8,
       0xAD, 0xE5, 0xBF, 0x83, 0xE7, 0x9A, 0x84, 0xE5, 0x8F, 0xB6, 0xE5, 0xB1, 0x82, 0xE4, 0xBA, 0xA4, 0xE6,
       0x8D, 0xA2, 0xE6, 0x9C, 0xBA, 0xE6, 0x95, 0xB0, 0xE9, 0x87, 0x8F] @ '': '' @ str_nat
       (leafspine_leaves_per_dc p),
     ''# '' @ bytes [0xE6, 0xAF, 0x8F, 0xE4, 0xB8, 0xAA, 0xE6, 0x95, 0xB0, 0xE6, 0x8D, 0xAE, 0xE4, 0xB8,
       0xAD, 0xE5, 0xBF, 0x83, 0xE7, 0x9A, 0x84, 0xE8, 0x84, 0x8A, 0xE5, 0xB1, 0x82, 0xE4, 0xBA, 0xA4, 0xE6,
       0x8D, 0xA2, 0xE6, 0x9C, 0xBA, 0xE6, 0x95, 0xB0, 0xE9, 0x87, 0x8F] @ '': '' @ str_nat
       (leafspine_spines_per_dc p),
     ''# '' @ bytes [0xE6, 0xAF, 0x8F, 0xE4, 0xB8, 0xAA, 0xE5, 0x8F, 0xB6, 0xE5, 0xB1, 0x82, 0xE4, 0xBA,
       0xA4, 0xE6, 0x8D, 0xA2, 0xE6, 0x9C, 0xBA, 0xE8, 0xBF, 0x9E, 0xE6, 0x8E, 0xA5, 0xE7, 0x9A, 0x84, 0xE4,
       0xB8, 0xBB, 0xE6, 0x9C, 0xBA, 0xE6, 0x95, 0xB0, 0xE9, 0x87, 0x8F] @ '': '' @ str_nat
       (leafspine_hosts_per_leaf p),
     ''# '' @ bytes [0xE8, 0xBF, 0x87, 0xE8, 0xBD, 0xBD, 0xE6, 0xAF, 0x94] @ '': '' @ str_nat
       (leafspine_oversubscript p) @ '':1'',
     ''# DC'' @ bytes [0xE5, 0x86, 0x85, 0xE9, 0x93, 0xBE, 0xE8, 0xB7, 0xAF, 0xE9, 0x80, 0x9F, 0xE7, 0x8E,
       0x87] @ '': '' @ leafspine_link_rate p,
     ''# DC'' @ bytes [0xE5, 0x86, 0x85, 0xE9, 0x93, 0xBE, 0xE8, 0xB7, 0xAF, 0xE5, 0xBB, 0xB6, 0xE8, 0xBF,
       0x9F] @ '': '' @ leafspine_link_latency p,
     ''# DCI'' @ bytes [0xE9, 0x93, 0xBE, 0xE8, 0xB7, 0xAF, 0xE9, 0x80, 0x9F, 0xE7, 0x8E, 0x87] @ '': '' @
       dci_link_rate p,
     ''# DCI'' @ bytes [0xE9, 0x93, 0xBE, 0xE8, 0xB7, 0xAF, 0xE5, 0xBB, 0xB6, 0xE8, 0xBF, 0x9F] @ '': '' @
       dci_link_latency p,
     []]"

definition leafspine_allocation :: "topo_params \<Rightarrow> leafspine_ids \<Rightarrow> string list" where
  "leafspine_allocation p s =
    [''# '' @ bytes [0xE6, 0x95, 0xB0, 0xE6, 0x8D, 0xAE, 0xE4, 0xB8, 0xAD, 0xE5, 0xBF, 0x83, 0xE8, 0x8A,
      0x82, 0xE7, 0x82, 0xB9, 0xE5, 0x88, 0x86, 0xE9, 0x85, 0x8D] @ '':''] @
    map (\<lambda>i.
      let host_start = i * leafspine_hosts_per_dc p;
          host_end = host_start + leafspine_hosts_per_dc p - 1;
          leaf_start = l_leaf_id_start s + i * leafspine_leaves_per_dc p;
          leaf_end = leaf_start + leafspine_leaves_per_dc p - 1;
          spine_start = l_spine_id_start s + i * leafspine_spines_per_dc p;
          spine_end = spine_start + leafspine_spines_per_dc p - 1;
          dci = l_dci_id_start s + i
      in if 0 < dci_per_dc p then
           ''# DC'' @ str_nat (i + 1) @ '': '' @ bytes [0xE4, 0xB8, 0xBB, 0xE6, 0x9C, 0xBA] @ '' '' @ str_nat
           host_start @ ''-'' @ str_nat host_end @ '', '' @ bytes [0xE5, 0x8F, 0xB6, 0xE5, 0xB1, 0x82, 0xE4, 0xBA,
           0xA4, 0xE6, 0x8D, 0xA2, 0xE6, 0x9C, 0xBA] @ '' '' @ str_nat leaf_start @ ''-'' @ str_nat leaf_end @ '',
           '' @ bytes [0xE8, 0x84, 0x8A, 0xE5, 0xB1, 0x82, 0xE4, 0xBA, 0xA4, 0xE6, 0x8D, 0xA2, 0xE6, 0x9C, 0xBA] @
           '' '' @ str_nat spine_start @ ''-'' @ str_nat spine_end @ '', DCI'' @ bytes [0xE4, 0xBA, 0xA4, 0xE6,
           0x8D, 0xA2, 0xE6, 0x9C, 0xBA] @ '' '' @ str_nat dci
         else
           ''# DC'' @ str_nat (i + 1) @ '': '' @ bytes [0xE4, 0xB8, 0xBB, 0xE6, 0x9C, 0xBA] @ '' '' @ str_nat
           host_start @ ''-'' @ str_nat host_end @ '', '' @ bytes [0xE5, 0x8F, 0xB6, 0xE5, 0xB1, 0x82, 0xE4, 0xBA,
           0xA4, 0xE6, 0x8D, 0xA2, 0xE6, 0x9C, 0xBA] @ '' '' @ str_nat leaf_start @ ''-'' @ str_nat leaf_end @ '',
           '' @ bytes [0xE8, 0x84, 0x8A, 0xE5, 0xB1, 0x82, 0xE4, 0xBA, 0xA4, 0xE6, 0x8D, 0xA2, 0xE6, 0x9C, 0xBA] @
           '' '' @ str_nat spine_start @ ''-'' @ str_nat spine_end @ '', '' @ bytes [0xE6, 0x97, 0xA0] @ ''DCI'' @
           bytes [0xE4, 0xBA, 0xA4, 0xE6, 0x8D, 0xA2, 0xE6, 0x9C, 0xBA])
      [0..<dc_num p] @
    [[],
     ''# '' @ bytes [0xE6, 0x96, 0x87, 0xE4, 0xBB, 0xB6, 0xE6, 0xA0, 0xBC, 0xE5, 0xBC, 0x8F] @ '':'',
     ''# '' @ bytes [0xE7, 0xAC, 0xAC, 0xE4, 0xB8, 0x80, 0xE8, 0xA1, 0x8C] @ '': <'' @ bytes [0xE6, 0x80,
       0xBB, 0xE8, 0x8A, 0x82, 0xE7, 0x82, 0xB9, 0xE6, 0x95, 0xB0] @ ''> <'' @ bytes [0xE6, 0x80, 0xBB] @
       ''DC'' @ bytes [0xE5, 0x86, 0x85, 0xE4, 0xBA, 0xA4, 0xE6, 0x8D, 0xA2, 0xE6, 0x9C, 0xBA, 0xE6, 0x95,
       0xB0] @ ''> <'' @ bytes [0xE6, 0x80, 0xBB] @ ''DCI'' @ bytes [0xE4, 0xBA, 0xA4, 0xE6, 0x8D, 0xA2, 0xE6,
       0x9C, 0xBA, 0xE6, 0x95, 0xB0] @ ''> <'' @ bytes [0xE6, 0x80, 0xBB, 0xE9, 0x93, 0xBE, 0xE8, 0xB7, 0xAF,
       0xE6, 0x95, 0xB0] @ ''>'',
     ''# '' @ bytes [0xE7, 0xAC, 0xAC, 0xE4, 0xBA, 0x8C, 0xE8, 0xA1, 0x8C] @ '': '' @ bytes [0xE6, 0x89,
       0x80, 0xE6, 0x9C, 0x89, 0xE4, 0xBA, 0xA4, 0xE6, 0x8D, 0xA2, 0xE6, 0x9C, 0xBA] @ ''ID'' @ bytes [0xE5,
       0x88, 0x97, 0xE8, 0xA1, 0xA8],
     ''# '' @ bytes [0xE5, 0x90, 0x8E, 0xE7, 0xBB, 0xAD, 0xE8, 0xA1, 0x8C] @ '': <'' @ bytes [0xE6, 0xBA,
       0x90, 0xE8, 0x8A, 0x82, 0xE7, 0x82, 0xB9] @ ''> <'' @ bytes [0xE7, 0x9B, 0xAE, 0xE6, 0xA0, 0x87, 0xE8,
       0x8A, 0x82, 0xE7, 0x82, 0xB9] @ ''> <'' @ bytes [0xE5, 0xB8, 0xA6, 0xE5, 0xAE, 0xBD] @ ''> <'' @ bytes
       [0xE5, 0xBB, 0xB6, 0xE8, 0xBF, 0x9F] @ ''> <'' @ bytes [0xE4, 0xB8, 0xA2, 0xE5, 0x8C, 0x85, 0xE7, 0x8E,
       0x87] @ ''>'',
     []]"

definition leafspine_switch_ids :: "topo_params \<Rightarrow> leafspine_ids \<Rightarrow> string" where
  "leafspine_switch_ids p s =
     (let leaf_ids = concat (map (\<lambda>i. map (\<lambda>j. str_nat (l_leaf_id_start s + i * leafspine_leaves_per_dc p + j))
            [0..<leafspine_leaves_per_dc p]) [0..<dc_num p]);
          spine_ids = concat (map (\<lambda>i. map (\<lambda>j. str_nat (l_spine_id_start s + i * leafspine_spines_per_dc p + j))
            [0..<leafspine_spines_per_dc p]) [0..<dc_num p]);
          dci_ids = (if 0 < dci_per_dc p then map (\<lambda>i. str_nat (l_dci_id_start s + i)) [0..<dc_num p] else [])
      in join '' '' (leaf_ids @ spine_ids) @ [nl] @ join '' '' dci_ids)"

definition host_leaf_links :: "topo_params \<Rightarrow> leafspine_ids \<Rightarrow> nat \<Rightarrow> entry list" where
  "host_leaf_links p s dc_idx =
     concat (map (\<lambda>i. map (\<lambda>j.
         Link (dc_idx * leafspine_hosts_per_dc p + i * leafspine_hosts_per_leaf p + j)
           (l_leaf_id_start s + dc_idx * leafspine_leaves_per_dc p + i)
           (leafspine_link_rate p) (leafspine_link_latency p))
       [0..<leafspine_hosts_per_leaf p]) [0..<leafspine_leaves_per_dc p])"

definition leaf_spine_links :: "topo_params \<Rightarrow> leafspine_ids \<Rightarrow> nat \<Rightarrow> entry list" where
  "leaf_spine_links p s dc_idx =
     concat (map (\<lambda>i. map (\<lambda>j.
         Link (l_leaf_id_start s + dc_idx * leafspine_leaves_per_dc p + i)
           (l_spine_id_start s + dc_idx * leafspine_spines_per_dc p + j)
           (leafspine_link_rate p) (leafspine_link_latency p))
       [0..<leafspine_spines_per_dc p]) [0..<leafspine_leaves_per_dc p])"

definition spine_dci_links :: "topo_params \<Rightarrow> leafspine_ids \<Rightarrow> nat \<Rightarrow> entry list" where
  "spine_dci_links p s dc_idx =
     (let dci = (if 0 < dci_per_dc p then l_dci_id_start s + dc_idx else 0)
      in if 0 < dci_per_dc p then
           map (\<lambda>i. Link (l_spine_id_start s + dc_idx * leafspine_spines_per_dc p + i) dci
             (leafspine_link_rate p) (leafspine_link_latency p)) [0..<leafspine_spines_per_dc p]
         else [])"

definition leafspine_dc :: "topo_params \<Rightarrow> leafspine_ids \<Rightarrow> nat \<Rightarrow> entry list" where
  "leafspine_dc p s dc_idx =
     [Note (''# DC'' @ str_nat (dc_idx + 1) @ '' '' @ bytes [0xE5, 0x86, 0x85, 0xE9, 0x83, 0xA8, 0xE8, 0xBF, 0x9E,
          0xE6, 0x8E, 0xA5]),
      Note (''# '' @ bytes [0xE4, 0xB8, 0xBB, 0xE6, 0x9C, 0xBA, 0xE5, 0x88, 0xB0, 0xE5, 0x8F, 0xB6, 0xE5, 0xB1,
          0x82, 0xE4, 0xBA, 0xA4, 0xE6, 0x8D, 0xA2, 0xE6, 0x9C, 0xBA, 0xE8, 0xBF, 0x9E, 0xE6, 0x8E, 0xA5])] @
     host_leaf_links p s dc_idx @
     [Note (''# '' @ bytes [0xE5, 0x8F, 0xB6, 0xE5, 0xB1, 0x82, 0xE4, 0xBA, 0xA4, 0xE6, 0x8D, 0xA2, 0xE6, 0x9C,
          0xBA, 0xE5, 0x88, 0xB0, 0xE8, 0x84, 0x8A, 0xE5, 0xB1, 0x82, 0xE4, 0xBA, 0xA4, 0xE6, 0x8D, 0xA2, 0xE6,
          0x9C, 0xBA, 0xE8, 0xBF, 0x9E, 0xE6, 0x8E, 0xA5])] @
     leaf_spine_links p s dc_idx @
     [Note (''# '' @ bytes [0xE8, 0x84, 0x8A, 0xE5, 0xB1, 0x82, 0xE4, 0xBA, 0xA4, 0xE6, 0x8D, 0xA2, 0xE6, 0x9C,
          0xBA, 0xE5, 0x88, 0xB0] @ ''DCI'' @ bytes [0xE4, 0xBA, 0xA4, 0xE6, 0x8D, 0xA2, 0xE6, 0x9C, 0xBA, 0xE8,
          0xBF, 0x9E, 0xE6, 0x8E, 0xA5])] @
     spine_dci_links p s dc_idx @ [Note []]"

definition leafspine_connections :: "topo_params \<Rightarrow> leafspine_ids \<Rightarrow> entry list" where
  "leafspine_connections p s = concat (map (leafspine_dc p s) [0..<dc_num p])"

definition leafspine_dci_mesh :: "topo_params \<Rightarrow> leafspine_ids \<Rightarrow> entry list" where
  "leafspine_dci_mesh p s = dci_mesh p (l_dci_id_start s)"

definition leafspine_links :: "topo_params \<Rightarrow> entry list" where
  "leafspine_links p = (let s = fst (leafspine_node_counts p) in leafspine_connections p s @ leafspine_dci_mesh p s)"

definition leafspine_counts_line :: "topo_params \<Rightarrow> node_counts \<Rightarrow> int \<Rightarrow> string" where
  "leafspine_counts_line p c l =
     (if 0 < dci_per_dc p then counts_line c l
      else str_nat (total_nodes c) @ '' '' @ str_nat (total_intra_dc_switches c) @ '' '' @ str_int l)"

definition leafspine_content :: "topo_params \<Rightarrow> string list" where
  "leafspine_content p =
     (let (s, c) = leafspine_node_counts p; total_links = leafspine_link_counts p s
      in leafspine_header p @ leafspine_allocation p s @ [leafspine_counts_line p c total_links] @
         [leafspine_switch_ids p s, []] @ map render (leafspine_links p) @ [[], end_note])"

section \<open>The file\<close>

definition write_to_file :: "files \<Rightarrow> string \<Rightarrow> string list \<Rightarrow> files" where
  "write_to_file fs filename content = fs(filename \<mapsto> join [nl] content)"

text \<open>\<open>script_dir\<close> is the directory of the script; an unknown topology type writes nothing.\<close>

definition topo_main :: "string \<Rightarrow> topo_params \<Rightarrow> files \<Rightarrow> files" where
  "topo_main script_dir p fs =
     (if topology_type p = 1 then
        write_to_file fs (script_dir @ ''/topology_Simple_MultiDC'' @ str_nat (dc_num p) @ ''.txt'') (simple_content p)
      else if topology_type p = 2 then
        write_to_file fs (script_dir @ ''/topology_LeafSpine_MultiDC'' @ str_nat (dc_num p) @ ''.txt'') (leafspine_content p)
      else fs)"

section \<open>The links of the lines\<close>

lemma links_simps [simp]:
  "links [] = []" "links (Note s # es) = links es" "links (Link a b r l # es) = (a, b) # links es"
  "links (es @ fs) = links es @ links fs"
  by (simp_all add: links_def List.map_filter_def)

lemma links_concat: "links (concat (map f xs)) = concat (map (\<lambda>x. links (f x)) xs)"
  by (induction xs) simp_all

lemma links_map: "links (map (\<lambda>x. Link (f x) (g x) r l) xs) = map (\<lambda>x. (f x, g x)) xs"
  by (induction xs) simp_all

lemmas links_eqs = links_concat links_map

text \<open>The identifiers of a leaf-spine topology with \<open>n\<close> data centres of \<open>h\<close> hosts, \<open>l\<close> leaves and \<open>s\<close> spines,
  \<open>k\<close> hosts per leaf, as sets of links.\<close>

definition host_tier :: "nat \<Rightarrow> nat \<Rightarrow> nat \<Rightarrow> nat \<Rightarrow> (nat \<times> nat) list" where
  "host_tier n l k d = concat (map (\<lambda>i. map (\<lambda>j. (d * (l * k) + i * k + j, n * (l * k) + d * l + i)) [0..<k]) [0..<l])"

definition spine_tier :: "nat \<Rightarrow> nat \<Rightarrow> nat \<Rightarrow> nat \<Rightarrow> nat \<Rightarrow> (nat \<times> nat) list" where
  "spine_tier n l k s d = concat (map (\<lambda>i. map (\<lambda>j.
     (n * (l * k) + d * l + i, n * (l * k) + n * l + d * s + j)) [0..<s]) [0..<l])"

definition dci_tier :: "nat \<Rightarrow> nat \<Rightarrow> nat \<Rightarrow> nat \<Rightarrow> nat \<Rightarrow> (nat \<times> nat) list" where
  "dci_tier n l k s d = map (\<lambda>i. (n * (l * k) + n * l + d * s + i, n * (l * k) + n * l + n * s + d)) [0..<s]"

definition mesh :: "nat \<Rightarrow> nat \<Rightarrow> (nat \<times> nat) list" where
  "mesh n start = concat (map (\<lambda>i. map (\<lambda>j. (start + i, start + j)) [i + 1..<n]) [0..<n])"

text \<open>The parameters the generator is meant for: every host has a place on a leaf, one switch towards the
  other data centres, and a size at which the division of the link count is exact.\<close>

definition proper :: "topo_params \<Rightarrow> bool" where
  "proper p = (leafspine_hosts_per_dc p = leafspine_leaves_per_dc p * leafspine_hosts_per_leaf p \<and>
     dci_per_dc p = 1 \<and> dc_num p \<le> 2 ^ 26)"

lemma dci_mesh_links: "dci_per_dc p = 1 \<Longrightarrow> links (dci_mesh p start) = mesh (dc_num p) start"
  by (simp add: dci_mesh_def mesh_def links_eqs)

lemma leafspine_links_eq:
  assumes "proper p"
  shows "links (leafspine_links p) =
    (let n = dc_num p; l = leafspine_leaves_per_dc p; s = leafspine_spines_per_dc p; k = leafspine_hosts_per_leaf p
     in concat (map (\<lambda>d. host_tier n l k d @ spine_tier n l k s d @ dci_tier n l k s d) [0..<n]) @
        mesh n (n * (l * k) + n * l + n * s))"
  using assms
  by (simp add: leafspine_links_def leafspine_node_counts_def leafspine_connections_def leafspine_dc_def
      leafspine_dci_mesh_def dci_mesh_links proper_def links_eqs host_leaf_links_def leaf_spine_links_def
      spine_dci_links_def host_tier_def spine_tier_def dci_tier_def Let_def)

section \<open>The number of links\<close>

lemma sum_list_below: "sum_list (map (\<lambda>i. n - Suc i) [0..<n]) = n * (n - 1) div 2"
proof (induction n)
  case 0
  then show ?case by simp
next
  case (Suc n)
  have "[0..<Suc n] = 0 # map Suc [0..<n]" by (simp add: upt_conv_Cons map_Suc_upt)
  then have "sum_list (map (\<lambda>i. Suc n - Suc i) [0..<Suc n]) = n + sum_list (map (\<lambda>i. n - Suc i) [0..<n])"
    by (simp add: o_def)
  also have "\<dots> = Suc n * (Suc n - 1) div 2" using Suc by (cases n) (simp_all add: algebra_simps)
  finally show ?case .
qed

lemma length_mesh: "length (mesh n start) = n * (n - 1) div 2"
  by (simp add: mesh_def length_concat o_def sum_list_below)

lemma length_tiers [simp]:
  "length (host_tier n l k d) = l * k" "length (spine_tier n l k s d) = l * s" "length (dci_tier n l k s d) = s"
  by (simp_all add: host_tier_def spine_tier_def dci_tier_def length_concat o_def sum_list_triv)

lemma pairs_of_exact: "n \<le> 2 ^ 26 \<Longrightarrow> pairs_of n = int (n * (n - 1) div 2)"
proof -
  assume n: "n \<le> 2 ^ 26"
  have ev: "even (n * (n - 1))" by (cases n) auto
  have int: "int n * (int n - 1) = int (n * (n - 1))" by (cases n) (simp_all add: algebra_simps)
  have "n * (n - 1) \<le> 2 ^ 26 * 2 ^ 26" using n by (intro mult_mono) auto
  then have "int (n * (n - 1) div 2) \<le> 2 ^ 53" by simp
  moreover have "of_int (int (n * (n - 1))) / 2 = (of_int (int (n * (n - 1) div 2)) :: rat)"
  proof -
    obtain m where "n * (n - 1) = 2 * m" using ev by (rule evenE)
    then show ?thesis by simp
  qed
  ultimately show ?thesis unfolding pairs_of_def int by (simp only: rn_of_int abs_of_nat py_trunc_of_int)
qed

text \<open>C3. The number of links the leaf-spine file announces is the number of link lines it contains.\<close>

theorem leafspine_link_count:
  assumes "proper p"
  shows "leafspine_link_counts p (fst (leafspine_node_counts p)) = int (length (links (leafspine_links p)))"
  using assms leafspine_links_eq[OF assms]
  by (simp add: leafspine_link_counts_def leafspine_node_counts_def Let_def proper_def pairs_of_exact
      length_mesh length_concat o_def sum_list_triv algebra_simps)

theorem leafspine_link_count_witness:
  "leafspine_link_counts shipped (fst (leafspine_node_counts shipped)) = int (length (links (leafspine_links shipped)))"
  by (rule leafspine_link_count) (simp add: proper_def shipped_def)

section \<open>The tiers\<close>

text \<open>What the links of a proper topology are, tier by tier.\<close>

lemma leafspine_link_iff:
  assumes "proper p"
  shows "(a, b) \<in> set (links (leafspine_links p)) \<longleftrightarrow>
    (let n = dc_num p; l = leafspine_leaves_per_dc p; s = leafspine_spines_per_dc p; k = leafspine_hosts_per_leaf p;
         leaf = n * (l * k); spine = leaf + n * l; dci = spine + n * s
     in (\<exists>d<n. \<exists>i<l. \<exists>j<k. a = d * (l * k) + i * k + j \<and> b = leaf + d * l + i) \<or>
        (\<exists>d<n. \<exists>i<l. \<exists>j<s. a = leaf + d * l + i \<and> b = spine + d * s + j) \<or>
        (\<exists>d<n. \<exists>i<s. a = spine + d * s + i \<and> b = dci + d) \<or>
        (\<exists>i<n. \<exists>j<n. i < j \<and> a = dci + i \<and> b = dci + j))"
  unfolding leafspine_links_eq[OF assms] Let_def
  by (simp add: host_tier_def spine_tier_def dci_tier_def mesh_def) (fastforce simp: Suc_le_eq)

lemma radix_less: "(d :: nat) < n \<Longrightarrow> i < k \<Longrightarrow> d * k + i < n * k"
proof -
  assume "d < n" "i < k"
  then have "Suc d * k \<le> n * k" by (intro mult_right_mono) auto
  with \<open>i < k\<close> show ?thesis by simp
qed

lemma radix_div: "(i :: nat) < k \<Longrightarrow> (d * k + i) div k = d"
  by simp

lemma radix_inj: "(d :: nat) * k + i = d' * k + i' \<Longrightarrow> i < k \<Longrightarrow> i' < k \<Longrightarrow> d = d' \<and> i = i'"
proof -
  assume eq: "d * k + i = d' * k + i'" and i: "i < k" "i' < k"
  have "(d * k + i) div k = d" "(d' * k + i') div k = d'" "(d * k + i) mod k = i" "(d' * k + i') mod k = i'"
    using i by simp_all
  then show ?thesis using eq by simp
qed

lemma link_ends:
  assumes "proper p" "(a, b) \<in> set (links (leafspine_links p))"
  shows "a < b \<and> b < total_nodes (snd (leafspine_node_counts p))"
proof -
  let ?n = "dc_num p" and ?l = "leafspine_leaves_per_dc p" and ?s = "leafspine_spines_per_dc p"
    and ?k = "leafspine_hosts_per_leaf p"
  let ?leaf = "?n * (?l * ?k)" and ?spine = "?n * (?l * ?k) + ?n * ?l"
    and ?dci = "?n * (?l * ?k) + ?n * ?l + ?n * ?s"
  have total: "total_nodes (snd (leafspine_node_counts p)) = ?dci + ?n"
    using assms(1) by (simp add: leafspine_node_counts_def proper_def Let_def)
  from assms(2) consider
      (host) d i j where "d < ?n" "i < ?l" "j < ?k" "a = d * (?l * ?k) + i * ?k + j" "b = ?leaf + d * ?l + i"
    | (leaf) d i j where "d < ?n" "i < ?l" "j < ?s" "a = ?leaf + d * ?l + i" "b = ?spine + d * ?s + j"
    | (spine) d i where "d < ?n" "i < ?s" "a = ?spine + d * ?s + i" "b = ?dci + d"
    | (mesh) i j where "i < ?n" "j < ?n" "i < j" "a = ?dci + i" "b = ?dci + j"
    unfolding leafspine_link_iff[OF assms(1)] Let_def by blast
  then show ?thesis
  proof cases
    case host
    have "i * ?k + j < ?l * ?k" by (rule radix_less[OF host(2,3)])
    then have "d * (?l * ?k) + (i * ?k + j) < ?leaf" by (rule radix_less[OF host(1)])
    moreover have "d * ?l + i < ?n * ?l" by (rule radix_less[OF host(1,2)])
    ultimately show ?thesis unfolding total using host(4,5) by linarith
  next
    case leaf
    have "d * ?l + i < ?n * ?l" "d * ?s + j < ?n * ?s"
      by (rule radix_less[OF leaf(1,2)], rule radix_less[OF leaf(1,3)])
    then show ?thesis unfolding total using leaf(4,5) by linarith
  next
    case spine
    have "d * ?s + i < ?n * ?s" by (rule radix_less[OF spine(1,2)])
    then show ?thesis unfolding total using spine by linarith
  next
    case mesh
    then show ?thesis unfolding total by linarith
  qed
qed

text \<open>Every link of a proper leaf-spine topology goes from a lower to a higher node number, both smaller
  than the announced number of nodes: no loops and no unknown nodes.\<close>

theorem leafspine_link_range:
  assumes "proper p" "(a, b) \<in> set (links (leafspine_links p))"
  shows "a < b \<and> b < total_nodes (snd (leafspine_node_counts p))"
  using assms by (rule link_ends)

theorem leafspine_link_range_witness: "(0 :: nat) < 256 \<and> 256 < total_nodes (snd (leafspine_node_counts shipped))"
proof -
  have p: "proper shipped" by (simp add: proper_def shipped_def)
  have "(0, 256) \<in> set (links (leafspine_links shipped))"
    unfolding leafspine_link_iff[OF p] by (simp add: shipped_def)
  with leafspine_link_range[OF p] show ?thesis by blast
qed

text \<open>C16. A host is the lower end of exactly one link, to a leaf of its own data centre: the data centre of
  host \<open>x\<close> is \<open>x\<close> divided by the hosts per data centre, the very rule the traffic generator uses.\<close>

theorem host_attached:
  assumes "proper p" "x < dc_num p * leafspine_hosts_per_dc p"
  shows "\<exists>b. (\<forall>c. (x, c) \<in> set (links (leafspine_links p)) \<longleftrightarrow> c = b) \<and>
    l_leaf_id_start (fst (leafspine_node_counts p)) \<le> b \<and>
    b < l_spine_id_start (fst (leafspine_node_counts p)) \<and>
    (b - l_leaf_id_start (fst (leafspine_node_counts p))) div leafspine_leaves_per_dc p =
      x div leafspine_hosts_per_dc p"
proof -
  let ?n = "dc_num p" and ?l = "leafspine_leaves_per_dc p" and ?k = "leafspine_hosts_per_leaf p"
  let ?h = "?l * ?k" and ?leaf = "?n * (?l * ?k)"
  have h: "leafspine_hosts_per_dc p = ?h" using assms(1) by (simp add: proper_def)
  have x: "x < ?n * ?h" using assms(2) h by simp
  then have pos: "0 < ?h" "0 < ?k" by (auto intro: gr0I)
  define d i j where "d = x div ?h" and "i = x mod ?h div ?k" and "j = x mod ?h mod ?k"
  have d: "d < ?n" using x by (simp add: d_def less_mult_imp_div_less)
  have i: "i < ?l" using pos by (simp add: i_def less_mult_imp_div_less)
  have j: "j < ?k" using pos by (simp add: j_def)
  have x_eq: "x = d * ?h + i * ?k + j" by (simp add: d_def i_def j_def div_mult_mod_eq add.assoc)
  have dl: "d * ?l + i < ?n * ?l" by (rule radix_less[OF d i])
  have "(x, c) \<in> set (links (leafspine_links p)) \<longleftrightarrow> c = ?leaf + d * ?l + i" for c
  proof
    assume "(x, c) \<in> set (links (leafspine_links p))"
    then obtain d' i' j' where e: "d' < ?n" "i' < ?l" "j' < ?k" "x = d' * ?h + i' * ?k + j'" "c = ?leaf + d' * ?l + i'"
      using x unfolding leafspine_link_iff[OF assms(1)] Let_def by (auto simp: mult.assoc)
    have "d' * ?h + (i' * ?k + j') = d * ?h + (i * ?k + j)" using e(4) x_eq by simp
    then have "d' = d \<and> i' * ?k + j' = i * ?k + j" using radix_less[OF e(2,3)] radix_less[OF i j] by (rule radix_inj)
    then have "d' = d" "i' = i" using radix_inj[of i' ?k j' i j] e(3) j by auto
    then show "c = ?leaf + d * ?l + i" using e(5) by simp
  next
    assume "c = ?leaf + d * ?l + i"
    then show "(x, c) \<in> set (links (leafspine_links p))"
      unfolding leafspine_link_iff[OF assms(1)] Let_def using d i j x_eq by blast
  qed
  moreover have "(d * ?l + i) div ?l = d" using i by simp
  ultimately show ?thesis using dl h
    by (intro exI[of _ "?leaf + d * ?l + i"]) (simp add: leafspine_node_counts_def Let_def d_def)
qed

theorem host_attached_witness:
  "\<exists>b. (\<forall>c. (37, c) \<in> set (links (leafspine_links shipped)) \<longleftrightarrow> c = b) \<and> 256 \<le> b \<and> b < 320 \<and> (b - 256) div 8 = 1"
proof -
  have p: "proper shipped" by (simp add: proper_def shipped_def)
  show ?thesis using host_attached[OF p, of 37]
    by (simp add: leafspine_node_counts_def shipped_def Let_def)
qed

lemma distinct_host_tier: "distinct (host_tier n l k d)"
  unfolding host_tier_def by (rule distinct_concat_map) (auto simp: distinct_map inj_on_def)

lemma distinct_spine_tier: "distinct (spine_tier n l k s d)"
  unfolding spine_tier_def by (rule distinct_concat_map) (auto simp: distinct_map inj_on_def)

lemma distinct_dci_tier: "distinct (dci_tier n l k s d)"
  by (auto simp: dci_tier_def distinct_map inj_on_def)

lemma distinct_mesh: "distinct (mesh n start)"
  unfolding mesh_def by (rule distinct_concat_map) (auto simp: distinct_map inj_on_def)

text \<open>The tiers of a link are told apart by the lower end, the data centres by its position in the tier.\<close>

lemma tier_bounds:
  assumes "d < n"
  shows "(a, b) \<in> set (host_tier n l k d) \<Longrightarrow> a < n * (l * k) \<and> a div (l * k) = d"
    "(a, b) \<in> set (spine_tier n l k s d) \<Longrightarrow>
      n * (l * k) \<le> a \<and> a < n * (l * k) + n * l \<and> (a - n * (l * k)) div l = d"
    "(a, b) \<in> set (dci_tier n l k s d) \<Longrightarrow>
      n * (l * k) + n * l \<le> a \<and> a < n * (l * k) + n * l + n * s \<and> (a - (n * (l * k) + n * l)) div s = d"
proof -
  assume "(a, b) \<in> set (host_tier n l k d)"
  then obtain i j where e: "i < l" "j < k" "a = d * (l * k) + i * k + j" by (auto simp: host_tier_def)
  have "i * k + j < l * k" by (rule radix_less[OF e(1,2)])
  with radix_less[OF assms this] radix_div[OF this] show "a < n * (l * k) \<and> a div (l * k) = d"
    by (simp only: e(3) add.assoc)
next
  assume "(a, b) \<in> set (spine_tier n l k s d)"
  then obtain i where e: "i < l" "a = n * (l * k) + d * l + i" by (auto simp: spine_tier_def)
  with radix_less[OF assms e(1)] show "n * (l * k) \<le> a \<and> a < n * (l * k) + n * l \<and> (a - n * (l * k)) div l = d" by simp
next
  assume "(a, b) \<in> set (dci_tier n l k s d)"
  then obtain i where e: "i < s" "a = n * (l * k) + n * l + d * s + i" by (auto simp: dci_tier_def)
  with radix_less[OF assms e(1)] show "n * (l * k) + n * l \<le> a \<and> a < n * (l * k) + n * l + n * s \<and>
      (a - (n * (l * k) + n * l)) div s = d" by simp
qed

lemma links_distinct:
  assumes "proper p"
  shows "distinct (links (leafspine_links p))"
proof -
  let ?n = "dc_num p" and ?l = "leafspine_leaves_per_dc p" and ?s = "leafspine_spines_per_dc p"
    and ?k = "leafspine_hosts_per_leaf p"
  let ?dc = "\<lambda>d. host_tier ?n ?l ?k d @ spine_tier ?n ?l ?k ?s d @ dci_tier ?n ?l ?k ?s d"
  have "distinct (concat (map ?dc [0..<?n]))"
  proof (rule distinct_concat_map)
    fix d assume "d \<in> set [0..<?n]"
    then have d: "d < ?n" by simp
    have "\<not> (z \<in> set (host_tier ?n ?l ?k d) \<and> z \<in> set (spine_tier ?n ?l ?k ?s d))"
      "\<not> (z \<in> set (host_tier ?n ?l ?k d) \<and> z \<in> set (dci_tier ?n ?l ?k ?s d))"
      "\<not> (z \<in> set (spine_tier ?n ?l ?k ?s d) \<and> z \<in> set (dci_tier ?n ?l ?k ?s d))" for z
      using tier_bounds[OF d, of "fst z" "snd z"] unfolding prod.collapse by (meson leD le_trans le_add1)+
    then have "set (host_tier ?n ?l ?k d) \<inter> set (spine_tier ?n ?l ?k ?s d) = {}"
      "set (host_tier ?n ?l ?k d) \<inter> set (dci_tier ?n ?l ?k ?s d) = {}"
      "set (spine_tier ?n ?l ?k ?s d) \<inter> set (dci_tier ?n ?l ?k ?s d) = {}"
      by blast+
    then show "distinct (?dc d)"
      using distinct_host_tier distinct_spine_tier distinct_dci_tier
      by (simp add: Int_Un_distrib)
  next
    fix d d' z assume "d \<in> set [0..<?n]" "d' \<in> set [0..<?n]" and z: "z \<in> set (?dc d)" "z \<in> set (?dc d')"
    then have d: "d < ?n" "d' < ?n" by simp_all
    obtain a b where "z = (a, b)" by (cases z)
    with z show "d = d'"
      by (auto dest!: tier_bounds(1)[OF d(1)] tier_bounds(2)[OF d(1)] tier_bounds(3)[OF d(1)]
          tier_bounds(1)[OF d(2)] tier_bounds(2)[OF d(2)] tier_bounds(3)[OF d(2)])
  qed simp
  moreover have "set (concat (map ?dc [0..<?n])) \<inter> set (mesh ?n (?n * (?l * ?k) + ?n * ?l + ?n * ?s)) = {}"
  proof -
    have "a < ?n * (?l * ?k) + ?n * ?l + ?n * ?s" if "d < ?n" "(a, b) \<in> set (?dc d)" for a b d
      using that(2) by (auto dest!: tier_bounds[OF that(1)])
    then show ?thesis by (fastforce simp: mesh_def)
  qed
  ultimately show ?thesis unfolding leafspine_links_eq[OF assms] Let_def
    using distinct_mesh by (simp only: distinct_append)
qed

text \<open>No link is written twice.\<close>

theorem leafspine_distinct:
  assumes "proper p"
  shows "distinct (links (leafspine_links p))"
  using assms by (rule links_distinct)

theorem leafspine_distinct_witness: "distinct (links (leafspine_links shipped))"
  by (rule leafspine_distinct) (simp add: proper_def shipped_def)

section \<open>Connectivity\<close>

definition linked :: "topo_params \<Rightarrow> (nat \<times> nat) set" where
  "linked p = (set (links (leafspine_links p)) \<union> (set (links (leafspine_links p)))\<inverse>)\<^sup>*"

lemma linked_refl: "(x, x) \<in> linked p"
  by (simp add: linked_def)

lemma linked_sym: "(x, y) \<in> linked p \<Longrightarrow> (y, x) \<in> linked p"
  unfolding linked_def by (meson sym_Un_converse sym_rtrancl symD)

lemma linked_trans: "(x, y) \<in> linked p \<Longrightarrow> (y, z) \<in> linked p \<Longrightarrow> (x, z) \<in> linked p"
  unfolding linked_def by (rule rtrancl_trans)

lemma linked_link: "(x, y) \<in> set (links (leafspine_links p)) \<Longrightarrow> (x, y) \<in> linked p"
  unfolding linked_def by blast

text \<open>The first leaf, the first spine and the first switch towards the others; the steps from a node of each tier to
  the switch of its data centre.\<close>

abbreviation (input) leaf0 :: "topo_params \<Rightarrow> nat" where
  "leaf0 p \<equiv> dc_num p * (leafspine_leaves_per_dc p * leafspine_hosts_per_leaf p)"

abbreviation (input) spine0 :: "topo_params \<Rightarrow> nat" where
  "spine0 p \<equiv> leaf0 p + dc_num p * leafspine_leaves_per_dc p"

abbreviation (input) dci0 :: "topo_params \<Rightarrow> nat" where
  "dci0 p \<equiv> spine0 p + dc_num p * leafspine_spines_per_dc p"

lemma spine_to_dci:
  "proper p \<Longrightarrow> d < dc_num p \<Longrightarrow> i < leafspine_spines_per_dc p \<Longrightarrow> (spine0 p + d * leafspine_spines_per_dc p + i, dci0 p + d) \<in> linked p"
  by (intro linked_link) (unfold leafspine_link_iff[unfolded Let_def], blast)

lemma leaf_to_dci:
  assumes "proper p" "d < dc_num p" "i < leafspine_leaves_per_dc p" "0 < leafspine_spines_per_dc p"
  shows "(leaf0 p + d * leafspine_leaves_per_dc p + i, dci0 p + d) \<in> linked p"
proof -
  have "(leaf0 p + d * leafspine_leaves_per_dc p + i, spine0 p + d * leafspine_spines_per_dc p + 0) \<in> linked p"
    using assms by (intro linked_link) (unfold leafspine_link_iff[unfolded Let_def], blast)
  then show ?thesis using spine_to_dci[OF assms(1,2,4)] by (rule linked_trans)
qed

lemma host_to_dci:
  assumes "proper p" "d < dc_num p" "i < leafspine_leaves_per_dc p" "j < leafspine_hosts_per_leaf p" "0 < leafspine_spines_per_dc p"
  shows "(d * (leafspine_leaves_per_dc p * leafspine_hosts_per_leaf p) + i * leafspine_hosts_per_leaf p + j, dci0 p + d) \<in> linked p"
proof -
  have "(d * (leafspine_leaves_per_dc p * leafspine_hosts_per_leaf p) + i * leafspine_hosts_per_leaf p + j, leaf0 p + d * leafspine_leaves_per_dc p + i) \<in> linked p"
    using assms by (intro linked_link) (unfold leafspine_link_iff[unfolded Let_def], blast)
  then show ?thesis using leaf_to_dci[OF assms(1-3,5)] by (rule linked_trans)
qed

lemma dci_to_dci:
  assumes "proper p" "i < dc_num p" "j < dc_num p"
  shows "(dci0 p + i, dci0 p + j) \<in> linked p"
proof -
  have less: "(dci0 p + i, dci0 p + j) \<in> linked p" if "i < j" "j < dc_num p" for i j
    using assms(1) that less_trans[OF that] by (intro linked_link) (unfold leafspine_link_iff[unfolded Let_def], blast)
  consider "i = j" | "i < j" | "j < i" by linarith
  then show ?thesis using less assms linked_refl linked_sym by cases blast+
qed

text \<open>A number below a product, by its digits.\<close>

lemma radix_digits: "x < n * (k :: nat) \<Longrightarrow> \<exists>d<n. \<exists>i<k. x = d * k + i"
  by (rule exI[of _ "x div k"], cases "k = 0") (auto simp: less_mult_imp_div_less intro!: exI[of _ "x mod k"])

lemma node_to_dci:
  assumes "proper p" "0 < leafspine_spines_per_dc p" "x < dci0 p + dc_num p"
  shows "\<exists>d<dc_num p. (x, dci0 p + d) \<in> linked p"
proof -
  consider (host) "x < leaf0 p" | (leaf) "leaf0 p \<le> x" "x < spine0 p" | (spine) "spine0 p \<le> x" "x < dci0 p" | (dci) "dci0 p \<le> x" by linarith
  then show ?thesis
  proof cases
    case host
    then obtain d r where d: "d < dc_num p" "r < leafspine_leaves_per_dc p * leafspine_hosts_per_leaf p"
      "x = d * (leafspine_leaves_per_dc p * leafspine_hosts_per_leaf p) + r" using radix_digits by blast
    then obtain i j where "i < leafspine_leaves_per_dc p" "j < leafspine_hosts_per_leaf p" "r = i * leafspine_hosts_per_leaf p + j" using radix_digits by blast
    then show ?thesis using host_to_dci[OF assms(1) d(1) _ _ assms(2), of i j] d by (auto simp: add.assoc)
  next
    case leaf
    then have "x - leaf0 p < dc_num p * leafspine_leaves_per_dc p" by linarith
    then obtain d i where d: "d < dc_num p" "i < leafspine_leaves_per_dc p" "x - leaf0 p = d * leafspine_leaves_per_dc p + i" using radix_digits by blast
    then have "x = leaf0 p + d * leafspine_leaves_per_dc p + i" using leaf(1) by linarith
    then show ?thesis using leaf_to_dci[OF assms(1) d(1,2) assms(2)] d(1) by blast
  next
    case spine
    then have "x - spine0 p < dc_num p * leafspine_spines_per_dc p" by linarith
    then obtain d i where d: "d < dc_num p" "i < leafspine_spines_per_dc p" "x - spine0 p = d * leafspine_spines_per_dc p + i" using radix_digits by blast
    then have "x = spine0 p + d * leafspine_spines_per_dc p + i" using spine(1) by linarith
    then show ?thesis using spine_to_dci[OF assms(1) d(1,2)] d(1) by blast
  next
    case dci
    then have "x - dci0 p < dc_num p" "x = dci0 p + (x - dci0 p)" using assms(3) by linarith+
    then show ?thesis using linked_refl by metis
  qed
qed

text \<open>C4. With at least one leaf and one spine per data centre, any two nodes of a proper leaf-spine topology
  are connected by its links.\<close>

theorem leafspine_connected:
  assumes "proper p" "0 < leafspine_leaves_per_dc p" "0 < leafspine_spines_per_dc p"
    and "x < total_nodes (snd (leafspine_node_counts p))" "y < total_nodes (snd (leafspine_node_counts p))"
  shows "(x, y) \<in> (set (links (leafspine_links p)) \<union> (set (links (leafspine_links p)))\<inverse>)\<^sup>*"
proof -
  have total: "total_nodes (snd (leafspine_node_counts p)) = dci0 p + dc_num p"
    using assms(1) by (simp add: leafspine_node_counts_def proper_def Let_def)
  obtain d where d: "d < dc_num p" "(x, dci0 p + d) \<in> linked p" using node_to_dci[OF assms(1,3)] assms(4) unfolding total by blast
  obtain e where e: "e < dc_num p" "(y, dci0 p + e) \<in> linked p" using node_to_dci[OF assms(1,3)] assms(5) unfolding total by blast
  have "(x, y) \<in> linked p"
    by (rule linked_trans[OF d(2) linked_trans[OF dci_to_dci[OF assms(1) d(1) e(1)] linked_sym[OF e(2)]]])
  then show ?thesis by (simp add: linked_def)
qed

theorem leafspine_connected_witness:
  "(0, 255) \<in> (set (links (leafspine_links shipped)) \<union> (set (links (leafspine_links shipped)))\<inverse>)\<^sup>*"
  by (rule leafspine_connected) (simp_all add: proper_def shipped_def leafspine_node_counts_def Let_def)

section \<open>The simple topology and other parameters\<close>

text \<open>The number of links the simple file announces is the number of link lines it contains, when each
  data centre has one top-of-rack switch and one switch towards the others.\<close>

theorem simple_link_count:
  assumes "simple_tors_per_dc p = 1" "dci_per_dc p = 1" "dc_num p \<le> 2 ^ 26"
  shows "simple_link_counts p (fst (simple_node_counts p)) = int (length (links (simple_links p)))"
  using assms
  by (simp add: simple_link_counts_def simple_node_counts_def simple_links_def simple_connections_def simple_dc_def
      Let_def links_eqs dci_mesh_links pairs_of_exact length_mesh length_concat o_def sum_list_triv algebra_simps)

theorem simple_link_count_witness:
  "simple_link_counts shipped (fst (simple_node_counts shipped)) = int (length (links (simple_links shipped)))"
  by (rule simple_link_count) (simp_all add: shipped_def)

text \<open>With two switches per data centre the announced number is wrong: the generator connects only the
  first, so it writes the same links as with one but announces a mesh of all of them.\<close>

theorem two_dci_miscount:
  "length (links (leafspine_links (shipped\<lparr>dci_per_dc := 2\<rparr>))) = 572 \<and>
   leafspine_link_counts (shipped\<lparr>dci_per_dc := 2\<rparr>) (fst (leafspine_node_counts (shipped\<lparr>dci_per_dc := 2\<rparr>))) = 664"
proof -
  have "links (leafspine_links (shipped\<lparr>dci_per_dc := 2\<rparr>)) = links (leafspine_links shipped)"
    by (simp add: leafspine_links_def leafspine_node_counts_def leafspine_connections_def leafspine_dc_def
        leafspine_dci_mesh_def dci_mesh_def host_leaf_links_def leaf_spine_links_def spine_dci_links_def shipped_def
        Let_def links_eqs)
  moreover have "length (links (leafspine_links shipped)) = 572"
  proof -
    have p: "proper shipped" by (simp add: proper_def shipped_def)
    show ?thesis unfolding leafspine_links_eq[OF p]
      by (simp add: shipped_def length_mesh length_concat o_def sum_list_triv Let_def)
  qed
  moreover have "pairs_of 16 = 120" using pairs_of_exact[of 16] by simp
  ultimately show ?thesis
    by (simp add: leafspine_link_counts_def leafspine_node_counts_def shipped_def Let_def)
qed

end
