(* ===== verification/SimConfig.thy ===== *)
theory SimConfig
  imports PyFiles
begin

text \<open>
  The batch drivers \<open>simulation/server_simulation_batch*.py\<close>: each rewrites the configuration file of the
  simulator for one set of parameters and runs the simulator, for every combination of its parameters.
  Seven drivers rewrite the lines that start with six given words and leave the others; four replace
  the lines whose first word is a key of a dictionary and append the keys the file lacks.  The command
  run by \<open>os.system\<close> is a parameter \<open>sys\<close> that maps the files to the files it leaves; the runs are
  recorded with the files they saw.

  What the drivers rely on is the contract \<open>config_writer\<close>: writing a set of parameters over another
  gives the same lines as writing it over the original.  Both ways of rewriting provide it, so each run
  of a batch sees the original configuration with its own parameters, whatever ran before.
\<close>

section \<open>The simulator\<close>

record sim_state =
  st_files :: files
  st_trace :: "(string \<times> files) list"

definition waf_command :: "string \<Rightarrow> string" where
  "waf_command config_path = ''./waf --run '' @ [CHR 0x27] @ ''scratch/third '' @ config_path @ [CHR 0x27]"

definition run_simulation :: "(string \<Rightarrow> files \<Rightarrow> files) \<Rightarrow> string \<Rightarrow> sim_state \<Rightarrow> sim_state" where
  "run_simulation sys config_path st =
     (let cmd = waf_command config_path
      in \<lparr>st_files = sys cmd (st_files st), st_trace = st_trace st @ [(cmd, st_files st)]\<rparr>)"

text \<open>Reading the lines, rewriting them and writing them back.\<close>

definition rewrite_file :: "(string list \<Rightarrow> string list res) \<Rightarrow> string \<Rightarrow> files \<Rightarrow> files res" where
  "rewrite_file rewrite path fs =
     rbind (open_text fs path) (\<lambda>t. rbind (rewrite (readlines t)) (\<lambda>ls. Inr (fs(path \<mapsto> concat ls))))"

text \<open>The nested loops of a driver over its combinations of parameters.\<close>

definition run_all ::
  "('p \<Rightarrow> string list \<Rightarrow> string list res) \<Rightarrow> (string \<Rightarrow> files \<Rightarrow> files) \<Rightarrow> string \<Rightarrow> 'p list \<Rightarrow> sim_state \<Rightarrow> sim_state res" where
  "run_all modify sys path ps st =
     rfold (\<lambda>st p. rbind (rewrite_file (modify p) path (st_files st))
       (\<lambda>fs. Inr (run_simulation sys path (st\<lparr>st_files := fs\<rparr>)))) st ps"

text \<open>The runs with the lines of the configuration each of them saw.\<close>

definition seen :: "string \<Rightarrow> sim_state \<Rightarrow> (string \<times> string list res) list" where
  "seen path st = map (\<lambda>(c, fs). (c, rbind (open_text fs path) (\<lambda>t. Inr (readlines t)))) (st_trace st)"

section \<open>The contract\<close>

locale config_writer =
  fixes modify :: "'p \<Rightarrow> string list \<Rightarrow> string list res" and legal :: "'p \<Rightarrow> bool"
  assumes absorb: "modify p ls = Inr ls' \<Longrightarrow> modify q ls' = modify q ls"
    and keeps_lines: "legal p \<Longrightarrow> list_all is_line ls \<Longrightarrow> modify p ls = Inr ls' \<Longrightarrow> list_all is_line ls'"
    and total: "legal p \<Longrightarrow> \<exists>ls'. modify p ls = Inr ls'"
begin

lemma idempotent: "modify p ls = Inr ls' \<Longrightarrow> modify p ls' = Inr ls'"
  using absorb[of p ls ls' p] by simp

text \<open>Every run sees the original lines with its own parameters.\<close>

lemma run_all_trace:
  assumes "list_all legal ps" "st_files st path = Some (concat ls)" "list_all is_line ls"
    and "\<And>c fs. sys c fs path = fs path"
  shows "\<exists>st'. run_all modify sys path ps st = Inr st' \<and>
    seen path st' = seen path st @ map (\<lambda>p. (waf_command path, modify p ls)) ps"
  using assms(1-3)
proof (induction ps arbitrary: st ls)
  case Nil
  then show ?case by (simp add: run_all_def)
next
  case (Cons p ps)
  obtain ls' where ls': "modify p ls = Inr ls'" using total Cons.prems(1) by fastforce
  have lines: "list_all is_line ls'" using keeps_lines[OF _ Cons.prems(3) ls'] Cons.prems(1) by simp
  have text_lines: "readlines (concat ls) = ls" "readlines (concat ls') = ls'"
    using Cons.prems(3) lines by (auto intro!: readlines_concat simp: list_all_iff)
  let ?st = "run_simulation sys path (st\<lparr>st_files := (st_files st)(path \<mapsto> concat ls')\<rparr>)"
  have st: "st_files ?st path = Some (concat ls')" by (simp add: run_simulation_def Let_def assms(4))
  have "rewrite_file (modify p) path (st_files st) = Inr ((st_files st)(path \<mapsto> concat ls'))"
    using Cons.prems(2) text_lines ls' by (simp add: rewrite_file_def open_text_def)
  then have run: "run_all modify sys path (p # ps) st = run_all modify sys path ps ?st"
    by (simp add: run_all_def)
  have "modify q ls' = modify q ls" for q by (rule absorb[OF ls'])
  then show ?case using Cons.IH[OF _ st lines] Cons.prems(1) ls' text_lines(2)
    unfolding run by (simp add: run_simulation_def seen_def open_text_def Let_def)
qed

end

section \<open>Rewriting by prefix\<close>

type_synonym rules = "(string \<times> string res) list"

text \<open>The chain of \<open>if line.strip ().startswith (k)\<close>: the first rule that applies gives the line.\<close>

fun rewrite_line :: "rules \<Rightarrow> string \<Rightarrow> string res" where
  "rewrite_line [] line = Inr line"
| "rewrite_line ((k, r) # rs) line = (if startswith k (strip line) then r else rewrite_line rs line)"

definition rewrite_lines :: "rules \<Rightarrow> string list \<Rightarrow> string list res" where
  "rewrite_lines rs ls = rmap (rewrite_line rs) ls"

definition config_line :: "string \<Rightarrow> string \<Rightarrow> string" where
  "config_line k v = k @ '' '' @ v @ [nl]"

text \<open>The output directory of a routing mode; the variable is never bound for another mode.\<close>

definition routing_dir :: "string \<Rightarrow> (string \<Rightarrow> string) \<Rightarrow> string res" where
  "routing_dir routing_mode dir =
     (if routing_mode = ''0'' then Inr (config_line ''OUTPUT_DIR'' (dir ''ECMP''))
      else if routing_mode = ''1'' then Inr (config_line ''OUTPUT_DIR'' (dir ''UCMP''))
      else if routing_mode = ''2'' then Inr (config_line ''OUTPUT_DIR'' (dir ''Ours''))
      else Inl UnboundLocalError)"

record run_params =
  routing_mode :: string
  x_util :: string
  cc_mode :: string
  dataset :: string

text \<open>\<open>for routing_mode in ...: for x_util in ...: for cc_mode in ...: for dataset in ...\<close>.\<close>

definition combinations :: "string list \<Rightarrow> string list \<Rightarrow> string list \<Rightarrow> string list \<Rightarrow> run_params list" where
  "combinations rs us cs ds = concat (map (\<lambda>r. concat (map (\<lambda>u. concat (map (\<lambda>c.
     map (\<lambda>d. \<lparr>routing_mode = r, x_util = u, cc_mode = c, dataset = d\<rparr>) ds) cs)) us)) rs)"

section \<open>The drivers that rewrite by prefix\<close>

subsection \<open>\<open>server_simulation_batch.py\<close>\<close>

definition rules_batch :: "string \<Rightarrow> string \<Rightarrow> run_params \<Rightarrow> rules" where
  "rules_batch base_dir output_dir p =
     [(''ROUTING_MODE'', Inr (config_line ''ROUTING_MODE'' (routing_mode p))),
      (''CC_MODE'', Inr (config_line ''CC_MODE'' (cc_mode p))),
      (''OUTPUT_DIR'', routing_dir (routing_mode p)
        (\<lambda>mode. base_dir @ ''/'' @ output_dir @ ''/'' @ dataset p @ ''/'' @ x_util p @ ''/'' @ mode @ ''/'')),
      (''FLOW_FILE'', Inr (config_line ''FLOW_FILE'' (''${WORKING_DIR}traffic_'' @ dataset p @ ''_8DC_forDC1And8-'' @ x_util p @ ''.txt''))),
      (''TOPOLOGY_FILE'', Inr (config_line ''TOPOLOGY_FILE'' (''${WORKING_DIR}topology_LeafSpine_MultiDC8-posCor.txt''))),
      (''WORKING_DIR'', Inr (config_line ''WORKING_DIR'' (base_dir @ ''/'')))]"

definition config_path_batch :: string where "config_path_batch = ''mix/config/8DC-hetero/config_batch.txt''"
definition output_default_batch :: string where "output_default_batch = ''server-output''"

definition modify_batch :: "string \<Rightarrow> run_params \<Rightarrow> string list \<Rightarrow> string list res" where
  "modify_batch output_dir p = rewrite_lines (rules_batch (dirname config_path_batch) output_dir p)"

definition runs_batch :: "run_params list" where
  "runs_batch = combinations [''0'', ''1'', ''2''] [''0.3util'', ''0.5util'', ''0.8util''] [''3'', ''7'', ''8''] [''WebSearch'']"

definition main_batch :: "(string \<Rightarrow> files \<Rightarrow> files) \<Rightarrow> string \<Rightarrow> sim_state \<Rightarrow> sim_state res" where
  "main_batch sys output_dir = run_all (modify_batch output_dir) sys config_path_batch runs_batch"

subsection \<open>\<open>server_simulation_batch_8DC.py\<close>\<close>

definition rules_8DC :: "string \<Rightarrow> string \<Rightarrow> run_params \<Rightarrow> rules" where
  "rules_8DC base_dir output_dir p =
     [(''ROUTING_MODE'', Inr (config_line ''ROUTING_MODE'' (routing_mode p))),
      (''CC_MODE'', Inr (config_line ''CC_MODE'' (cc_mode p))),
      (''OUTPUT_DIR'', routing_dir (routing_mode p)
        (\<lambda>mode. base_dir @ ''/'' @ output_dir @ ''/'' @ dataset p @ ''/'' @ x_util p @ ''/'' @ mode @ ''/'')),
      (''FLOW_FILE'', Inr (config_line ''FLOW_FILE'' (''${WORKING_DIR}traffic_'' @ dataset p @ ''_8DC-'' @ x_util p @ ''.txt''))),
      (''TOPOLOGY_FILE'', Inr (config_line ''TOPOLOGY_FILE'' (''${WORKING_DIR}topology_LeafSpine_MultiDC8.txt''))),
      (''WORKING_DIR'', Inr (config_line ''WORKING_DIR'' (base_dir @ ''/'')))]"

definition config_path_8DC :: string where "config_path_8DC = ''mix/config/8DC-hetero/config_batch.txt''"
definition output_default_8DC :: string where "output_default_8DC = ''server-output/Figure5-8DC_3routing_3traffic''"

definition modify_8DC :: "string \<Rightarrow> run_params \<Rightarrow> string list \<Rightarrow> string list res" where
  "modify_8DC output_dir p = rewrite_lines (rules_8DC (dirname config_path_8DC) output_dir p)"

definition runs_8DC :: "run_params list" where
  "runs_8DC = combinations [''0'', ''1'', ''2''] [''0.3util'', ''0.5util'', ''0.8util''] [''1''] [''WebSearch'']"

definition main_8DC :: "(string \<Rightarrow> files \<Rightarrow> files) \<Rightarrow> string \<Rightarrow> sim_state \<Rightarrow> sim_state res" where
  "main_8DC sys output_dir = run_all (modify_8DC output_dir) sys config_path_8DC runs_8DC"

subsection \<open>\<open>server_simulation_batch_8DC_differCc.py\<close>\<close>

definition rules_differCc :: "string \<Rightarrow> string \<Rightarrow> run_params \<Rightarrow> rules" where
  "rules_differCc base_dir output_dir p =
     [(''ROUTING_MODE'', Inr (config_line ''ROUTING_MODE'' (routing_mode p))),
      (''CC_MODE'', Inr (config_line ''CC_MODE'' (cc_mode p))),
      (''OUTPUT_DIR'', routing_dir (routing_mode p)
        (\<lambda>mode. base_dir @ ''/'' @ output_dir @ ''/'' @ dataset p @ ''/'' @ x_util p @ ''/'' @ mode @ ''/'')),
      (''FLOW_FILE'', Inr (config_line ''FLOW_FILE'' (''${WORKING_DIR}traffic_'' @ dataset p @ ''_8DC_forDC1And8-'' @ x_util p @ ''.txt''))),
      (''TOPOLOGY_FILE'', Inr (config_line ''TOPOLOGY_FILE'' (''${WORKING_DIR}topology_LeafSpine_MultiDC8.txt''))),
      (''WORKING_DIR'', Inr (config_line ''WORKING_DIR'' (base_dir @ ''/'')))]"

definition config_path_differCc :: string where "config_path_differCc = ''mix/config/8DC-hetero/config_batch.txt''"
definition output_default_differCc :: string where "output_default_differCc = ''server-output/Figure10-output-8DC_differCC''"

definition modify_differCc :: "string \<Rightarrow> run_params \<Rightarrow> string list \<Rightarrow> string list res" where
  "modify_differCc output_dir p = rewrite_lines (rules_differCc (dirname config_path_differCc) output_dir p)"

definition runs_differCc :: "run_params list" where
  "runs_differCc = combinations [''2''] [''0.3util''] [''3'', ''7'', ''8''] [''WebSearch'']"

definition main_differCc :: "(string \<Rightarrow> files \<Rightarrow> files) \<Rightarrow> string \<Rightarrow> sim_state \<Rightarrow> sim_state res" where
  "main_differCc sys output_dir = run_all (modify_differCc output_dir) sys config_path_differCc runs_differCc"

subsection \<open>\<open>server_simulation_batch_8DC_differDataset.py\<close>\<close>

definition rules_differDataset :: "string \<Rightarrow> string \<Rightarrow> run_params \<Rightarrow> rules" where
  "rules_differDataset base_dir output_dir p =
     [(''ROUTING_MODE'', Inr (config_line ''ROUTING_MODE'' (routing_mode p))),
      (''CC_MODE'', Inr (config_line ''CC_MODE'' (cc_mode p))),
      (''OUTPUT_DIR'', routing_dir (routing_mode p)
        (\<lambda>mode. base_dir @ ''/'' @ output_dir @ ''/'' @ dataset p @ ''/'' @ x_util p @ ''/'' @ mode @ ''/'')),
      (''FLOW_FILE'', Inr (config_line ''FLOW_FILE'' (''${WORKING_DIR}traffic_'' @ dataset p @ ''_8DC_forDC1And8-'' @ x_util p @ ''.txt''))),
      (''TOPOLOGY_FILE'', Inr (config_line ''TOPOLOGY_FILE'' (''${WORKING_DIR}topology_LeafSpine_MultiDC8.txt''))),
      (''WORKING_DIR'', Inr (config_line ''WORKING_DIR'' (base_dir @ ''/'')))]"

definition config_path_differDataset :: string where "config_path_differDataset = ''mix/config/8DC-hetero/config_batch.txt''"
definition output_default_differDataset :: string where "output_default_differDataset = ''server-output/Figure9-posCor_8DC_differDataset''"

definition modify_differDataset :: "string \<Rightarrow> run_params \<Rightarrow> string list \<Rightarrow> string list res" where
  "modify_differDataset output_dir p = rewrite_lines (rules_differDataset (dirname config_path_differDataset) output_dir p)"

definition runs_differDataset :: "run_params list" where
  "runs_differDataset = combinations [''2'', ''1'', ''0''] [''0.3util''] [''1''] [''WebSearch'', ''AliStorage'', ''FbHdp'']"

definition main_differDataset :: "(string \<Rightarrow> files \<Rightarrow> files) \<Rightarrow> string \<Rightarrow> sim_state \<Rightarrow> sim_state res" where
  "main_differDataset sys output_dir = run_all (modify_differDataset output_dir) sys config_path_differDataset runs_differDataset"

subsection \<open>\<open>server_simulation_batch_8DC_linkUtil.py\<close>\<close>

definition rules_linkUtil :: "string \<Rightarrow> string \<Rightarrow> run_params \<Rightarrow> rules" where
  "rules_linkUtil base_dir output_dir p =
     [(''ROUTING_MODE'', Inr (config_line ''ROUTING_MODE'' (routing_mode p))),
      (''CC_MODE'', Inr (config_line ''CC_MODE'' (cc_mode p))),
      (''OUTPUT_DIR'', routing_dir (routing_mode p)
        (\<lambda>mode. base_dir @ ''/'' @ output_dir @ ''/link-util/'' @ x_util p @ ''/'' @ mode @ ''/'')),
      (''FLOW_FILE'', Inr (config_line ''FLOW_FILE'' (''${WORKING_DIR}traffic_'' @ dataset p @ ''_8DC_forDC1And8-'' @ x_util p @ ''.txt''))),
      (''TOPOLOGY_FILE'', Inr (config_line ''TOPOLOGY_FILE'' (''${WORKING_DIR}topology_LeafSpine_MultiDC8.txt''))),
      (''WORKING_DIR'', Inr (config_line ''WORKING_DIR'' (base_dir @ ''/'')))]"

definition config_path_linkUtil :: string where "config_path_linkUtil = ''mix/config/8DC-hetero/config_batch.txt''"
definition output_default_linkUtil :: string where "output_default_linkUtil = ''server-output/Figure1-8DC_flow_linkUtil''"

definition modify_linkUtil :: "string \<Rightarrow> run_params \<Rightarrow> string list \<Rightarrow> string list res" where
  "modify_linkUtil output_dir p = rewrite_lines (rules_linkUtil (dirname config_path_linkUtil) output_dir p)"

definition runs_linkUtil :: "run_params list" where
  "runs_linkUtil = combinations [''2'', ''1'', ''0''] [''0.3util''] [''1''] [''WebSearch'']"

definition main_linkUtil :: "(string \<Rightarrow> files \<Rightarrow> files) \<Rightarrow> string \<Rightarrow> sim_state \<Rightarrow> sim_state res" where
  "main_linkUtil sys output_dir = run_all (modify_linkUtil output_dir) sys config_path_linkUtil runs_linkUtil"

subsection \<open>\<open>server_simulation_batch_for13DC.py\<close>\<close>

definition rules_for13DC :: "string \<Rightarrow> string \<Rightarrow> run_params \<Rightarrow> rules" where
  "rules_for13DC base_dir output_dir p =
     [(''ROUTING_MODE'', Inr (config_line ''ROUTING_MODE'' (routing_mode p))),
      (''CC_MODE'', Inr (config_line ''CC_MODE'' (cc_mode p))),
      (''OUTPUT_DIR'', routing_dir (routing_mode p)
        (\<lambda>mode. base_dir @ ''/'' @ output_dir @ ''/output-13DC-hetero-posCor/'' @ dataset p @ ''/'' @ x_util p @ ''/'' @ mode @ ''/'')),
      (''FLOW_FILE'', Inr (config_line ''FLOW_FILE'' (''${WORKING_DIR}traffic_'' @ dataset p @ ''_13DC-'' @ x_util p @ ''.txt''))),
      (''TOPOLOGY_FILE'', Inr (config_line ''TOPOLOGY_FILE'' (''${WORKING_DIR}topology_LeafSpine_MultiDC13.txt''))),
      (''WORKING_DIR'', Inr (config_line ''WORKING_DIR'' (base_dir @ ''/'')))]"

definition config_path_for13DC :: string where "config_path_for13DC = ''mix/config/13DC-hetero-onlyDC1-13/config_batch.txt''"
definition output_default_for13DC :: string where "output_default_for13DC = ''server-output''"

definition modify_for13DC :: "string \<Rightarrow> run_params \<Rightarrow> string list \<Rightarrow> string list res" where
  "modify_for13DC output_dir p = rewrite_lines (rules_for13DC (dirname config_path_for13DC) output_dir p)"

definition runs_for13DC :: "run_params list" where
  "runs_for13DC = combinations [''0'', ''1'', ''2''] [''0.3util'', ''0.5util'', ''0.8util''] [''3''] [''WebSearch'']"

definition main_for13DC :: "(string \<Rightarrow> files \<Rightarrow> files) \<Rightarrow> string \<Rightarrow> sim_state \<Rightarrow> sim_state res" where
  "main_for13DC sys output_dir = run_all (modify_for13DC output_dir) sys config_path_for13DC runs_for13DC"

subsection \<open>\<open>server_simulation_batch_for13DC_onlyDC1-13.py\<close>\<close>

definition rules_only13 :: "string \<Rightarrow> string \<Rightarrow> run_params \<Rightarrow> rules" where
  "rules_only13 base_dir output_dir p =
     [(''ROUTING_MODE'', Inr (config_line ''ROUTING_MODE'' (routing_mode p))),
      (''CC_MODE'', Inr (config_line ''CC_MODE'' (cc_mode p))),
      (''OUTPUT_DIR'', routing_dir (routing_mode p)
        (\<lambda>mode. base_dir @ ''/'' @ output_dir @ ''/Figure-7and8-13DC_3routing_3traffic/'' @ dataset p @ ''/'' @ x_util p @ ''/'' @ mode @ ''/'')),
      (''FLOW_FILE'', Inr (config_line ''FLOW_FILE'' (''${WORKING_DIR}traffic_'' @ dataset p @ ''_13DC_forDC1And13-'' @ x_util p @ ''.txt''))),
      (''TOPOLOGY_FILE'', Inr (config_line ''TOPOLOGY_FILE'' (''${WORKING_DIR}topology_LeafSpine_MultiDC13.txt''))),
      (''WORKING_DIR'', Inr (config_line ''WORKING_DIR'' (base_dir @ ''/'')))]"

definition config_path_only13 :: string where "config_path_only13 = ''mix/config/13DC-hetero/config_batch.txt''"
definition output_default_only13 :: string where "output_default_only13 = ''server-output''"

definition modify_only13 :: "string \<Rightarrow> run_params \<Rightarrow> string list \<Rightarrow> string list res" where
  "modify_only13 output_dir p = rewrite_lines (rules_only13 (dirname config_path_only13) output_dir p)"

definition runs_only13 :: "run_params list" where
  "runs_only13 = combinations [''1''] [''0.3util'', ''0.5util'', ''0.8util''] [''3''] [''WebSearch'']"

definition main_only13 :: "(string \<Rightarrow> files \<Rightarrow> files) \<Rightarrow> string \<Rightarrow> sim_state \<Rightarrow> sim_state res" where
  "main_only13 sys output_dir = run_all (modify_only13 output_dir) sys config_path_only13 runs_only13"

section \<open>The drivers that rewrite by key\<close>

text \<open>A dictionary of parameters in the order it is written; the first word of a line is its key.\<close>

type_synonym params = "(string \<times> string) list"

text \<open>\<open>"posCor" if "posCor" in topology else "negCor"\<close>.\<close>

definition variant :: "string \<Rightarrow> string" where
  "variant topology = (if contains ''posCor'' topology then ''posCor'' else ''negCor'')"

definition first_word :: "string \<Rightarrow> string" where
  "first_word line = (case split_ws (strip line) of [] \<Rightarrow> [] | w # _ \<Rightarrow> w)"

definition replace_key :: "params \<Rightarrow> string \<Rightarrow> string" where
  "replace_key ps line =
     (case map_of ps (first_word line) of Some v \<Rightarrow> config_line (first_word line) v | None \<Rightarrow> line)"

definition missing_keys :: "params \<Rightarrow> string list \<Rightarrow> string list" where
  "missing_keys ps ls =
     map (\<lambda>(k, v). config_line k v) (filter (\<lambda>(k, v). k \<notin> set (map first_word ls)) ps)"

definition replace_params :: "params \<Rightarrow> string list \<Rightarrow> string list res" where
  "replace_params ps ls = Inr (map (replace_key ps) ls @ missing_keys ps ls)"

subsection \<open>\<open>server_simulation_batch_ablationStudy.py\<close>\<close>

definition params_ablation :: "string \<Rightarrow> string \<Rightarrow> string \<times> int \<times> int \<Rightarrow> params" where
  "params_ablation base_dir output_dir_base = (\<lambda>(topology, alpha, beta).
     [(''ALPHA'', str_int alpha),
      (''BETA'', str_int beta),
      (''W_DL'', str_int 3),
      (''W_BW'', str_int 1),
      (''S_STATIC'', str_int 2),
      (''W_QL'', str_int 2),
      (''W_TL'', str_int 1),
      (''W_DP'', str_int 1),
      (''S_CONG'', str_int 2),
      (''S_TOTAL'', str_int 2),
      (''ROUTING_MODE'', str_int 2),
      (''CC_MODE'', str_int 1),
      (''OUTPUT_DIR'', base_dir @ ''/Figure11/'' @ output_dir_base @ ''/output-8DC-hetero-onlyDC1-8-'' @ variant topology @ ''-DCQCN/alpha='' @ str_int alpha @ ''-beta='' @ str_int beta @ ''/''),
      (''FLOW_FILE'', ''${WORKING_DIR}traffic_WebSearch_8DC_forDC1And8-0.3util.txt''),
      (''TOPOLOGY_FILE'', ''${WORKING_DIR}'' @ topology @ ''.txt''),
      (''WORKING_DIR'', base_dir @ ''/'')])"

definition config_path_ablation :: string where "config_path_ablation = ''mix/config/8DC-hetero/config_batch.txt''"
definition output_default_ablation :: string where "output_default_ablation = ''server-output/ablation-study''"

definition modify_ablation :: "string \<Rightarrow> string \<times> int \<times> int \<Rightarrow> string list \<Rightarrow> string list res" where
  "modify_ablation output_dir_base p = replace_params (params_ablation (dirname config_path_ablation) output_dir_base p)"

definition runs_ablation :: "(string \<times> int \<times> int) list" where
  "runs_ablation = List.product [''topology_LeafSpine_MultiDC8''] [(4, 0)]"

definition main_ablation :: "(string \<Rightarrow> files \<Rightarrow> files) \<Rightarrow> string \<Rightarrow> sim_state \<Rightarrow> sim_state res" where
  "main_ablation sys output_dir_base = run_all (modify_ablation output_dir_base) sys config_path_ablation runs_ablation"

subsection \<open>\<open>server_simulation_batch_congestionCost.py\<close>\<close>

definition params_congestion :: "string \<Rightarrow> string \<Rightarrow> string \<times> int \<times> int \<times> int \<Rightarrow> params" where
  "params_congestion base_dir output_dir_base = (\<lambda>(topology, w_ql, w_tl, w_dp).
     [(''W_QL'', str_int w_ql),
      (''W_TL'', str_int w_tl),
      (''W_DP'', str_int w_dp),
      (''W_DL'', str_int 3),
      (''W_BW'', str_int 1),
      (''S_STATIC'', str_int 2),
      (''S_CONG'', str_int 2),
      (''ALPHA'', str_int 3),
      (''BETA'', str_int 1),
      (''S_TOTAL'', str_int 2),
      (''ROUTING_MODE'', str_int 2),
      (''CC_MODE'', str_int 1),
      (''OUTPUT_DIR'', base_dir @ ''/Figure11/'' @ output_dir_base @ ''/output-8DC-hetero-onlyDC1-8-'' @ variant topology @ ''-DCQCN/w_ql='' @ str_int w_ql @ ''-w_tl='' @ str_int w_tl @ ''-w_dp='' @ str_int w_dp @ ''/''),
      (''FLOW_FILE'', ''${WORKING_DIR}traffic_WebSearch_8DC_forDC1And8-0.3util.txt''),
      (''TOPOLOGY_FILE'', ''${WORKING_DIR}'' @ topology @ ''.txt''),
      (''WORKING_DIR'', base_dir @ ''/'')])"

definition config_path_congestion :: string where "config_path_congestion = ''mix/config/8DC-hetero-onlyDC1-8/config_batch.txt''"
definition output_default_congestion :: string where "output_default_congestion = ''server-output/congestion-cost''"

definition modify_congestion :: "string \<Rightarrow> string \<times> int \<times> int \<times> int \<Rightarrow> string list \<Rightarrow> string list res" where
  "modify_congestion output_dir_base p = replace_params (params_congestion (dirname config_path_congestion) output_dir_base p)"

definition runs_congestion :: "(string \<times> int \<times> int \<times> int) list" where
  "runs_congestion = List.product [''topology_LeafSpine_MultiDC8''] [(2, 1, 1), (1, 2, 1), (1, 1, 2)]"

definition main_congestion :: "(string \<Rightarrow> files \<Rightarrow> files) \<Rightarrow> string \<Rightarrow> sim_state \<Rightarrow> sim_state res" where
  "main_congestion sys output_dir_base = run_all (modify_congestion output_dir_base) sys config_path_congestion runs_congestion"

subsection \<open>\<open>server_simulation_batch_globalWeight.py\<close>\<close>

definition params_globalWeight :: "string \<Rightarrow> string \<Rightarrow> string \<times> int \<times> int \<Rightarrow> params" where
  "params_globalWeight base_dir output_dir_base = (\<lambda>(topology, alpha, beta).
     [(''ALPHA'', str_int alpha),
      (''BETA'', str_int beta),
      (''W_DL'', str_int 3),
      (''W_BW'', str_int 1),
      (''S_STATIC'', str_int 2),
      (''W_QL'', str_int 2),
      (''W_TL'', str_int 1),
      (''W_DP'', str_int 1),
      (''S_CONG'', str_int 2),
      (''S_TOTAL'', str_int 2),
      (''ROUTING_MODE'', str_int 2),
      (''CC_MODE'', str_int 1),
      (''OUTPUT_DIR'', base_dir @ ''/'' @ output_dir_base @ ''/output-8DC-hetero-onlyDC1-8-'' @ variant topology @ ''-DCQCN/alpha='' @ str_int alpha @ ''-beta='' @ str_int beta @ ''/''),
      (''FLOW_FILE'', ''${WORKING_DIR}traffic_WebSearch_8DC_forDC1And8-0.3util.txt''),
      (''TOPOLOGY_FILE'', ''${WORKING_DIR}'' @ topology @ ''.txt''),
      (''WORKING_DIR'', base_dir @ ''/'')])"

definition config_path_globalWeight :: string where "config_path_globalWeight = ''mix/config/8DC-hetero/config_batch.txt''"
definition output_default_globalWeight :: string where "output_default_globalWeight = ''server-output/global-weight''"

definition modify_globalWeight :: "string \<Rightarrow> string \<times> int \<times> int \<Rightarrow> string list \<Rightarrow> string list res" where
  "modify_globalWeight output_dir_base p = replace_params (params_globalWeight (dirname config_path_globalWeight) output_dir_base p)"

definition runs_globalWeight :: "(string \<times> int \<times> int) list" where
  "runs_globalWeight = List.product [''topology_LeafSpine_MultiDC8''] [(3, 1), (2, 2), (1, 3)]"

definition main_globalWeight :: "(string \<Rightarrow> files \<Rightarrow> files) \<Rightarrow> string \<Rightarrow> sim_state \<Rightarrow> sim_state res" where
  "main_globalWeight sys output_dir_base = run_all (modify_globalWeight output_dir_base) sys config_path_globalWeight runs_globalWeight"

subsection \<open>\<open>server_simulation_batch_staticCost.py\<close>\<close>

definition params_staticCost :: "string \<Rightarrow> string \<Rightarrow> string \<times> int \<times> int \<Rightarrow> params" where
  "params_staticCost base_dir output_dir_base = (\<lambda>(topology, w_dl, w_bw).
     [(''W_DL'', str_int w_dl),
      (''W_BW'', str_int w_bw),
      (''S_STATIC'', str_int 2),
      (''W_QL'', str_int 2),
      (''W_TL'', str_int 1),
      (''W_DP'', str_int 1),
      (''S_CONG'', str_int 2),
      (''ALPHA'', str_int 3),
      (''BETA'', str_int 1),
      (''S_TOTAL'', str_int 2),
      (''ROUTING_MODE'', str_int 2),
      (''CC_MODE'', str_int 1),
      (''OUTPUT_DIR'', base_dir @ ''/'' @ output_dir_base @ ''/output-8DC-hetero-onlyDC1-8-'' @ variant topology @ ''-DCQCN/w_dl='' @ str_int w_dl @ ''-w_bw='' @ str_int w_bw @ ''/''),
      (''FLOW_FILE'', ''${WORKING_DIR}traffic_WebSearch_8DC_forDC1And8-0.3util.txt''),
      (''TOPOLOGY_FILE'', ''${WORKING_DIR}'' @ topology @ ''.txt''),
      (''WORKING_DIR'', base_dir @ ''/'')])"

definition config_path_staticCost :: string where "config_path_staticCost = ''mix/config/8DC-hetero-onlyDC1-8/config_batch.txt''"
definition output_default_staticCost :: string where "output_default_staticCost = ''server-output/static-cost''"

definition modify_staticCost :: "string \<Rightarrow> string \<times> int \<times> int \<Rightarrow> string list \<Rightarrow> string list res" where
  "modify_staticCost output_dir_base p = replace_params (params_staticCost (dirname config_path_staticCost) output_dir_base p)"

definition runs_staticCost :: "(string \<times> int \<times> int) list" where
  "runs_staticCost = List.product [''topology_LeafSpine_MultiDC8''] [(3, 1), (2, 2), (1, 3)]"

definition main_staticCost :: "(string \<Rightarrow> files \<Rightarrow> files) \<Rightarrow> string \<Rightarrow> sim_state \<Rightarrow> sim_state res" where
  "main_staticCost sys output_dir_base = run_all (modify_staticCost output_dir_base) sys config_path_staticCost runs_staticCost"

section \<open>Lines that start with a key\<close>

lemma rstrip_by_append: "\<not> P c \<Longrightarrow> rstrip_by P (s @ c # t) = s @ c # rstrip_by P t"
  by (simp add: rstrip_by_def dropWhile_append3 dropWhile_append)

text \<open>A key: not empty and without white space.\<close>

definition is_key :: "string \<Rightarrow> bool" where
  "is_key k = (k \<noteq> [] \<and> list_all (\<lambda>c. \<not> is_ws c) k)"

lemma strip_key_prefix:
  assumes "is_key k"
  obtains t where "strip (k @ s) = k @ t"
proof -
  obtain k' c where k: "k = k' @ [c]" "\<not> is_ws c" using assms by (cases k rule: rev_cases) (auto simp: is_key_def)
  have "lstrip (k @ s) = k @ s" using assms by (cases k) (auto simp: lstrip_def is_key_def)
  then have "strip (k @ s) = k' @ c # rstrip_by is_ws s"
    using k by (simp add: strip_def rstrip_def rstrip_by_append)
  then show ?thesis using that k by simp
qed

lemma strip_config_line:
  assumes "is_key k"
  obtains t where "strip (config_line k v) = k @ t"
  using strip_key_prefix[OF assms, of "'' '' @ v @ [nl]"] unfolding config_line_def by metis

lemma is_line_config [simp]: "nl \<notin> set k \<Longrightarrow> nl \<notin> set v \<Longrightarrow> is_line (config_line k v)"
  by (simp add: is_line_def config_line_def butlast_append)

section \<open>Both ways of rewriting are configuration writers\<close>

text \<open>Six rules with the keys of the drivers, each writing a line for its own key.\<close>

definition six_keys :: "string list" where
  "six_keys = [''ROUTING_MODE'', ''CC_MODE'', ''OUTPUT_DIR'', ''FLOW_FILE'', ''TOPOLOGY_FILE'', ''WORKING_DIR'']"

definition own_lines :: "rules \<Rightarrow> bool" where
  "own_lines rs = (map fst rs = six_keys \<and> (\<forall>(k, r) \<in> set rs. \<forall>s. r = Inr s \<longrightarrow> (\<exists>v. s = config_line k v)))"

lemma six_keys_ok: "k \<in> set six_keys \<Longrightarrow> is_key k" "distinct (map hd six_keys)" "[] \<notin> set six_keys"
  by (auto simp: six_keys_def is_key_def is_ws_def)

lemma startswith_hd: "startswith j (k @ t) \<Longrightarrow> j \<noteq> [] \<Longrightarrow> k \<noteq> [] \<Longrightarrow> hd j = hd k"
  by (cases j; cases k) auto

lemma rewrite_line_first:
  assumes "map fst rs = ks" "distinct (map hd ks)" "[] \<notin> set ks" "(k, r) \<in> set rs" "strip line = k @ t"
  shows "rewrite_line rs line = r"
  using assms
proof (induction rs arbitrary: ks)
  case Nil
  then show ?case by simp
next
  case (Cons p rs)
  obtain j q where p: "p = (j, q)" by (cases p)
  have k: "k \<in> set ks" "k \<noteq> []" using Cons.prems by (force simp: p)+
  show ?case
  proof (cases "(k, r) = p")
    case True
    then show ?thesis using Cons.prems(5) by (simp add: p)
  next
    case False
    then have in_rs: "(k, r) \<in> set rs" using Cons.prems(4) by simp
    then have "hd k \<in> set (map hd (map fst rs))" by force
    moreover have "hd j \<notin> set (map hd (map fst rs))"
      using Cons.prems(2) unfolding Cons.prems(1)[symmetric] p by (simp only: list.map fst_conv distinct.simps) simp
    ultimately have "hd j \<noteq> hd k" by metis
    then have "\<not> startswith j (strip line)"
      using Cons.prems(1,3,5) k(2) startswith_hd[of j k t] by (auto simp: p)
    then show ?thesis using Cons.IH[of "tl ks"] Cons.prems in_rs by (auto simp: p)
  qed
qed

lemma rewrite_line_cases:
  "(rewrite_line rs line = Inr line \<and> (\<forall>k \<in> fst ` set rs. \<not> startswith k (strip line))) \<or>
   (\<exists>k. (k, rewrite_line rs line) \<in> set rs \<and> startswith k (strip line))"
proof (induction rs)
  case Nil
  then show ?case by simp
next
  case (Cons p rs)
  obtain k r where p: "p = (k, r)" by (cases p)
  show ?case
  proof (cases "startswith k (strip line)")
    case True
    then show ?thesis by (intro disjI2 exI[of _ k]) (simp add: p)
  next
    case False
    then show ?thesis using Cons.IH by (auto simp: p)
  qed
qed

lemma rewrite_line_absorb:
  assumes "own_lines rs" "own_lines rs'" "rewrite_line rs line = Inr line'"
  shows "rewrite_line rs' line' = rewrite_line rs' line"
proof -
  from rewrite_line_cases[of rs line] consider "line' = line" | k where "(k, Inr line') \<in> set rs" "startswith k (strip line)"
    using assms(3) by auto
  then show ?thesis
  proof cases
    case 1
    then show ?thesis by simp
  next
    case 2
    have "\<forall>s. (Inr line' :: string res) = Inr s \<longrightarrow> (\<exists>v. s = config_line k v)"
      using assms(1) 2(1) unfolding own_lines_def by blast
    then obtain v where v: "line' = config_line k v" by blast
    have keys: "map fst rs' = six_keys" "map fst rs = six_keys"
      using assms(1,2) unfolding own_lines_def by blast+
    have "k \<in> set (map fst rs)" using 2(1) by force
    then have k: "k \<in> set six_keys" by (simp only: keys(2))
    then have "k \<in> set (map fst rs')" by (simp only: keys(1))
    then obtain r where r: "(k, r) \<in> set rs'" by auto
    obtain t where "strip line' = k @ t" using strip_config_line[OF six_keys_ok(1)[OF k]] v by metis
    then have "rewrite_line rs' line' = r" by (rule rewrite_line_first[OF keys(1) six_keys_ok(2,3) r])
    moreover have "strip line = k @ drop (length k) (strip line)"
      using 2(2) by (metis append_take_drop_id startswith_def)
    then have "rewrite_line rs' line = r" by (rule rewrite_line_first[OF keys(1) six_keys_ok(2,3) r])
    ultimately show ?thesis by simp
  qed
qed

lemma rewrite_lines_absorb:
  assumes "own_lines rs" "own_lines rs'" "rewrite_lines rs ls = Inr ls'"
  shows "rewrite_lines rs' ls' = rewrite_lines rs' ls"
  using assms(3) unfolding rewrite_lines_def
proof (induction ls arbitrary: ls')
  case Nil
  then show ?case by simp
next
  case (Cons l ls)
  then show ?case using rewrite_line_absorb[OF assms(1,2)] by (auto simp: rbind_eq_Inr)
qed

text \<open>A rule set that writes whole lines without raising.\<close>

definition whole_lines :: "rules \<Rightarrow> bool" where
  "whole_lines rs = list_all (\<lambda>(k, r). case r of Inl e \<Rightarrow> False | Inr s \<Rightarrow> is_line s) rs"

lemma rewrite_lines_whole:
  assumes "whole_lines rs" "list_all is_line ls" "rewrite_lines rs ls = Inr ls'"
  shows "list_all is_line ls'"
  using assms(2,3) unfolding rewrite_lines_def
proof (induction ls arbitrary: ls')
  case Nil
  then show ?case by simp
next
  case (Cons l ls)
  then obtain l' ls'' where l': "rewrite_line rs l = Inr l'" "rmap (rewrite_line rs) ls = Inr ls''" "ls' = l' # ls''"
    by (auto simp: rbind_eq_Inr)
  moreover have "is_line l'"
    using rewrite_line_cases[of rs l] l'(1) Cons.prems(1) assms(1)
    by (auto simp: whole_lines_def list_all_iff split: sum.splits)
  ultimately show ?case using Cons.IH Cons.prems(1) by simp
qed

lemma rewrite_lines_total: "whole_lines rs \<Longrightarrow> \<exists>ls'. rewrite_lines rs ls = Inr ls'"
  unfolding rewrite_lines_def
proof (rule rmap_InrI)
  fix l assume w: "whole_lines rs"
  show "\<exists>l'. rewrite_line rs l = Inr l'"
    using rewrite_line_cases[of rs l] w by (auto simp: whole_lines_def list_all_iff split: sum.splits)
qed

text \<open>Parameters a driver can use: a known routing mode and no line break in any of them.\<close>

definition legal_run :: "string \<Rightarrow> run_params \<Rightarrow> bool" where
  "legal_run output_dir p = (nl \<notin> set output_dir \<and> routing_mode p \<in> {''0'', ''1'', ''2''} \<and>
     nl \<notin> set (x_util p) \<and> nl \<notin> set (cc_mode p) \<and> nl \<notin> set (dataset p))"

lemma routing_dir_own: "routing_dir m d = Inr s \<Longrightarrow> \<exists>v. s = config_line ''OUTPUT_DIR'' v"
  by (auto simp: routing_dir_def split: if_splits)

lemma routing_dir_simps [simp]:
  "routing_dir ''0'' d = Inr (config_line ''OUTPUT_DIR'' (d ''ECMP''))"
  "routing_dir ''1'' d = Inr (config_line ''OUTPUT_DIR'' (d ''UCMP''))"
  "routing_dir ''2'' d = Inr (config_line ''OUTPUT_DIR'' (d ''Ours''))"
  by (simp_all add: routing_dir_def)

lemmas rule_eqs = own_lines_def whole_lines_def six_keys_def

lemma dirnames:
  "nl \<notin> set (dirname config_path_batch)"
  "nl \<notin> set (dirname config_path_8DC)"
  "nl \<notin> set (dirname config_path_differCc)"
  "nl \<notin> set (dirname config_path_differDataset)"
  "nl \<notin> set (dirname config_path_linkUtil)"
  "nl \<notin> set (dirname config_path_for13DC)"
  "nl \<notin> set (dirname config_path_only13)"
  "nl \<notin> set (dirname config_path_ablation)"
  "nl \<notin> set (dirname config_path_congestion)"
  "nl \<notin> set (dirname config_path_globalWeight)"
  "nl \<notin> set (dirname config_path_staticCost)"
  by (simp_all add: dirname_def rstrip_by_def Let_def config_path_batch_def config_path_8DC_def config_path_differCc_def config_path_differDataset_def config_path_linkUtil_def config_path_for13DC_def config_path_only13_def config_path_ablation_def config_path_congestion_def config_path_globalWeight_def config_path_staticCost_def)

lemma own_lines_drivers:
  "own_lines (rules_batch b out p)"
  "own_lines (rules_8DC b out p)"
  "own_lines (rules_differCc b out p)"
  "own_lines (rules_differDataset b out p)"
  "own_lines (rules_linkUtil b out p)"
  "own_lines (rules_for13DC b out p)"
  "own_lines (rules_only13 b out p)"
  by (auto simp: rule_eqs rules_batch_def rules_8DC_def rules_differCc_def rules_differDataset_def rules_linkUtil_def rules_for13DC_def rules_only13_def dest: routing_dir_own)

lemma whole_lines_drivers:
  assumes "legal_run out p" "nl \<notin> set b"
  shows "whole_lines (rules_batch b out p)"
    "whole_lines (rules_8DC b out p)"
    "whole_lines (rules_differCc b out p)"
    "whole_lines (rules_differDataset b out p)"
    "whole_lines (rules_linkUtil b out p)"
    "whole_lines (rules_for13DC b out p)"
    "whole_lines (rules_only13 b out p)"
  using assms by (auto simp: rule_eqs legal_run_def rules_batch_def rules_8DC_def rules_differCc_def rules_differDataset_def rules_linkUtil_def rules_for13DC_def rules_only13_def)

interpretation w_batch: config_writer "modify_batch out" "legal_run out" for out
  unfolding modify_batch_def
  by unfold_locales (rule rewrite_lines_absorb[OF own_lines_drivers(1) own_lines_drivers(1)], assumption,
    rule rewrite_lines_whole[OF whole_lines_drivers(1)[OF _ dirnames(1)]], assumption+,
    rule rewrite_lines_total[OF whole_lines_drivers(1)[OF _ dirnames(1)]], assumption)

interpretation w_8DC: config_writer "modify_8DC out" "legal_run out" for out
  unfolding modify_8DC_def
  by unfold_locales (rule rewrite_lines_absorb[OF own_lines_drivers(2) own_lines_drivers(2)], assumption,
    rule rewrite_lines_whole[OF whole_lines_drivers(2)[OF _ dirnames(2)]], assumption+,
    rule rewrite_lines_total[OF whole_lines_drivers(2)[OF _ dirnames(2)]], assumption)

interpretation w_differCc: config_writer "modify_differCc out" "legal_run out" for out
  unfolding modify_differCc_def
  by unfold_locales (rule rewrite_lines_absorb[OF own_lines_drivers(3) own_lines_drivers(3)], assumption,
    rule rewrite_lines_whole[OF whole_lines_drivers(3)[OF _ dirnames(3)]], assumption+,
    rule rewrite_lines_total[OF whole_lines_drivers(3)[OF _ dirnames(3)]], assumption)

interpretation w_differDataset: config_writer "modify_differDataset out" "legal_run out" for out
  unfolding modify_differDataset_def
  by unfold_locales (rule rewrite_lines_absorb[OF own_lines_drivers(4) own_lines_drivers(4)], assumption,
    rule rewrite_lines_whole[OF whole_lines_drivers(4)[OF _ dirnames(4)]], assumption+,
    rule rewrite_lines_total[OF whole_lines_drivers(4)[OF _ dirnames(4)]], assumption)

interpretation w_linkUtil: config_writer "modify_linkUtil out" "legal_run out" for out
  unfolding modify_linkUtil_def
  by unfold_locales (rule rewrite_lines_absorb[OF own_lines_drivers(5) own_lines_drivers(5)], assumption,
    rule rewrite_lines_whole[OF whole_lines_drivers(5)[OF _ dirnames(5)]], assumption+,
    rule rewrite_lines_total[OF whole_lines_drivers(5)[OF _ dirnames(5)]], assumption)

interpretation w_for13DC: config_writer "modify_for13DC out" "legal_run out" for out
  unfolding modify_for13DC_def
  by unfold_locales (rule rewrite_lines_absorb[OF own_lines_drivers(6) own_lines_drivers(6)], assumption,
    rule rewrite_lines_whole[OF whole_lines_drivers(6)[OF _ dirnames(6)]], assumption+,
    rule rewrite_lines_total[OF whole_lines_drivers(6)[OF _ dirnames(6)]], assumption)

interpretation w_only13: config_writer "modify_only13 out" "legal_run out" for out
  unfolding modify_only13_def
  by unfold_locales (rule rewrite_lines_absorb[OF own_lines_drivers(7) own_lines_drivers(7)], assumption,
    rule rewrite_lines_whole[OF whole_lines_drivers(7)[OF _ dirnames(7)]], assumption+,
    rule rewrite_lines_total[OF whole_lines_drivers(7)[OF _ dirnames(7)]], assumption)

text \<open>The dictionaries: the same keys for all parameters, and values without line breaks.\<close>

definition same_keys :: "params \<Rightarrow> params \<Rightarrow> bool" where
  "same_keys ps qs = (map fst ps = map fst qs \<and> list_all is_key (map fst ps))"

lemma first_word_config: "is_key k \<Longrightarrow> first_word (config_line k v) = k"
proof -
  assume k: "is_key k"
  obtain t where t: "strip (config_line k v) = k @ t \<and> (t = [] \<or> is_ws (hd t))"
  proof -
    obtain k' c where kc: "k = k' @ [c]" "\<not> is_ws c" using k by (cases k rule: rev_cases) (auto simp: is_key_def)
    have l: "lstrip (config_line k v) = config_line k v" using k by (cases k) (auto simp: lstrip_def is_key_def config_line_def)
    have "strip (config_line k v) = k @ rstrip_by is_ws ('' '' @ v @ [nl])"
      using kc l by (simp add: strip_def rstrip_def config_line_def rstrip_by_append)
    moreover have "rstrip_by is_ws (sp # s) = [] \<or> hd (rstrip_by is_ws (sp # s)) = sp" for s
      by (simp add: rstrip_by_def dropWhile_append)
    ultimately show ?thesis using that by fastforce
  qed
  have "split_ws (k @ t) = k # split_ws t"
  proof -
    have m: "map (\<lambda>c. if is_ws c then sp else c) k = k" using k by (intro map_idI) (auto simp: is_key_def list_all_iff)
    have n: "sp \<notin> set k" "k \<noteq> []" using k by (auto simp: is_key_def list_all_iff)
    show ?thesis
    proof (cases t)
      case Nil
      then show ?thesis using m n by (simp add: split_ws_def split_on_single)
    next
      case (Cons c t')
      then have "is_ws c" using t by simp
      then show ?thesis using m n Cons by (simp add: split_ws_def split_on_append)
    qed
  qed
  then show ?thesis using t by (simp add: first_word_def)
qed

lemma replace_key_first_word:
  assumes "list_all is_key (map fst ps)"
  shows "first_word (replace_key ps l) = first_word l"
  using assms by (auto simp: replace_key_def list_all_iff split: option.splits
      dest!: map_of_SomeD intro!: first_word_config)

lemma map_of_dom_eq: "map fst ps = map fst qs \<Longrightarrow> map_of ps k = None \<longleftrightarrow> map_of qs k = None"
  by (metis map_of_eq_None_iff set_map)

lemma replace_key_absorb:
  assumes "same_keys ps qs"
  shows "replace_key qs (replace_key ps l) = replace_key qs l"
proof -
  have "first_word (replace_key ps l) = first_word l"
    using assms unfolding same_keys_def by (blast intro: replace_key_first_word)
  moreover have "map_of qs (first_word l) = None \<longleftrightarrow> map_of ps (first_word l) = None"
    using assms map_of_dom_eq by (metis same_keys_def)
  ultimately show ?thesis by (auto simp: replace_key_def split: option.splits)
qed

lemma missing_keys_absorb:
  assumes "same_keys ps qs" "distinct (map fst qs)"
  shows "map (replace_key qs) (missing_keys ps ls) = missing_keys qs ls"
proof -
  let ?P = "\<lambda>(k, v). k \<notin> set (map first_word ls)"
  have "map (replace_key qs) (map (\<lambda>(k, v). config_line k v) (filter ?P ps')) =
      map (\<lambda>(k, v). config_line k v) (filter ?P qs')"
    if "map fst ps' = map fst qs'" "set qs' \<subseteq> set qs" "set (map fst ps') \<subseteq> {k. is_key k}" for ps' qs'
    using that
  proof (induction ps' qs' rule: list_induct2')
    case (4 p ps' q qs')
    have "map_of qs (fst q) = Some (snd q)" using "4.prems"(2) assms(2) by (simp add: map_of_eq_Some_iff)
    then show ?case using 4 by (auto simp: replace_key_def first_word_config split: prod.splits)
  qed auto
  moreover have "map fst ps = map fst qs" "set (map fst ps) \<subseteq> {k. is_key k}"
    using assms(1) unfolding same_keys_def list_all_iff by blast+
  ultimately show ?thesis unfolding missing_keys_def by blast
qed

lemma replace_params_absorb:
  assumes "same_keys ps qs" "distinct (map fst qs)" "replace_params ps ls = Inr ls'"
  shows "replace_params qs ls' = replace_params qs ls"
proof -
  have keys: "map fst ps = map fst qs" "list_all is_key (map fst ps)" 
    using assms(1) unfolding same_keys_def by blast+
  have ls': "ls' = map (replace_key ps) ls @ missing_keys ps ls" using assms(3) by (simp add: replace_params_def)
  have words: "map first_word (map (replace_key ps) ls) = map first_word ls"
    by (simp add: replace_key_first_word[OF keys(2)])
  have "map first_word (missing_keys ps ls) = map fst (filter (\<lambda>(k, v). k \<notin> set (map first_word ls)) ps)"
    using keys(2) by (auto simp: missing_keys_def list_all_iff intro!: first_word_config)
  then have "set (map fst qs) \<subseteq> set (map first_word ls')"
    unfolding ls' map_append words keys(1)[symmetric] by auto
  then have none: "missing_keys qs ls' = []" by (auto simp: missing_keys_def filter_empty_conv)
  have same: "map (replace_key qs) (map (replace_key ps) ls) = map (replace_key qs) ls"
    using replace_key_absorb[OF assms(1)] by simp
  show ?thesis using none same missing_keys_absorb[OF assms(1,2), of ls]
    by (simp add: replace_params_def ls' del: map_map)
qed

definition whole_values :: "params \<Rightarrow> bool" where
  "whole_values ps = list_all (\<lambda>(k, v). nl \<notin> set k \<and> nl \<notin> set v) ps"

lemma replace_params_whole:
  assumes "whole_values ps" "list_all is_line ls" "replace_params ps ls = Inr ls'"
  shows "list_all is_line ls'"
proof -
  have "is_line (replace_key ps l)" if "is_line l" for l
    using that assms(1) by (fastforce simp: replace_key_def whole_values_def list_all_iff split: option.splits dest: map_of_SomeD)
  moreover have "list_all is_line (missing_keys ps ls)"
    using assms(1) by (fastforce simp: missing_keys_def whole_values_def list_all_iff)
  ultimately show ?thesis using assms(2,3) by (auto simp: replace_params_def list_all_iff)
qed

lemma same_keys_drivers:
  "same_keys (params_ablation b out p0) (params_ablation b out q0)"
  "same_keys (params_congestion b out p1) (params_congestion b out q1)"
  "same_keys (params_globalWeight b out p2) (params_globalWeight b out q2)"
  "same_keys (params_staticCost b out p3) (params_staticCost b out q3)"
  by (simp_all add: same_keys_def is_key_def is_ws_def params_ablation_def params_congestion_def params_globalWeight_def params_staticCost_def split: prod.splits)

lemma distinct_keys_drivers:
  "distinct (map fst (params_ablation b out p0))"
  "distinct (map fst (params_congestion b out p1))"
  "distinct (map fst (params_globalWeight b out p2))"
  "distinct (map fst (params_staticCost b out p3))"
  by (simp_all add: params_ablation_def params_congestion_def params_globalWeight_def params_staticCost_def split: prod.splits)

definition legal_study :: "string \<Rightarrow> string \<times> 'a \<Rightarrow> bool" where
  "legal_study out p = (nl \<notin> set out \<and> nl \<notin> set (fst p))"

lemma variant_nl [simp]: "nl \<notin> set (variant topology)"
  by (simp add: variant_def)

lemma whole_values_drivers:
  "legal_study out p0 \<Longrightarrow> nl \<notin> set b \<Longrightarrow> whole_values (params_ablation b out p0)"
  "legal_study out p1 \<Longrightarrow> nl \<notin> set b \<Longrightarrow> whole_values (params_congestion b out p1)"
  "legal_study out p2 \<Longrightarrow> nl \<notin> set b \<Longrightarrow> whole_values (params_globalWeight b out p2)"
  "legal_study out p3 \<Longrightarrow> nl \<notin> set b \<Longrightarrow> whole_values (params_staticCost b out p3)"
  by (auto simp: whole_values_def legal_study_def params_ablation_def params_congestion_def params_globalWeight_def params_staticCost_def split: prod.splits)

interpretation w_ablation: config_writer "modify_ablation out" "legal_study out" for out
  unfolding modify_ablation_def
  by unfold_locales (rule replace_params_absorb[OF same_keys_drivers(1) distinct_keys_drivers(1)], assumption,
    rule replace_params_whole[OF whole_values_drivers(1)[OF _ dirnames(8)]], assumption+,
    simp add: replace_params_def)

interpretation w_congestion: config_writer "modify_congestion out" "legal_study out" for out
  unfolding modify_congestion_def
  by unfold_locales (rule replace_params_absorb[OF same_keys_drivers(2) distinct_keys_drivers(2)], assumption,
    rule replace_params_whole[OF whole_values_drivers(2)[OF _ dirnames(9)]], assumption+,
    simp add: replace_params_def)

interpretation w_globalWeight: config_writer "modify_globalWeight out" "legal_study out" for out
  unfolding modify_globalWeight_def
  by unfold_locales (rule replace_params_absorb[OF same_keys_drivers(3) distinct_keys_drivers(3)], assumption,
    rule replace_params_whole[OF whole_values_drivers(3)[OF _ dirnames(10)]], assumption+,
    simp add: replace_params_def)

interpretation w_staticCost: config_writer "modify_staticCost out" "legal_study out" for out
  unfolding modify_staticCost_def
  by unfold_locales (rule replace_params_absorb[OF same_keys_drivers(4) distinct_keys_drivers(4)], assumption,
    rule replace_params_whole[OF whole_values_drivers(4)[OF _ dirnames(11)]], assumption+,
    simp add: replace_params_def)


section \<open>The runs of a batch\<close>

text \<open>A file that ends with a line break.\<close>

definition complete_text :: "string \<Rightarrow> bool" where
  "complete_text t = list_all is_line (readlines t)"

lemma legal_runs:
  "nl \<notin> set out \<Longrightarrow> list_all (legal_run out) runs_batch"
  "nl \<notin> set out \<Longrightarrow> list_all (legal_run out) runs_for13DC"
  by (simp_all add: runs_batch_def runs_for13DC_def combinations_def legal_run_def)

text \<open>C9. When the simulator leaves its configuration file alone and that file ends with a line break,
  \<open>server_simulation_batch.py\<close> runs the simulator 27 times, and each run sees the original configuration
  with the lines of its own routing mode, load, congestion control and data set, whatever the runs
  before it wrote.\<close>

theorem batch_runs:
  assumes "nl \<notin> set out" "st_files st config_path_batch = Some t" "complete_text t"
    and "\<And>c fs. sys c fs config_path_batch = fs config_path_batch"
  shows "length runs_batch = 27 \<and> (\<exists>st'. main_batch sys out st = Inr st' \<and>
    seen config_path_batch st' = seen config_path_batch st @
      map (\<lambda>p. (waf_command config_path_batch,
        rewrite_lines (rules_batch ''mix/config/8DC-hetero'' out p) (readlines t))) runs_batch)"
proof -
  have "length runs_batch = 27" by (simp add: runs_batch_def combinations_def)
  moreover have "dirname config_path_batch = ''mix/config/8DC-hetero''"
    by (simp add: dirname_def rstrip_by_def config_path_batch_def Let_def)
  ultimately show ?thesis
    using w_batch.run_all_trace[OF legal_runs(1)[OF assms(1)], of st config_path_batch "readlines t" sys] assms(2-4)
    by (simp add: main_batch_def complete_text_def concat_readlines modify_batch_def)
qed

definition ex_config :: string where
  "ex_config = ''ROUTING_MODE 2'' @ [nl] @ ''OUTPUT_DIR x/'' @ [nl] @ ''KMAX 400'' @ [nl]"

definition ex_sim :: sim_state where
  "ex_sim = \<lparr>st_files = [config_path_batch \<mapsto> ex_config], st_trace = []\<rparr>"

theorem batch_runs_witness:
  "\<exists>st'. main_batch (\<lambda>c fs. fs) ''out'' ex_sim = Inr st' \<and> length (seen config_path_batch st') = 27"
proof -
  have "complete_text ex_config" by (simp add: complete_text_def ex_config_def is_line_def)
  then obtain st' where "main_batch (\<lambda>c fs. fs) ''out'' ex_sim = Inr st'"
    "seen config_path_batch st' = seen config_path_batch ex_sim @
      map (\<lambda>p. (waf_command config_path_batch,
        rewrite_lines (rules_batch ''mix/config/8DC-hetero'' ''out'' p) (readlines ex_config))) runs_batch"
    and "length runs_batch = 27"
    using batch_runs[of "''out''" ex_sim ex_config "\<lambda>c fs. fs"] by (auto simp: ex_sim_def)
  moreover have "seen config_path_batch ex_sim = []" by (simp add: seen_def ex_sim_def)
  ultimately show ?thesis by auto
qed

text \<open>A routing mode other than 0, 1 and 2 leaves the output directory undefined: a configuration with an
  \<open>OUTPUT_DIR\<close> line makes every driver of this style raise, and the file is not written.\<close>

theorem unknown_routing:
  assumes "routing_mode p \<notin> {''0'', ''1'', ''2''}" "l \<in> set ls" "startswith ''OUTPUT_DIR'' (strip l)"
  shows "modify_batch out p ls = Inl UnboundLocalError \<and> modify_8DC out p ls = Inl UnboundLocalError \<and>
    modify_differCc out p ls = Inl UnboundLocalError \<and> modify_differDataset out p ls = Inl UnboundLocalError \<and>
    modify_linkUtil out p ls = Inl UnboundLocalError \<and> modify_for13DC out p ls = Inl UnboundLocalError \<and>
    modify_only13 out p ls = Inl UnboundLocalError"
proof -
  have raise: "rewrite_lines rs ls = Inl UnboundLocalError"
    if rs: "\<exists>r1 r2 r4 r5 r6. rs = [(''ROUTING_MODE'', Inr r1), (''CC_MODE'', Inr r2), (''OUTPUT_DIR'', Inl UnboundLocalError),
      (''FLOW_FILE'', Inr r4), (''TOPOLOGY_FILE'', Inr r5), (''WORKING_DIR'', Inr r6)]" for rs
  proof -
    obtain x where "strip l = ''OUTPUT_DIR'' @ x"
      using assms(3) unfolding startswith_iff_prefix prefix_def by blast
    then have "rewrite_line rs l = Inl UnboundLocalError" using rs by auto
    then obtain e where e: "rewrite_lines rs ls = Inl e"
      using rmap_InlI[OF assms(2)] unfolding rewrite_lines_def by blast
    have "e = UnboundLocalError" if "rmap (rewrite_line rs) ls' = Inl e" for ls'
      using that
    proof (induction ls')
      case Nil
      then show ?case by simp
    next
      case (Cons a ls')
      then show ?case using rs by (auto simp: rbind_eq_Inl split: if_splits)
    qed
    then show ?thesis using e unfolding rewrite_lines_def by blast
  qed
  have "routing_dir (routing_mode p) d = Inl UnboundLocalError" for d
    using assms(1) by (simp add: routing_dir_def)
  then show ?thesis
    by (auto intro!: raise simp: modify_batch_def modify_8DC_def modify_differCc_def modify_differDataset_def
        modify_linkUtil_def modify_for13DC_def modify_only13_def rules_batch_def rules_8DC_def rules_differCc_def
        rules_differDataset_def rules_linkUtil_def rules_for13DC_def rules_only13_def)
qed

theorem unknown_routing_witness:
  "modify_batch ''out'' \<lparr>routing_mode = ''3'', x_util = ''0.3util'', cc_mode = ''1'', dataset = ''WebSearch''\<rparr>
     [''OUTPUT_DIR x/'' @ [nl]] = Inl UnboundLocalError"
proof (rule unknown_routing[THEN conjunct1])
  show "startswith ''OUTPUT_DIR'' (strip (''OUTPUT_DIR x/'' @ [nl]))" by code_simp
qed simp_all

text \<open>Rewriting the lines of parameters and appending the missing ones.\<close>

lemma parameter_lines:
  assumes "distinct (map fst ps)" "(k, v) \<in> set ps"
  shows "config_line k v \<in> set (map (replace_key ps) ls @ missing_keys ps ls)"
proof (cases "k \<in> set (map first_word ls)")
  case True
  then obtain l where "l \<in> set ls" "first_word l = k" by auto
  moreover have "map_of ps k = Some v" using assms by simp
  ultimately have "config_line k v \<in> replace_key ps ` set ls" by (force simp: replace_key_def)
  then show ?thesis by simp
next
  case False
  then show ?thesis using assms(2) by (force simp: missing_keys_def)
qed

lemma other_lines:
  assumes "list_all is_key (map fst ps)"
  shows "filter (\<lambda>l. first_word l \<notin> set (map fst ps)) (map (replace_key ps) ls @ missing_keys ps ls) = filter (\<lambda>l. first_word l \<notin> set (map fst ps)) ls"
proof -
  have words: "first_word (replace_key ps l) = first_word l" for l by (rule replace_key_first_word[OF assms])
  have same: "replace_key ps l = l" if "first_word l \<notin> set (map fst ps)" for l
    using that map_of_eq_None_iff[of ps "first_word l"] by (simp add: replace_key_def)
  have "filter (\<lambda>l. first_word l \<notin> set (map fst ps)) (missing_keys ps ls) = []"
    using assms by (force simp: filter_empty_conv missing_keys_def list_all_iff first_word_config)
  moreover have "filter (\<lambda>l. first_word l \<notin> set (map fst ps)) (map (replace_key ps) ls) = filter (\<lambda>l. first_word l \<notin> set (map fst ps)) ls"
  proof (induction ls)
    case (Cons a ls)
    then show ?case by (cases "first_word a \<in> set (map fst ps)") (simp_all add: words same del: set_map)
  qed simp
  ultimately show ?thesis by (simp only: filter_append append_Nil2)
qed



text \<open>A configuration whose last line has no line break swallows the first parameter the drivers append:
  it is glued to that line, and no line of the file has it as its first word.\<close>

theorem missing_newline_loses_parameter:
  "\<exists>fs'. rewrite_file (modify_ablation ''out'' (''topo'', 4, 0)) ''c'' [''c'' \<mapsto> ''FOO 2''] = Inr fs' \<and>
    (\<exists>t. fs' ''c'' = Some t \<and> hd (readlines t) = ''FOO 2ALPHA 4'' @ [nl] \<and>
      ''ALPHA'' \<notin> set (map first_word (readlines t)))"
proof -
  have d: "str_int 4 = ''4''" "str_int 0 = ''0''" "str_int 3 = ''3''" "str_int 1 = ''1''" "str_int 2 = ''2''"
    by code_simp+
  have dir: "dirname config_path_ablation = ''mix/config/8DC-hetero''"
    by (simp add: dirname_def rstrip_by_def config_path_ablation_def Let_def)
  define ps where "ps = params_ablation ''mix/config/8DC-hetero'' ''out'' (''topo'', 4, 0)"
  have fw: "first_word ''FOO 2'' = ''FOO''" by code_simp
  define rest where "rest = missing_keys (tl ps) [''FOO 2'']"
  have ps: "ps = (''ALPHA'', ''4'') # tl ps" by (simp add: ps_def params_ablation_def d)
  have t: "concat (map (replace_key ps) [''FOO 2''] @ missing_keys ps [''FOO 2'']) =
      ''FOO 2ALPHA 4'' @ [nl] @ concat rest"
  proof -
    have "replace_key ps ''FOO 2'' = ''FOO 2''"
      by (simp add: replace_key_def fw ps_def params_ablation_def)
    moreover have "missing_keys ps [''FOO 2''] = config_line ''ALPHA'' ''4'' # rest"
      by (subst ps) (simp add: missing_keys_def fw rest_def)
    ultimately show ?thesis by (simp add: config_line_def)
  qed
  have keys: "list_all is_key (map fst ps)" using same_keys_drivers(1) unfolding ps_def same_keys_def by blast
  have whole: "whole_values ps"
    unfolding ps_def by (rule whole_values_drivers(1)) (simp_all add: legal_study_def)
  have "list_all is_line rest"
    using whole by (subst (asm) ps) (auto simp: rest_def missing_keys_def whole_values_def list_all_iff)
  then have lines: "readlines (''FOO 2ALPHA 4'' @ [nl] @ concat rest) = (''FOO 2ALPHA 4'' @ [nl]) # rest"
    using readlines_line[of "''FOO 2ALPHA 4''" "concat rest"] readlines_concat[of rest] by (auto simp: list_all_iff)
  have "first_word (''FOO 2ALPHA 4'' @ [nl]) = ''FOO''" by code_simp
  moreover have "''ALPHA'' \<notin> set (map first_word rest)"
  proof -
    have "set (map first_word rest) \<subseteq> set (map fst (tl ps))"
    proof -
      have "list_all is_key (map fst (tl ps))" using keys by (cases ps) auto
      then show ?thesis by (force simp: rest_def missing_keys_def list_all_iff first_word_config)
    qed
    moreover have "''ALPHA'' \<notin> set (map fst (tl ps))" by (simp add: ps_def params_ablation_def)
    ultimately show ?thesis by blast
  qed
  ultimately show ?thesis
    using t lines by (simp add: rewrite_file_def open_text_def modify_ablation_def replace_params_def dir ps_def[symmetric])
qed

end
