(* ===== verification/PyWorld.thy ===== *)
theory PyWorld
  imports PyFiles
begin

text \<open>
  Code with effects: an action takes the state and gives the outcome (a value or the exception that
  ended it) together with the state it leaves, so that what was written before an exception stays
  written.  The state of the analysis scripts is the files and the lines printed so far.  \<open>each\<close> is a
  \<open>for\<close> loop: it stops at the first exception.  The lemmas are a small calculus for loops: an invariant
  of every step is an invariant of the loop, and a loop whose steps all succeed folds their effects.
  Weakest preconditions turn a run of a handler into a condition on its state.
\<close>

section \<open>Actions\<close>

type_synonym ('s, 'a) act = "'s \<Rightarrow> 'a res \<times> 's"

definition ret :: "'a \<Rightarrow> ('s, 'a) act" where "ret x s = (Inr x, s)"
definition raise :: "py_error \<Rightarrow> ('s, 'a) act" where "raise e s = (Inl e, s)"
definition lift :: "'a res \<Rightarrow> ('s, 'a) act" where "lift r s = (r, s)"
definition gets :: "('s \<Rightarrow> 'a) \<Rightarrow> ('s, 'a) act" where "gets f s = (Inr (f s), s)"
definition update :: "('s \<Rightarrow> 's) \<Rightarrow> ('s, unit) act" where "update f s = (Inr (), f s)"

definition abind :: "('s, 'a) act \<Rightarrow> ('a \<Rightarrow> ('s, 'b) act) \<Rightarrow> ('s, 'b) act" where
  "abind m f s = (case m s of (Inl e, t) \<Rightarrow> (Inl e, t) | (Inr x, t) \<Rightarrow> f x t)"

definition also_do :: "('s, 'a) act \<Rightarrow> ('s, 'b) act \<Rightarrow> ('s, 'b) act" where
  "also_do m k = abind m (\<lambda>_. k)"

fun each :: "('a \<Rightarrow> ('s, unit) act) \<Rightarrow> 'a list \<Rightarrow> ('s, unit) act" where
  "each f [] = ret ()"
| "each f (x # xs) = also_do (f x) (each f xs)"

text \<open>A loop that also carries a value.\<close>

fun fold_each :: "('b \<Rightarrow> 'a \<Rightarrow> ('s, 'b) act) \<Rightarrow> 'b \<Rightarrow> 'a list \<Rightarrow> ('s, 'b) act" where
  "fold_each f b [] = ret b"
| "fold_each f b (x # xs) = abind (f b x) (\<lambda>b'. fold_each f b' xs)"

named_theorems act_simps "running an action"

lemma act_run [simp, act_simps]:
  "ret x s = (Inr x, s)" "raise e s = (Inl e, s)" "lift r s = (r, s)" "gets f s = (Inr (f s), s)" "update g s = (Inr (), g s)"
  by (simp_all add: ret_def raise_def lift_def gets_def update_def)

lemma abind_run [act_simps]:
  "m s = (Inr x, t) \<Longrightarrow> abind m f s = f x t"
  "m s = (Inl e, t) \<Longrightarrow> abind m f s = (Inl e, t)"
  by (simp_all add: abind_def)

lemma abind_simps [simp]:
  "abind (ret x) f s = f x s" "abind (raise e) f s = (Inl e, s)" "abind (gets g) h s = h (g s) s"
  "abind (update u) k s = k () (u s)" "abind (lift (Inr x)) f s = f x s" "abind (lift (Inl e)) f s = (Inl e, s)"
  by (simp_all add: abind_def)

lemma also_do_run [act_simps]:
  "m s = (Inr x, t) \<Longrightarrow> also_do m k s = k t"
  "m s = (Inl e, t) \<Longrightarrow> also_do m k s = (Inl e, t)"
  by (simp_all add: also_do_def abind_def)

lemma also_do_simps [simp]:
  "also_do (ret x) k s = k s" "also_do (update u) k s = k (u s)" "also_do (raise e) k s = (Inl e, s)"
  by (simp_all add: also_do_def)

lemma abind_cases: "abind m f s = (r, t) \<Longrightarrow>
    (\<exists>e. m s = (Inl e, t) \<and> r = Inl e) \<or> (\<exists>x u. m s = (Inr x, u) \<and> f x u = (r, t))"
  by (auto simp: abind_def split: prod.splits sum.splits)

lemma each_append: "each f (xs @ ys) s = also_do (each f xs) (each f ys) s"
  by (induction xs arbitrary: s) (auto simp: also_do_def abind_def split: prod.splits sum.splits)

lemma each_invariant:
  "each f xs s = (r, t) \<Longrightarrow> P s \<Longrightarrow>
     (\<And>x u r' v. x \<in> set xs \<Longrightarrow> P u \<Longrightarrow> f x u = (r', v) \<Longrightarrow> P v) \<Longrightarrow> P t"
proof (induction xs arbitrary: s)
  case Nil
  then show ?case by simp
next
  case (Cons x xs)
  obtain r' u where u: "f x s = (r', u)" by (cases "f x s")
  have "P u" by (rule Cons.prems(3)[OF _ Cons.prems(2) u]) simp
  show ?case
  proof (cases r')
    case (Inl e)
    with u Cons.prems(1) have "t = u" by (simp add: act_simps)
    with \<open>P u\<close> show ?thesis by simp
  next
    case (Inr x')
    with u Cons.prems(1) have "each f xs u = (r, t)" by (simp add: act_simps)
    then show ?thesis by (rule Cons.IH[OF _ \<open>P u\<close>]) (use Cons.prems(3) in auto)
  qed
qed

lemma each_total:
  "(\<And>x s. x \<in> set xs \<Longrightarrow> f x s = (Inr (), g x s)) \<Longrightarrow> each f xs s = (Inr (), foldl (\<lambda>s x. g x s) s xs)"
  by (induction xs arbitrary: s) (simp_all add: act_simps)

section \<open>Weakest preconditions\<close>

text \<open>\<open>wp m Q E s\<close>: run from \<open>s\<close>, the action ends with a value and a state in \<open>Q\<close> or with an exception and a state in \<open>E\<close>.\<close>

definition wp :: "('s, 'a) act \<Rightarrow> ('a \<Rightarrow> 's \<Rightarrow> bool) \<Rightarrow> (py_error \<Rightarrow> 's \<Rightarrow> bool) \<Rightarrow> 's \<Rightarrow> bool" where
  "wp m Q E s = (case m s of (Inl e, t) \<Rightarrow> E e t | (Inr x, t) \<Rightarrow> Q x t)"

lemma wp_simps [simp]:
  "wp (ret x) Q E = Q x" "wp (raise e) Q E s = E e s" "wp (gets g) R E s = R (g s) s" "wp (update u) P E s = P () (u s)"
  "wp (lift r) Q E s = (case r of Inl e \<Rightarrow> E e s | Inr x \<Rightarrow> Q x s)"
  "wp (abind m f) T E s = wp m (\<lambda>x. wp (f x) T E) E s"
  "wp (also_do m k) T E s = wp m (\<lambda>_. wp k T E) E s"
  by (auto simp: wp_def abind_def also_do_def split: sum.splits prod.splits intro!: ext)

lemma wp_mono:
  "wp m Q E s \<Longrightarrow> (\<And>x t. Q x t \<Longrightarrow> Q' x t) \<Longrightarrow> (\<And>e t. E e t \<Longrightarrow> E' e t) \<Longrightarrow> wp m Q' E' s"
  by (auto simp: wp_def split: sum.splits prod.splits)

section \<open>Files and the console\<close>

record world =
  disk :: files
  console :: "string list"

type_synonym 'a script = "(world, 'a) act"

definition say :: "string list \<Rightarrow> world \<Rightarrow> world" where
  "say ls w = w\<lparr>console := console w @ ls\<rparr>"

definition put_file :: "string \<Rightarrow> string \<Rightarrow> world \<Rightarrow> world" where
  "put_file p s w = w\<lparr>disk := (disk w)(p \<mapsto> s)\<rparr>"

definition show_line :: "string \<Rightarrow> unit script" where
  "show_line l = update (say [l])"

definition file_exists :: "string \<Rightarrow> bool script" where
  "file_exists p = gets (\<lambda>w. disk w p \<noteq> None)"

definition read_text :: "string \<Rightarrow> string script" where
  "read_text p w = (open_text (disk w) p, w)"

text \<open>Opening for writing empties the file; every write appends.\<close>

definition open_w :: "string \<Rightarrow> unit script" where
  "open_w p = update (put_file p [])"

definition write_to :: "string \<Rightarrow> string \<Rightarrow> unit script" where
  "write_to p s = update (\<lambda>w. put_file p ((case disk w p of None \<Rightarrow> [] | Some old \<Rightarrow> old) @ s) w)"

lemma world_simps [simp]:
  "disk (say ls w) = disk w" "console (say ls w) = console w @ ls"
  "disk (put_file p s w) = (disk w)(p \<mapsto> s)" "console (put_file p s w) = console w"
  "put_file p s (put_file p t w) = put_file p s w" "say ls (put_file p s w) = put_file p s (say ls w)"
  "say ls (say ks w) = say (ks @ ls) w" "say [] w = w"
  by (simp_all add: say_def put_file_def)

lemma put_file_same: "disk w p = Some t \<Longrightarrow> put_file p t w = w"
  by (simp add: put_file_def map_upd_triv)

lemma script_run [simp, act_simps]:
  "show_line l w = (Inr (), say [l] w)"
  "file_exists p w = (Inr (disk w p \<noteq> None), w)"
  "read_text p w = (open_text (disk w) p, w)"
  "open_w p w = (Inr (), put_file p [] w)"
  by (simp_all add: show_line_def file_exists_def read_text_def open_w_def)

lemma script_bind [simp]:
  "also_do (show_line l) k w = k (say [l] w)"
  "also_do (open_w p) k w = k (put_file p [] w)"
  "abind (file_exists p) f w = f (disk w p \<noteq> None) w"
  "disk w p = Some t \<Longrightarrow> abind (read_text p) g w = g t w"
  "disk w p = None \<Longrightarrow> abind (read_text p) g w = (Inl FileNotFoundError, w)"
  by (simp_all add: act_simps also_do_def abind_def open_text_def)

lemma write_to_run [simp]:
  "disk w p = Some old \<Longrightarrow> write_to p s w = (Inr (), put_file p (old @ s) w)"
  "disk w p = Some old \<Longrightarrow> also_do (write_to p s) k w = k (put_file p (old @ s) w)"
  by (simp_all add: write_to_def)

text \<open>A loop that writes one file per element.\<close>

lemma each_writes:
  assumes "\<And>x u. x \<in> set xs \<Longrightarrow> P u \<Longrightarrow> \<exists>t ls. Q x t \<and> f x u = (Inr (), put_file (name x) t (say ls u))"
    and "\<And>x u t ls. P u \<Longrightarrow> P (put_file (name x) t (say ls u))"
    and "distinct (map name xs)" "P w"
  shows "\<exists>w'. each f xs w = (Inr (), w') \<and> (\<forall>x \<in> set xs. \<exists>t. disk w' (name x) = Some t \<and> Q x t) \<and>
    (\<forall>p. p \<notin> name ` set xs \<longrightarrow> disk w' p = disk w p)"
  using assms(1,3,4)
proof (induction xs arbitrary: w)
  case Nil
  then show ?case by simp
next
  case (Cons x xs)
  obtain t ls where t: "Q x t" "f x w = (Inr (), put_file (name x) t (say ls w))"
    using Cons.prems(1)[of x w] Cons.prems(3) by auto
  let ?w = "put_file (name x) t (say ls w)"
  obtain w' where w': "each f xs ?w = (Inr (), w')" "\<forall>x \<in> set xs. \<exists>t. disk w' (name x) = Some t \<and> Q x t"
      "\<forall>p. p \<notin> name ` set xs \<longrightarrow> disk w' p = disk ?w p"
    using Cons.IH[of ?w] Cons.prems assms(2) by auto
  have "disk w' (name x) = Some t" using w'(3) Cons.prems(2) by auto
  with t w' show ?case by (auto simp: act_simps)
qed

end
