(* ===== verification/PyCsv.thy ===== *)
theory PyCsv
  imports PyFiles
begin

text \<open>
  What the analysis scripts use of the module \<open>csv\<close> and of \<open>str\<close> of a float: the shortest decimal that
  reads back as the float, rows written with quotes where a field needs them and ended by a carriage
  return and a line feed, and the reader.  The lemma: the reader gives back rows of plain fields.
\<close>

section \<open>\<open>repr\<close> of a float\<close>

text \<open>The decimal exponent by repeated scaling; 400 steps reach every binary64 number.\<close>

fun dec_exp :: "nat \<Rightarrow> rat \<Rightarrow> int" where
  "dec_exp 0 x = 0"
| "dec_exp (Suc n) x =
     (if 10 \<le> x then dec_exp n (x / 10) + 1 else if x < 1 then dec_exp n (x * 10) - 1 else 0)"

definition significant :: "nat \<Rightarrow> int \<Rightarrow> rat \<Rightarrow> int" where
  "significant k e x = rhe (x / pow10 (e - int k + 1))"

definition shortest :: "rat \<Rightarrow> int \<times> int" where
  "shortest x = (let e = dec_exp 400 x;
     k = (case find (\<lambda>k. rn (of_int (significant k e x) * pow10 (e - int k + 1)) = x) [1..<18] of
            None \<Rightarrow> 17 | Some k \<Rightarrow> k)
     in (significant k e x, e - int k + 1))"

definition float_digits :: "string \<Rightarrow> int \<Rightarrow> string" where
  "float_digits ds pt =
     (let n = int (length ds); zeros = (\<lambda>k. replicate (nat k) (CHR ''0''))
      in if - 4 < pt \<and> pt \<le> 16 then
           (if pt \<le> 0 then ''0.'' @ zeros (- pt) @ ds
            else if n \<le> pt then ds @ zeros (pt - n) @ ''.0''
            else take (nat pt) ds @ ''.'' @ drop (nat pt) ds)
         else take 1 ds @ (if n = 1 then [] else CHR ''.'' # drop 1 ds) @ ''e'' @
           (if pt \<le> 0 then ''-'' else ''+'') @ pad_zeros 2 (digits_of \<bar>pt - 1\<bar>))"

definition repr_float :: "flt \<Rightarrow> string" where
  "repr_float x = (if x = 0 then ''0.0''
     else let (m, e) = shortest \<bar>x\<bar>; s = digits_of m; ds = rstrip_by (\<lambda>c. c = CHR ''0'') s
          in (if x < 0 then ''-'' else []) @ float_digits ds (int (length s) + e))"

section \<open>Rows\<close>

definition csv_special :: "char \<Rightarrow> bool" where
  "csv_special c = (c \<in> {CHR '','', CHR 0x22, CHR 0x0D, nl})"

definition csv_field :: "string \<Rightarrow> string" where
  "csv_field s = (if list_ex csv_special s
     then CHR 0x22 # concat (map (\<lambda>c. if c = CHR 0x22 then [c, c] else [c]) s) @ [CHR 0x22] else s)"

definition csv_line :: "string list \<Rightarrow> string" where
  "csv_line row = (if row = [[]] then [CHR 0x22, CHR 0x22] else join '','' (map csv_field row)) @ [CHR 0x0D, nl]"

text \<open>The reader: inside quotes or not, the field so far (\<open>None\<close> when it has not begun) and the row so far,
  both reversed.\<close>

definition begun :: "string option \<Rightarrow> string" where
  "begun f = (case f of None \<Rightarrow> [] | Some w \<Rightarrow> w)"

fun csv_scan :: "bool \<Rightarrow> string option \<Rightarrow> string list \<Rightarrow> string \<Rightarrow> string list list" where
  "csv_scan q f r [] = (if f = None \<and> r = [] then [] else [rev (rev (begun f) # r)])"
| "csv_scan q f r (c # s) =
     (if q then
        (if c = CHR 0x22 then
           (case s of d # s' \<Rightarrow> if d = CHR 0x22 then csv_scan True (Some (c # begun f)) r s' else csv_scan False f r s
            | [] \<Rightarrow> csv_scan False f r s)
         else csv_scan True (Some (c # begun f)) r s)
      else if c = CHR '','' then csv_scan False None (rev (begun f) # r) s
      else if c = CHR 0x0D then csv_scan False f r s
      else if c = nl then
        (if f = None \<and> r = [] then [] else rev (rev (begun f) # r)) # csv_scan False None [] s
      else if c = CHR 0x22 \<and> f = None then csv_scan True (Some []) r s
      else csv_scan False (Some (c # begun f)) r s)"

definition csv_read :: "string \<Rightarrow> string list list" where
  "csv_read s = csv_scan False None [] s"

definition plain_field :: "string \<Rightarrow> bool" where
  "plain_field s = (s \<noteq> [] \<and> \<not> list_ex csv_special s)"

lemma csv_scan_plain:
  "\<not> list_ex csv_special w \<Longrightarrow> w \<noteq> [] \<Longrightarrow> csv_scan False f r (w @ s) = csv_scan False (Some (rev w @ begun f)) r s"
proof (induction w arbitrary: f)
  case Nil
  then show ?case by simp
next
  case (Cons c w)
  then have c: "\<not> csv_special c" "\<not> list_ex csv_special w" by auto
  then have "csv_scan False f r (c # w @ s) = csv_scan False (Some (c # begun f)) r (w @ s)"
    by (simp add: csv_special_def)
  then show ?case using Cons.IH[OF c(2), of "Some (c # begun f)"] by (cases "w = []") (simp_all add: begun_def)
qed

lemma csv_scan_row:
  assumes "list_all plain_field fs" "fs \<noteq> []"
  shows "csv_scan False None r (join '','' fs @ CHR 0x0D # nl # s) = (rev r @ fs) # csv_scan False None [] s"
  using assms
proof (induction fs arbitrary: r)
  case Nil
  then show ?case by simp
next
  case (Cons f fs)
  have f: "\<not> list_ex csv_special f" "f \<noteq> []" using Cons.prems by (auto simp: plain_field_def)
  note scan = csv_scan_plain[OF f, of None r]
  show ?case
  proof (cases "fs = []")
    case True
    then show ?thesis using f scan[of "CHR 0x0D # nl # s"] by (simp add: begun_def)
  next
    case False
    then show ?thesis
      using f Cons.prems Cons.IH[of "f # r"] scan[of "CHR '','' # join '','' fs @ CHR 0x0D # nl # s"]
      by (simp add: join_Cons begun_def)
  qed
qed

lemma csv_read_line:
  assumes "list_all plain_field row" "row \<noteq> []"
  shows "csv_read (csv_line row @ s) = row # csv_read s"
proof -
  have "map csv_field row = row" using assms(1) by (intro map_idI) (auto simp: list_all_iff plain_field_def csv_field_def)
  moreover have "row \<noteq> [[]]" using assms(1) by (auto simp: plain_field_def)
  ultimately show ?thesis using csv_scan_row[OF assms, of "[]" s] by (simp add: csv_read_def csv_line_def)
qed

lemma csv_roundtrip:
  assumes "\<And>row. row \<in> set rows \<Longrightarrow> list_all plain_field row \<and> row \<noteq> []"
  shows "csv_read (concat (map csv_line rows)) = rows"
  using assms
proof (induction rows)
  case Nil
  then show ?case by (simp add: csv_read_def)
next
  case (Cons row rows)
  then show ?case by (simp add: csv_read_line)
qed

section \<open>Numbers are plain fields\<close>

definition numeric_char :: "char \<Rightarrow> bool" where
  "numeric_char c = (is_digit c \<or> c \<in> {CHR ''-'', CHR ''+'', CHR ''.'', CHR ''e''})"

lemma numeric_char_plain: "numeric_char c \<Longrightarrow> \<not> csv_special c"
  by (auto simp: numeric_char_def csv_special_def is_digit_def)

lemma number_digit: "is_digit c \<Longrightarrow> numeric_char c"
  by (simp add: numeric_char_def)

lemma str_int_number: "c \<in> set (str_int n) \<Longrightarrow> numeric_char c"
  using str_int_chars[of c n] by (auto simp: numeric_char_def)

lemma number_chars: "numeric_char (CHR ''0'')" "numeric_char (CHR ''.'')" "numeric_char (CHR ''e'')"
  "numeric_char (CHR ''-'')" "numeric_char (CHR ''+'')"
  by (simp_all add: numeric_char_def is_digit_def)

abbreviation all_number :: "string \<Rightarrow> bool" where "all_number \<equiv> list_all numeric_char"

lemma all_number_take_drop: "all_number s \<Longrightarrow> all_number (take n s)" "all_number s \<Longrightarrow> all_number (drop n s)"
  by (auto simp: list_all_iff dest: in_set_takeD in_set_dropD)

lemma all_number_digits: "0 \<le> n \<Longrightarrow> all_number (digits_of n)"
  using digits_of_digits[of n] number_digit by (auto simp: list_all_iff)

lemma all_number_replicate: "numeric_char c \<Longrightarrow> all_number (replicate n c)"
  by (simp add: list_all_iff)

lemma all_number_rstrip: "all_number s \<Longrightarrow> all_number (rstrip_by P s)"
  by (auto simp: rstrip_by_def list_all_iff dest: set_dropWhileD)

lemmas all_number_rules = all_number_take_drop all_number_digits all_number_replicate all_number_rstrip number_chars

lemma all_number_pad: "all_number s \<Longrightarrow> all_number (pad_zeros n s)"
  by (simp add: pad_zeros_def all_number_rules)

lemma float_digits_number: "all_number ds \<Longrightarrow> all_number (float_digits ds pt)"
  by (simp add: float_digits_def Let_def all_number_rules all_number_pad)

lemma significant_nonneg: "0 \<le> x \<Longrightarrow> 0 \<le> significant k e x"
  by (auto simp: significant_def pow10_def intro!: rhe_nonneg divide_nonneg_nonneg)

lemma shortest_nonneg: "0 \<le> fst (shortest \<bar>x\<bar>)"
  unfolding shortest_def Let_def fst_conv by (rule significant_nonneg) (rule abs_ge_zero)

lemma repr_float_all_number: "all_number (repr_float x)"
proof -
  obtain m e where me: "shortest \<bar>x\<bar> = (m, e)" by (cases "shortest \<bar>x\<bar>")
  then have "0 \<le> m" using shortest_nonneg[of x] by simp
  then have "all_number (float_digits (rstrip_by (\<lambda>c. c = CHR ''0'') (digits_of m)) pt)" for pt
    by (rule float_digits_number[OF all_number_rstrip[OF all_number_digits]])
  then show ?thesis by (simp add: repr_float_def me Let_def number_chars)
qed

lemma repr_float_number: "c \<in> set (repr_float x) \<Longrightarrow> numeric_char c"
  using repr_float_all_number[of x] by (simp add: list_all_iff)

lemma float_digits_not_Nil: "float_digits ds pt \<noteq> []"
  by (simp add: float_digits_def Let_def)

lemma plain_numbers: "plain_field (str_int n)" "plain_field (repr_float x)"
  using str_int_number[of _ n] repr_float_number[of _ x] numeric_char_plain
  by (auto simp: plain_field_def list_ex_iff repr_float_def float_digits_not_Nil Let_def split: prod.splits)

end
