(* ===== verification/FctAnalysis.thy ===== *)
theory FctAnalysis
  imports PyWorld PyCsv
begin

text \<open>
  The analysis of flow completion times, \<open>analysis/fct_analysis_py3_batch.py\<close> and its variant for two
  data centres \<open>analysis/fct_analysis_py3_batch_2dc.py\<close>.  A pipeline of \<open>cat\<close>, \<open>awk\<close> and \<open>sort\<close>, run by a
  shell that is a parameter of the model, turns the simulator's file into one line per flow, its
  slowdown and its size, ordered by size.  The scripts cut these lines into buckets of \<open>step\<close> per cent,
  take the size of the last flow and the median and 99th percentile of the slowdowns of each bucket, and
  write the table as CSV.

  A cell of the table is a float or an integer; the table is a list of rows, grown row by row as the code
  grows \<open>res\<close>.  The directories the scripts make are not modelled, a file is written at its path.
\<close>

section \<open>Records and buckets\<close>

datatype cell = FCell flt | ICell int

type_synonym row = "cell list"

definition cell_text :: "cell \<Rightarrow> string" where
  "cell_text c = (case c of FCell x \<Rightarrow> repr_float x | ICell n \<Rightarrow> str_int n)"

definition percent_3f :: "cell \<Rightarrow> string" where
  "percent_3f c = fmt_fixed 3 (case c of FCell x \<Rightarrow> x | ICell n \<Rightarrow> f_of_int n)"

definition percent_d :: "cell \<Rightarrow> string" where
  "percent_d c = str_int (case c of FCell x \<Rightarrow> py_trunc x | ICell n \<Rightarrow> n)"

definition get_pctl :: "flt list \<Rightarrow> flt \<Rightarrow> flt res" where
  "get_pctl a p = py_get a (py_trunc (fmul (f_of_int (int (length a))) p))"

definition pctl_2dc :: "flt list \<Rightarrow> flt \<Rightarrow> flt res" where
  "pctl_2dc a p = (let idx = py_trunc (fmul (f_of_int (int (length a))) p) in py_get a idx)"

text \<open>\<open>output.split ('\n') [:-2]\<close>: the empty text after the last line end is dropped, and the last line too.\<close>

definition records_of :: "string \<Rightarrow> string list" where
  "records_of output = (let ls = split_on nl output in take (length ls - 2) ls)"

definition parse_record :: "string \<Rightarrow> (flt \<times> int) res" where
  "parse_record x =
     rbind (py_get (split_ws x) 0) (\<lambda>w. rbind (py_float w) (\<lambda>slow.
     rbind (py_get (split_ws x) 1) (\<lambda>w. rbind (py_int w) (\<lambda>size. Inr (slow, size)))))"

text \<open>\<open>range (0, 100, step)\<close>: empty for a negative step, an exception for step 0.\<close>

definition percents :: "int \<Rightarrow> nat list res" where
  "percents step = (if step = 0 then Inl ValueError else if step < 0 then Inr [] else Inr (range_step 0 100 (nat step)))"

definition first_cells :: "nat list \<Rightarrow> row list" where
  "first_cells is = map (\<lambda>i. [FCell (fquo (f_of_int (int i)) 100)]) is"

definition bucket :: "string list \<Rightarrow> nat \<Rightarrow> nat \<Rightarrow> string list" where
  "bucket a step i = (let n = length a in slice a (i * n div 100) ((i + step) * n div 100))"

definition p50 :: flt where "p50 = 1 / 2"
definition p99 :: flt where "p99 = rn (99 / 100)"

definition bucket_cells :: "string list \<Rightarrow> nat \<Rightarrow> nat \<Rightarrow> row res" where
  "bucket_cells a step i =
     rbind (rmap parse_record (bucket a step i)) (\<lambda>d.
     let fct = sort (map fst d)
     in rbind (py_get d (- 1)) (\<lambda>x.
        rbind (get_pctl fct p50) (\<lambda>m.
        rbind (get_pctl fct p99) (\<lambda>q. Inr [ICell (snd x), FCell m, FCell q]))))"

text \<open>\<open>res[idx].append\<close>\<close>

definition append_cells :: "nat \<Rightarrow> row \<Rightarrow> row list \<Rightarrow> row list" where
  "append_cells idx cs rows = rows[idx := rows ! idx @ cs]"

definition fill_rows :: "(row \<Rightarrow> nat \<Rightarrow> row res) \<Rightarrow> nat \<Rightarrow> nat list \<Rightarrow> row list \<Rightarrow> row list res" where
  "fill_rows cells step is rows =
     rfold (\<lambda>rows i. rbind (cells (rows ! (i div step)) i) (\<lambda>cs. Inr (append_cells (i div step) cs rows))) rows is"

definition bucket_rows :: "string list \<Rightarrow> nat \<Rightarrow> nat list \<Rightarrow> row list \<Rightarrow> row list res" where
  "bucket_rows a step is rows = fill_rows (\<lambda>_. bucket_cells a step) step is rows"

section \<open>All routings, one table each\<close>

record fct_args =
  arg_step :: string
  arg_type :: int
  arg_limit :: int
  arg_output :: string
  arg_input :: string

definition fct_defaults :: fct_args where
  "fct_defaults = \<lparr>arg_step = ''5'', arg_type = 0, arg_limit = 300000000000000000,
     arg_output = ''result'', arg_input = ''../simulation''\<rparr>"

definition CCs_batch :: "string list" where "CCs_batch = [''dcqcn'']"
definition UTILs_batch :: "string list" where "UTILs_batch = [''0.3util'']"
definition ROUTINGs_batch :: "string list" where "ROUTINGs_batch = [''Ours'', ''ECMP'', ''UCMP'']"

text \<open>The pipelines; the program for type 2 is the one of the code, without \<open>if (\<close>.\<close>

definition awk_batch :: "int \<Rightarrow> int \<Rightarrow> string" where
  "awk_batch type time_limit =
     (if type = 0 then ''{if ($4==100 && $6+$7<'' @ str_int time_limit @ '') {slow=$7/$8;print slow<1?1:slow, $5}}''
      else if type = 1 then ''{if ($4==200 && $6+$7<'' @ str_int time_limit @ '') {slow=$7/$8;print slow<1?1:slow, $5}}''
      else ''{$6+$7<'' @ str_int time_limit @ '') {slow=$7/$8;print slow<1?1:slow, $5}}'')"

definition cmd_batch :: "string \<Rightarrow> int \<Rightarrow> int \<Rightarrow> string" where
  "cmd_batch file type time_limit = ''cat '' @ file @ ('' | awk '' @ bytes [0x27]) @ awk_batch type time_limit @ (bytes [0x27] @ '' | sort -n -k 2'')"

definition fct_file :: "string \<Rightarrow> string \<Rightarrow> string \<Rightarrow> string" where
  "fct_file util routing cc = util @ ''/'' @ routing @ ''/fct_'' @ cc @ ''.txt''"

definition run_shell :: "(files \<Rightarrow> string \<Rightarrow> string res) \<Rightarrow> string \<Rightarrow> string script" where
  "run_shell shell cmd w = (shell (disk w) cmd, w)"

definition not_found :: "string \<Rightarrow> 'a script" where
  "not_found name = also_do (show_line (''File not found: '' @ name)) (raise (SysExit 0))"

definition cc_rows ::
  "(files \<Rightarrow> string \<Rightarrow> string res) \<Rightarrow> string \<Rightarrow> fct_args \<Rightarrow> string \<Rightarrow> string \<Rightarrow> nat \<Rightarrow> nat list \<Rightarrow>
     row list \<Rightarrow> string \<Rightarrow> row list script" where
  "cc_rows shell here args util routing step is rows cc =
     (let fileName = fct_file util routing cc; file = path_join here (arg_input args) @ ''/'' @ fileName
      in abind (file_exists file) (\<lambda>found.
         if \<not> found then not_found fileName
         else abind (run_shell shell (cmd_batch file (arg_type args) (arg_limit args))) (\<lambda>output.
              lift (bucket_rows (records_of output) step is rows))))"

definition header_batch :: "string \<Rightarrow> string list \<Rightarrow> string list" where
  "header_batch routing CCs = [''Percentile'', ''FlowSize''] @
     concat (map (\<lambda>cc. [routing @ ''-'' @ cc @ ''-fct_p50'', routing @ ''-'' @ cc @ ''-fct_p99'']) CCs)"

text \<open>The cells \<open>item[i+1]\<close> and \<open>item[i+2]\<close> for \<open>i = 1, 4, \<dots>\<close>.\<close>

fun cc_cells :: "row \<Rightarrow> int \<Rightarrow> string list \<Rightarrow> row res" where
  "cc_cells item i [] = Inr []"
| "cc_cells item i (cc # CCs) =
     rbind (py_get item (i + 1)) (\<lambda>x. rbind (py_get item (i + 2)) (\<lambda>y.
     rbind (cc_cells item (i + 3) CCs) (\<lambda>cs. Inr (x # y # cs))))"

fun pairs_text :: "row \<Rightarrow> string" where
  "pairs_text (x # y # cs) = tab # percent_3f x @ '' '' @ percent_3f y @ pairs_text cs"
| "pairs_text cs = []"

definition write_row :: "string \<Rightarrow> string list \<Rightarrow> unit script" where
  "write_row name row = write_to name (csv_line row)"

definition item_line :: "string \<Rightarrow> cell \<Rightarrow> cell \<Rightarrow> row \<Rightarrow> unit script" where
  "item_line name p s cs =
     also_do (show_line (percent_3f p @ '' '' @ percent_d s @ pairs_text cs))
       (write_row name (map cell_text (p # s # cs)))"

definition write_item :: "string \<Rightarrow> string list \<Rightarrow> row \<Rightarrow> unit script" where
  "write_item name CCs item =
     abind (lift (py_get item 0)) (\<lambda>p. abind (lift (py_get item 1)) (\<lambda>s.
     abind (lift (cc_cells item 1 CCs)) (\<lambda>cs. item_line name p s cs)))"

definition output_name :: "string \<Rightarrow> string \<Rightarrow> string \<Rightarrow> string" where
  "output_name output util routing =
     dirname (output @ ''/'' @ util @ ''/'') @ ''/'' @ routing @ ''_'' @ util @ ''-FCTslowdown.csv''"

definition write_table :: "string \<Rightarrow> string list \<Rightarrow> (row \<Rightarrow> unit script) \<Rightarrow> row list \<Rightarrow> unit script" where
  "write_table name header item rows =
     also_do (open_w name) (also_do (write_row name header) (each item rows))"

definition routing_util ::
  "(files \<Rightarrow> string \<Rightarrow> string res) \<Rightarrow> string \<Rightarrow> fct_args \<Rightarrow> int \<Rightarrow> string \<Rightarrow> string \<Rightarrow> unit script" where
  "routing_util shell here args step routing util =
     abind (lift (percents step)) (\<lambda>is.
     abind (fold_each (cc_rows shell here args util routing (nat step) is) (first_cells is) CCs_batch) (\<lambda>rows.
     let name = output_name (arg_output args) util routing
     in write_table name (header_batch routing CCs_batch) (write_item name CCs_batch) rows))"

definition main_fct :: "(files \<Rightarrow> string \<Rightarrow> string res) \<Rightarrow> string \<Rightarrow> fct_args \<Rightarrow> unit script" where
  "main_fct shell here args =
     abind (lift (py_int (arg_step args))) (\<lambda>step.
     each (\<lambda>routing. each (routing_util shell here args step routing) UTILs_batch) ROUTINGs_batch)"

section \<open>Flows between two data centres, one table for all routings\<close>

datatype range_arg = RangeText string | RangePair int int

text \<open>\<open>r.split ('-', 1)\<close>\<close>

definition split_first :: "char \<Rightarrow> string \<Rightarrow> string \<times> string" where
  "split_first c r = (takeWhile (\<lambda>x. x \<noteq> c) r, drop 1 (dropWhile (\<lambda>x. x \<noteq> c) r))"

definition parse_range :: "range_arg \<Rightarrow> (int \<times> int) res" where
  "parse_range r = (case r of
       RangePair a b \<Rightarrow> Inr (a, b)
     | RangeText t \<Rightarrow>
         if CHR ''-'' \<in> set t then
           (let (l, r2) = split_first (CHR ''-'') t
            in rbind (py_int l) (\<lambda>a. rbind (py_int r2) (\<lambda>b. Inr (a, b))))
         else Inl ValueError)"

definition parse_dc_or_range :: "string \<Rightarrow> ((int \<times> int) \<times> int option) res" where
  "parse_dc_or_range s =
     (if CHR ''-'' \<in> set s then rbind (parse_range (RangeText s)) (\<lambda>r. Inr (r, None))
      else rbind (py_int s) (\<lambda>dc_id. let start = (dc_id - 1) * 16 in Inr ((start, start + 15), Some dc_id)))"

definition dc_label :: "(int \<times> int) \<times> int option \<Rightarrow> string" where
  "dc_label dc = (case snd dc of Some dc_id \<Rightarrow> ''DC'' @ str_int dc_id
     | None \<Rightarrow> str_int (fst (fst dc)) @ ''-'' @ str_int (snd (fst dc)))"

definition awk_base :: string where
  "awk_base = (''sip=sprintf('' @ bytes [0x22] @ ''%d'' @ bytes [0x22] @ '', '' @ bytes [0x22] @ ''0x'' @ bytes [0x22] @ ''$1); dip=sprintf('' @ bytes [0x22] @ ''%d'' @ bytes [0x22] @ '', '' @ bytes [0x22] @ ''0x'' @ bytes [0x22] @ ''$2); '') @
     ''sid=int(sip/256)%65536; did=int(dip/256)%65536; '' @
     ''inA=(sid>=A0 && sid<=A1); inB=(sid>=B0 && sid<=B1); '' @
     ''inA2=(did>=A0 && did<=A1); inB2=(did>=B0 && did<=B1); '' @
     ''cross=(inA && inB2) || (inB && inA2); ''"

definition awk_cond :: "int \<Rightarrow> int \<Rightarrow> string" where
  "awk_cond flow_type time_limit =
     (if flow_type = 0 then ''($4==100 && $6+$7<'' @ str_int time_limit @ '' && cross)''
      else if flow_type = 1 then ''($4==200 && $6+$7<'' @ str_int time_limit @ '' && cross)''
      else ''($6+$7<'' @ str_int time_limit @ '' && cross)'')"

definition build_awk_cmd :: "string \<Rightarrow> int \<Rightarrow> int \<Rightarrow> int \<times> int \<Rightarrow> int \<times> int \<Rightarrow> string" where
  "build_awk_cmd file_path flow_type time_limit a_range b_range =
     (let (A0, A1) = a_range; (B0, B1) = b_range;
          prog = ''{'' @ awk_base @ '' if '' @ awk_cond flow_type time_limit @ '' {slow=$7/$8; print slow<1?1:slow, $5}}''
      in ''cat '' @ file_path @ '' | awk -v A0='' @ str_int A0 @ '' -v A1='' @ str_int A1 @
         '' -v B0='' @ str_int B0 @ '' -v B1='' @ str_int B1 @ ('' '' @ bytes [0x27]) @ prog @ (bytes [0x27] @ '' | sort -n -k 2''))"

record fct2_args = fct_args +
  arg_dcA :: string
  arg_dcB :: string

definition CCs_2dc :: "string list" where "CCs_2dc = [''dcqcn'', ''hpcc'', ''timely'', ''dctcp'']"
definition UTILs_2dc :: "string list" where "UTILs_2dc = [''0.3util'']"
definition ROUTINGs_2dc :: "string list" where "ROUTINGs_2dc = [''Ours'', ''ECMP'', ''UCMP'']"
definition DATASETs_2dc :: "string list" where "DATASETs_2dc = [''WebSearch'']"

text \<open>The size of the flows is appended once, by the first routing; an empty bucket gets 0 and 1.0.\<close>

definition size_once :: "row \<Rightarrow> int \<Rightarrow> row" where
  "size_once row n = (if length row = 1 then [ICell n] else [])"

definition bucket_cells_2dc :: "string list \<Rightarrow> nat \<Rightarrow> row \<Rightarrow> nat \<Rightarrow> row res" where
  "bucket_cells_2dc a step row i =
     (let n = length a; l = i * n div 100
      in if n \<le> l then Inr (size_once row 0 @ [FCell 1, FCell 1])
         else rbind (rmap parse_record (bucket a step i)) (\<lambda>d.
              if length d = 0 then Inr (size_once row 0 @ [FCell 1, FCell 1])
              else let fct = sort (map fst d)
                   in rbind (py_get d (- 1)) (\<lambda>x.
                      rbind (pctl_2dc fct p50) (\<lambda>m.
                      rbind (pctl_2dc fct p99) (\<lambda>q. Inr (size_once row (snd x) @ [FCell m, FCell q]))))))"

definition routing_rows_2dc ::
  "(files \<Rightarrow> string \<Rightarrow> string res) \<Rightarrow> string \<Rightarrow> fct2_args \<Rightarrow> int \<times> int \<Rightarrow> int \<times> int \<Rightarrow> string \<Rightarrow> string \<Rightarrow> string \<Rightarrow>
     nat \<Rightarrow> nat list \<Rightarrow> row list \<Rightarrow> string \<Rightarrow> row list script" where
  "routing_rows_2dc shell here args a_range b_range dataset cc util step is rows routing =
     (let file_rel = dataset @ ''/'' @ fct_file util routing cc; file_path = path_join here (arg_input args) @ ''/'' @ file_rel
      in abind (file_exists file_path) (\<lambda>found.
         if \<not> found then not_found file_rel
         else abind (run_shell shell (build_awk_cmd file_path (arg_type args) (arg_limit args) a_range b_range)) (\<lambda>output.
              let a = records_of output
              in if length a = 0 then
                   also_do (show_line (''No matching 2DC records after filtering: '' @ file_rel)) (raise (SysExit 1))
                 else lift (fill_rows (bucket_cells_2dc a step) step is rows))))"

definition header_2dc :: "string list \<Rightarrow> string list" where
  "header_2dc ROUTINGs = [''Percentile'', ''FlowSize''] @
     concat (map (\<lambda>routing. [routing @ ''-fct_p50'', routing @ ''-fct_p99'']) ROUTINGs)"

text \<open>The cells \<open>item[j]\<close> and \<open>item[j+1]\<close> for \<open>j = 2, 4, \<dots>\<close>; an odd cell at the end raises.\<close>

fun cell_pairs :: "row \<Rightarrow> row res" where
  "cell_pairs [] = Inr []"
| "cell_pairs [x] = Inl IndexError"
| "cell_pairs (x # y # cs) = rbind (cell_pairs cs) (\<lambda>r. Inr (x # y # r))"

definition write_item_2dc :: "string \<Rightarrow> row \<Rightarrow> unit script" where
  "write_item_2dc name item =
     abind (lift (py_get item 0)) (\<lambda>p. abind (lift (py_get item 1)) (\<lambda>s.
     abind (lift (cell_pairs (drop 2 item))) (\<lambda>cs. item_line name p s cs)))"

definition output_name_2dc :: "string \<Rightarrow> string \<Rightarrow> string \<Rightarrow> string \<Rightarrow> string \<Rightarrow> string \<Rightarrow> string" where
  "output_name_2dc output dataset cc util dcA_label dcB_label =
     dirname (output @ ''/'' @ util @ ''/'') @ ''/'' @ dataset @ ''_'' @ cc @ ''_'' @ util @ ''-FCTslowdown-'' @
       dcA_label @ ''-'' @ dcB_label @ ''.csv''"

definition cc_util_2dc ::
  "(files \<Rightarrow> string \<Rightarrow> string res) \<Rightarrow> string \<Rightarrow> fct2_args \<Rightarrow> int \<Rightarrow> (int \<times> int) \<times> int option \<Rightarrow> (int \<times> int) \<times> int option \<Rightarrow>
     string \<Rightarrow> string \<Rightarrow> string \<Rightarrow> unit script" where
  "cc_util_2dc shell here args step dcA dcB dataset cc util =
     abind (lift (percents step)) (\<lambda>is.
     abind (fold_each (routing_rows_2dc shell here args (fst dcA) (fst dcB) dataset cc util (nat step) is)
              (first_cells is) ROUTINGs_2dc) (\<lambda>rows.
     let name = output_name_2dc (arg_output args) dataset cc util (dc_label dcA) (dc_label dcB)
     in write_table name (header_2dc ROUTINGs_2dc) (write_item_2dc name) rows))"

definition main_fct_2dc :: "(files \<Rightarrow> string \<Rightarrow> string res) \<Rightarrow> string \<Rightarrow> fct2_args \<Rightarrow> unit script" where
  "main_fct_2dc shell here args =
     abind (lift (py_int (arg_step args))) (\<lambda>step.
     abind (lift (parse_dc_or_range (arg_dcA args))) (\<lambda>dcA.
     abind (lift (parse_dc_or_range (arg_dcB args))) (\<lambda>dcB.
     each (\<lambda>dataset. each (\<lambda>cc. each (cc_util_2dc shell here args step dcA dcB dataset cc) UTILs_2dc)
       CCs_2dc) DATASETs_2dc)))"


section \<open>Records, buckets and rows\<close>

lemma records_of_lines:
  assumes "\<And>l. l \<in> set ls \<Longrightarrow> nl \<notin> set l"
  shows "records_of (concat (map (\<lambda>l. l @ [nl]) ls)) = butlast ls"
proof -
  have "split_on nl (concat (map (\<lambda>l. l @ [nl]) ls)) = ls @ [[]]"
    using assms by (induction ls) (auto simp: str_simps)
  then show ?thesis by (simp add: records_of_def butlast_conv_take)
qed

definition n_rows :: "nat \<Rightarrow> nat" where "n_rows step = (100 + step - 1) div step"

lemma n_rows: "0 < step \<Longrightarrow> range_step 0 100 step = map (\<lambda>k. k * step) [0..<n_rows step]"
  by (simp add: range_step_def n_rows_def)

lemma n_rows_less: "0 < step \<Longrightarrow> k < n_rows step \<Longrightarrow> k * step < 100"
proof -
  assume s: "0 < step" "k < n_rows step"
  then have "Suc k * step \<le> n_rows step * step" by (intro mult_le_mono1) simp
  also have "\<dots> \<le> 100 + step - 1" unfolding n_rows_def by (rule div_times_less_eq_dividend)
  finally show ?thesis using s by simp
qed

lemma n_rows_ge: "0 < step \<Longrightarrow> 100 \<le> n_rows step * step"
  using dividend_less_div_times[of step "100 + step - 1"] by (simp add: n_rows_def)

text \<open>The buckets are the records, cut into pieces.\<close>

lemma buckets_partition:
  assumes "0 < step"
  shows "concat (map (bucket a step) (range_step 0 100 step)) = a"
proof -
  let ?b = "\<lambda>k. k * step * length a div 100"
  have "bucket a step (k * step) = slice a (?b k) (?b (Suc k))" for k
    by (simp only: bucket_def Let_def mult_Suc add.commute)
  then have "concat (map (bucket a step) (range_step 0 100 step)) = concat (map (\<lambda>k. slice a (?b k) (?b (Suc k))) [0..<n_rows step])"
    by (simp add: n_rows[OF assms] comp_def)
  also have "\<dots> = slice a (?b 0) (?b (n_rows step))" by (rule concat_slices) (simp add: div_le_mono)
  also have "length a \<le> ?b (n_rows step)"
    using mult_le_mono1[OF n_rows_ge[OF assms], of "length a"] by (simp add: less_eq_div_iff_mult_less_eq mult.commute)
  then have "slice a (?b 0) (?b (n_rows step)) = a" by (simp add: py_simps)
  finally show ?thesis .
qed

lemma bucket_bounds:
  assumes "i < 100" "100 \<le> length a * step"
  shows "i * length a div 100 < length a" "i * length a div 100 < (i + step) * length a div 100"
proof -
  have "0 < length a" using assms(2) by (cases a) auto
  with assms(1) show "i * length a div 100 < length a" by (simp add: div_less_iff_less_mult mult.commute)
  have "i * length a div 100 + 1 = (i * length a + 100) div 100" by simp
  also have "\<dots> \<le> (i + step) * length a div 100"
    by (rule div_le_mono) (use assms(2) in \<open>simp add: algebra_simps\<close>)
  finally show "i * length a div 100 < (i + step) * length a div 100" by simp
qed

lemma bucket_nonempty: "i < 100 \<Longrightarrow> 100 \<le> length a * step \<Longrightarrow> bucket a step i \<noteq> []"
proof -
  assume i: "i < 100" "100 \<le> length a * step"
  have "0 < length (bucket a step i)"
    using bucket_bounds[OF i] by (simp add: bucket_def length_slice Let_def)
  then show ?thesis by simp
qed

lemma bucket_empty: "length a * step < 100 \<Longrightarrow> bucket a step 0 = []"
  by (simp add: bucket_def slice_def mult.commute)

lemma set_bucket: "set (bucket a step i) \<subseteq> set a"
  unfolding bucket_def Let_def by (rule set_slice)

lemma length_bucket: "length (bucket a step i) \<le> length a"
  by (auto simp: bucket_def Let_def length_slice)

text \<open>Filling the rows: each row gets the cells of its own bucket.\<close>

lemma fill_rows_prefix:
  assumes "0 < step" "m \<le> length rows"
  shows "fill_rows cells step (map (\<lambda>k. k * step) [0..<m]) rows =
    rbind (rmap (\<lambda>k. cells (rows ! k) (k * step)) [0..<m]) (\<lambda>css. Inr (map2 (@) (take m rows) css @ drop m rows))"
  using assms(2)
proof (induction m)
  case 0
  then show ?case by (simp add: fill_rows_def)
next
  case (Suc m)
  have rmap_snoc: "rmap f (xs @ [x]) = rbind (rmap f xs) (\<lambda>ys. rbind (f x) (\<lambda>y. Inr (ys @ [y])))" for f :: "nat \<Rightarrow> row res" and xs x
    by (induction xs) (auto simp: rbind_assoc)
  show ?case
  proof (cases "rmap (\<lambda>k. cells (rows ! k) (k * step)) [0..<m]")
    case (Inl e)
    then show ?thesis using Suc by (simp add: fill_rows_def rfold_append rmap_snoc)
  next
    case (Inr css)
    then have css: "length css = m" using rmap_length by fastforce
    let ?r = "map2 (@) (take m rows) css @ drop m rows"
    have m: "?r ! m = rows ! m" using Suc.prems css by (simp add: nth_append)
    have "?r[m := rows ! m @ cs] = map2 (@) (take (Suc m) rows) (css @ [cs]) @ drop (Suc m) rows" for cs
      using Suc.prems css by (simp add: take_Suc_conv_app_nth list_update_append upd_conv_take_nth_drop Cons_nth_drop_Suc[symmetric])
    then show ?thesis using Suc Inr m assms(1)
      by (simp add: fill_rows_def rfold_append rmap_snoc append_cells_def rbind_assoc)
  qed
qed

lemma fill_rows:
  assumes "0 < step" "length rows = n_rows step"
  shows "fill_rows cells step (range_step 0 100 step) rows =
    rbind (rmap (\<lambda>k. cells (rows ! k) (k * step)) [0..<n_rows step]) (\<lambda>css. Inr (map2 (@) rows css))"
  using fill_rows_prefix[OF assms(1), of "n_rows step" rows cells] assms by (simp add: n_rows)

lemma first_cells: "0 < step \<Longrightarrow> first_cells (range_step 0 100 step) = map (\<lambda>k. [FCell (fquo (f_of_int (int (k * step))) 100)]) [0..<n_rows step]"
  by (simp add: first_cells_def n_rows)

section \<open>Percentiles\<close>

lemma pctl_2dc [simp]: "pctl_2dc a p = get_pctl a p"
  by (simp add: pctl_2dc_def get_pctl_def)

lemma p50_p99: "0 \<le> p50" "p50 \<le> p99" "p99 \<le> 127 / 128"
proof -
  have "rn (1 / 2) \<le> rn (99 / 100)" by (rule rn_mono) simp
  then show "p50 \<le> p99" by (simp add: p50_def p99_def float_eval)
  have "rn (99 / 100) \<le> rn (127 / 128)" by (rule rn_mono) simp
  then show "p99 \<le> 127 / 128" by (simp add: p99_def float_eval)
qed (simp add: p50_def)

text \<open>Below \<open>2 ^ 46\<close> values the rounded product stays below their number.\<close>

lemma pctl_index:
  assumes "0 \<le> p" "p \<le> 127 / 128" "0 < n" "n \<le> 2 ^ 46"
  shows "0 \<le> py_trunc (fmul (f_of_int (int n)) p)" "py_trunc (fmul (f_of_int (int n)) p) < int n"
proof -
  have n: "f_of_int (int n) = of_nat n"
    using assms(4) by (simp add: f_of_int_def rn_of_nat)
  have "127 * n \<le> 2 ^ 53" using assms(4) by simp
  then have exact: "rn (of_nat n * (127 / 128)) = of_nat n * (127 / 128)"
    using rn_scaled_int[of "127 * int n" "-7"] by (simp add: pow2_def mult.commute)
  have "fmul (of_nat n) p \<le> rn (of_nat n * (127 / 128))"
    unfolding fmul_def using assms by (intro rn_mono mult_left_mono) auto
  then have "fmul (of_nat n) p < of_nat n" using assms(3) unfolding exact by simp
  moreover have "0 \<le> fmul (of_nat n) p" unfolding fmul_def using assms(1) by (simp add: rn_nonneg)
  ultimately show "0 \<le> py_trunc (fmul (f_of_int (int n)) p)" "py_trunc (fmul (f_of_int (int n)) p) < int n"
    unfolding n by (auto simp: py_trunc_def floor_less_iff)
qed

lemma get_pctl_total:
  assumes "0 \<le> p" "p \<le> 127 / 128" "xs \<noteq> []" "length xs \<le> 2 ^ 46"
  shows "\<exists>i < length xs. get_pctl xs p = Inr (xs ! i) \<and> int i = py_trunc (fmul (f_of_int (int (length xs))) p)"
proof -
  note i = pctl_index[OF assms(1,2) _ assms(4)]
  then show ?thesis using assms(3)
    by (intro exI[of _ "nat (py_trunc (fmul (f_of_int (int (length xs))) p))"]) (auto simp: get_pctl_def py_get_def)
qed

section \<open>What a bucket yields\<close>

definition pctl_of :: "flt list \<Rightarrow> flt \<Rightarrow> flt" where
  "pctl_of xs p = xs ! nat (py_trunc (fmul (f_of_int (int (length xs))) p))"

definition bucket_stats :: "(flt \<times> int) list \<Rightarrow> row" where
  "bucket_stats d = (let fct = sort (map fst d) in [ICell (snd (last d)), FCell (pctl_of fct p50), FCell (pctl_of fct p99)])"

lemma get_pctl:
  assumes "0 \<le> p" "p \<le> 127 / 128" "xs \<noteq> []" "length xs \<le> 2 ^ 46"
  shows "get_pctl xs p = Inr (pctl_of xs p)" "pctl_of xs p \<in> set xs"
proof -
  obtain i where i: "i < length xs" "get_pctl xs p = Inr (xs ! i)" "int i = py_trunc (fmul (f_of_int (int (length xs))) p)"
    using get_pctl_total[OF assms] by blast
  then have "pctl_of xs p = xs ! i" by (simp add: pctl_of_def flip: i(3))
  with i show "get_pctl xs p = Inr (pctl_of xs p)" "pctl_of xs p \<in> set xs" by auto
qed

lemma sort_eq_Nil [simp]: "sort xs = [] \<longleftrightarrow> xs = []"
  by (metis length_0_conv length_sort)

lemma get_p50_p99:
  assumes "d \<noteq> []" "length d \<le> 2 ^ 46"
  shows "get_pctl (sort (map fst d)) p50 = Inr (pctl_of (sort (map fst d)) p50)"
    "get_pctl (sort (map fst d)) p99 = Inr (pctl_of (sort (map fst d)) p99)"
  using p50_p99 assms by (auto intro!: get_pctl(1))

lemma rmap_length': "rmap f xs = Inr ys \<Longrightarrow> (ys = []) = (xs = [])"
  using rmap_length by fastforce

lemma bucket_cells:
  assumes "length a \<le> 2 ^ 46"
  shows "bucket_cells a step i =
    rbind (rmap parse_record (bucket a step i)) (\<lambda>d. if d = [] then Inl IndexError else Inr (bucket_stats d))"
proof (cases "rmap parse_record (bucket a step i)")
  case (Inl e)
  then show ?thesis by (simp add: bucket_cells_def)
next
  case (Inr d)
  then have "length d \<le> 2 ^ 46" using rmap_length[OF Inr] length_bucket[of a step i] assms by simp
  with Inr get_p50_p99[of d] show ?thesis by (simp add: bucket_cells_def Let_def py_simps bucket_stats_def)
qed

lemma bucket_cells_2dc:
  assumes "length a \<le> 2 ^ 46" "a \<noteq> []" "i < 100"
  shows "bucket_cells_2dc a step row i =
    rbind (rmap parse_record (bucket a step i)) (\<lambda>d. Inr
      (if d = [] then size_once row 0 @ [FCell 1, FCell 1] else size_once row (snd (last d)) @ tl (bucket_stats d)))"
proof -
  have l: "\<not> length a \<le> i * length a div 100"
    using assms by (simp add: not_le div_less_iff_less_mult mult.commute)
  show ?thesis
  proof (cases "rmap parse_record (bucket a step i)")
    case (Inl e)
    then show ?thesis using l by (simp add: bucket_cells_2dc_def)
  next
    case (Inr d)
    then have "length d \<le> 2 ^ 46" using rmap_length[OF Inr] length_bucket[of a step i] assms by simp
    with Inr l get_p50_p99[of d] show ?thesis by (simp add: bucket_cells_2dc_def Let_def py_simps bucket_stats_def)
  qed
qed

text \<open>The table of one output whose records parse, as the specification of the loops.\<close>

definition table_of :: "(string \<Rightarrow> flt \<times> int) \<Rightarrow> nat \<Rightarrow> string list \<Rightarrow> row list" where
  "table_of f step a = map (\<lambda>k. FCell (fquo (f_of_int (int (k * step))) 100) # bucket_stats (map f (bucket a step (k * step))))
     [0..<n_rows step]"

lemma rmap_bucket:
  assumes "\<And>l. l \<in> set a \<Longrightarrow> parse_record l = Inr (f l)"
  shows "rmap parse_record (bucket a step i) = Inr (map f (bucket a step i))"
  by (rule rmap_total) (use assms set_bucket in blast)

lemma map2_append_map: "map2 (@) (map f xs) (map g xs) = map (\<lambda>x. f x @ g x) xs"
  by (induction xs) auto

lemma bucket_rows_table:
  assumes "0 < step" "\<And>l. l \<in> set a \<Longrightarrow> parse_record l = Inr (f l)"
    and "100 \<le> length a * step" "length a \<le> 2 ^ 46"
  shows "bucket_rows a step (range_step 0 100 step) (first_cells (range_step 0 100 step)) = Inr (table_of f step a)"
proof -
  let ?first = "first_cells (range_step 0 100 step)"
  let ?stats = "\<lambda>k. bucket_stats (map f (bucket a step (k * step)))"
  have "rmap (\<lambda>k. bucket_cells a step (k * step)) [0..<n_rows step] = Inr (map ?stats [0..<n_rows step])"
  proof (rule rmap_total)
    fix k assume "k \<in> set [0..<n_rows step]"
    then have "bucket a step (k * step) \<noteq> []" using n_rows_less[OF assms(1)] assms(3) by (intro bucket_nonempty) auto
    then show "bucket_cells a step (k * step) = Inr (?stats k)"
      by (simp add: bucket_cells[OF assms(4)] rmap_bucket[OF assms(2)])
  qed
  then show ?thesis
    by (simp add: bucket_rows_def fill_rows[OF assms(1)] first_cells[OF assms(1)] map2_append_map table_of_def)
qed

lemma bucket_rows_too_few:
  assumes "0 < step" "length a * step < 100"
  shows "bucket_rows a step (range_step 0 100 step) rows = Inl IndexError"
proof -
  have "0 < n_rows step" using n_rows_ge[OF assms(1)] by (cases "n_rows step") auto
  then have "range_step 0 100 step = 0 # map (\<lambda>k. k * step) [1..<n_rows step]"
    by (simp add: n_rows[OF assms(1)] upt_conv_Cons)
  moreover have "bucket_cells a step 0 = Inl IndexError"
    by (simp add: bucket_cells_def bucket_empty[OF assms(2)] Let_def)
  ultimately show ?thesis by (simp add: bucket_rows_def fill_rows_def)
qed

section \<open>Writing the table\<close>

lemma each_write_items:
  assumes "\<And>x u t. x \<in> set xs \<Longrightarrow> disk u name = Some t \<Longrightarrow>
      item x u = (Inr (), put_file name (t @ csv_line (map cell_text x)) (say [line x] u))"
    and "disk w name = Some t"
  shows "each item xs w = (Inr (), put_file name (t @ concat (map (\<lambda>x. csv_line (map cell_text x)) xs)) (say (map line xs) w))"
  using assms
proof (induction xs arbitrary: w t)
  case Nil
  then show ?case by (simp add: put_file_same)
next
  case (Cons x xs)
  let ?u = "put_file name (t @ csv_line (map cell_text x)) (say [line x] w)"
  have "item x w = (Inr (), ?u)" using Cons.prems by simp
  moreover have "each item xs ?u = (Inr (), put_file name ((t @ csv_line (map cell_text x)) @
      concat (map (\<lambda>x. csv_line (map cell_text x)) xs)) (say (map line xs) ?u))"
    by (rule Cons.IH) (use Cons.prems(1) in auto)
  ultimately show ?case by (simp add: act_simps)
qed

lemma write_table:
  assumes "\<And>x u t. x \<in> set rows \<Longrightarrow> disk u name = Some t \<Longrightarrow>
      item x u = (Inr (), put_file name (t @ csv_line (map cell_text x)) (say [line x] u))"
  shows "write_table name header item rows w =
    (Inr (), put_file name (concat (map csv_line (header # map (map cell_text) rows))) (say (map line rows) w))"
  using each_write_items[where xs = rows and item = item and name = name and line = line and
      w = "put_file name (csv_line header) w" and t = "csv_line header"] assms
  by (simp add: write_table_def write_row_def comp_def)

definition row_line :: "row \<Rightarrow> string" where
  "row_line item = percent_3f (item ! 0) @ '' '' @ percent_d (item ! 1) @ pairs_text (drop 2 item)"

lemma write_item_run:
  assumes "disk u name = Some t"
  shows "write_item name [cc] [p, s, x, y] u =
    (Inr (), put_file name (t @ csv_line (map cell_text [p, s, x, y])) (say [row_line [p, s, x, y]] u))"
  using assms by (simp add: write_item_def item_line_def py_get_def write_row_def row_line_def numeral_2_eq_2)

lemma cell_plain: "plain_field (cell_text c)"
  by (cases c) (simp_all add: cell_text_def plain_numbers)

lemma table_csv:
  assumes "list_all plain_field header" "header \<noteq> []" "\<And>r. r \<in> set rows \<Longrightarrow> r \<noteq> []"
  shows "csv_read (concat (map csv_line (header # map (map cell_text) rows))) = header # map (map cell_text) rows"
  using assms by (intro csv_roundtrip) (auto simp: list_all_iff cell_plain)

section \<open>One routing\<close>

definition input_file :: "string \<Rightarrow> fct_args \<Rightarrow> string \<Rightarrow> string \<Rightarrow> string \<Rightarrow> string" where
  "input_file here args util routing cc = path_join here (arg_input args) @ ''/'' @ fct_file util routing cc"

definition good_output :: "(string \<Rightarrow> flt \<times> int) \<Rightarrow> nat \<Rightarrow> string list \<Rightarrow> bool" where
  "good_output f step ls = (length ls \<le> 2 ^ 46 \<and> 100 \<le> (length ls - 1) * step \<and>
     list_all (\<lambda>l. nl \<notin> set l \<and> parse_record l = Inr (f l)) ls)"

definition output_text :: "string list \<Rightarrow> string" where
  "output_text ls = concat (map (\<lambda>l. l @ [nl]) ls)"

lemma records_of_output: "list_all (\<lambda>l. nl \<notin> set l) ls \<Longrightarrow> records_of (output_text ls) = butlast ls"
  unfolding output_text_def by (rule records_of_lines) (auto simp: list_all_iff)

lemma table_of_rows: "r \<in> set (table_of f step a) \<Longrightarrow> \<exists>p s x y. r = [p, s, x, y]"
  by (auto simp: table_of_def bucket_stats_def Let_def)

definition table_text :: "string list \<Rightarrow> row list \<Rightarrow> string" where
  "table_text header rows = concat (map csv_line (header # map (map cell_text) rows))"

lemma good_rows:
  assumes "0 < step" "good_output f step ls"
  shows "bucket_rows (records_of (output_text ls)) step (range_step 0 100 step) (first_cells (range_step 0 100 step)) =
    Inr (table_of f step (butlast ls))"
proof -
  have "records_of (output_text ls) = butlast ls"
    using assms(2) by (intro records_of_output) (auto simp: good_output_def list_all_iff)
  moreover have "bucket_rows (butlast ls) step (range_step 0 100 step) (first_cells (range_step 0 100 step)) =
      Inr (table_of f step (butlast ls))"
    using assms by (intro bucket_rows_table) (auto simp: good_output_def list_all_iff dest: in_set_butlastD)
  ultimately show ?thesis by simp
qed

lemma percents [simp]: "0 < step \<Longrightarrow> percents (int step) = Inr (range_step 0 100 step)"
  by (simp add: percents_def)

lemma routing_util:
  assumes "0 < step" "good_output f step ls" "disk w (input_file here args util r ''dcqcn'') = Some c"
    and "shell (disk w) (cmd_batch (input_file here args util r ''dcqcn'') (arg_type args) (arg_limit args)) = Inr (output_text ls)"
  shows "routing_util shell here args (int step) r util w =
    (Inr (), put_file (output_name (arg_output args) util r) (table_text (header_batch r CCs_batch) (table_of f step (butlast ls)))
       (say (map row_line (table_of f step (butlast ls))) w))"
proof -
  let ?rows = "table_of f step (butlast ls)" and ?name = "output_name (arg_output args) util r"
  have "cc_rows shell here args util r step (range_step 0 100 step) (first_cells (range_step 0 100 step)) ''dcqcn'' w = (Inr ?rows, w)"
    using assms(3,4) good_rows[OF assms(1,2)]
    by (simp add: cc_rows_def Let_def input_file_def run_shell_def abind_def)
  then have "routing_util shell here args (int step) r util w =
      write_table ?name (header_batch r CCs_batch) (write_item ?name CCs_batch) ?rows w"
    using assms(1) by (simp add: routing_util_def CCs_batch_def act_simps Let_def)
  also have "\<dots> = (Inr (), put_file ?name (table_text (header_batch r CCs_batch) ?rows) (say (map row_line ?rows) w))"
    unfolding table_text_def
  proof (rule write_table)
    fix x and u :: world and t assume "x \<in> set ?rows" "disk u ?name = Some t"
    with table_of_rows show "write_item ?name CCs_batch x u =
        (Inr (), put_file ?name (t @ csv_line (map cell_text x)) (say [row_line x] u))"
      unfolding CCs_batch_def using write_item_run by blast
  qed
  finally show ?thesis .
qed

lemma output_not_input: "output_name o' u r \<noteq> input_file here args u' r' cc"
proof
  assume "output_name o' u r = input_file here args u' r' cc"
  then have "last (output_name o' u r) = last (input_file here args u' r' cc)" by simp
  then show False by (simp add: output_name_def input_file_def fct_file_def)
qed

lemma output_name_inj: "output_name o' ''0.3util'' r = output_name o' ''0.3util'' r' \<longleftrightarrow> r = r'"
  by (simp add: output_name_def)

lemma header_batch_plain: "r \<in> set ROUTINGs_batch \<Longrightarrow> list_all plain_field (header_batch r CCs_batch)"
  by (auto simp: ROUTINGs_batch_def header_batch_def CCs_batch_def plain_field_def csv_special_def)

lemma table_text_read:
  "r \<in> set ROUTINGs_batch \<Longrightarrow> csv_read (table_text (header_batch r CCs_batch) (table_of f step a)) =
    header_batch r CCs_batch # map (map cell_text) (table_of f step a)"
  unfolding table_text_def
  by (rule table_csv) (use header_batch_plain table_of_rows in \<open>force simp: header_batch_def\<close>)+

lemma fct_run:
  assumes "py_int (arg_step args) = Inr (int step)" "0 < step"
    and "\<And>r. r \<in> set ROUTINGs_batch \<Longrightarrow> disk w (input_file here args ''0.3util'' r ''dcqcn'') = Some (content r)"
    and "\<And>d r. r \<in> set ROUTINGs_batch \<Longrightarrow> d (input_file here args ''0.3util'' r ''dcqcn'') = Some (content r) \<Longrightarrow>
      shell d (cmd_batch (input_file here args ''0.3util'' r ''dcqcn'') (arg_type args) (arg_limit args)) = Inr (output_text (ls r))"
    and "\<And>r. r \<in> set ROUTINGs_batch \<Longrightarrow> good_output f step (ls r)"
  shows "\<exists>w'. main_fct shell here args w = (Inr (), w') \<and>
    list_all (\<lambda>r. map_option csv_read (disk w' (output_name (arg_output args) ''0.3util'' r)) =
      Some (header_batch r CCs_batch # map (map cell_text) (table_of f step (butlast (ls r))))) ROUTINGs_batch"
proof -
  let ?out = "\<lambda>r. put_file (output_name (arg_output args) ''0.3util'' r)
      (table_text (header_batch r CCs_batch) (table_of f step (butlast (ls r)))) \<circ> say (map row_line (table_of f step (butlast (ls r))))"
  let ?inputs = "\<lambda>w. \<forall>r \<in> set ROUTINGs_batch. disk w (input_file here args ''0.3util'' r ''dcqcn'') = Some (content r)"
  have step: "each (routing_util shell here args (int step) r) UTILs_batch u = (Inr (), ?out r u)"
    if "r \<in> set ROUTINGs_batch" "?inputs u" for r u
    using routing_util[where args = args and here = here and util = "''0.3util''" and r = r and w = u and shell = shell and
        f = f and step = step and ls = "ls r" and c = "content r"] assms(2,4,5) that
    by (simp add: UTILs_batch_def act_simps)
  have keep: "?inputs (?out r u)" if "?inputs u" for r u
    using that output_not_input by (auto simp: output_not_input[symmetric])
  have r: "''Ours'' \<in> set ROUTINGs_batch" "''ECMP'' \<in> set ROUTINGs_batch" "''UCMP'' \<in> set ROUTINGs_batch"
    by (simp_all add: ROUTINGs_batch_def)
  have w: "?inputs w" using assms(3) by blast
  note w1 = keep[OF w, of "''Ours''"]
  note w2 = keep[OF w1, of "''ECMP''"]
  have "main_fct shell here args w = (Inr (), ?out ''UCMP'' (?out ''ECMP'' (?out ''Ours'' w)))"
    using step[OF r(1) w] step[OF r(2) w1] step[OF r(3) w2]
    by (simp add: main_fct_def assms(1) ROUTINGs_batch_def act_simps)
  then show ?thesis
    using table_text_read by (simp add: ROUTINGs_batch_def output_name_inj)
qed

section \<open>Properties\<close>

text \<open>C12. When every file is there and every output of the pipelines has at least 100 / step records
  besides the last one, the script returns, and the CSV file of each routing, read back, is the header
  and the table of its records: one row per bucket, with its percentage, the size of its last flow, and
  its median and 99th percentile.\<close>

theorem fct_tables:
  assumes "py_int (arg_step args) = Inr (int step)" "0 < step"
    and "\<And>r. r \<in> set ROUTINGs_batch \<Longrightarrow> disk w (input_file here args ''0.3util'' r ''dcqcn'') = Some (content r)"
    and "\<And>d r. r \<in> set ROUTINGs_batch \<Longrightarrow> d (input_file here args ''0.3util'' r ''dcqcn'') = Some (content r) \<Longrightarrow>
      shell d (cmd_batch (input_file here args ''0.3util'' r ''dcqcn'') (arg_type args) (arg_limit args)) = Inr (output_text (ls r))"
    and "\<And>r. r \<in> set ROUTINGs_batch \<Longrightarrow> good_output f step (ls r)"
  shows "\<exists>w'. main_fct shell here args w = (Inr (), w') \<and>
    list_all (\<lambda>r. map_option csv_read (disk w' (output_name (arg_output args) ''0.3util'' r)) =
      Some (header_batch r CCs_batch # map (map cell_text) (table_of f step (butlast (ls r))))) ROUTINGs_batch"
  using assms by (rule fct_run)

definition parse_or_zero :: "string \<Rightarrow> flt \<times> int" where
  "parse_or_zero l = (case parse_record l of Inl e \<Rightarrow> (0, 0) | Inr x \<Rightarrow> x)"

theorem fct_tables_witness:
  "let args = fct_defaults\<lparr>arg_step := ''50''\<rparr>; ls = [''2 10'', ''1 20'', ''4 30''] in
    \<exists>w'. main_fct (\<lambda>d c. Inr (output_text ls)) ''/a'' args \<lparr>disk = \<lambda>_. Some [], console = []\<rparr> = (Inr (), w') \<and>
    list_all (\<lambda>r. map_option csv_read (disk w' (output_name (arg_output args) ''0.3util'' r)) =
      Some (header_batch r CCs_batch # map (map cell_text) (table_of parse_or_zero 50 (butlast ls)))) ROUTINGs_batch"
proof -
  let ?args = "fct_defaults\<lparr>arg_step := ''50''\<rparr>" and ?ls = "[''2 10'', ''1 20'', ''4 30'']"
  have "py_int (arg_step ?args) = Inr (int 50)" by code_simp
  moreover have "list_all (\<lambda>l. nl \<notin> set l \<and> parse_record l = Inr (parse_or_zero l)) ?ls" by code_simp
  then have "good_output parse_or_zero 50 ?ls" by (simp add: good_output_def)
  ultimately show ?thesis
    using fct_tables[of ?args 50 "\<lparr>disk = \<lambda>_. Some [], console = []\<rparr>" "''/a''" "\<lambda>_. []"
        "\<lambda>d c. Inr (output_text ?ls)" "\<lambda>_. ?ls" parse_or_zero] by (simp add: Let_def)
qed

text \<open>C37. With fewer than 100 / step records besides the last one the first bucket is empty, and the script
  ends with an IndexError at the first routing, before it has written anything.\<close>

theorem fct_too_few:
  assumes "py_int (arg_step args) = Inr (int step)" "0 < step"
    and "disk w (input_file here args ''0.3util'' ''Ours'' ''dcqcn'') \<noteq> None"
    and "shell (disk w) (cmd_batch (input_file here args ''0.3util'' ''Ours'' ''dcqcn'') (arg_type args) (arg_limit args)) =
      Inr (output_text ls)"
    and "list_all (\<lambda>l. nl \<notin> set l) ls" "(length ls - 1) * step < 100"
  shows "main_fct shell here args w = (Inl IndexError, w)"
proof -
  have "bucket_rows (records_of (output_text ls)) step (range_step 0 100 step) rows = Inl IndexError" for rows
    unfolding records_of_output[OF assms(5)] by (rule bucket_rows_too_few) (use assms(2,6) in simp_all)
  then have "routing_util shell here args (int step) ''Ours'' ''0.3util'' w = (Inl IndexError, w)"
    using assms(2-4)
    by (auto simp: routing_util_def CCs_batch_def cc_rows_def Let_def input_file_def run_shell_def abind_def)
  then show ?thesis
    by (simp add: main_fct_def assms(1) ROUTINGs_batch_def UTILs_batch_def act_simps)
qed

theorem fct_too_few_witness:
  "main_fct (\<lambda>d c. Inr (output_text [''2 10''])) ''/a'' fct_defaults \<lparr>disk = \<lambda>_. Some [], console = []\<rparr> =
    (Inl IndexError, \<lparr>disk = \<lambda>_. Some [], console = []\<rparr>)"
proof -
  have "py_int (arg_step fct_defaults) = Inr (int 5)" by code_simp
  then show ?thesis by (intro fct_too_few[where step = 5 and ls = "[''2 10'']"]) simp_all
qed

text \<open>The last line of the pipeline's output, the largest flow, has no influence on the result: two
  shells whose outputs differ only in their last lines give the same run.\<close>

theorem fct_last_dropped:
  assumes "\<And>d c. sh1 d c = Inr (output_text (ls c @ [l1 c]))" "\<And>d c. sh2 d c = Inr (output_text (ls c @ [l2 c]))"
    and "\<And>c. list_all (\<lambda>l. nl \<notin> set l) (l1 c # l2 c # ls c)"
  shows "main_fct sh1 here args = main_fct sh2 here args"
proof -
  have rec: "records_of (output_text (ls c @ [l])) = ls c" if "l \<in> {l1 c, l2 c}" for c l
    using records_of_output[of "ls c @ [l]"] assms(3)[of c] that by auto
  have cc: "cc_rows sh1 h ar util r step is rows cc w = cc_rows sh2 h ar util r step is rows cc w"
    for h ar util r step "is" rows cc w
    by (simp add: cc_rows_def Let_def run_shell_def abind_def assms(1,2) rec)
  have "cc_rows sh1 = cc_rows sh2" by (intro ext) (rule cc)
  then show ?thesis by (simp add: main_fct_def routing_util_def[abs_def])
qed

section \<open>Order\<close>

definition row_size :: "row \<Rightarrow> int" where "row_size r = (case r ! 1 of ICell n \<Rightarrow> n | FCell x \<Rightarrow> py_trunc x)"
definition row_p50 :: "row \<Rightarrow> flt" where "row_p50 r = (case r ! 2 of FCell x \<Rightarrow> x | ICell n \<Rightarrow> f_of_int n)"
definition row_p99 :: "row \<Rightarrow> flt" where "row_p99 r = (case r ! 3 of FCell x \<Rightarrow> x | ICell n \<Rightarrow> f_of_int n)"

lemma pctl_of_mono:
  assumes "sorted xs" "0 \<le> p" "p \<le> q" "q \<le> 127 / 128" "xs \<noteq> []" "length xs \<le> 2 ^ 46"
  shows "pctl_of xs p \<le> pctl_of xs q"
proof -
  have "0 \<le> q" "p \<le> 127 / 128" using assms(2-4) by linarith+
  note iq = pctl_index[OF \<open>0 \<le> q\<close> assms(4) _ assms(6)]
  have "0 \<le> f_of_int (int (length xs))" by (simp add: f_of_int_def rn_nonneg)
  then have "fmul (f_of_int (int (length xs))) p \<le> fmul (f_of_int (int (length xs))) q"
    unfolding fmul_def by (intro rn_mono mult_left_mono assms(3))
  then have "py_trunc (fmul (f_of_int (int (length xs))) p) \<le> py_trunc (fmul (f_of_int (int (length xs))) q)"
    by (rule py_trunc_mono)
  then show ?thesis unfolding pctl_of_def
    using iq assms(5) by (intro sorted_nth_mono[OF assms(1)]) (auto simp: nat_less_iff)
qed

lemma last_slice: "l < r \<Longrightarrow> l < length xs \<Longrightarrow> last (slice xs l r) = xs ! (min r (length xs) - 1)"
proof -
  assume l: "l < r" "l < length xs"
  then have len: "length (slice xs l r) = min r (length xs) - l" "slice xs l r \<noteq> []"
    by (auto simp: length_slice simp flip: length_greater_0_conv)
  from l have "slice xs l r ! (min r (length xs) - l - 1) = xs ! (l + (min r (length xs) - l - 1))"
    by (simp add: slice_def min_def)
  with l len show ?thesis by (simp add: last_conv_nth)
qed

lemma last_bucket:
  assumes "i < 100" "100 \<le> length a * step"
  shows "last (bucket a step i) = a ! (min ((i + step) * length a div 100) (length a) - 1)"
  using last_slice bucket_bounds[OF assms] by (simp add: bucket_def Let_def)

text \<open>When the records come sorted by size, the sizes of the rows increase, and the median of a row is
  at most its 99th percentile, both slowdowns of a flow of the row's own bucket.\<close>

theorem fct_sorted:
  assumes "0 < step" "100 \<le> length a * step" "length a \<le> 2 ^ 46"
    and "list_all (\<lambda>l. parse_record l = Inr (f l)) a" "sorted (map (snd \<circ> f) a)"
  shows "\<exists>rows. bucket_rows a step (range_step 0 100 step) (first_cells (range_step 0 100 step)) = Inr rows \<and>
    length rows = (100 + step - 1) div step \<and> sorted (map row_size rows) \<and> list_all (\<lambda>r. row_p50 r \<le> row_p99 r) rows \<and>
    list_all2 (\<lambda>r i. {row_p50 r, row_p99 r} \<subseteq> set (map (fst \<circ> f) (bucket a step i))) rows (range_step 0 100 step)"
proof -
  let ?s = "\<lambda>k. bucket_stats (map f (bucket a step (k * step)))"
  have parse: "parse_record l = Inr (f l)" if "l \<in> set a" for l using assms(4) that by (simp add: list_all_iff)
  have ne: "bucket a step (k * step) \<noteq> []" if "k < n_rows step" for k
    using n_rows_less[OF assms(1) that] assms(2) by (intro bucket_nonempty) auto
  have p: "0 \<le> p99" "p50 \<le> 127 / 128" using p50_p99 by linarith+
  have len: "length (map (fst \<circ> f) (bucket a step i)) \<le> 2 ^ 46" for i
    using length_bucket[of a step i] assms(3) by simp
  have size: "row_size (x # ?s k) = snd (f (a ! (min ((k * step + step) * length a div 100) (length a) - 1)))"
    if "k < n_rows step" for x k
    using last_bucket[OF n_rows_less[OF assms(1) that] assms(2)] ne[OF that]
    by (simp add: row_size_def bucket_stats_def Let_def last_map)
  have "sorted (map row_size (table_of f step a))"
  proof -
    have "row_size (table_of f step a ! k) \<le> row_size (table_of f step a ! m)" if "k \<le> m" "m < n_rows step" for k m
    proof -
      let ?i = "\<lambda>k. min ((k * step + step) * length a div 100) (length a) - 1"
      have "a \<noteq> []" using assms(2) by auto
      then have ix: "min x (length a) - 1 < length a" for x by (cases a) (auto simp: min_def)
      have "?i k \<le> ?i m"
        by (intro diff_le_mono min.mono div_le_mono mult_le_mono1 add_le_mono1 order_refl that(1))
      then have "map (snd \<circ> f) a ! ?i k \<le> map (snd \<circ> f) a ! ?i m"
        by (rule sorted_nth_mono[OF assms(5)]) (simp only: length_map ix)
      then have "snd (f (a ! ?i k)) \<le> snd (f (a ! ?i m))" using ix by (simp only: nth_map comp_apply)
      with that size show ?thesis by (simp only: table_of_def nth_map length_upt nth_upt) simp
    qed
    then show ?thesis by (auto simp: sorted_iff_nth_mono table_of_def)
  qed
  moreover have "row_p50 (x # ?s k) \<le> row_p99 (x # ?s k)" if "k < n_rows step" for x k
    using pctl_of_mono[OF sorted_sort p50_p99, of "map (fst \<circ> f) (bucket a step (k * step))"] ne[OF that] len
    by (simp add: row_p50_def row_p99_def bucket_stats_def Let_def numeral_2_eq_2 numeral_3_eq_3)
  moreover have "{row_p50 (x # ?s k), row_p99 (x # ?s k)} \<subseteq> set (map (fst \<circ> f) (bucket a step (k * step)))"
    if "k < n_rows step" for x k
    using get_pctl(2)[of p50 "sort (map (fst \<circ> f) (bucket a step (k * step)))"]
      get_pctl(2)[of p99 "sort (map (fst \<circ> f) (bucket a step (k * step)))"] ne[OF that] len p p50_p99
    by (simp add: row_p50_def row_p99_def bucket_stats_def Let_def numeral_2_eq_2 numeral_3_eq_3 comp_def)
  ultimately show ?thesis
    using bucket_rows_table[OF assms(1) parse assms(2,3)]
    by (simp add: table_of_def n_rows[OF assms(1)] list_all_iff list_all2_conv_all_nth n_rows_def)
qed

theorem fct_last_dropped_witness:
  "main_fct (\<lambda>d c. Inr (output_text ([''2 10''] @ [''1 20'']))) ''/a'' fct_defaults =
    main_fct (\<lambda>d c. Inr (output_text ([''2 10''] @ [''9 99'']))) ''/a'' fct_defaults"
  by (rule fct_last_dropped[where ?l1.0 = "\<lambda>_. ''1 20''" and ?l2.0 = "\<lambda>_. ''9 99''" and ls = "\<lambda>_. [''2 10'']"]) simp_all

theorem fct_sorted_witness:
  "let a = [''2 10'', ''1 20'']; rows = table_of parse_or_zero 50 a in
    \<exists>rows. bucket_rows a 50 (range_step 0 100 50) (first_cells (range_step 0 100 50)) = Inr rows \<and>
    length rows = (100 + 50 - 1) div 50 \<and> sorted (map row_size rows) \<and> list_all (\<lambda>r. row_p50 r \<le> row_p99 r) rows \<and>
    list_all2 (\<lambda>r i. {row_p50 r, row_p99 r} \<subseteq> set (map (fst \<circ> parse_or_zero) (bucket a 50 i))) rows (range_step 0 100 50)"
proof -
  have "list_all (\<lambda>l. parse_record l = Inr (parse_or_zero l)) [''2 10'', ''1 20'']" by code_simp
  moreover have "sorted (map (snd \<circ> parse_or_zero) [''2 10'', ''1 20''])" by code_simp
  ultimately show ?thesis using fct_sorted[of 50 "[''2 10'', ''1 20'']" parse_or_zero] by (simp only: Let_def) simp
qed

section \<open>The variant for two data centres\<close>

text \<open>C14. Where no bucket is empty, the variant for two data centres computes what the first script computes:
  it appends to each row the two percentiles of the other table, and the size of the flows once.\<close>

theorem fct_2dc_agrees:
  assumes "0 < step" "100 \<le> length a * step" "length a \<le> 2 ^ 46" "length prev = (100 + step - 1) div step"
    and "bucket_rows a step (range_step 0 100 step) (first_cells (range_step 0 100 step)) = Inr rows"
  shows "fill_rows (bucket_cells_2dc a step) step (range_step 0 100 step) prev =
    Inr (map2 (\<lambda>p r. p @ (if length p = 1 then [r ! 1] else []) @ drop 2 r) prev rows)"
proof -
  have prev: "length prev = n_rows step" using assms(4) by (simp add: n_rows_def)
  obtain css where css: "rmap (\<lambda>k. bucket_cells a step (k * step)) [0..<n_rows step] = Inr css"
      "rows = map2 (@) (first_cells (range_step 0 100 step)) css"
    using assms(5) by (auto simp: bucket_rows_def fill_rows[OF assms(1)] first_cells[OF assms(1)] rbind_eq_Inr)
  have a: "a \<noteq> []" using assms(2) by auto
  have len: "length css = n_rows step" using rmap_length[OF css(1)] by simp
  have rows: "rows ! k = FCell (fquo (f_of_int (int (k * step))) 100) # css ! k" "length rows = n_rows step" if "k < n_rows step" for k
    using that len by (simp_all add: css(2) first_cells[OF assms(1)])
  have cell: "\<exists>d. d \<noteq> [] \<and> rmap parse_record (bucket a step (k * step)) = Inr d \<and> css ! k = bucket_stats d" if "k < n_rows step" for k
    using rmap_nth[OF css(1), of k] that by (auto simp: bucket_cells[OF assms(3)] rbind_eq_Inr split: if_splits)
  have "bucket_cells_2dc a step (prev ! k) (k * step) = Inr ((if length (prev ! k) = 1 then [rows ! k ! 1] else []) @ drop 2 (rows ! k))"
    if k: "k < n_rows step" for k
  proof -
    obtain d where d: "d \<noteq> []" "rmap parse_record (bucket a step (k * step)) = Inr d" "css ! k = bucket_stats d" using cell[OF k] by blast
    then show ?thesis
      using bucket_cells_2dc[OF assms(3) a n_rows_less[OF assms(1) k], where row = "prev ! k"] rows(1)[OF k]
      by (simp add: size_once_def bucket_stats_def Let_def)
  qed
  then have "rmap (\<lambda>k. bucket_cells_2dc a step (prev ! k) (k * step)) [0..<n_rows step] =
      Inr (map (\<lambda>k. (if length (prev ! k) = 1 then [rows ! k ! 1] else []) @ drop 2 (rows ! k)) [0..<n_rows step])"
    by (intro rmap_total) simp
  moreover have "length rows = n_rows step" using rows(2) n_rows_ge[OF assms(1)] by (cases "n_rows step") auto
  ultimately show ?thesis using prev
    by (auto simp: fill_rows[OF assms(1) prev] intro!: nth_equalityI)
qed

theorem fct_2dc_agrees_witness:
  "let a = [''2 10'', ''1 20'']; prev = first_cells (range_step 0 100 50); rows = table_of parse_or_zero 50 a in
    fill_rows (bucket_cells_2dc a 50) 50 (range_step 0 100 50) prev =
      Inr (map2 (\<lambda>p r. p @ (if length p = 1 then [r ! 1] else []) @ drop 2 r) prev rows)"
proof -
  have "list_all (\<lambda>l. parse_record l = Inr (parse_or_zero l)) [''2 10'', ''1 20'']" by code_simp
  then have "bucket_rows [''2 10'', ''1 20''] 50 (range_step 0 100 50) (first_cells (range_step 0 100 50)) =
      Inr (table_of parse_or_zero 50 [''2 10'', ''1 20''])"
    by (intro bucket_rows_table) (auto simp: list_all_iff)
  then show ?thesis unfolding Let_def
    by (intro fct_2dc_agrees) (simp_all add: first_cells_def length_range_step)
qed

text \<open>Every bucket of the variant yields cells, whatever the number of records.\<close>

lemma bucket_cells_2dc_total:
  assumes "length a \<le> 2 ^ 46" "a \<noteq> []" "i < 100" "list_all (\<lambda>l. \<exists>x. parse_record l = Inr x) a"
  shows "\<exists>cs. bucket_cells_2dc a step row i = Inr cs \<and> length cs = (if length row = 1 then 3 else 2)"
proof -
  have "\<exists>d. rmap parse_record (bucket a step i) = Inr d"
    by (rule rmap_InrI) (use assms(4) in \<open>auto simp: list_all_iff dest: subsetD[OF set_bucket]\<close>)
  then show ?thesis by (auto simp: bucket_cells_2dc[OF assms(1-3)] size_once_def bucket_stats_def Let_def)
qed

lemma fill_rows_2dc:
  assumes "0 < step" "length a \<le> 2 ^ 46" "a \<noteq> []" "list_all (\<lambda>l. \<exists>x. parse_record l = Inr x) a"
    and "length prev = n_rows step" "list_all (\<lambda>r. length r = n) prev"
  shows "\<exists>rows. fill_rows (bucket_cells_2dc a step) step (range_step 0 100 step) prev = Inr rows \<and> length rows = n_rows step \<and>
    list_all (\<lambda>r. length r = n + (if n = 1 then 3 else 2)) rows"
proof -
  have cell: "\<exists>cs. bucket_cells_2dc a step (prev ! k) (k * step) = Inr cs \<and> length cs = (if n = 1 then 3 else 2)"
    if "k < n_rows step" for k
    using bucket_cells_2dc_total[OF assms(2,3) n_rows_less[OF assms(1) that] assms(4), where step = step and row = "prev ! k"] assms(5,6) that
    by (simp add: list_all_length)
  then obtain css where css: "rmap (\<lambda>k. bucket_cells_2dc a step (prev ! k) (k * step)) [0..<n_rows step] = Inr css"
    using rmap_InrI[of "[0..<n_rows step]" "\<lambda>k. bucket_cells_2dc a step (prev ! k) (k * step)"] by auto
  have len: "length css = n_rows step" using rmap_length[OF css] by simp
  have "length (css ! k) = (if n = 1 then 3 else 2)" if "k < n_rows step" for k
    using cell[OF that] rmap_nth[OF css, of k] that by auto
  then show ?thesis using css len assms(5,6) by (auto simp: fill_rows[OF assms(1,5)] list_all_length)
qed

lemma cell_pairs_even: "even (length cs) \<Longrightarrow> cell_pairs cs = Inr cs"
  by (induction cs rule: cell_pairs.induct) auto

lemma write_item_2dc_run:
  assumes "disk u name = Some t" "2 \<le> length x" "even (length x)"
  shows "write_item_2dc name x u = (Inr (), put_file name (t @ csv_line (map cell_text x)) (say [row_line x] u))"
proof -
  obtain p s cs where x: "x = p # s # cs" using assms(2) by (metis Suc_le_length_iff numeral_2_eq_2)
  show ?thesis using assms(1,3) cell_pairs_even[of cs]
    by (simp add: x write_item_2dc_def item_line_def py_get_def write_row_def row_line_def)
qed

definition input_file_2dc :: "string \<Rightarrow> fct2_args \<Rightarrow> string \<Rightarrow> string \<Rightarrow> string" where
  "input_file_2dc here args cc routing =
     path_join here (arg_input args) @ ''/'' @ ''WebSearch'' @ ''/'' @ fct_file ''0.3util'' routing cc"

lemma output_2dc_not_input: "output_name_2dc o' ds c u la lb \<noteq> input_file_2dc here args c' r'"
proof
  assume "output_name_2dc o' ds c u la lb = input_file_2dc here args c' r'"
  then have "last (output_name_2dc o' ds c u la lb) = last (input_file_2dc here args c' r')" by simp
  then show False by (simp add: output_name_2dc_def input_file_2dc_def fct_file_def)
qed

text \<open>What the run relies on: every file is there, and every output has two records at least that parse.\<close>

definition inputs_2dc :: "(files \<Rightarrow> string \<Rightarrow> string res) \<Rightarrow> string \<Rightarrow> fct2_args \<Rightarrow> (string \<Rightarrow> string \<Rightarrow> string list) \<Rightarrow> world \<Rightarrow> bool" where
  "inputs_2dc shell here args ls w = list_all (\<lambda>cc. list_all (\<lambda>r. disk w (input_file_2dc here args cc r) \<noteq> None \<and>
     2 \<le> length (ls cc r) \<and> length (ls cc r) \<le> 2 ^ 46 \<and>
     list_all (\<lambda>l. nl \<notin> set l \<and> (\<exists>x. parse_record l = Inr x)) (ls cc r)) ROUTINGs_2dc) CCs_2dc"

lemma routing_rows_2dc:
  assumes "0 < step" "inputs_2dc shell here args ls w" "cc \<in> set CCs_2dc" "r \<in> set ROUTINGs_2dc"
    and "\<And>d. d (input_file_2dc here args cc r) \<noteq> None \<Longrightarrow>
      shell d (build_awk_cmd (input_file_2dc here args cc r) (arg_type args) (arg_limit args) ra rb) = Inr (output_text (ls cc r))"
    and "length prev = n_rows step" "list_all (\<lambda>x. length x = n) prev"
  shows "\<exists>rows. routing_rows_2dc shell here args ra rb ''WebSearch'' cc ''0.3util'' step (range_step 0 100 step) prev r w = (Inr rows, w) \<and>
    length rows = n_rows step \<and> list_all (\<lambda>x. length x = n + (if n = 1 then 3 else 2)) rows"
proof -
  have ok: "disk w (input_file_2dc here args cc r) \<noteq> None" "2 \<le> length (ls cc r)" "length (ls cc r) \<le> 2 ^ 46"
      "list_all (\<lambda>l. nl \<notin> set l \<and> (\<exists>x. parse_record l = Inr x)) (ls cc r)"
    using assms(2-4) by (auto simp: inputs_2dc_def list_all_iff)
  let ?a = "butlast (ls cc r)"
  have rec: "records_of (output_text (ls cc r)) = ?a" using ok(4) by (intro records_of_output) (auto simp: list_all_iff)
  have a: "length ?a \<le> 2 ^ 46" "list_all (\<lambda>l. \<exists>x. parse_record l = Inr x) ?a"
    using ok(3,4) by (auto simp: list_all_iff dest!: in_set_butlastD)
  have "length ?a \<noteq> 0" unfolding length_butlast using ok(2) by linarith
  note ne = this[unfolded length_0_conv] this
  obtain rows where "fill_rows (bucket_cells_2dc ?a step) step (range_step 0 100 step) prev = Inr rows" "length rows = n_rows step"
      "list_all (\<lambda>x. length x = n + (if n = 1 then 3 else 2)) rows"
    using fill_rows_2dc[OF assms(1) a(1) ne(1) a(2) assms(6,7)] by blast
  moreover have "run_shell shell (build_awk_cmd (input_file_2dc here args cc r) (arg_type args) (arg_limit args) ra rb) w =
      (Inr (output_text (ls cc r)), w)"
    using assms(5) ok(1) by (simp add: run_shell_def)
  ultimately show ?thesis
    using ok(1) ne rec by (simp add: routing_rows_2dc_def Let_def input_file_2dc_def abind_run)
qed

lemma cc_util_2dc:
  assumes "0 < step" "inputs_2dc shell here args ls w" "cc \<in> set CCs_2dc"
    and "\<And>d r. r \<in> set ROUTINGs_2dc \<Longrightarrow> d (input_file_2dc here args cc r) \<noteq> None \<Longrightarrow>
      shell d (build_awk_cmd (input_file_2dc here args cc r) (arg_type args) (arg_limit args) (fst dcA) (fst dcB)) = Inr (output_text (ls cc r))"
  shows "\<exists>rows. list_all (\<lambda>x. length x = 8) rows \<and> length rows = n_rows step \<and>
    cc_util_2dc shell here args (int step) dcA dcB ''WebSearch'' cc ''0.3util'' w =
    (Inr (), put_file (output_name_2dc (arg_output args) ''WebSearch'' cc ''0.3util'' (dc_label dcA) (dc_label dcB))
       (table_text (header_2dc ROUTINGs_2dc) rows) (say (map row_line rows) w))"
proof -
  note R = routing_rows_2dc[where ra = "fst dcA" and rb = "fst dcB", OF assms(1-3) _ assms(4)]
  have r: "''Ours'' \<in> set ROUTINGs_2dc" "''ECMP'' \<in> set ROUTINGs_2dc" "''UCMP'' \<in> set ROUTINGs_2dc"
    by (simp_all add: ROUTINGs_2dc_def)
  have "length (first_cells (range_step 0 100 step)) = n_rows step" "list_all (\<lambda>x. length x = 1) (first_cells (range_step 0 100 step))"
    by (simp_all add: first_cells[OF assms(1)] list_all_iff)
  from R[OF r(1) r(1) _ this] obtain r1 where r1: "routing_rows_2dc shell here args (fst dcA) (fst dcB) ''WebSearch'' cc ''0.3util'' step
      (range_step 0 100 step) (first_cells (range_step 0 100 step)) ''Ours'' w = (Inr r1, w)" "length r1 = n_rows step" "list_all (\<lambda>x. length x = 4) r1"
    by auto
  from R[OF r(2) r(2) _ r1(2,3)] obtain r2 where r2: "routing_rows_2dc shell here args (fst dcA) (fst dcB) ''WebSearch'' cc ''0.3util'' step
      (range_step 0 100 step) r1 ''ECMP'' w = (Inr r2, w)" "length r2 = n_rows step" "list_all (\<lambda>x. length x = 6) r2"
    by auto
  from R[OF r(3) r(3) _ r2(2,3)] obtain r3 where r3: "routing_rows_2dc shell here args (fst dcA) (fst dcB) ''WebSearch'' cc ''0.3util'' step
      (range_step 0 100 step) r2 ''UCMP'' w = (Inr r3, w)" "length r3 = n_rows step" "list_all (\<lambda>x. length x = 8) r3"
    by auto
  let ?name = "output_name_2dc (arg_output args) ''WebSearch'' cc ''0.3util'' (dc_label dcA) (dc_label dcB)"
  have "cc_util_2dc shell here args (int step) dcA dcB ''WebSearch'' cc ''0.3util'' w =
      write_table ?name (header_2dc ROUTINGs_2dc) (write_item_2dc ?name) r3 w"
    using assms(1) r1(1) r2(1) r3(1) by (simp add: cc_util_2dc_def abind_def Let_def ROUTINGs_2dc_def)
  also have "\<dots> = (Inr (), put_file ?name (table_text (header_2dc ROUTINGs_2dc) r3) (say (map row_line r3) w))"
    unfolding table_text_def
  proof (rule write_table)
    fix x and u :: world and t assume "x \<in> set r3" "disk u ?name = Some t"
    with r3(3) show "write_item_2dc ?name x u = (Inr (), put_file ?name (t @ csv_line (map cell_text x)) (say [row_line x] u))"
      by (intro write_item_2dc_run) (auto simp: list_all_iff)
  qed
  finally show ?thesis using r3 by blast
qed



section \<open>The programs for awk and the ranges of hosts\<close>

fun balanced :: "nat \<Rightarrow> string \<Rightarrow> bool" where
  "balanced d [] = (d = 0)"
| "balanced d (c # s) =
     (if c = CHR ''('' then balanced (Suc d) s else if c = CHR '')'' then 0 < d \<and> balanced (d - 1) s else balanced d s)"

lemma balanced_str_int: "balanced d (str_int n @ s) = balanced d s"
proof -
  have "balanced d (t @ s) = balanced d s" if "\<And>c. c \<in> set t \<Longrightarrow> is_digit c \<or> c = CHR ''-''" for t
    using that
  proof (induction t)
    case Nil
    then show ?case by simp
  next
    case (Cons c t)
    then have "c \<noteq> CHR ''(''" "c \<noteq> CHR '')''" using Cons.prems[of c] by (auto simp: is_digit_def)
    with Cons show ?case by simp
  qed
  then show ?thesis using str_int_chars by blast
qed

text \<open>The programs of the first script have balanced parentheses exactly for the types 0 and 1 (the
  program for type 2, all flows, lacks its if), those of the variant always.\<close>

theorem awk_programs:
  "(balanced 0 (awk_batch ty limit) \<longleftrightarrow> ty = 0 \<or> ty = 1) \<and> balanced 0 (awk_base @ awk_cond ty limit)"
  by (simp add: awk_batch_def awk_cond_def awk_base_def balanced_str_int bytes_def char_of_def)

lemma str_int_no_minus: "0 \<le> n \<Longrightarrow> CHR ''-'' \<notin> set (str_int n)"
  by (simp add: str_int_nat str_nat_no is_digit_def)

lemma parse_dc_number: "0 \<le> d \<Longrightarrow> parse_dc_or_range (str_int d) = Inr (((d - 1) * 16, (d - 1) * 16 + 15), Some d)"
  by (simp add: parse_dc_or_range_def Let_def str_int_no_minus)

lemma split_first: "c \<notin> set a \<Longrightarrow> split_first c (a @ c # b) = (a, b)"
  by (simp add: split_first_def takeWhile_append dropWhile_append)

text \<open>Reading a data centre's number or an explicit range of hosts: number \<open>d\<close> stands for the 16 hosts
  whose number divided by 16 is \<open>d - 1\<close>, a text \<open>a-b\<close> for the hosts from \<open>a\<close> to \<open>b\<close>, and a text with
  neither raises a ValueError.\<close>

theorem dc_ranges:
  assumes "0 \<le> d" "0 \<le> a" "py_int junk = Inl ValueError" "CHR ''-'' \<notin> set junk"
  shows "\<exists>l r. parse_dc_or_range (str_int d) = Inr ((l, r), Some d) \<and> (\<forall>h. l \<le> h \<and> h \<le> r \<longleftrightarrow> h div 16 = d - 1) \<and>
    parse_dc_or_range (str_int a @ ''-'' @ str_int b) = Inr ((a, b), None) \<and>
    dc_label ((a, b), None) = str_int a @ ''-'' @ str_int b \<and>
    parse_dc_or_range junk = Inl ValueError"
proof -
  note no = str_int_no_minus
  note parse_dc_number[OF assms(1)]
  moreover have "((d - 1) * 16 \<le> h \<and> h \<le> (d - 1) * 16 + 15) = (h div 16 = d - 1)" for h :: int by presburger
  moreover have "parse_dc_or_range (str_int a @ ''-'' @ str_int b) = Inr ((a, b), None)"
    using split_first[OF no[OF assms(2)], of "str_int b"] by (simp add: parse_dc_or_range_def parse_range_def)
  moreover have "parse_dc_or_range junk = Inl ValueError" using assms(3,4) by (simp add: parse_dc_or_range_def)
  ultimately show ?thesis by (simp add: dc_label_def)
qed

theorem dc_ranges_witness:
  "\<exists>l r. parse_dc_or_range (str_int 8) = Inr ((l, r), Some 8) \<and> (\<forall>h. l \<le> h \<and> h \<le> r \<longleftrightarrow> h div 16 = (8 :: int) - 1) \<and>
    parse_dc_or_range (str_int 0 @ ''-'' @ str_int 15) = Inr ((0, 15), None) \<and>
    dc_label ((0, 15), None) = str_int 0 @ ''-'' @ str_int 15 \<and>
    parse_dc_or_range ''east'' = Inl ValueError"
  by (rule dc_ranges) (simp, simp, code_simp, simp)

end
