(* ===== verification/FctMerge.thy ===== *)
theory FctMerge
  imports FctAnalysis "HOL-Library.AList"
begin

text \<open>
  \<open>analysis/merge_fct_results.py\<close>: the CSV files the analysis wrote for each routing are merged into one
  table, whose rows are the first two fields of the first file followed by the other fields of every
  file.  Python's dictionary \<open>routing_data\<close> is an association list in the order of insertion.
\<close>

section \<open>Merging the tables of one utilisation\<close>

type_synonym csv_rows = "string list list"

definition csv_name :: "string \<Rightarrow> string \<Rightarrow> string \<Rightarrow> string" where
  "csv_name input_dir util routing =
     path_join input_dir (util @ ''/'' @ routing @ ''_'' @ util @ ''-FCTslowdown.csv'')"

text \<open>\<open>next (reader)\<close> raises StopIteration on an empty file.\<close>

definition read_routing ::
  "string \<Rightarrow> string \<Rightarrow> string list \<times> (string \<times> csv_rows) list \<Rightarrow> string \<Rightarrow>
     (string list \<times> (string \<times> csv_rows) list) script" where
  "read_routing util input_dir acc routing =
     (let (headers, data) = acc; file_path = csv_name input_dir util routing
      in abind (file_exists file_path) (\<lambda>found.
         if \<not> found then
           also_do (show_line (''Warning: File '' @ file_path @ '' does not exist. Skipping.'')) (ret acc)
         else abind (read_text file_path) (\<lambda>t.
           case csv_read t of
             [] \<Rightarrow> raise StopIteration
           | csv_headers # rows \<Rightarrow> ret (headers @ drop 2 csv_headers, AList.update routing rows data))))"

definition merged_row ::
  "string list \<Rightarrow> (string \<times> csv_rows) list \<Rightarrow> nat \<Rightarrow> string list \<Rightarrow> string list res" where
  "merged_row ROUTINGs data i row =
     rbind (py_get row 0) (\<lambda>p. rbind (py_get row 1) (\<lambda>s.
     rfold (\<lambda>acc routing. case map_of data routing of
         None \<Rightarrow> Inr acc
       | Some rows \<Rightarrow> rbind (py_get rows (int i)) (\<lambda>r. Inr (acc @ drop 2 r))) [p, s] ROUTINGs))"

definition merged_rows :: "string list \<Rightarrow> (string \<times> csv_rows) list \<Rightarrow> csv_rows \<Rightarrow> csv_rows res" where
  "merged_rows ROUTINGs data base = rmap (\<lambda>(i, row). merged_row ROUTINGs data i row) (List.enumerate 0 base)"

definition merged_name :: "string \<Rightarrow> string \<Rightarrow> string" where
  "merged_name output_dir util = path_join output_dir (''merged_'' @ util @ ''-FCTslowdown.csv'')"

definition merge_fct_csvs :: "string \<Rightarrow> string \<Rightarrow> string \<Rightarrow> string list \<Rightarrow> bool script" where
  "merge_fct_csvs util input_dir output_dir ROUTINGs =
     abind (fold_each (read_routing util input_dir) ([''Percentile'', ''FlowSize''], []) ROUTINGs) (\<lambda>(headers, data).
     case data of
       [] \<Rightarrow> also_do (show_line (''Error: No data files found for '' @ util)) (ret False)
     | (base_routing, base) # _ \<Rightarrow>
         abind (lift (merged_rows ROUTINGs data base)) (\<lambda>merged.
         also_do (open_w (merged_name output_dir util))
        (also_do (write_row (merged_name output_dir util) headers)
        (also_do (each (write_row (merged_name output_dir util)) merged)
        (also_do (show_line (''Merged file created: merged_'' @ util @ ''-FCTslowdown.csv'')) (ret True))))))"

section \<open>The script\<close>

definition UTILs_merge :: "string list" where "UTILs_merge = [''0.3util'', ''0.5util'', ''0.8util'']"
definition ROUTINGs_merge :: "string list" where "ROUTINGs_merge = [''Ours'', ''ECMP'', ''UCMP'']"

definition main_merge :: "string \<Rightarrow> string \<Rightarrow> unit script" where
  "main_merge input_dir output_dir =
     abind (fold_each (\<lambda>n util. abind (merge_fct_csvs util input_dir output_dir ROUTINGs_merge)
              (\<lambda>ok. ret (if ok then n + 1 else n))) (0 :: nat) UTILs_merge) (\<lambda>success_count.
     show_line (''Process completed. Created '' @ str_nat success_count @ '' merged files.''))"

section \<open>Reading and merging full tables\<close>

text \<open>A family of tables, one per routing, all with the same number of rows of two fields at least.\<close>

definition full_tables :: "string list \<Rightarrow> (string \<Rightarrow> csv_rows) \<Rightarrow> nat \<Rightarrow> bool" where
  "full_tables ROUTINGs rows n = list_all (\<lambda>r. length (rows r) = n \<and> list_all (\<lambda>x. 2 \<le> length x) (rows r)) ROUTINGs"

lemma read_routing_ok:
  assumes "disk w (csv_name input_dir util r) = Some t" "csv_read t = head # rows"
  shows "read_routing util input_dir (headers, data) r w = (Inr (headers @ drop 2 head, AList.update r rows data), w)"
  using assms by (simp add: read_routing_def Let_def)

lemma alist_update_new: "r \<notin> fst ` set data \<Longrightarrow> AList.update r x data = data @ [(r, x)]"
  by (induction data) auto

lemma read_all:
  assumes "\<And>r. r \<in> set rs \<Longrightarrow> \<exists>t. disk w (csv_name input_dir util r) = Some t \<and> csv_read t = head r # rows r"
    and "distinct rs" "fst ` set data \<inter> set rs = {}"
  shows "fold_each (read_routing util input_dir) (headers, data) rs w =
    (Inr (headers @ concat (map (\<lambda>r. drop 2 (head r)) rs), data @ map (\<lambda>r. (r, rows r)) rs), w)"
  using assms
proof (induction rs arbitrary: headers data)
  case Nil
  then show ?case by simp
next
  case (Cons r rs)
  obtain t where "disk w (csv_name input_dir util r) = Some t" "csv_read t = head r # rows r" using Cons.prems(1)[of r] by auto
  then have "read_routing util input_dir (headers, data) r w = (Inr (headers @ drop 2 (head r), data @ [(r, rows r)]), w)"
    using Cons.prems(3) by (simp add: read_routing_ok alist_update_new)
  moreover have "fold_each (read_routing util input_dir) (headers @ drop 2 (head r), data @ [(r, rows r)]) rs w =
      (Inr ((headers @ drop 2 (head r)) @ concat (map (\<lambda>r. drop 2 (head r)) rs), (data @ [(r, rows r)]) @ map (\<lambda>r. (r, rows r)) rs), w)"
    by (rule Cons.IH) (use Cons.prems in auto)
  ultimately show ?case by (simp add: abind_def)
qed

lemma enumerate_nth: "List.enumerate 0 xs = map (\<lambda>i. (i, xs ! i)) [0..<length xs]"
  by (auto simp: enumerate_eq_zip intro!: nth_equalityI)

lemma rmap_map: "rmap f (map g xs) = rmap (f \<circ> g) xs"
  by (induction xs) simp_all

definition merged_spec :: "string list \<Rightarrow> (string \<Rightarrow> csv_rows) \<Rightarrow> nat \<Rightarrow> string list" where
  "merged_spec rs rows i = take 2 (rows (hd rs) ! i) @ concat (map (\<lambda>r. drop 2 (rows r ! i)) rs)"

lemma merged_row_ok:
  assumes "\<And>r. r \<in> set rs \<Longrightarrow> map_of data r = Some (rows r) \<and> i < length (rows r)" "2 \<le> length row"
  shows "merged_row rs data i row = Inr (take 2 row @ concat (map (\<lambda>r. drop 2 (rows r ! i)) rs))"
proof -
  have "rfold (\<lambda>acc routing. case map_of data routing of None \<Rightarrow> Inr acc
       | Some rows \<Rightarrow> rbind (py_get rows (int i)) (\<lambda>r. Inr (acc @ drop 2 r))) acc rs =
     Inr (acc @ concat (map (\<lambda>r. drop 2 (rows r ! i)) rs))" for acc
    using assms(1) by (induction rs arbitrary: acc) (simp_all add: py_simps)
  moreover obtain p s cs where "row = p # s # cs" using assms(2) by (metis Suc_le_length_iff numeral_2_eq_2)
  ultimately show ?thesis by (simp add: merged_row_def py_get_def numeral_2_eq_2)
qed

lemma merged_rows_ok:
  assumes "full_tables rs rows n" "rs \<noteq> []" "distinct rs"
  shows "merged_rows rs (map (\<lambda>r. (r, rows r)) rs) (rows (hd rs)) = Inr (map (merged_spec rs rows) [0..<n])"
proof -
  have rows: "length (rows r) = n" "x \<in> set (rows r) \<Longrightarrow> 2 \<le> length x" if "r \<in> set rs" for r x
    using assms(1) that by (auto simp: full_tables_def list_all_iff)
  have hd: "hd rs \<in> set rs" using assms(2) by simp
  have data: "map_of (map (\<lambda>r. (r, rows r)) rs) r = Some (rows r)" if "r \<in> set rs" for r
    using that by (simp add: map_of_map_restrict)
  have "merged_row rs (map (\<lambda>r. (r, rows r)) rs) i (rows (hd rs) ! i) = Inr (merged_spec rs rows i)" if "i < n" for i
    unfolding merged_spec_def using that rows hd data by (intro merged_row_ok) auto
  then have "rmap (\<lambda>i. merged_row rs (map (\<lambda>r. (r, rows r)) rs) i (rows (hd rs) ! i)) [0..<n] = Inr (map (merged_spec rs rows) [0..<n])"
    by (intro rmap_total) simp
  then show ?thesis using rows(1)[OF hd] by (simp add: merged_rows_def enumerate_nth rmap_map comp_def)
qed

lemma each_write_rows:
  "disk w p = Some t \<Longrightarrow> each (write_row p) rows w = (Inr (), put_file p (t @ concat (map csv_line rows)) w)"
  by (induction rows arbitrary: w t) (simp_all add: put_file_same write_row_def)

lemma merge_ok:
  assumes "full_tables rs rows n" "rs \<noteq> []" "distinct rs"
    and "\<And>r. r \<in> set rs \<Longrightarrow> \<exists>t. disk w (csv_name input_dir util r) = Some t \<and> csv_read t = head r # rows r"
  shows "merge_fct_csvs util input_dir output_dir rs w =
    (Inr True, say [''Merged file created: merged_'' @ util @ ''-FCTslowdown.csv''] (put_file (merged_name output_dir util)
      (concat (map csv_line (([''Percentile'', ''FlowSize''] @ concat (map (\<lambda>r. drop 2 (head r)) rs)) # map (merged_spec rs rows) [0..<n]))) w))"
proof -
  note read = read_all[OF assms(4,3), of "[]" "[''Percentile'', ''FlowSize'']", simplified]
  obtain r rs' where rs: "rs = r # rs'" using assms(2) by (cases rs) auto
  note merged = merged_rows_ok[OF assms(1-3)]
  let ?name = "merged_name output_dir util" and ?rows = "map (merged_spec rs rows) [0..<n]"
  let ?head = "[''Percentile'', ''FlowSize''] @ concat (map (\<lambda>r. drop 2 (head r)) rs)"
  have "merge_fct_csvs util input_dir output_dir rs w = also_do (open_w ?name) (also_do (write_row ?name ?head)
      (also_do (each (write_row ?name) ?rows) (also_do (show_line (''Merged file created: merged_'' @ util @ ''-FCTslowdown.csv'')) (ret True)))) w"
    unfolding merge_fct_csvs_def abind_def[of _ "\<lambda>(headers, data). _ headers data"] read using merged
    by (simp add: rs)
  also have "\<dots> = also_do (each (write_row ?name) ?rows)
      (also_do (show_line (''Merged file created: merged_'' @ util @ ''-FCTslowdown.csv'')) (ret True)) (put_file ?name (csv_line ?head) w)"
    by (simp add: write_row_def)
  also have "\<dots> = also_do (show_line (''Merged file created: merged_'' @ util @ ''-FCTslowdown.csv'')) (ret True)
      (put_file ?name (csv_line ?head @ concat (map csv_line ?rows)) w)"
    by (rule also_do_run(1)) (subst each_write_rows[where t = "csv_line ?head"], simp_all)
  finally show ?thesis by simp
qed

lemma merge_run:
  assumes "full_tables rs rows n" "rs \<noteq> []" "distinct rs"
    and "\<And>r. r \<in> set rs \<Longrightarrow> \<exists>t. disk w (csv_name input_dir util r) = Some t \<and> csv_read t = head r # rows r"
    and "\<And>r x. r \<in> set rs \<Longrightarrow> x \<in> set (head r # rows r) \<Longrightarrow> list_all plain_field x"
  shows "\<exists>t w'. merge_fct_csvs util input_dir output_dir rs w = (Inr True, w') \<and>
    disk w' = (disk w)(merged_name output_dir util \<mapsto> t) \<and>
    csv_read t = ([''Percentile'', ''FlowSize''] @ concat (map (\<lambda>r. drop 2 (head r)) rs)) #
      map (\<lambda>i. take 2 (rows (hd rs) ! i) @ concat (map (\<lambda>r. drop 2 (rows r ! i)) rs)) [0..<n]"
proof -
  let ?head = "[''Percentile'', ''FlowSize''] @ concat (map (\<lambda>r. drop 2 (head r)) rs)"
  have rows: "length (rows r) = n" "x \<in> set (rows r) \<Longrightarrow> 2 \<le> length x" if "r \<in> set rs" for r x
    using assms(1) that by (auto simp: full_tables_def list_all_iff)
  have hd: "hd rs \<in> set rs" using assms(2) by simp
  have plain: "plain_field f" if "r \<in> set rs" "x \<in> set (head r # rows r)" "f \<in> set x" for r x f
    using assms(5)[OF that(1,2)] that(3) by (simp add: list_all_iff)
  have "list_all plain_field (merged_spec rs rows i) \<and> merged_spec rs rows i \<noteq> []" if "i < n" for i
  proof -
    have nth: "rows r ! i \<in> set (rows r)" if "r \<in> set rs" for r using that rows(1) \<open>i < n\<close> by simp
    have "take 2 (rows (hd rs) ! i) \<noteq> []" using rows(2)[OF hd nth[OF hd]] by (cases "rows (hd rs) ! i") auto
    moreover have "plain_field x" if "r \<in> set rs" "x \<in> set (rows r ! i)" for r x
      using plain[OF that(1) _ that(2)] nth[OF that(1)] by simp
    ultimately show ?thesis unfolding merged_spec_def
      using hd by (auto simp: list_all_iff dest!: in_set_takeD in_set_dropD)
  qed
  moreover have "plain_field ''Percentile''" "plain_field ''FlowSize''" by code_simp+
  then have "list_all plain_field ?head" using plain by (auto simp: list_all_iff dest!: in_set_dropD)
  ultimately have "csv_read (concat (map csv_line (?head # map (merged_spec rs rows) [0..<n]))) = ?head # map (merged_spec rs rows) [0..<n]"
    by (intro csv_roundtrip) auto
  with merge_ok[OF assms(1-4)] show ?thesis by (auto simp: merged_spec_def)
qed

section \<open>Properties\<close>

text \<open>C15. When the table of every routing is there, with the same number of rows of plain fields, the merged
  file read back is the header with the columns of every routing and, row by row, the percentage and the
  size of the first table followed by the other fields of every table.\<close>

theorem merge_tables:
  assumes "full_tables rs rows n" "rs \<noteq> []" "distinct rs"
    and "\<And>r. r \<in> set rs \<Longrightarrow> \<exists>t. disk w (csv_name input_dir util r) = Some t \<and> csv_read t = head r # rows r"
    and "\<And>r x. r \<in> set rs \<Longrightarrow> x \<in> set (head r # rows r) \<Longrightarrow> list_all plain_field x"
  shows "\<exists>t w'. merge_fct_csvs util input_dir output_dir rs w = (Inr True, w') \<and>
    disk w' = (disk w)(merged_name output_dir util \<mapsto> t) \<and>
    csv_read t = ([''Percentile'', ''FlowSize''] @ concat (map (\<lambda>r. drop 2 (head r)) rs)) #
      map (\<lambda>i. take 2 (rows (hd rs) ! i) @ concat (map (\<lambda>r. drop 2 (rows r ! i)) rs)) [0..<n]"
  using assms by (rule merge_run)

theorem merge_tables_witness:
  "let w = \<lparr>disk = \<lambda>p. if p = ''out/0.3util/Ours_0.3util-FCTslowdown.csv'' then Some (concat (map csv_line [[''P'', ''S'', ''a''], [''0.0'', ''10'', ''1.5'']]))
      else Some (concat (map csv_line [[''P'', ''S'', ''b''], [''0.0'', ''12'', ''2.5'']])), console = []\<rparr>;
      head = (\<lambda>r. [''P'', ''S'', if r = ''Ours'' then ''a'' else ''b'']);
      rows = (\<lambda>r. [if r = ''Ours'' then [''0.0'', ''10'', ''1.5''] else [''0.0'', ''12'', ''2.5'']])
   in \<exists>t w'. merge_fct_csvs ''0.3util'' ''out'' ''out'' [''Ours'', ''ECMP''] w = (Inr True, w') \<and>
    disk w' = (disk w)(merged_name ''out'' ''0.3util'' \<mapsto> t) \<and>
    csv_read t = ([''Percentile'', ''FlowSize''] @ concat (map (\<lambda>r. drop 2 (head r)) [''Ours'', ''ECMP''])) #
      map (\<lambda>i. take 2 (rows (hd [''Ours'', ''ECMP'']) ! i) @ concat (map (\<lambda>r. drop 2 (rows r ! i)) [''Ours'', ''ECMP''])) [0..<1]"
proof -
  have read: "csv_read (concat (map csv_line [[''P'', ''S'', ''a''], [''0.0'', ''10'', ''1.5'']])) = [[''P'', ''S'', ''a''], [''0.0'', ''10'', ''1.5'']]"
    "csv_read (concat (map csv_line [[''P'', ''S'', ''b''], [''0.0'', ''12'', ''2.5'']])) = [[''P'', ''S'', ''b''], [''0.0'', ''12'', ''2.5'']]"
    by code_simp+
  have name: "csv_name ''out'' ''0.3util'' ''Ours'' = ''out/0.3util/Ours_0.3util-FCTslowdown.csv''"
    "csv_name ''out'' ''0.3util'' ''ECMP'' \<noteq> ''out/0.3util/Ours_0.3util-FCTslowdown.csv''"
    by code_simp+
  show ?thesis unfolding Let_def
  proof (rule merge_tables)
    fix r assume "r \<in> set [''Ours'', ''ECMP'']"
    then consider "r = ''Ours''" | "r = ''ECMP''" by auto
    then show "\<exists>t. disk \<lparr>disk = \<lambda>p. if p = ''out/0.3util/Ours_0.3util-FCTslowdown.csv'' then Some (concat (map csv_line [[''P'', ''S'', ''a''], [''0.0'', ''10'', ''1.5'']]))
      else Some (concat (map csv_line [[''P'', ''S'', ''b''], [''0.0'', ''12'', ''2.5'']])), console = []\<rparr> (csv_name ''out'' ''0.3util'' r) = Some t \<and>
      csv_read t = [''P'', ''S'', if r = ''Ours'' then ''a'' else ''b''] # [if r = ''Ours'' then [''0.0'', ''10'', ''1.5''] else [''0.0'', ''12'', ''2.5'']]"
    proof cases
      case 1
      then show ?thesis using name(1) read(1) by simp
    next
      case 2
      then show ?thesis using name(2) read(2) by simp
    qed
  qed (auto simp: full_tables_def plain_field_def csv_special_def split: if_splits)
qed

lemma merged_row_errors:
  assumes "2 \<le> length row"
  shows "(\<exists>x. merged_row rs data i row = Inr x) \<or> merged_row rs data i row = Inl IndexError"
    and "r \<in> set rs \<Longrightarrow> map_of data r = Some rows \<Longrightarrow> length rows \<le> i \<Longrightarrow> merged_row rs data i row = Inl IndexError"
proof -
  let ?f = "\<lambda>acc routing. case map_of data routing of None \<Rightarrow> Inr acc
       | Some rows \<Rightarrow> rbind (py_get rows (int i)) (\<lambda>r. Inr (acc @ drop 2 r))"
  have get: "py_get xs (int i) = Inl IndexError \<and> length xs \<le> i \<or> (\<exists>x. py_get xs (int i) = Inr x)" for xs :: csv_rows
    by (auto simp: py_get_def)
  have fold: "((\<exists>x. rfold ?f acc rs = Inr x) \<or> rfold ?f acc rs = Inl IndexError) \<and>
      (r \<in> set rs \<and> map_of data r = Some rows \<and> length rows \<le> i \<longrightarrow> rfold ?f acc rs = Inl IndexError)" for acc r rows
  proof (induction rs arbitrary: acc)
    case Nil
    then show ?case by simp
  next
    case (Cons q rs)
    show ?case
    proof (cases "map_of data q")
      case None
      then show ?thesis using Cons by auto
    next
      case (Some xs)
      show ?thesis
      proof (cases "length xs \<le> i")
        case True
        then show ?thesis using Some by (simp add: py_get_def)
      next
        case False
        then show ?thesis using Some Cons[of "acc @ drop 2 (xs ! i)"] by (auto simp: py_get_def)
      qed
    qed
  qed
  obtain p s cs where "row = p # s # cs" using assms by (metis Suc_le_length_iff numeral_2_eq_2)
  then have "merged_row rs data i row = rfold ?f [p, s] rs" by (simp add: merged_row_def py_get_def)
  then show "(\<exists>x. merged_row rs data i row = Inr x) \<or> merged_row rs data i row = Inl IndexError"
    and "r \<in> set rs \<Longrightarrow> map_of data r = Some rows \<Longrightarrow> length rows \<le> i \<Longrightarrow> merged_row rs data i row = Inl IndexError"
    using fold[of "[p, s]"] by auto
qed

lemma rmap_one_error:
  assumes "\<And>x. x \<in> set xs \<Longrightarrow> (\<exists>y. f x = Inr y) \<or> f x = Inl e" "x \<in> set xs" "f x = Inl e"
  shows "rmap f xs = Inl e"
  using assms
proof (induction xs)
  case Nil
  then show ?case by simp
next
  case (Cons a xs)
  from Cons.prems(1)[of a] consider y where "f a = Inr y" | "f a = Inl e" by auto
  then show ?case
  proof cases
    case 1
    then show ?thesis using Cons.IH Cons.prems by auto
  next
    case 2
    then show ?thesis by simp
  qed
qed

text \<open>When a table has fewer rows than the first one the merge ends with an IndexError, and no merged file
  is written; when no table is there it prints an error, returns False, and writes nothing.\<close>

theorem merge_errors:
  assumes "rs \<noteq> []" "distinct rs"
    and "\<And>r. r \<in> set rs \<Longrightarrow> \<exists>t. disk w (csv_name input_dir util r) = Some t \<and> csv_read t = head r # rows r"
    and "list_all (\<lambda>x. 2 \<le> length x) (rows (hd rs))" "r \<in> set rs" "length (rows r) < length (rows (hd rs))"
    and "\<And>r. disk v (csv_name input_dir util r) = None"
  shows "merge_fct_csvs util input_dir output_dir rs w = (Inl IndexError, w) \<and>
    (\<exists>v'. merge_fct_csvs util input_dir output_dir rs v = (Inr False, v') \<and> disk v' = disk v)"
proof
  let ?data = "map (\<lambda>r. (r, rows r)) rs" and ?i = "length (rows r)"
  note read = read_all[OF assms(3,2), of "[]" "[''Percentile'', ''FlowSize'']", simplified]
  obtain q rs' where rs: "rs = q # rs'" using assms(1) by (cases rs) auto
  have two: "2 \<le> length (rows (hd rs) ! i)" if "i < length (rows (hd rs))" for i
    using assms(4) that by (simp add: list_all_length)
  have "map_of ?data r = Some (rows r)" using assms(5) by (simp add: map_of_map_restrict)
  note short = merged_row_errors(2)[OF two[OF assms(6)] assms(5) this order_refl]
  have "rmap (\<lambda>i. merged_row rs ?data i (rows (hd rs) ! i)) [0..<length (rows (hd rs))] = Inl IndexError"
    by (rule rmap_one_error[where x = ?i]) (use two merged_row_errors(1) short assms(6) in auto)
  then have "merged_rows rs ?data (rows (hd rs)) = Inl IndexError"
    by (simp add: merged_rows_def enumerate_nth rmap_map comp_def)
  then show "merge_fct_csvs util input_dir output_dir rs w = (Inl IndexError, w)"
    unfolding merge_fct_csvs_def abind_def[of _ "\<lambda>(headers, data). _ headers data"] read by (simp add: rs)
  have "\<exists>ls. fold_each (read_routing util input_dir) acc qs u = (Inr acc, say ls u)" if "disk u = disk v" for acc qs u
    using that
  proof (induction qs arbitrary: u)
    case Nil
    then show ?case by (auto intro: exI[of _ "[]"])
  next
    case (Cons q qs)
    obtain m where "read_routing util input_dir acc q u = (Inr acc, say [m] u)"
      using Cons.prems assms(7) by (cases acc) (simp add: read_routing_def Let_def)
    moreover obtain ls where "fold_each (read_routing util input_dir) acc qs (say [m] u) = (Inr acc, say ls (say [m] u))"
      using Cons.IH[of "say [m] u"] Cons.prems by auto
    ultimately show ?case by (auto simp: abind_def)
  qed
  then obtain ls where "fold_each (read_routing util input_dir) ([''Percentile'', ''FlowSize''], []) rs v =
      (Inr ([''Percentile'', ''FlowSize''], []), say ls v)" by blast
  then show "\<exists>v'. merge_fct_csvs util input_dir output_dir rs v = (Inr False, v') \<and> disk v' = disk v"
    by (simp add: merge_fct_csvs_def abind_def)
qed

theorem merge_errors_witness:
  "let w = \<lparr>disk = \<lambda>p. if p = ''out/0.3util/Ours_0.3util-FCTslowdown.csv'' then Some (concat (map csv_line [[''P'', ''S''], [''0.0'', ''10'', ''1.5'']]))
      else Some (csv_line [''P'', ''S'']), console = []\<rparr>
   in merge_fct_csvs ''0.3util'' ''out'' ''out'' [''Ours'', ''ECMP''] w = (Inl IndexError, w) \<and>
    (\<exists>v'. merge_fct_csvs ''0.3util'' ''out'' ''out'' [''Ours'', ''ECMP''] \<lparr>disk = \<lambda>_. None, console = []\<rparr> = (Inr False, v') \<and>
      disk v' = (\<lambda>_. None))"
proof -
  have read: "csv_read (concat (map csv_line [[''P'', ''S''], [''0.0'', ''10'', ''1.5'']])) = [[''P'', ''S''], [''0.0'', ''10'', ''1.5'']]"
    "csv_read (csv_line [''P'', ''S'']) = [[''P'', ''S'']]"
    by code_simp+
  have name: "csv_name ''out'' ''0.3util'' ''Ours'' = ''out/0.3util/Ours_0.3util-FCTslowdown.csv''"
    "csv_name ''out'' ''0.3util'' ''ECMP'' \<noteq> ''out/0.3util/Ours_0.3util-FCTslowdown.csv''"
    by code_simp+
  let ?w = "\<lparr>disk = \<lambda>p. if p = ''out/0.3util/Ours_0.3util-FCTslowdown.csv'' then Some (concat (map csv_line [[''P'', ''S''], [''0.0'', ''10'', ''1.5'']]))
      else Some (csv_line [''P'', ''S'']), console = []\<rparr> :: world"
  have "\<exists>t. disk ?w (csv_name ''out'' ''0.3util'' r) = Some t \<and>
      csv_read t = [''P'', ''S''] # (if r = ''Ours'' then [[''0.0'', ''10'', ''1.5'']] else [])" if "r \<in> set [''Ours'', ''ECMP'']" for r
    using that read[simplified] name by auto
  then show ?thesis unfolding Let_def
    using merge_errors[where rs = "[''Ours'', ''ECMP'']" and input_dir = "''out''" and util = "''0.3util''" and output_dir = "''out''" and
        head = "\<lambda>_. [''P'', ''S'']" and rows = "\<lambda>r. if r = ''Ours'' then [[''0.0'', ''10'', ''1.5'']] else []" and r = "''ECMP''" and
        w = ?w and v = "\<lparr>disk = \<lambda>_. None, console = []\<rparr>"]
    by simp
qed

end
