(* ===== verification/CheckStyle.thy ===== *)
theory CheckStyle
  imports PyWorld
begin

text \<open>
  \<open>simulation/utils/check-style.py\<close>: the style checker.  It indents a file with \<open>uncrustify\<close>, takes the
  difference, undoes in it what only changes white space at the end of a line, and applies what is left
  with \<open>patch\<close>.  The core is a parser and a printer for patches in the unified format, and the pass that
  edits a parsed patch in place: the lines of a chunk are objects shared between its source side and its
  destination side, modelled by their positions in the chunk.  \<open>uncrustify\<close>, \<open>patch\<close>, \<open>hg\<close>, the unified
  difference of two lists of lines and the names of temporary files are parameters.
\<close>

section \<open>Patches\<close>

datatype line_kind = NoKind | Src | Dst | Both

record patch_line =
  line_kind :: line_kind
  line_text :: string

record chunk =
  src_pos :: int
  dst_pos :: int
  chunk_lines :: "patch_line list"

record patch =
  patch_src :: string
  patch_dst :: string
  patch_chunks :: "chunk list"

definition set_src :: "string \<Rightarrow> patch_line" where "set_src s = \<lparr>line_kind = Src, line_text = s\<rparr>"
definition set_dst :: "string \<Rightarrow> patch_line" where "set_dst s = \<lparr>line_kind = Dst, line_text = s\<rparr>"
definition set_both :: "string \<Rightarrow> patch_line" where "set_both s = \<lparr>line_kind = Both, line_text = s\<rparr>"

definition append_to_line :: "string \<Rightarrow> patch_line \<Rightarrow> patch_line" where
  "append_to_line s l = l\<lparr>line_text := line_text l @ s\<rparr>"

definition is_src :: "patch_line \<Rightarrow> bool" where "is_src l = (line_kind l = Src \<or> line_kind l = Both)"
definition is_dst :: "patch_line \<Rightarrow> bool" where "is_dst l = (line_kind l = Dst \<or> line_kind l = Both)"

definition write_line :: "patch_line \<Rightarrow> string res" where
  "write_line l = (case line_kind l of
       Src \<Rightarrow> Inr (''-'' @ line_text l @ [nl])
     | Dst \<Rightarrow> Inr (''+'' @ line_text l @ [nl])
     | Both \<Rightarrow> Inr ('' '' @ line_text l @ [nl])
     | NoKind \<Rightarrow> Inl (Raised ''invalid patch''))"

definition new_chunk :: "string \<Rightarrow> string \<Rightarrow> chunk res" where
  "new_chunk s d = rbind (py_int s) (\<lambda>s. rbind (py_int d) (\<lambda>d. Inr \<lparr>src_pos = s, dst_pos = d, chunk_lines = []\<rparr>))"

definition add_line :: "patch_line \<Rightarrow> chunk \<Rightarrow> chunk" where
  "add_line l c = c\<lparr>chunk_lines := chunk_lines c @ [l]\<rparr>"

definition chunk_src :: "chunk \<Rightarrow> patch_line list" where "chunk_src c = filter is_src (chunk_lines c)"
definition chunk_dst :: "chunk \<Rightarrow> patch_line list" where "chunk_dst c = filter is_dst (chunk_lines c)"

definition chunk_header :: "chunk \<Rightarrow> string" where
  "chunk_header c = ''@@ -'' @ str_int (src_pos c) @ '','' @ str_int (int (length (chunk_src c))) @ '' +'' @
     str_int (dst_pos c) @ '','' @ str_int (int (length (chunk_dst c))) @ '' @@'' @ [nl]"

definition write_chunk :: "chunk \<Rightarrow> string list res" where
  "write_chunk c = rbind (rmap write_line (chunk_lines c)) (\<lambda>ls. Inr (chunk_header c # ls))"

definition new_patch :: patch where "new_patch = \<lparr>patch_src = [], patch_dst = [], patch_chunks = []\<rparr>"

definition add_chunk :: "chunk \<Rightarrow> patch \<Rightarrow> patch" where
  "add_chunk c p = p\<lparr>patch_chunks := patch_chunks p @ [c]\<rparr>"

definition write_patch :: "patch \<Rightarrow> string list res" where
  "write_patch p = rbind (rmap write_chunk (patch_chunks p)) (\<lambda>cs.
     Inr ((''--- '' @ patch_src p @ [nl]) # (''+++ '' @ patch_dst p @ [nl]) # concat cs))"

section \<open>The parser\<close>

text \<open>The match of \<open>^p(.*)$\<close> for a literal \<open>p\<close>: the dot stops at a line end, which must then be the end.\<close>

definition match_rest :: "string \<Rightarrow> string \<Rightarrow> string option" where
  "match_rest p line =
     (if startswith p line then
        (let r = drop (length p) line; b = takeWhile (\<lambda>c. c \<noteq> nl) r
         in if dropWhile (\<lambda>c. c \<noteq> nl) r \<in> {[], [nl]} then Some b else None)
      else None)"

definition expect :: "string \<Rightarrow> string \<Rightarrow> string option" where
  "expect p s = (if startswith p s then Some (drop (length p) s) else None)"

definition expect_number :: "string \<Rightarrow> (string \<times> string) option" where
  "expect_number s = (let ds = takeWhile is_digit s in if ds = [] then None else Some (ds, dropWhile is_digit s))"

text \<open>\<open>^@@ -([0-9]+),([0-9]+) \+([0-9]+),([0-9]+) @@\<close>, the groups 1 and 3.\<close>

definition match_chunk :: "string \<Rightarrow> (string \<times> string) option" where
  "match_chunk line =
     Option.bind (expect ''@@ -'' line) (\<lambda>s. Option.bind (expect_number s) (\<lambda>(a, s).
     Option.bind (expect '','' s) (\<lambda>s. Option.bind (expect_number s) (\<lambda>(n, s).
     Option.bind (expect '' +'' s) (\<lambda>s. Option.bind (expect_number s) (\<lambda>(b, s).
     Option.bind (expect '','' s) (\<lambda>s. Option.bind (expect_number s) (\<lambda>(m, s).
     Option.bind (expect '' @@'' s) (\<lambda>s. Some (a, b))))))))))"

text \<open>\<open>current_patch\<close> is the last patch of the set; \<open>current_chunk\<close>, once assigned, is a chunk of some patch,
  which a later patch does not reset.\<close>

record parse_state =
  patchset :: "patch list"
  current_chunk :: "(nat \<times> nat) option"

definition on_current_patch :: "(patch \<Rightarrow> patch) \<Rightarrow> parse_state \<Rightarrow> parse_state res" where
  "on_current_patch f st = (if patchset st = [] then Inl AttributeError
     else Inr (st\<lparr>patchset := butlast (patchset st) @ [f (last (patchset st))]\<rparr>))"

definition add_to_chunk :: "patch_line \<Rightarrow> parse_state \<Rightarrow> parse_state res" where
  "add_to_chunk l st = (case current_chunk st of
       None \<Rightarrow> Inl UnboundLocalError
     | Some (i, j) \<Rightarrow>
         let p = patchset st ! i; p' = p\<lparr>patch_chunks := (patch_chunks p)[j := add_line l (patch_chunks p ! j)]\<rparr>
         in Inr (st\<lparr>patchset := (patchset st)[i := p']\<rparr>))"

definition start_chunk :: "string \<Rightarrow> string \<Rightarrow> parse_state \<Rightarrow> parse_state res" where
  "start_chunk a b st =
     rbind (new_chunk a b) (\<lambda>c. rbind (on_current_patch (add_chunk c) st) (\<lambda>st.
     Inr (st\<lparr>current_chunk := Some (length (patchset st) - 1, length (patch_chunks (last (patchset st))) - 1)\<rparr>)))"

definition parse_line :: "parse_state \<Rightarrow> string \<Rightarrow> parse_state res" where
  "parse_line st line =
     (case match_rest ''--- '' line of Some s \<Rightarrow> Inr (st\<lparr>patchset := patchset st @ [new_patch\<lparr>patch_src := s\<rparr>]\<rparr>)
      | None \<Rightarrow>
     (case match_rest ''+++ '' line of Some d \<Rightarrow> on_current_patch (\<lambda>p. p\<lparr>patch_dst := d\<rparr>) st
      | None \<Rightarrow>
     (case match_chunk line of Some (a, b) \<Rightarrow> start_chunk a b st
      | None \<Rightarrow>
     (case match_rest ''-'' line of Some s \<Rightarrow> add_to_chunk (set_src s) st
      | None \<Rightarrow>
     (case match_rest ''+'' line of Some s \<Rightarrow> add_to_chunk (set_dst s) st
      | None \<Rightarrow>
     (case match_rest '' '' line of Some s \<Rightarrow> add_to_chunk (set_both s) st
      | None \<Rightarrow> Inl (Raised [])))))))"

definition parse_patchset :: "string list \<Rightarrow> patch list res" where
  "parse_patchset generator =
     rbind (rfold parse_line \<lparr>patchset = [], current_chunk = None\<rparr> generator) (\<lambda>st. Inr (patchset st))"

section \<open>Changes of trailing white space\<close>

text \<open>The match of \<open>^(.*)([ \t]+)$\<close>: the first group is greedy and leaves one character to the second.\<close>

definition match_trailing :: "string \<Rightarrow> (string \<times> string) option" where
  "match_trailing s = (if s \<noteq> [] \<and> last s \<in> {sp, tab} then Some (butlast s, [last s]) else None)"

text \<open>The loop over the two sides of a chunk by the positions of their lines in the chunk; it fails when the
  destination side is shorter, and the exception ends the whole pass.\<close>

definition restore_space :: "nat \<Rightarrow> nat \<Rightarrow> patch_line list \<Rightarrow> patch_line list" where
  "restore_space s d ls = (case match_trailing (line_text (ls ! s)) of
       None \<Rightarrow> ls
     | Some (g1, g2) \<Rightarrow> if g1 = line_text (ls ! d) then ls[d := append_to_line g2 (ls ! d)] else ls)"

fun whitespace_loop :: "nat list \<Rightarrow> nat list \<Rightarrow> patch_line list \<Rightarrow> patch_line list \<times> bool" where
  "whitespace_loop [] ds ls = (ls, True)"
| "whitespace_loop (s # ss) [] ls = (ls, False)"
| "whitespace_loop (s # ss) (d # ds) ls = whitespace_loop ss ds (restore_space s d ls)"

definition positions :: "(patch_line \<Rightarrow> bool) \<Rightarrow> patch_line list \<Rightarrow> nat list" where
  "positions P ls = filter (\<lambda>j. P (ls ! j)) [0..<length ls]"

definition whitespace_chunk :: "chunk \<Rightarrow> chunk \<times> bool" where
  "whitespace_chunk c = (let ls = chunk_lines c; (ls', ok) = whitespace_loop (positions is_src ls) (positions is_dst ls) ls
     in (c\<lparr>chunk_lines := ls'\<rparr>, ok))"

fun until_failure :: "('a \<Rightarrow> 'a \<times> bool) \<Rightarrow> 'a list \<Rightarrow> 'a list \<times> bool" where
  "until_failure f [] = ([], True)"
| "until_failure f (x # xs) =
     (let (x', ok) = f x
      in if ok then (let (xs', ok) = until_failure f xs in (x' # xs', ok)) else (x' # xs, False))"

definition whitespace_patch :: "patch \<Rightarrow> patch \<times> bool" where
  "whitespace_patch p = (let (cs, ok) = until_failure whitespace_chunk (patch_chunks p) in (p\<lparr>patch_chunks := cs\<rparr>, ok))"

definition remove_trailing_whitespace_changes :: "string list \<Rightarrow> patch list res" where
  "remove_trailing_whitespace_changes patch_generator =
     rbind (parse_patchset patch_generator) (\<lambda>ps. Inr (fst (until_failure whitespace_patch ps)))"

section \<open>The configuration of uncrustify\<close>

definition cfg_level0 :: string where
  "cfg_level0 = nl # concat (map (\<lambda>l. l @ [nl]) [
    ''sp_func_proto_paren=Add'', ''sp_func_def_paren=Add'', ''sp_func_call_paren=Add'', ''sp_after_semi_for=Ignore'',
    ''sp_before_sparen=Ignore'', ''sp_type_func=Ignore'', ''sp_after_type=Ignore'',
    ''nl_class_leave_one_liners=True'', ''nl_enum_leave_one_liners=True'', ''nl_func_leave_one_liners=True'',
    ''nl_assign_leave_one_liners=True'', ''#nl_collapse_empty_body=False'', ''nl_getset_leave_one_liners=True'',
    ''nl_if_leave_one_liners=True'', ''nl_fdef_brace=Ignore'', ''# finally, indentation configuration'',
    ''indent_with_tabs=0'', ''indent_namespace=false'', ''indent_columns=2'', ''indent_brace=2'',
    ''indent_case_brace=2'', ''indent_class=true'', ''indent_class_colon=True'', ''# alignment'',
    ''indent_align_assign=False'', ''align_left_shift=True'', ''# comment reformating disabled'',
    ''cmt_reflow_mode=1 # do not touch comments at all'', ''cmt_indent_multi=False # really, do not touch them''])"

definition cfg_level1 :: string where
  "cfg_level1 = nl # concat (map (\<lambda>l. l @ [nl]) [
    ''# extra spaces here and there'', ''sp_brace_typedef=Add'', ''sp_enum_assign=Add'', ''sp_before_sparen=Add'',
    ''sp_after_semi_for=Add'', ''sp_arith=Add'', ''sp_assign=Add'', ''sp_compare=Add'', ''sp_func_class_paren=Add'',
    ''sp_after_type=Add'', ''sp_type_func=Add'', ''sp_angle_paren=Add''])"

definition cfg_level2 :: string where
  "cfg_level2 = nl # concat (map (\<lambda>l. l @ [nl]) [
    ''nl_collapse_empty_body=False'', ''nl_if_brace=Add'', ''nl_brace_else=Add'', ''nl_elseif_brace=Add'',
    ''nl_else_brace=Add'', ''nl_while_brace=Add'', ''nl_do_brace=Add'', ''nl_for_brace=Add'', ''nl_brace_while=Add'',
    ''nl_switch_brace=Add'', ''nl_after_case=True'', ''nl_namespace_brace=Remove'', ''nl_after_brace_open=True'',
    ''nl_class_leave_one_liners=False'', ''nl_enum_leave_one_liners=False'', ''nl_func_leave_one_liners=False'',
    ''nl_if_leave_one_liners=False'', ''nl_class_colon=Ignore'', ''nl_after_access_spec=1'',
    ''nl_after_semicolon=True'', ''pos_class_colon=Lead'', ''pos_class_comma=Trail'', ''pos_bool=Lead'',
    ''nl_class_init_args=Add'', ''nl_template_class=Add'', ''nl_class_brace=Add'', ''# does not work very well'',
    ''nl_func_type_name=Ignore'', ''nl_func_scope_name=Ignore'', ''nl_func_type_name_class=Ignore'',
    ''nl_func_proto_type_name=Ignore'', (''# function'' @ bytes [0x5C] @ ''n(''), ''nl_func_paren=Remove'',
    ''nl_fdef_brace=Add'', ''nl_struct_brace=Add'', ''nl_enum_brace=Add'', ''nl_union_brace=Add'',
    ''mod_full_brace_do=Add'', ''mod_full_brace_for=Add'', ''mod_full_brace_if=Add'', ''mod_full_brace_while=Add'',
    ''mod_full_brace_for=Add'', ''mod_remove_extra_semicolon=True'', ''# max code width'', ''#code_width=128'',
    ''#ls_for_split_full=True'', ''#ls_func_split_full=True''])"

definition cfg_text :: "int \<Rightarrow> string" where
  "cfg_text level = cfg_level0 @ (if 1 \<le> level then cfg_level1 else []) @ (if 2 \<le> level then cfg_level2 else [])"

section \<open>Indenting files\<close>

text \<open>The files, the number of temporary files made so far, and what was written to the console and to
  the error stream.\<close>

record style_state =
  style_files :: files
  temps :: nat
  stdout :: string
  stderr :: string

type_synonym 'a style = "(style_state, 'a) act"

text \<open>The programs and the library function the checker calls.\<close>

record style_tools =
  tmp_name :: "nat \<Rightarrow> string"
  uncrustify :: "string \<Rightarrow> string \<Rightarrow> (string \<times> string \<times> string) option"
  unified_diff :: "string list \<Rightarrow> string list \<Rightarrow> string \<Rightarrow> string \<Rightarrow> string list"
  patch_tool :: "string \<Rightarrow> string \<Rightarrow> string \<times> string \<times> string"
  hg_status :: "string list"

definition store :: "string \<Rightarrow> string \<Rightarrow> unit style" where
  "store p t = update (\<lambda>w. w\<lparr>style_files := (style_files w)(p \<mapsto> t)\<rparr>)"

definition load :: "string \<Rightarrow> string style" where
  "load p w = (open_text (style_files w) p, w)"

definition print_out :: "string \<Rightarrow> unit style" where "print_out s = update (\<lambda>w. w\<lparr>stdout := stdout w @ s\<rparr>)"
definition err :: "string \<Rightarrow> unit style" where "err s = update (\<lambda>w. w\<lparr>stderr := stderr w @ s\<rparr>)"

definition mkstemp :: "style_tools \<Rightarrow> string style" where
  "mkstemp T = abind (gets temps) (\<lambda>n.
     also_do (update (\<lambda>w. w\<lparr>temps := Suc n, style_files := (style_files w)(tmp_name T n \<mapsto> [])\<rparr>)) (ret (tmp_name T n)))"

definition copy_file :: "style_tools \<Rightarrow> string \<Rightarrow> string style" where
  "copy_file T filename =
     abind (mkstemp T) (\<lambda>pathname. abind (load filename) (\<lambda>t. also_do (store pathname t) (ret pathname)))"

definition copyfile :: "string \<Rightarrow> string \<Rightarrow> unit style" where
  "copyfile a b = abind (load a) (store b)"

definition hg_modified_files :: "style_tools \<Rightarrow> string list" where
  "hg_modified_files T = map strip (hg_status T)"

definition uncrustify_config_file :: "style_tools \<Rightarrow> int \<Rightarrow> string style" where
  "uncrustify_config_file T level =
     abind (mkstemp T) (\<lambda>pathname. also_do (store pathname (cfg_text level)) (ret pathname))"

definition do_if :: "bool \<Rightarrow> unit style \<Rightarrow> unit style" where
  "do_if b m = (if b then m else ret ())"

definition run_uncrustify :: "style_tools \<Rightarrow> string \<Rightarrow> string \<Rightarrow> string \<Rightarrow> bool \<Rightarrow> unit style" where
  "run_uncrustify T cfg source output debug =
     abind (load cfg) (\<lambda>c. abind (load source) (\<lambda>t. case uncrustify T c t of
         None \<Rightarrow> raise (Raised ''uncrustify not installed'')
       | Some (new, o1, e1) \<Rightarrow> also_do (store output new) (do_if debug (also_do (err o1) (err e1)))))"

text \<open>\<open>diff\<close> is a generator: writing it to the file of the initial difference leaves nothing of it.\<close>

definition final_text :: "int \<Rightarrow> string list \<Rightarrow> string res" where
  "final_text level diff =
     (if level < 3 then
        rbind (remove_trailing_whitespace_changes diff) (\<lambda>ps. case ps of
            [] \<Rightarrow> Inr []
          | p # _ \<Rightarrow> rbind (write_patch p) (\<lambda>ls. Inr (concat ls)))
      else Inr (concat diff))"

definition indent :: "style_tools \<Rightarrow> string \<Rightarrow> bool \<Rightarrow> int \<Rightarrow> string style" where
  "indent T source debug level =
     abind (mkstemp T) (\<lambda>output.
     abind (uncrustify_config_file T level) (\<lambda>cfg.
     also_do (do_if debug (also_do (err (''original file='' @ source @ [nl]))
       (also_do (err (''uncrustify config file='' @ cfg @ [nl])) (err (''temporary file='' @ output @ [nl])))))
    (also_do (run_uncrustify T cfg source output debug)
    (abind (load source) (\<lambda>src. abind (load output) (\<lambda>dst.
     let all_diff = unified_diff T (readlines src) (readlines dst) source output in
     abind (if debug then abind (mkstemp T) (\<lambda>initial_diff.
              also_do (err (''initial diff file='' @ initial_diff @ [nl]))
             (also_do (store initial_diff (concat all_diff)) (ret []))) else ret all_diff) (\<lambda>diff.
     abind (mkstemp T) (\<lambda>final_diff.
     abind (lift (final_text level diff)) (\<lambda>t.
     also_do (store final_diff t)
    (also_do (do_if debug (err (''final diff file='' @ final_diff @ [nl])))
    (also_do (copyfile source output)
    (abind (load output) (\<lambda>old.
     let (new, o1, e1) = patch_tool T t old in
     also_do (store output new)
    (also_do (do_if debug (also_do (err o1) (err e1))) (ret output)))))))))))))))"

definition indent_all :: "style_tools \<Rightarrow> bool \<Rightarrow> int \<Rightarrow> string list \<Rightarrow> (string \<times> string) list style" where
  "indent_all T debug level files =
     fold_each (\<lambda>output f. abind (indent T f debug level) (\<lambda>dst. ret (output @ [(f, dst)]))) [] files"

definition same_file :: "style_state \<Rightarrow> string \<times> string \<Rightarrow> bool" where
  "same_file w p = (style_files w (fst p) = style_files w (snd p))"

definition indent_files :: "style_tools \<Rightarrow> string list \<Rightarrow> bool \<Rightarrow> bool \<Rightarrow> int \<Rightarrow> bool \<Rightarrow> bool style" where
  "indent_files T files diff debug level inplace =
     abind (indent_all T debug level files) (\<lambda>output.
     if inplace then also_do (each (\<lambda>(src, dst). copyfile dst src) output) (ret True)
     else abind (gets (\<lambda>w. filter (\<lambda>p. \<not> same_file w p) output)) (\<lambda>failed.
       if failed = [] then ret True
       else also_do
         (if \<not> diff then also_do (print_out (''Found '' @ str_int (int (length failed)) @ ('' badly indented files:'' @ bytes [0x0A])))
              (each (\<lambda>(src, dst). print_out (''  '' @ src @ [nl])) failed)
          else each (\<lambda>(src, dst). abind (load src) (\<lambda>s. abind (load dst) (\<lambda>d.
              print_out (concat (unified_diff T (readlines s) (readlines d) src dst))))) failed)
         (ret False)))"

definition run_as_hg_hook :: "style_tools \<Rightarrow> bool style" where
  "run_as_hg_hook T =
     abind (indent_files T (hg_modified_files T) False False 0 False) (\<lambda>ok. if \<not> ok then ret True else ret False)"

record style_options =
  opt_debug :: bool
  opt_level :: int
  opt_hg_hook :: bool
  opt_hg :: bool
  opt_file :: string
  opt_diff :: bool
  opt_in_place :: bool

definition style_defaults :: style_options where
  "style_defaults = \<lparr>opt_debug = False, opt_level = 0, opt_hg_hook = False, opt_hg = False, opt_file = [],
     opt_diff = False, opt_in_place = False\<rparr>"

definition run_as_main :: "style_tools \<Rightarrow> style_options \<Rightarrow> unit style" where
  "run_as_main T opts =
     also_do
       (if opt_hg_hook opts then
          abind (indent_files T (hg_modified_files T) False (opt_debug opts) (opt_level opts) False) (\<lambda>ok.
          if \<not> ok then raise (SysExit 1) else ret ())
        else if opt_hg opts then
          abind (indent_files T (hg_modified_files T) (opt_diff opts) (opt_debug opts) (opt_level opts) (opt_in_place opts))
            (\<lambda>_. ret ())
        else if opt_file opts \<noteq> [] then
          abind (gets (\<lambda>w. style_files w (opt_file opts) \<noteq> None)) (\<lambda>found.
          if \<not> found then also_do (print_out (''file '' @ opt_file opts @ ('' does not exist'' @ bytes [0x0A]))) (raise (SysExit 1))
          else abind (indent_files T [opt_file opts] (opt_diff opts) (opt_debug opts) (opt_level opts) (opt_in_place opts))
            (\<lambda>_. ret ()))
        else ret ())
       (raise (SysExit 0))"

section \<open>Printing and parsing\<close>

definition printable_line :: "patch_line \<Rightarrow> bool" where
  "printable_line l = (line_kind l \<noteq> NoKind \<and> nl \<notin> set (line_text l) \<and>
     (line_kind l = Src \<longrightarrow> \<not> startswith ''-- '' (line_text l)) \<and>
     (line_kind l = Dst \<longrightarrow> \<not> startswith ''++ '' (line_text l)))"

definition printable_chunk :: "chunk \<Rightarrow> bool" where
  "printable_chunk c = (0 \<le> src_pos c \<and> 0 \<le> dst_pos c \<and> list_all printable_line (chunk_lines c))"

definition printable_patch :: "patch \<Rightarrow> bool" where
  "printable_patch p = (nl \<notin> set (patch_src p) \<and> nl \<notin> set (patch_dst p) \<and> list_all printable_chunk (patch_chunks p))"

definition line_of :: "patch_line \<Rightarrow> string" where
  "line_of l = (case line_kind l of Src \<Rightarrow> ''-'' | Dst \<Rightarrow> ''+'' | _ \<Rightarrow> '' '') @ line_text l @ [nl]"

lemma write_line_of: "line_kind l \<noteq> NoKind \<Longrightarrow> write_line l = Inr (line_of l)"
  by (cases "line_kind l") (simp_all add: write_line_def line_of_def)

lemma startswith_snoc_nl: "nl \<notin> set p \<Longrightarrow> startswith p (t @ [nl]) = startswith p t"
  by (induction p arbitrary: t) (case_tac t; auto)+

lemma takeWhile_nl: "nl \<notin> set t \<Longrightarrow> takeWhile (\<lambda>c. c \<noteq> nl) (t @ [nl]) = t" "nl \<notin> set t \<Longrightarrow> dropWhile (\<lambda>c. c \<noteq> nl) (t @ [nl]) = [nl]"
  by (induction t) auto

lemma match_rest_append: "nl \<notin> set t \<Longrightarrow> match_rest p (p @ t @ [nl]) = Some t"
  by (simp add: match_rest_def takeWhile_nl Let_def)

lemma match_rest_no: "\<not> startswith p line \<Longrightarrow> match_rest p line = None"
  by (simp add: match_rest_def)

lemma expect_append [simp]: "expect p (p @ s) = Some s"
  by (simp add: expect_def)

lemma expect_number_append [simp]:
  assumes "\<not> is_digit c"
  shows "expect_number (str_nat n @ c # s) = Some (str_nat n, c # s)"
proof -
  have "takeWhile is_digit (str_nat n @ c # s) = str_nat n" "dropWhile is_digit (str_nat n @ c # s) = c # s"
    using str_nat_digits[of _ n] assms by (auto simp: takeWhile_append dropWhile_append)
  then show ?thesis by (simp add: expect_number_def)
qed

lemma match_chunk_header:
  assumes "0 \<le> src_pos c" "0 \<le> dst_pos c"
  shows "match_chunk (chunk_header c) = Some (str_int (src_pos c), str_int (dst_pos c))"
proof -
  have d: "\<not> is_digit (CHR '','')" "\<not> is_digit sp" by (simp_all add: is_digit_def)
  have e: "expect '','' (CHR '','' # s) = Some s" "expect '' +'' (sp # CHR ''+'' # s) = Some s"
     "expect '' @@'' (sp # CHR ''@'' # CHR ''@'' # s) = Some s" "expect ''@@ -'' (CHR ''@'' # CHR ''@'' # sp # CHR ''-'' # s) = Some s" for s
    by (simp_all add: expect_def)
  show ?thesis using assms by (simp add: match_chunk_def chunk_header_def str_int_nat d e)
qed

lemma parse_src_file: "nl \<notin> set s \<Longrightarrow>
  parse_line st (''--- '' @ s @ [nl]) = Inr (st\<lparr>patchset := patchset st @ [new_patch\<lparr>patch_src := s\<rparr>]\<rparr>)"
  using match_rest_append[of s "''--- ''"] by (simp add: parse_line_def)

lemma parse_dst_file:
  assumes "nl \<notin> set d" "patchset st = ps @ [p]"
  shows "parse_line st (''+++ '' @ d @ [nl]) = Inr (st\<lparr>patchset := ps @ [p\<lparr>patch_dst := d\<rparr>]\<rparr>)"
  using match_rest_append[OF assms(1), of "''+++ ''"] assms(2) by (simp add: parse_line_def match_rest_no on_current_patch_def)

lemma parse_header:
  assumes "0 \<le> src_pos c" "0 \<le> dst_pos c" "patchset st = ps @ [p]"
  shows "parse_line st (chunk_header c) =
    Inr (st\<lparr>patchset := ps @ [add_chunk (c\<lparr>chunk_lines := []\<rparr>) p], current_chunk := Some (length ps, length (patch_chunks p))\<rparr>)"
proof -
  have "match_rest ''--- '' (chunk_header c) = None" "match_rest ''+++ '' (chunk_header c) = None"
    by (simp_all add: chunk_header_def match_rest_no)
  moreover have "\<lparr>src_pos = src_pos c, dst_pos = dst_pos c, chunk_lines = []\<rparr> = c\<lparr>chunk_lines := []\<rparr>" by simp
  ultimately show ?thesis
    using assms by (simp add: parse_line_def match_chunk_header start_chunk_def new_chunk_def on_current_patch_def add_chunk_def)
qed

lemma parse_body_line:
  assumes "printable_line l"
  shows "parse_line st (line_of l) = add_to_chunk l st"
proof -
  have n: "nl \<notin> set (line_text l)" using assms by (simp add: printable_line_def)
  have s: "startswith ''-- '' (line_text l @ [nl]) = startswith ''-- '' (line_text l)" "startswith ''++ '' (line_text l @ [nl]) = startswith ''++ '' (line_text l)"
    by (rule startswith_snoc_nl, simp)+
  have c: "match_chunk (k # t) = None" if "k \<noteq> CHR ''@''" for k t
    using that by (simp add: match_chunk_def expect_def)
  have k: "line_kind l = Src \<or> line_kind l = Dst \<or> line_kind l = Both" using assms by (cases "line_kind l") (auto simp: printable_line_def)
  have l: "set_src (line_text l) = l" if "line_kind l = Src" using that by (simp add: set_src_def)
  have l': "set_dst (line_text l) = l" if "line_kind l = Dst" using that by (simp add: set_dst_def)
  have l'': "set_both (line_text l) = l" if "line_kind l = Both" using that by (simp add: set_both_def)
  from k show ?thesis
    using assms s n match_rest_append[OF n, of "''-''"] match_rest_append[OF n, of "''+''"] match_rest_append[OF n, of "'' ''"]
    by (elim disjE) (simp_all add: parse_line_def line_of_def match_rest_no c l l' l'' printable_line_def)
qed

lemma parse_lines:
  assumes "list_all printable_line ls" "patchset st = ps @ [p]" "patch_chunks p = cs @ [c]" "current_chunk st = Some (length ps, length cs)"
  shows "rfold parse_line st (map line_of ls) =
    Inr (st\<lparr>patchset := ps @ [p\<lparr>patch_chunks := cs @ [c\<lparr>chunk_lines := chunk_lines c @ ls\<rparr>]\<rparr>]\<rparr>)"
  using assms
proof (induction ls arbitrary: st p c)
  case Nil
  then show ?case by (cases st, cases p, cases c) simp
next
  case (Cons l ls)
  let ?p = "p\<lparr>patch_chunks := cs @ [add_line l c]\<rparr>"
  have "parse_line st (line_of l) = Inr (st\<lparr>patchset := ps @ [?p]\<rparr>)"
    using Cons.prems by (simp add: parse_body_line add_to_chunk_def Let_def nth_append list_update_append)
  moreover have "rfold parse_line (st\<lparr>patchset := ps @ [?p]\<rparr>) (map line_of ls) =
      Inr (st\<lparr>patchset := ps @ [?p], patchset := ps @ [?p\<lparr>patch_chunks := cs @ [(add_line l c)\<lparr>chunk_lines := chunk_lines (add_line l c) @ ls\<rparr>]\<rparr>]\<rparr>)"
    by (rule Cons.IH) (use Cons.prems in simp_all)
  ultimately show ?case by (simp add: add_line_def)
qed

definition lines_of :: "patch \<Rightarrow> string list" where
  "lines_of p = (''--- '' @ patch_src p @ [nl]) # (''+++ '' @ patch_dst p @ [nl]) #
     concat (map (\<lambda>c. chunk_header c # map line_of (chunk_lines c)) (patch_chunks p))"

lemma write_patch_lines: "printable_patch p \<Longrightarrow> write_patch p = Inr (lines_of p)"
proof -
  assume p: "printable_patch p"
  have "write_chunk c = Inr (chunk_header c # map line_of (chunk_lines c))" if "c \<in> set (patch_chunks p)" for c
  proof -
    have "rmap write_line (chunk_lines c) = Inr (map line_of (chunk_lines c))"
      using p that by (intro rmap_total write_line_of) (auto simp: printable_patch_def printable_chunk_def printable_line_def list_all_iff)
    then show ?thesis by (simp add: write_chunk_def)
  qed
  then have "rmap write_chunk (patch_chunks p) = Inr (map (\<lambda>c. chunk_header c # map line_of (chunk_lines c)) (patch_chunks p))"
    by (rule rmap_total)
  then show ?thesis by (simp add: write_patch_def lines_of_def)
qed

lemma parse_chunks:
  assumes "list_all printable_chunk cs" "patchset st = ps @ [p]"
  shows "\<exists>k. rfold parse_line st (concat (map (\<lambda>c. chunk_header c # map line_of (chunk_lines c)) cs)) =
    Inr (st\<lparr>patchset := ps @ [p\<lparr>patch_chunks := patch_chunks p @ cs\<rparr>], current_chunk := k\<rparr>)"
  using assms
proof (induction cs arbitrary: st p)
  case Nil
  then show ?case by (intro exI[of _ "current_chunk st"]) (cases st, cases p, simp)
next
  case (Cons c cs)
  then have c: "0 \<le> src_pos c" "0 \<le> dst_pos c" "list_all printable_line (chunk_lines c)" by (auto simp: printable_chunk_def)
  let ?c = "c\<lparr>chunk_lines := []\<rparr>"
  let ?st = "st\<lparr>patchset := ps @ [add_chunk ?c p], current_chunk := Some (length ps, length (patch_chunks p))\<rparr>"
  have "rfold parse_line ?st (map line_of (chunk_lines c)) =
      Inr (?st\<lparr>patchset := ps @ [(add_chunk ?c p)\<lparr>patch_chunks := patch_chunks p @ [?c\<lparr>chunk_lines := chunk_lines ?c @ chunk_lines c\<rparr>]\<rparr>]\<rparr>)"
    by (rule parse_lines[OF c(3)]) (simp_all add: add_chunk_def)
  then have body: "rfold parse_line ?st (map line_of (chunk_lines c)) = Inr (?st\<lparr>patchset := ps @ [add_chunk c p]\<rparr>)"
    by (simp add: add_chunk_def)
  obtain k where "rfold parse_line (?st\<lparr>patchset := ps @ [add_chunk c p]\<rparr>) (concat (map (\<lambda>c. chunk_header c # map line_of (chunk_lines c)) cs)) =
      Inr (?st\<lparr>patchset := ps @ [add_chunk c p], patchset := ps @ [(add_chunk c p)\<lparr>patch_chunks := patch_chunks (add_chunk c p) @ cs\<rparr>], current_chunk := k\<rparr>)"
    using Cons.IH[of "?st\<lparr>patchset := ps @ [add_chunk c p]\<rparr>" "add_chunk c p"] Cons.prems(1) by auto
  then show ?case using parse_header[OF c(1,2) Cons.prems(2)] body
    by (intro exI[of _ k]) (simp add: rfold_append add_chunk_def)
qed

lemma parse_patches:
  assumes "list_all printable_patch ps"
  shows "\<exists>k. rfold parse_line st (concat (map lines_of ps)) = Inr (st\<lparr>patchset := patchset st @ ps, current_chunk := k\<rparr>)"
  using assms
proof (induction ps arbitrary: st)
  case Nil
  then show ?case by (intro exI[of _ "current_chunk st"]) simp
next
  case (Cons p ps)
  then have p: "nl \<notin> set (patch_src p)" "nl \<notin> set (patch_dst p)" "list_all printable_chunk (patch_chunks p)"
    by (auto simp: printable_patch_def)
  let ?p = "new_patch\<lparr>patch_src := patch_src p, patch_dst := patch_dst p\<rparr>"
  let ?st = "st\<lparr>patchset := patchset st @ [?p]\<rparr>"
  have head: "rfold parse_line st (lines_of p) =
      rfold parse_line ?st (concat (map (\<lambda>c. chunk_header c # map line_of (chunk_lines c)) (patch_chunks p)))"
    using parse_src_file[OF p(1), of st]
      parse_dst_file[OF p(2), of "st\<lparr>patchset := patchset st @ [new_patch\<lparr>patch_src := patch_src p\<rparr>]\<rparr>" "patchset st"]
    by (simp add: lines_of_def)
  have whole: "?p\<lparr>patch_chunks := patch_chunks ?p @ patch_chunks p\<rparr> = p" by (simp add: new_patch_def)
  obtain k where "rfold parse_line ?st (concat (map (\<lambda>c. chunk_header c # map line_of (chunk_lines c)) (patch_chunks p))) =
      Inr (?st\<lparr>patchset := patchset st @ [p], current_chunk := k\<rparr>)"
    using parse_chunks[OF p(3), of ?st "patchset st" ?p] unfolding whole by auto
  with head have step: "rfold parse_line st (lines_of p) = Inr (st\<lparr>patchset := patchset st @ [p], current_chunk := k\<rparr>)" by simp
  obtain k' where "rfold parse_line (st\<lparr>patchset := patchset st @ [p], current_chunk := k\<rparr>) (concat (map lines_of ps)) =
      Inr (st\<lparr>patchset := (patchset st @ [p]) @ ps, current_chunk := k'\<rparr>)"
    using Cons.IH[of "st\<lparr>patchset := patchset st @ [p], current_chunk := k\<rparr>"] Cons.prems by auto
  with step show ?case by (intro exI[of _ k']) (simp add: rfold_append)
qed

text \<open>C23. The patches written by the printer are read back by the parser, line by line, as long as no
  removed line begins with two dashes and a space, no added line with two pluses and a space, and no text
  contains a line end.\<close>

theorem patch_roundtrip:
  assumes "list_all printable_patch ps"
  shows "\<exists>ls. rmap write_patch ps = Inr ls \<and> parse_patchset (concat ls) = Inr ps"
proof -
  have "rmap write_patch ps = Inr (map lines_of ps)"
    by (rule rmap_total) (use assms write_patch_lines in \<open>auto simp: list_all_iff\<close>)
  moreover have "parse_patchset (concat (map lines_of ps)) = Inr ps"
    using parse_patches[OF assms, of "\<lparr>patchset = [], current_chunk = None\<rparr>"] by (auto simp: parse_patchset_def)
  ultimately show ?thesis by blast
qed

theorem patch_roundtrip_witness:
  "let ps = [\<lparr>patch_src = ''a.cc'', patch_dst = ''b.cc'', patch_chunks =
      [\<lparr>src_pos = 1, dst_pos = 2, chunk_lines = [set_both ''x'', set_src ''y '', set_dst ''y'']\<rparr>]\<rparr>]
   in \<exists>ls. rmap write_patch ps = Inr ls \<and> parse_patchset (concat ls) = Inr ps"
  unfolding Let_def
  by (rule patch_roundtrip)
    (simp add: printable_patch_def printable_chunk_def printable_line_def set_both_def set_src_def set_dst_def)

text \<open>A removed line that begins with two dashes and a space is taken for the header of a new patch: the
  printed patch comes back as two, the chunk without the line and an empty patch named after it.\<close>

theorem removed_dashes_misparsed:
  assumes "printable_patch (p\<lparr>patch_chunks := [c]\<rparr>)" "nl \<notin> set t"
  shows "\<exists>ls. write_patch (p\<lparr>patch_chunks := [c\<lparr>chunk_lines := chunk_lines c @ [set_src (''-- '' @ t)]\<rparr>]\<rparr>) = Inr ls \<and>
    parse_patchset ls = Inr [p\<lparr>patch_chunks := [c]\<rparr>, new_patch\<lparr>patch_src := t\<rparr>]"
proof -
  let ?c = "c\<lparr>chunk_lines := chunk_lines c @ [set_src (''-- '' @ t)]\<rparr>"
  let ?st = "\<lparr>patchset = [], current_chunk = None\<rparr>"
  have c: "0 \<le> src_pos c" "0 \<le> dst_pos c" "list_all printable_line (chunk_lines c)"
    and p: "nl \<notin> set (patch_src p)" "nl \<notin> set (patch_dst p)"
    using assms(1) by (auto simp: printable_patch_def printable_chunk_def)
  have bad: "line_of (set_src (''-- '' @ t)) = ''--- '' @ t @ [nl]" by (simp add: line_of_def set_src_def)
  have "rmap write_line (chunk_lines ?c) = Inr (map line_of (chunk_lines ?c))"
    using c(3) by (intro rmap_total write_line_of) (auto simp: printable_line_def list_all_iff set_src_def)
  then have w: "write_patch (p\<lparr>patch_chunks := [?c]\<rparr>) = Inr ((''--- '' @ patch_src p @ [nl]) # (''+++ '' @ patch_dst p @ [nl]) #
      chunk_header ?c # map line_of (chunk_lines c) @ [''--- '' @ t @ [nl]])"
    using bad by (simp add: write_patch_def write_chunk_def)
  let ?q = "new_patch\<lparr>patch_src := patch_src p, patch_dst := patch_dst p\<rparr>"
  have head: "rfold parse_line ?st ((''--- '' @ patch_src p @ [nl]) # (''+++ '' @ patch_dst p @ [nl]) # ls) =
      rfold parse_line (?st\<lparr>patchset := [?q]\<rparr>) ls" for ls
    using parse_src_file[OF p(1), of ?st] parse_dst_file[OF p(2), of "?st\<lparr>patchset := [new_patch\<lparr>patch_src := patch_src p\<rparr>]\<rparr>" "[]"]
    by simp
  let ?st' = "?st\<lparr>patchset := [add_chunk (c\<lparr>chunk_lines := []\<rparr>) ?q], current_chunk := Some (0, 0)\<rparr>"
  have "parse_line (?st\<lparr>patchset := [?q]\<rparr>) (chunk_header ?c) = Inr ?st'"
    using parse_header[of ?c "?st\<lparr>patchset := [?q]\<rparr>" "[]" ?q] c(1,2) by (simp add: new_patch_def)
  moreover have "rfold parse_line ?st' (map line_of (chunk_lines c)) = Inr (?st'\<lparr>patchset := [?q\<lparr>patch_chunks := [c]\<rparr>]\<rparr>)"
    using parse_lines[OF c(3), of ?st' "[]" "add_chunk (c\<lparr>chunk_lines := []\<rparr>) ?q" "[]" "c\<lparr>chunk_lines := []\<rparr>"]
    by (simp add: add_chunk_def new_patch_def)
  moreover have "?q\<lparr>patch_chunks := [c]\<rparr> = p\<lparr>patch_chunks := [c]\<rparr>" by (simp add: new_patch_def)
  ultimately have "parse_patchset ((''--- '' @ patch_src p @ [nl]) # (''+++ '' @ patch_dst p @ [nl]) #
      chunk_header ?c # map line_of (chunk_lines c) @ [''--- '' @ t @ [nl]]) = Inr [p\<lparr>patch_chunks := [c]\<rparr>, new_patch\<lparr>patch_src := t\<rparr>]"
    unfolding parse_patchset_def head using parse_src_file[OF assms(2)] by (simp add: rfold_append)
  with w show ?thesis by blast
qed

theorem removed_dashes_misparsed_witness:
  "let p = \<lparr>patch_src = ''a'', patch_dst = ''b'', patch_chunks = []\<rparr>; c = \<lparr>src_pos = 1, dst_pos = 1, chunk_lines = [set_both ''x'']\<rparr>
   in \<exists>ls. write_patch (p\<lparr>patch_chunks := [c\<lparr>chunk_lines := chunk_lines c @ [set_src (''-- '' @ ''note'')]\<rparr>]\<rparr>) = Inr ls \<and>
    parse_patchset ls = Inr [p\<lparr>patch_chunks := [c]\<rparr>, new_patch\<lparr>patch_src := ''note''\<rparr>]"
  unfolding Let_def
  by (rule removed_dashes_misparsed) (simp_all add: printable_patch_def printable_chunk_def printable_line_def set_both_def)

section \<open>What the pass over a chunk changes\<close>

definition one_space_more :: "string \<Rightarrow> string \<Rightarrow> bool" where
  "one_space_more t t' = (t' = t \<or> t' = t @ [sp] \<or> t' = t @ [tab])"

definition line_kept :: "patch_line \<Rightarrow> patch_line \<Rightarrow> bool" where
  "line_kept l l' = (line_kind l' = line_kind l \<and> one_space_more (line_text l) (line_text l'))"

lemma match_trailing_Some: "match_trailing s = Some (g1, g2) \<Longrightarrow> s = g1 @ g2 \<and> (g2 = [sp] \<or> g2 = [tab])"
  by (cases s rule: rev_cases) (auto simp: match_trailing_def split: if_splits)

lemma restore_space:
  "length (restore_space s d ls) = length ls"
  "j \<noteq> d \<Longrightarrow> restore_space s d ls ! j = ls ! j"
  "d < length ls \<Longrightarrow> line_kept (ls ! d) (restore_space s d ls ! d)"
  using match_trailing_Some[of "line_text (ls ! s)"]
  by (auto simp: restore_space_def line_kept_def one_space_more_def append_to_line_def split: option.splits)

lemma line_kept_refl [simp]: "line_kept l l" by (simp add: line_kept_def one_space_more_def)

lemma whitespace_loop_kept:
  assumes "distinct ds" "\<And>d. d \<in> set ds \<Longrightarrow> d < length ls"
  shows "length (fst (whitespace_loop ss ds ls)) = length ls \<and>
    (\<forall>j < length ls. line_kept (ls ! j) (fst (whitespace_loop ss ds ls) ! j)) \<and>
    (\<forall>j < length ls. j \<notin> set ds \<longrightarrow> fst (whitespace_loop ss ds ls) ! j = ls ! j)"
  using assms
proof (induction ss ds ls rule: whitespace_loop.induct)
  case (3 s ss d ds ls)
  let ?ls = "restore_space s d ls"
  have IH: "length (fst (whitespace_loop ss ds ?ls)) = length ls"
      "j < length ls \<Longrightarrow> line_kept (?ls ! j) (fst (whitespace_loop ss ds ?ls) ! j)"
      "j < length ls \<Longrightarrow> j \<notin> set ds \<Longrightarrow> fst (whitespace_loop ss ds ?ls) ! j = ?ls ! j" for j
    using 3 by (simp_all add: restore_space(1))
  have "line_kept (ls ! j) (fst (whitespace_loop ss ds ?ls) ! j)" if j: "j < length ls" for j
  proof (cases "j = d")
    case True
    then have "fst (whitespace_loop ss ds ?ls) ! j = ?ls ! j" using IH(3)[OF j] 3(2) by simp
    then show ?thesis using restore_space(3)[of d ls s] True j by simp
  next
    case False
    then show ?thesis using IH(2)[OF j] restore_space(2)[OF False] by simp
  qed
  then show ?case using IH(1,3) restore_space(2) by simp
qed simp_all

lemma positions [simp]: "distinct (positions P ls)" "j \<in> set (positions P ls) \<longleftrightarrow> j < length ls \<and> P (ls ! j)"
  by (auto simp: positions_def)

definition chunk_kept :: "chunk \<Rightarrow> chunk \<Rightarrow> bool" where
  "chunk_kept c c' = (src_pos c' = src_pos c \<and> dst_pos c' = dst_pos c \<and> list_all2 line_kept (chunk_lines c) (chunk_lines c'))"

definition patch_kept :: "patch \<Rightarrow> patch \<Rightarrow> bool" where
  "patch_kept p p' = (patch_src p' = patch_src p \<and> patch_dst p' = patch_dst p \<and> list_all2 chunk_kept (patch_chunks p) (patch_chunks p'))"

lemma chunk_kept_refl [simp]: "chunk_kept c c" by (simp add: chunk_kept_def list_all2_same)
lemma patch_kept_refl [simp]: "patch_kept p p" by (simp add: patch_kept_def list_all2_same)

lemma whitespace_chunk_lines:
  "chunk_lines (fst (whitespace_chunk c)) = fst (whitespace_loop (positions is_src (chunk_lines c)) (positions is_dst (chunk_lines c)) (chunk_lines c))"
  "src_pos (fst (whitespace_chunk c)) = src_pos c" "dst_pos (fst (whitespace_chunk c)) = dst_pos c"
  by (simp_all add: whitespace_chunk_def Let_def split: prod.splits)

lemma whitespace_chunk_kept: "chunk_kept c (fst (whitespace_chunk c))"
  using whitespace_loop_kept[of "positions is_dst (chunk_lines c)" "chunk_lines c" "positions is_src (chunk_lines c)"]
  by (simp add: chunk_kept_def whitespace_chunk_lines list_all2_conv_all_nth)

lemma until_failure_related:
  assumes "\<And>x. R x (fst (f x))" "\<And>x. R x x"
  shows "list_all2 R xs (fst (until_failure f xs))"
proof (induction xs)
  case Nil
  then show ?case by simp
next
  case (Cons x xs)
  have "list_all2 R xs xs" using assms(2) by (simp add: list_all2_same)
  then show ?case using assms(1)[of x] Cons by (auto simp: Let_def split: prod.splits)
qed

lemma whitespace_patch_kept: "patch_kept p (fst (whitespace_patch p))"
  using until_failure_related[of chunk_kept whitespace_chunk "patch_chunks p"] whitespace_chunk_kept
  by (cases "until_failure whitespace_chunk (patch_chunks p)") (simp add: patch_kept_def whitespace_patch_def)

text \<open>The pass over a difference keeps its shape: as many patches, chunks and lines, at the same
  positions and of the same kinds, and every line is kept or gets one space or tab at its end.\<close>

theorem whitespace_pass_shape:
  assumes "parse_patchset diff = Inr ps"
  shows "\<exists>ps'. remove_trailing_whitespace_changes diff = Inr ps' \<and> list_all2 patch_kept ps ps'"
  using assms until_failure_related[of patch_kept whitespace_patch ps] whitespace_patch_kept
  by (simp add: remove_trailing_whitespace_changes_def)

theorem whitespace_pass_shape_witness:
  "let ps = [\<lparr>patch_src = ''a'', patch_dst = ''b'', patch_chunks = [\<lparr>src_pos = 1, dst_pos = 1, chunk_lines = [set_src ''x '', set_dst ''x'']\<rparr>]\<rparr>];
       diff = [''--- a\<newline>'', ''+++ b\<newline>'', ''@@ -1,1 +1,1 @@\<newline>'', ''-x \<newline>'', ''+x\<newline>'']
   in \<exists>ps'. remove_trailing_whitespace_changes diff = Inr ps' \<and> list_all2 patch_kept ps ps'"
  unfolding Let_def by (rule whitespace_pass_shape) code_simp

text \<open>In a chunk without context lines the two sides share no line.\<close>

definition restored :: "string \<Rightarrow> string \<Rightarrow> string" where
  "restored s d = (case match_trailing s of None \<Rightarrow> d | Some (g1, g2) \<Rightarrow> if g1 = d then s else d)"

fun restore_all :: "string list \<Rightarrow> string list \<Rightarrow> string list" where
  "restore_all (s # ss) (d # ds) = restored s d # restore_all ss ds"
| "restore_all ss ds = ds"

lemma whitespace_loop_texts:
  assumes "set ss \<inter> set ds = {}" "distinct ds" "\<And>j. j \<in> set ss \<union> set ds \<Longrightarrow> j < length ls"
  shows "map (\<lambda>j. line_text (fst (whitespace_loop ss ds ls) ! j)) ds =
      restore_all (map (\<lambda>j. line_text (ls ! j)) ss) (map (\<lambda>j. line_text (ls ! j)) ds)"
  using assms
proof (induction ss ds ls rule: whitespace_loop.induct)
  case (3 s ss d ds ls)
  let ?ls = "restore_space s d ls"
  have "fst (whitespace_loop ss ds ?ls) ! d = ?ls ! d"
    using whitespace_loop_kept[of ds ?ls ss] 3(3,4) by (simp add: restore_space(1))
  moreover have "line_text (?ls ! d) = restored (line_text (ls ! s)) (line_text (ls ! d))"
    using match_trailing_Some[of "line_text (ls ! s)"] 3(4)[of d]
    by (auto simp: restore_space_def restored_def append_to_line_def split: option.splits)
  moreover have "map (\<lambda>j. line_text (fst (whitespace_loop ss ds ?ls) ! j)) ds =
      restore_all (map (\<lambda>j. line_text (?ls ! j)) ss) (map (\<lambda>j. line_text (?ls ! j)) ds)"
    by (rule 3(1)) (use 3(2-4) in \<open>auto simp: restore_space(1)\<close>)
  moreover have "map (\<lambda>j. line_text (?ls ! j)) ss = map (\<lambda>j. line_text (ls ! j)) ss" "map (\<lambda>j. line_text (?ls ! j)) ds = map (\<lambda>j. line_text (ls ! j)) ds"
    using 3(2,3) by (auto intro!: arg_cong[where f = line_text] restore_space(2))
  ultimately show ?case by simp
qed simp_all

lemma filter_positions: "filter P ls = map (\<lambda>j. ls ! j) (positions P ls)"
  using filter_map[of P "(!) ls" "[0..<length ls]"] by (simp add: positions_def map_nth comp_def)

lemma positions_cong:
  "length ls' = length ls \<Longrightarrow> (\<And>j. j < length ls \<Longrightarrow> P (ls' ! j) = P (ls ! j)) \<Longrightarrow> positions P ls' = positions P ls"
  by (auto simp: positions_def intro!: filter_cong)

text \<open>In a chunk without context lines, every line of the new side that differs from the old side's line
  at the same place by one space or tab at the end becomes that line again; all others, and the old side,
  stay as they are.\<close>

theorem whitespace_restored:
  assumes "list_all (\<lambda>l. line_kind l \<noteq> Both) (chunk_lines c)"
  shows "map line_text (chunk_dst (fst (whitespace_chunk c))) =
      restore_all (map line_text (chunk_src c)) (map line_text (chunk_dst c)) \<and>
    chunk_src (fst (whitespace_chunk c)) = chunk_src c"
proof -
  let ?ls = "chunk_lines c"
  let ?ls' = "fst (whitespace_loop (positions is_src ?ls) (positions is_dst ?ls) ?ls)"
  have disj: "set (positions is_src ?ls) \<inter> set (positions is_dst ?ls) = {}"
    using assms by (auto simp: is_src_def is_dst_def list_all_length)
  note kept = whitespace_loop_kept[of "positions is_dst ?ls" ?ls "positions is_src ?ls", simplified]
  have pos: "positions is_dst ?ls' = positions is_dst ?ls" "positions is_src ?ls' = positions is_src ?ls"
    using kept by (auto intro!: positions_cong simp: line_kept_def is_dst_def is_src_def)
  have "map line_text (chunk_dst (fst (whitespace_chunk c))) = map (\<lambda>j. line_text (?ls' ! j)) (positions is_dst ?ls)"
    by (simp add: chunk_dst_def filter_positions[of is_dst] whitespace_chunk_lines pos)
  also have "\<dots> = restore_all (map (\<lambda>j. line_text (?ls ! j)) (positions is_src ?ls)) (map (\<lambda>j. line_text (?ls ! j)) (positions is_dst ?ls))"
    by (rule whitespace_loop_texts[OF disj]) auto
  finally have "map line_text (chunk_dst (fst (whitespace_chunk c))) =
      restore_all (map line_text (chunk_src c)) (map line_text (chunk_dst c))"
    by (simp add: chunk_dst_def chunk_src_def filter_positions[of _ ?ls] comp_def)
  moreover have "chunk_src (fst (whitespace_chunk c)) = chunk_src c"
  proof -
    have "?ls' ! j = ?ls ! j" if "j < length ?ls" "is_src (?ls ! j)" for j
      using kept that assms by (auto simp: is_src_def is_dst_def list_all_length)
    then show ?thesis by (simp add: chunk_src_def filter_positions[of is_src] whitespace_chunk_lines pos)
  qed
  ultimately show ?thesis ..
qed

theorem whitespace_restored_witness:
  "let c = \<lparr>src_pos = 1, dst_pos = 1, chunk_lines = [set_src ''a '', set_src ''b'', set_dst ''a'', set_dst ''c'']\<rparr>
   in map line_text (chunk_dst (fst (whitespace_chunk c))) =
      restore_all (map line_text (chunk_src c)) (map line_text (chunk_dst c)) \<and>
    chunk_src (fst (whitespace_chunk c)) = chunk_src c"
  unfolding Let_def by (rule whitespace_restored) (simp add: set_src_def set_dst_def)

text \<open>A context line is one object on both sides: when a line that ends in a space is removed right before
  an equal line without it, the pass adds the space to the context line, so the old side of the chunk no
  longer is a part of the file the patch is applied to.\<close>

theorem context_line_changed:
  "chunk_src (fst (whitespace_chunk \<lparr>src_pos = a, dst_pos = b, chunk_lines = [set_src (t @ [sp]), set_both t]\<rparr>)) =
    [set_src (t @ [sp]), set_both (t @ [sp])]"
proof -
  let ?ls = "[set_src (t @ [sp]), set_both t]"
  have "positions is_src ?ls = [0, 1]" "positions is_dst ?ls = [1]"
    by (simp_all add: positions_def is_src_def is_dst_def set_src_def set_both_def)
  then show ?thesis
    by (simp add: chunk_src_def whitespace_chunk_lines restore_space_def match_trailing_def append_to_line_def
        is_src_def set_src_def set_both_def)
qed

text \<open>What is no part of a patch raises: a destination name before any patch, a line of a chunk before any
  chunk, and every line that begins with none of the five marks, such as the header of a chunk that leaves
  out the length 1, as the library writes it.\<close>

theorem parse_errors:
  "parse_patchset (''+++ b'' # ls) = Inl AttributeError \<and>
   parse_patchset (''-x'' # ls) = Inl UnboundLocalError \<and>
   parse_patchset (''--- a'' # ''+++ b'' # ''@@ -1 +1 @@'' # ls) = Inl (Raised [])"
proof -
  have "match_rest ''--- '' ''--- a'' = Some ''a''" "match_rest ''+++ '' ''+++ b'' = Some ''b''" "match_chunk ''@@ -1 +1 @@'' = None"
     "match_rest ''-'' ''-x'' = Some ''x''" "match_chunk ''-x'' = None" by code_simp+
  then show ?thesis
    by (simp add: parse_patchset_def parse_line_def match_rest_no on_current_patch_def add_to_chunk_def)
qed

section \<open>The checker\<close>

text \<open>With the debug option the difference is used up by the copy for debugging: below level 3, whatever
  uncrustify makes of the file, the checker applies an empty patch and finds the file well indented.\<close>

theorem debug_finds_nothing:
  assumes "level < 3" "style_files w f = Some t" "inj (tmp_name T)" "f \<notin> range (tmp_name T)"
    and "\<And>c. uncrustify T c t \<noteq> None" "\<And>s. fst (patch_tool T [] s) = s"
  shows "fst (indent_files T [f] diff True level False w) = Inr True"
proof -
  have tmp: "tmp_name T m = tmp_name T n \<longleftrightarrow> m = n" "tmp_name T n \<noteq> f" "f \<noteq> tmp_name T n" for m n
    using assms(3,4) by (auto simp: inj_eq)
  obtain new o1 e1 where u: "uncrustify T (cfg_text level) t = Some (new, o1, e1)" using assms(5)[of "cfg_text level"] by auto
  obtain o2 e2 where p: "patch_tool T [] t = (t, o2, e2)" using assms(6)[of t] by (cases "patch_tool T [] t") auto
  have "final_text level [] = Inr []"
    using assms(1) by (simp add: final_text_def remove_trailing_whitespace_changes_def parse_patchset_def)
  then have "\<exists>w'. indent T f True level w = (Inr (tmp_name T (temps w)), w') \<and> same_file w' (f, tmp_name T (temps w))"
    using assms(2) u p tmp
    by (simp add: indent_def mkstemp_def uncrustify_config_file_def store_def do_if_def err_def run_uncrustify_def
        copyfile_def same_file_def Let_def abind_def also_do_def load_def open_text_def)
  then show ?thesis by (auto simp: indent_files_def indent_all_def abind_def)
qed

definition demo_tools :: style_tools where
  "demo_tools = \<lparr>tmp_name = (\<lambda>n. ''tmp'' @ str_nat n), uncrustify = (\<lambda>c t. Some (''int x;\<newline>'', [], [])),
     unified_diff = (\<lambda>a b f g. []), patch_tool = (\<lambda>d t. (t, [], [])), hg_status = []\<rparr>"

theorem debug_finds_nothing_witness:
  "fst (indent_files demo_tools [''a.cc''] True True 0 False
     \<lparr>style_files = (\<lambda>_. None)(''a.cc'' \<mapsto> ''int   x;''), temps = 0, stdout = [], stderr = []\<rparr>) = Inr True"
  by (rule debug_finds_nothing[where t = "''int   x;''"]) (auto simp: demo_tools_def inj_def)

text \<open>Where the difference is empty (uncrustify leaves the file as it is) the checker answers that the file
  is well indented, prints nothing, and leaves the file alone, at every level, with debugging or without.\<close>

theorem unchanged_file_accepted:
  assumes "style_files w f = Some t" "inj (tmp_name T)" "f \<notin> range (tmp_name T)"
    and "\<And>c. \<exists>o1 e1. uncrustify T c t = Some (t, o1, e1)" "\<And>s. fst (patch_tool T [] s) = s"
    and "\<And>ls a b. unified_diff T ls ls a b = []"
  shows "\<exists>w'. indent_files T [f] diff debug level False w = (Inr True, w') \<and> style_files w' f = Some t \<and> stdout w' = stdout w"
proof -
  have tmp: "tmp_name T m = tmp_name T n \<longleftrightarrow> m = n" "tmp_name T n \<noteq> f" "f \<noteq> tmp_name T n" for m n
    using assms(2,3) by (auto simp: inj_eq)
  obtain o1 e1 where u: "uncrustify T (cfg_text level) t = Some (t, o1, e1)" using assms(4)[of "cfg_text level"] by auto
  obtain o2 e2 where p: "patch_tool T [] t = (t, o2, e2)" using assms(5)[of t] by (cases "patch_tool T [] t") auto
  have "final_text level [] = Inr []"
    by (simp add: final_text_def remove_trailing_whitespace_changes_def parse_patchset_def)
  then have "\<exists>w'. indent T f debug level w = (Inr (tmp_name T (temps w)), w') \<and> same_file w' (f, tmp_name T (temps w)) \<and>
      style_files w' f = Some t \<and> stdout w' = stdout w"
    using assms(1,6) u p tmp
    by (cases debug) (simp_all add: indent_def mkstemp_def uncrustify_config_file_def store_def do_if_def err_def run_uncrustify_def
        copyfile_def same_file_def Let_def abind_def also_do_def load_def open_text_def)
  then show ?thesis by (auto simp: indent_files_def indent_all_def abind_def)
qed

theorem unchanged_file_accepted_witness:
  "let w = \<lparr>style_files = (\<lambda>_. None)(''a.cc'' \<mapsto> ''int x;\<newline>''), temps = 0, stdout = [], stderr = []\<rparr>
   in \<exists>w'. indent_files demo_tools [''a.cc''] False False 2 False w = (Inr True, w') \<and> style_files w' ''a.cc'' = Some ''int x;\<newline>'' \<and>
    stdout w' = stdout w"
  unfolding Let_def by (rule unchanged_file_accepted) (auto simp: demo_tools_def inj_def)

end
