(* ===== verification/GridData.thy ===== *)
theory GridData
  imports PyWorld
begin

text \<open>
  The data model of \<open>simulation/utils/grid.py\<close>, a viewer of time lines: ranges and events of a time line,
  with the binary searches that select what falls into a window, the collections that find a member by
  name or add it, the colours, and the reader of the data file.  Objects that are found by name and then
  changed are updated in place in their list.  Python 2's integer division is \<open>div\<close>.
\<close>

section \<open>Ranges and events\<close>

record data_range =
  dr_start :: int
  dr_end :: int
  dr_value :: string

record 'v event =
  ev_at :: int
  ev_value :: 'v

definition ranges_cmp :: "data_range \<Rightarrow> data_range \<Rightarrow> int" where
  "ranges_cmp a b = (let diff = dr_start a - dr_start b in if diff < 0 then - 1 else if diff > 0 then 1 else 0)"

definition events_cmp :: "'v event \<Rightarrow> 'v event \<Rightarrow> int" where
  "events_cmp a b = (let diff = ev_at a - ev_at b in if diff < 0 then - 1 else if diff > 0 then 1 else 0)"

text \<open>\<open>sort (cmp)\<close> is stable: an element is put behind those it does not precede.\<close>

fun insert_cmp :: "('a \<Rightarrow> 'a \<Rightarrow> int) \<Rightarrow> 'a \<Rightarrow> 'a list \<Rightarrow> 'a list" where
  "insert_cmp c x [] = [x]"
| "insert_cmp c x (y # ys) = (if c x y \<le> 0 then x # y # ys else y # insert_cmp c x ys)"

definition sort_cmp :: "('a \<Rightarrow> 'a \<Rightarrow> int) \<Rightarrow> 'a list \<Rightarrow> 'a list" where
  "sort_cmp c xs = foldr (insert_cmp c) xs []"

text \<open>Python slices with a start that is not negative.\<close>

definition py_slice :: "'a list \<Rightarrow> int \<Rightarrow> int \<Rightarrow> 'a list" where
  "py_slice xs s e = slice xs (nat s) (nat e)"

function range_search_loop :: "data_range list \<Rightarrow> int \<Rightarrow> int \<Rightarrow> int \<Rightarrow> int" where
  "range_search_loop rs key l u =
     (if l \<le> u then
        (let i = (l + u) div 2; r = rs ! nat i
         in if dr_start r \<le> key \<and> key \<le> dr_end r then i
            else if key < dr_start r then range_search_loop rs key l (i - 1)
            else range_search_loop rs key (i + 1) u)
      else - 1)"
  by pat_completeness auto
termination
  by (relation "measure (\<lambda>(rs, key, l, u). nat (u - l + 1))") auto

declare range_search_loop.simps [simp del]

definition range_search :: "data_range list \<Rightarrow> int \<Rightarrow> int" where
  "range_search rs key = range_search_loop rs key 0 (int (length rs) - 1)"

definition get_ranges :: "data_range list \<Rightarrow> int \<Rightarrow> int \<Rightarrow> data_range list" where
  "get_ranges rs start end' =
     (let s = range_search rs start; e = range_search rs end'
      in if s = - 1 \<and> e = - 1 then []
         else if s = - 1 then py_slice rs 0 (e + 1)
         else if e = - 1 then py_slice rs s (int (length rs))
         else py_slice rs s (e + 1))"

definition get_ranges_bounds :: "data_range list \<Rightarrow> int \<Rightarrow> int \<Rightarrow> int \<times> int" where
  "get_ranges_bounds rs start end' =
     (let s = range_search rs start; e = range_search rs end'
      in if s = - 1 \<and> e = - 1 then (0, 0)
         else if s = - 1 then (0, e + 1)
         else if e = - 1 then (s, int (length rs))
         else (s, e + 1))"

definition ranges_get_bounds :: "data_range list \<Rightarrow> int \<times> int" where
  "ranges_get_bounds rs = (if length rs > 0 then (dr_start (rs ! 0), dr_end (rs ! (length rs - 1))) else (0, 0))"

function event_search_loop :: "'v event list \<Rightarrow> int \<Rightarrow> int \<Rightarrow> int \<Rightarrow> int" where
  "event_search_loop es key l u =
     (if l \<le> u then
        (let i = (l + u) div 2; t = ev_at (es ! nat i)
         in if key = t then i
            else if key < t then event_search_loop es key l (i - 1)
            else event_search_loop es key (i + 1) u)
      else l)"
  by pat_completeness auto
termination
  by (relation "measure (\<lambda>(es, key, l, u). nat (u - l + 1))") auto

declare event_search_loop.simps [simp del]

definition event_search :: "'v event list \<Rightarrow> int \<Rightarrow> int" where
  "event_search es key = event_search_loop es key 0 (int (length es) - 1)"

definition get_events :: "'v event list \<Rightarrow> int \<Rightarrow> int \<Rightarrow> 'v event list" where
  "get_events es start end' = (let s = event_search es start; e = event_search es end' in py_slice es s (e + 1))"

definition get_events_bounds :: "'v event list \<Rightarrow> int \<Rightarrow> int \<Rightarrow> int \<times> int" where
  "get_events_bounds es start end' = (let s = event_search es start; e = event_search es end' in (s, e + 1))"

definition events_get_bounds :: "'v event list \<Rightarrow> int \<times> int" where
  "events_get_bounds es = (if length es > 0 then (ev_at (es ! 0), ev_at (last es)) else (0, 0))"

section \<open>Time lines\<close>

text \<open>A collection of named members in the order they were added.\<close>

type_synonym 'a named = "(string \<times> 'a) list"

fun on_named :: "string \<Rightarrow> 'a \<Rightarrow> ('a \<Rightarrow> 'a) \<Rightarrow> 'a named \<Rightarrow> 'a named" where
  "on_named name new f [] = [(name, f new)]"
| "on_named name new f ((n, x) # xs) = (if n = name then (n, f x) # xs else (n, x) # on_named name new f xs)"

record timeline =
  tl_ranges :: "data_range list named"
  tl_event_str :: "string event list named"
  tl_event_int :: "int event list named"

definition new_timeline :: timeline where
  "new_timeline = \<lparr>tl_ranges = [], tl_event_str = [], tl_event_int = []\<rparr>"

type_synonym timelines = "timeline named"

definition add_range :: "string \<Rightarrow> string \<Rightarrow> data_range \<Rightarrow> timelines \<Rightarrow> timelines" where
  "add_range t name r = on_named t new_timeline (\<lambda>tl. tl\<lparr>tl_ranges := on_named name [] (\<lambda>rs. rs @ [r]) (tl_ranges tl)\<rparr>)"

definition add_event_str :: "string \<Rightarrow> string \<Rightarrow> string event \<Rightarrow> timelines \<Rightarrow> timelines" where
  "add_event_str t name e = on_named t new_timeline (\<lambda>tl. tl\<lparr>tl_event_str := on_named name [] (\<lambda>es. es @ [e]) (tl_event_str tl)\<rparr>)"

definition add_event_int :: "string \<Rightarrow> string \<Rightarrow> int event \<Rightarrow> timelines \<Rightarrow> timelines" where
  "add_event_int t name e = on_named t new_timeline (\<lambda>tl. tl\<lparr>tl_event_int := on_named name [] (\<lambda>es. es @ [e]) (tl_event_int tl)\<rparr>)"

definition sort_timeline :: "timeline \<Rightarrow> timeline" where
  "sort_timeline line = \<lparr>tl_ranges = map (map_prod id (sort_cmp ranges_cmp)) (tl_ranges line),
     tl_event_str = map (map_prod id (sort_cmp events_cmp)) (tl_event_str line),
     tl_event_int = map (map_prod id (sort_cmp events_cmp)) (tl_event_int line)\<rparr>"

definition sort_timelines :: "timelines \<Rightarrow> timelines" where
  "sort_timelines ts = map (map_prod id sort_timeline) ts"

definition widen :: "int \<times> int \<Rightarrow> int \<times> int \<Rightarrow> int \<times> int" where
  "widen b c = (if fst c < fst b then fst c else fst b, if snd c > snd b then snd c else snd b)"

definition timeline_bounds :: "timeline \<Rightarrow> int \<times> int" where
  "timeline_bounds line =
     (let b = foldl (\<lambda>b (n, rs). widen b (ranges_get_bounds rs)) (0, 0) (tl_ranges line);
          b = foldl (\<lambda>b (n, es). widen b (events_get_bounds es)) b (tl_event_str line)
      in foldl (\<lambda>b (n, es). widen b (events_get_bounds es)) b (tl_event_int line))"

definition timelines_bounds :: "timelines \<Rightarrow> int \<times> int" where
  "timelines_bounds ts = foldl (\<lambda>b (n, tl). widen b (timeline_bounds tl)) (0, 0) ts"

text \<open>The keys of a dictionary, in the order of insertion (Python 2 leaves the order open).\<close>

definition dict_keys :: "'a list \<Rightarrow> 'a list" where
  "dict_keys xs = rev (remdups (rev xs))"

definition all_range_values :: "timelines \<Rightarrow> string list" where
  "all_range_values ts = dict_keys (concat (map (\<lambda>(n, tl). concat (map (\<lambda>(n, rs). map dr_value rs) (tl_ranges tl))) ts))"

section \<open>Colours\<close>

type_synonym color = "int \<times> int \<times> int"

text \<open>\<open>default_colors\<close> belongs to the class; \<open>pop\<close> takes its last member.\<close>

record colors =
  named_colors :: "(string \<times> color) list"
  default_colors :: "color list"

definition new_colors :: colors where
  "new_colors = \<lparr>named_colors = [],
     default_colors = [(1, 0, 0), (0, 1, 0), (0, 0, 1), (1, 1, 0), (1, 0, 1), (0, 1, 1)]\<rparr>"

definition add_color :: "string \<Rightarrow> color \<Rightarrow> colors \<Rightarrow> colors" where
  "add_color name c cs = cs\<lparr>named_colors := (name, c) # named_colors cs\<rparr>"

definition lookup_color :: "string \<Rightarrow> colors \<Rightarrow> (color \<times> colors) res" where
  "lookup_color name cs =
     (case map_of (named_colors cs) name of
        Some c \<Rightarrow> Inr (c, cs)
      | None \<Rightarrow>
          if default_colors cs = [] then Inl IndexError
          else (let c = last (default_colors cs)
                in Inr (c, add_color name c (cs\<lparr>default_colors := butlast (default_colors cs)\<rparr>))))"

text \<open>The colours of the legend, one lookup per value.\<close>

fun legend_colors :: "string list \<Rightarrow> colors \<Rightarrow> (color list \<times> colors) res" where
  "legend_colors [] cs = Inr ([], cs)"
| "legend_colors (v # vs) cs =
     rbind (lookup_color v cs) (\<lambda>(c, cs). rbind (legend_colors vs cs) (\<lambda>(r, cs). Inr (c # r, cs)))"

section \<open>Reading the data\<close>

definition lit :: "string \<Rightarrow> string \<Rightarrow> string option" where
  "lit p s = (if startswith p s then Some (drop (length p) s) else None)"

text \<open>\<open>([^ ]+) \<close> and \<open>([0-9]+)\<close>\<close>

definition word_sp :: "string \<Rightarrow> (string \<times> string) option" where
  "word_sp s = (let w = takeWhile (\<lambda>c. c \<noteq> sp) s; r = dropWhile (\<lambda>c. c \<noteq> sp) s
     in if w = [] \<or> r = [] then None else Some (w, tl r))"

definition number :: "string \<Rightarrow> (int \<times> string) option" where
  "number s = (let w = takeWhile is_digit s in if w = [] then None else Some (digits_val w, dropWhile is_digit s))"

definition match_range :: "string \<Rightarrow> (string \<times> string \<times> data_range) option" where
  "match_range line =
     Option.bind (lit ''range '' line) (\<lambda>s. Option.bind (word_sp s) (\<lambda>(t, s). Option.bind (word_sp s) (\<lambda>(n, s).
     Option.bind (word_sp s) (\<lambda>(v, s). Option.bind (number s) (\<lambda>(a, s). Option.bind (lit '' '' s) (\<lambda>s.
     Option.bind (number s) (\<lambda>(b, s). Some (t, n, \<lparr>dr_start = a, dr_end = b, dr_value = v\<rparr>))))))))"

definition match_event_str :: "string \<Rightarrow> (string \<times> string \<times> string event) option" where
  "match_event_str line =
     Option.bind (lit ''event-str '' line) (\<lambda>s. Option.bind (word_sp s) (\<lambda>(t, s). Option.bind (word_sp s) (\<lambda>(n, s).
     Option.bind (word_sp s) (\<lambda>(v, s). Option.bind (number s) (\<lambda>(a, s). Some (t, n, \<lparr>ev_at = a, ev_value = v\<rparr>))))))"

definition match_event_int :: "string \<Rightarrow> (string \<times> string \<times> int event) option" where
  "match_event_int line =
     Option.bind (lit ''event-int '' line) (\<lambda>s. Option.bind (word_sp s) (\<lambda>(t, s). Option.bind (word_sp s) (\<lambda>(n, s).
     Option.bind (number s) (\<lambda>(v, s). Option.bind (lit '' '' s) (\<lambda>s. Option.bind (number s) (\<lambda>(a, s).
     Some (t, n, \<lparr>ev_at = a, ev_value = v\<rparr>)))))))"

definition hex_digit :: "char \<Rightarrow> int option" where
  "hex_digit c = (if is_digit c then Some (digit_val c)
     else if c \<in> set ''abcdef'' then Some (of_char c - 87) else if c \<in> set ''ABCDEF'' then Some (of_char c - 55) else None)"

definition hex2 :: "string \<Rightarrow> (int \<times> string) option" where
  "hex2 s = (case s of a # b # r \<Rightarrow>
       Option.bind (hex_digit a) (\<lambda>x. Option.bind (hex_digit b) (\<lambda>y. Some (16 * x + y, r)))
     | _ \<Rightarrow> None)"

definition match_color :: "string \<Rightarrow> (string \<times> color) option" where
  "match_color line =
     Option.bind (lit ''color '' line) (\<lambda>s. Option.bind (word_sp s) (\<lambda>(n, s). Option.bind (lit ''#'' s) (\<lambda>s.
     Option.bind (hex2 s) (\<lambda>(r, s). Option.bind (hex2 s) (\<lambda>(g, s). Option.bind (hex2 s) (\<lambda>(b, s).
     Some (n, r div 255, g div 255, b div 255)))))))"

definition read_line :: "colors \<times> timelines \<Rightarrow> string \<Rightarrow> colors \<times> timelines" where
  "read_line acc line = (let (cs, ts) = acc in
     case match_range line of Some (t, n, r) \<Rightarrow> (cs, add_range t n r ts)
     | None \<Rightarrow> (case match_event_str line of Some (t, n, e) \<Rightarrow> (cs, add_event_str t n e ts)
     | None \<Rightarrow> (case match_event_int line of Some (t, n, e) \<Rightarrow> (cs, add_event_int t n e ts)
     | None \<Rightarrow> (case match_color line of Some (n, c) \<Rightarrow> (add_color n c cs, ts)
     | None \<Rightarrow> (cs, ts)))))"

definition read_data :: "files \<Rightarrow> string \<Rightarrow> (colors \<times> timelines) res" where
  "read_data fs filename = rbind (open_text fs filename) (\<lambda>t.
     let (cs, ts) = foldl read_line (new_colors, []) (readlines t) in Inr (cs, sort_timelines ts))"

section \<open>The binary searches\<close>

text \<open>Ranges in order, none empty, none touching the next.\<close>

definition apart :: "data_range list \<Rightarrow> bool" where
  "apart rs = (list_all (\<lambda>r. dr_start r \<le> dr_end r) rs \<and> sorted_wrt (\<lambda>a b. dr_end a < dr_start b) rs)"

definition covers :: "int \<Rightarrow> data_range \<Rightarrow> bool" where
  "covers key r = (dr_start r \<le> key \<and> key \<le> dr_end r)"

definition linear_search :: "data_range list \<Rightarrow> int \<Rightarrow> int" where
  "linear_search rs key = (case find (\<lambda>i. covers key (rs ! i)) [0..<length rs] of None \<Rightarrow> - 1 | Some i \<Rightarrow> int i)"

lemma apart_nth:
  assumes "apart rs"
  shows "i < length rs \<Longrightarrow> dr_start (rs ! i) \<le> dr_end (rs ! i)"
    and "i < j \<Longrightarrow> j < length rs \<Longrightarrow> dr_end (rs ! i) < dr_start (rs ! j)"
  using assms by (auto simp: apart_def list_all_length sorted_wrt_iff_nth_less)

lemma covers_unique:
  assumes "apart rs" "i < length rs" "j < length rs" "covers key (rs ! i)" "covers key (rs ! j)"
  shows "i = j"
  using apart_nth(2)[OF assms(1), of i j] apart_nth(2)[OF assms(1), of j i] assms(2-)
  by (cases i j rule: linorder_cases) (auto simp: covers_def)

lemma range_search_loop:
  assumes "apart rs" "0 \<le> l" "u < int (length rs)"
  shows "range_search_loop rs key l u = - 1 \<and> (\<forall>j. l \<le> int j \<longrightarrow> int j \<le> u \<longrightarrow> \<not> covers key (rs ! j)) \<or>
    l \<le> range_search_loop rs key l u \<and> range_search_loop rs key l u \<le> u \<and> covers key (rs ! nat (range_search_loop rs key l u))"
  using assms
proof (induction rs key l u rule: range_search_loop.induct)
  case (1 rs key l u)
  let ?i = "(l + u) div 2"
  show ?case
  proof (cases "l \<le> u")
    case False
    then show ?thesis by (simp add: range_search_loop.simps[of rs key l u])
  next
    case lu: True
    then have i: "l \<le> ?i" "?i \<le> u" "0 \<le> ?i" using "1.prems"(2) by auto
    then have n: "nat ?i < length rs" using "1.prems"(3) by simp
    consider "covers key (rs ! nat ?i)" | "key < dr_start (rs ! nat ?i)" | "dr_end (rs ! nat ?i) < key" "\<not> key < dr_start (rs ! nat ?i)"
      unfolding covers_def by (metis not_le_imp_less)
    then show ?thesis
    proof cases
      case 1
      then have "range_search_loop rs key l u = ?i" using lu
        by (simp add: range_search_loop.simps[of rs key l u] covers_def Let_def)
      then show ?thesis using 1 i by simp
    next
      case 2
      then have eq: "range_search_loop rs key l u = range_search_loop rs key l (?i - 1)" using lu
        by (simp add: range_search_loop.simps[of rs key l u] Let_def)
      have "\<not> covers key (rs ! j)" if "?i \<le> int j" "int j \<le> u" for j
      proof (cases "j = nat ?i")
        case False
        then have "nat ?i < j" "j < length rs" using that i "1.prems"(3) by linarith+
        then have "dr_end (rs ! nat ?i) < dr_start (rs ! j)" by (rule apart_nth(2)[OF "1.prems"(1)])
        then show ?thesis using apart_nth(1)[OF "1.prems"(1) n] 2 by (auto simp: covers_def)
      qed (use 2 in \<open>auto simp: covers_def\<close>)
      note left = this
      have "range_search_loop rs key l (?i - 1) = - 1 \<and> (\<forall>j. l \<le> int j \<longrightarrow> int j \<le> ?i - 1 \<longrightarrow> \<not> covers key (rs ! j)) \<or>
          l \<le> range_search_loop rs key l (?i - 1) \<and> range_search_loop rs key l (?i - 1) \<le> ?i - 1 \<and>
          covers key (rs ! nat (range_search_loop rs key l (?i - 1)))"
        by (rule "1.IH"(1)[OF lu refl refl _ 2 "1.prems"(1,2)]) (use 2 i "1.prems"(3) in auto)
      then show ?thesis
      proof
        assume a: "range_search_loop rs key l (?i - 1) = - 1 \<and> (\<forall>j. l \<le> int j \<longrightarrow> int j \<le> ?i - 1 \<longrightarrow> \<not> covers key (rs ! j))"
        then have "\<not> covers key (rs ! j)" if "l \<le> int j" "int j \<le> u" for j
          using left[of j] that by (cases "int j \<le> ?i - 1") auto
        with a eq show ?thesis by simp
      qed (use i eq in auto)
    next
      case 3
      then have eq: "range_search_loop rs key l u = range_search_loop rs key (?i + 1) u" using lu
        by (simp add: range_search_loop.simps[of rs key l u] Let_def)
      have "\<not> covers key (rs ! j)" if "l \<le> int j" "int j \<le> ?i" for j
      proof (cases "j = nat ?i")
        case False
        then have "j < nat ?i" using that i by linarith
        then have "dr_end (rs ! j) < dr_start (rs ! nat ?i)" by (rule apart_nth(2)[OF "1.prems"(1) _ n])
        then show ?thesis using apart_nth(1)[OF "1.prems"(1) n] 3 by (auto simp: covers_def)
      qed (use 3 in \<open>auto simp: covers_def\<close>)
      note right = this
      have "range_search_loop rs key (?i + 1) u = - 1 \<and> (\<forall>j. ?i + 1 \<le> int j \<longrightarrow> int j \<le> u \<longrightarrow> \<not> covers key (rs ! j)) \<or>
          ?i + 1 \<le> range_search_loop rs key (?i + 1) u \<and> range_search_loop rs key (?i + 1) u \<le> u \<and>
          covers key (rs ! nat (range_search_loop rs key (?i + 1) u))"
        by (rule "1.IH"(2)[OF lu refl refl _ 3(2) "1.prems"(1)]) (use 3 i "1.prems"(2,3) in auto)
      then show ?thesis
      proof
        assume a: "range_search_loop rs key (?i + 1) u = - 1 \<and> (\<forall>j. ?i + 1 \<le> int j \<longrightarrow> int j \<le> u \<longrightarrow> \<not> covers key (rs ! j))"
        then have "\<not> covers key (rs ! j)" if "l \<le> int j" "int j \<le> u" for j
          using right[of j] that by (cases "?i + 1 \<le> int j") auto
        with a eq show ?thesis by simp
      qed (use i eq in auto)
    qed
  qed
qed

lemma range_search:
  assumes "apart rs"
  shows "range_search rs key = - 1 \<and> (\<forall>r \<in> set rs. \<not> covers key r) \<or>
    (\<exists>i < length rs. range_search rs key = int i \<and> covers key (rs ! i))"
proof -
  have "range_search rs key = - 1 \<and> (\<forall>j. 0 \<le> int j \<longrightarrow> int j \<le> int (length rs) - 1 \<longrightarrow> \<not> covers key (rs ! j)) \<or>
    0 \<le> range_search rs key \<and> range_search rs key \<le> int (length rs) - 1 \<and> covers key (rs ! nat (range_search rs key))"
    unfolding range_search_def by (rule range_search_loop[OF assms]) auto
  then show ?thesis
  proof
    assume "range_search rs key = - 1 \<and> (\<forall>j. 0 \<le> int j \<longrightarrow> int j \<le> int (length rs) - 1 \<longrightarrow> \<not> covers key (rs ! j))"
    then show ?thesis by (auto simp: in_set_conv_nth)
  next
    assume "0 \<le> range_search rs key \<and> range_search rs key \<le> int (length rs) - 1 \<and> covers key (rs ! nat (range_search rs key))"
    then have "nat (range_search rs key) < length rs" "range_search rs key = int (nat (range_search rs key))"
      "covers key (rs ! nat (range_search rs key))" by auto
    then show ?thesis by blast
  qed
qed

text \<open>C27. On ranges that are in order and apart, the binary search finds what a search from the front finds.\<close>

theorem range_search_linear:
  assumes "apart rs"
  shows "range_search rs key = linear_search rs key"
  using range_search[OF assms, of key]
proof (elim disjE exE conjE)
  assume "range_search rs key = - 1" "\<forall>r \<in> set rs. \<not> covers key r"
  then show ?thesis by (auto simp: linear_search_def find_None_iff split: option.split)
next
  fix i assume i: "i < length rs" "range_search rs key = int i" "covers key (rs ! i)"
  have "find (\<lambda>i. covers key (rs ! i)) [0..<length rs] = Some i"
    unfolding find_Some_iff
  proof (intro exI[of _ i] conjI allI impI)
    fix j assume j: "j < i"
    then show "\<not> covers key (rs ! ([0..<length rs] ! j))"
      using covers_unique[OF assms, of j i key] i by auto
  qed (use i in simp_all)
  then show ?thesis by (simp add: linear_search_def i(2))
qed

theorem range_search_linear_witness:
  "let rs = [\<lparr>dr_start = 0, dr_end = 3, dr_value = ''a''\<rparr>, \<lparr>dr_start = 5, dr_end = 9, dr_value = ''b''\<rparr>]
   in range_search rs 7 = linear_search rs 7"
  unfolding Let_def by (rule range_search_linear) (simp add: apart_def)

lemma filter_slice:
  assumes "s \<le> e" "\<And>j. j < length xs \<Longrightarrow> P (xs ! j) \<longleftrightarrow> s \<le> j \<and> j < e"
  shows "filter P xs = slice xs s e"
proof -
  have "xs = take s xs @ slice xs s e @ drop e xs"
    using assms(1) by (simp add: slice_def) (metis append_take_drop_id drop_drop le_add_diff_inverse2)
  moreover have "filter P (take s xs) = []"
    using assms(2) by (auto simp: filter_empty_conv in_set_conv_nth)
  moreover have "filter P (drop e xs) = []"
    using assms(2) by (auto simp: filter_empty_conv in_set_conv_nth)
  moreover have "filter P (slice xs s e) = slice xs s e"
    using assms by (auto simp: filter_id_conv in_set_conv_nth slice_def)
  ultimately show ?thesis by (metis append.left_neutral append.right_neutral filter_append)
qed

definition overlaps :: "int \<Rightarrow> int \<Rightarrow> data_range \<Rightarrow> bool" where
  "overlaps a b r = (a \<le> dr_end r \<and> dr_start r \<le> b)"

text \<open>When both ends of the window lie in some range, exactly the ranges that overlap the window are
  selected; when every range lies strictly inside the window, none is (the search has found neither end).\<close>

theorem get_ranges_window:
  assumes "apart rs" "a \<le> b" "\<exists>r \<in> set rs. covers a r" "\<exists>r \<in> set rs. covers b r"
    and "\<And>r. r \<in> set rs \<Longrightarrow> lo < dr_start r \<and> dr_end r < hi"
  shows "get_ranges rs a b = filter (overlaps a b) rs \<and>
    get_ranges rs a b = py_slice rs (fst (get_ranges_bounds rs a b)) (snd (get_ranges_bounds rs a b)) \<and>
    get_ranges rs lo hi = []"
proof -
  obtain s where s: "s < length rs" "range_search rs a = int s" "covers a (rs ! s)"
    using range_search[OF assms(1), of a] assms(3) by blast
  obtain e where e: "e < length rs" "range_search rs b = int e" "covers b (rs ! e)"
    using range_search[OF assms(1), of b] assms(4) by blast
  have se: "s \<le> e"
    using apart_nth(2)[OF assms(1), of e s] s e assms(2) by (cases "e < s") (auto simp: covers_def)
  have "overlaps a b (rs ! j) \<longleftrightarrow> s \<le> j \<and> j < e + 1" if "j < length rs" for j
  proof -
    consider "j < s" | "e < j" | "s \<le> j" "j \<le> e" by linarith
    then show ?thesis
    proof cases
      case 1
      then show ?thesis using apart_nth(2)[OF assms(1) 1 s(1)] s(3) by (simp add: overlaps_def covers_def)
    next
      case 2
      then show ?thesis using apart_nth(2)[OF assms(1) 2 that] e(3) by (simp add: overlaps_def covers_def)
    next
      case 3
      have "a \<le> dr_end (rs ! j)"
        using apart_nth(2)[OF assms(1), of s j] apart_nth(1)[OF assms(1) that] s(3) 3 that by (cases "j = s") (auto simp: covers_def)
      moreover have "dr_start (rs ! j) \<le> b"
        using apart_nth(2)[OF assms(1), of j e] apart_nth(1)[OF assms(1) that] e 3 by (cases "j = e") (auto simp: covers_def)
      ultimately show ?thesis using 3 by (simp add: overlaps_def)
    qed
  qed
  then have "filter (overlaps a b) rs = slice rs s (e + 1)" using se by (intro filter_slice) auto
  moreover have "get_ranges rs a b = slice rs s (e + 1)"
    using s e by (simp add: get_ranges_def py_slice_def nat_add_distrib)
  moreover have "get_ranges_bounds rs a b = (int s, int e + 1)" using s e by (simp add: get_ranges_bounds_def)
  moreover have gap: "range_search rs x = - 1" if "\<forall>r \<in> set rs. \<not> covers x r" for x
    using range_search[OF assms(1), of x] that nth_mem by blast
  have "\<not> covers lo r" "\<not> covers hi r" if "r \<in> set rs" for r using assms(5)[OF that] by (auto simp: covers_def)
  then have "range_search rs lo = - 1" "range_search rs hi = - 1" using gap by blast+
  ultimately show ?thesis by (simp add: get_ranges_def py_slice_def nat_add_distrib)
qed

theorem get_ranges_window_witness:
  "let rs = [\<lparr>dr_start = 1, dr_end = 3, dr_value = ''a''\<rparr>, \<lparr>dr_start = 5, dr_end = 9, dr_value = ''b''\<rparr>]
   in get_ranges rs 2 6 = filter (overlaps 2 6) rs \<and>
    get_ranges rs 2 6 = py_slice rs (fst (get_ranges_bounds rs 2 6)) (snd (get_ranges_bounds rs 2 6)) \<and>
    get_ranges rs 0 10 = []"
  unfolding Let_def by (rule get_ranges_window) (auto simp: apart_def covers_def)

lemma event_search_loop:
  assumes "sorted_wrt (<) (map ev_at es)" "0 \<le> l" "u < int (length es)" "l \<le> u + 1"
    and "\<And>j. int j < l \<Longrightarrow> ev_at (es ! j) < key" "\<And>j. u < int j \<Longrightarrow> j < length es \<Longrightarrow> key < ev_at (es ! j)"
  shows "\<exists>n \<le> length es. event_search_loop es key l u = int n \<and> (\<forall>j < length es. ev_at (es ! j) < key \<longleftrightarrow> j < n)"
  using assms
proof (induction es key l u rule: event_search_loop.induct)
  case (1 es key l u)
  let ?i = "(l + u) div 2"
  have less: "ev_at (es ! i) < ev_at (es ! j)" if "i < j" "j < length es" for i j
    using "1.prems"(1) that by (simp add: sorted_wrt_iff_nth_less)
  show ?case
  proof (cases "l \<le> u")
    case False
    then have l: "l = u + 1" using "1.prems"(4) by simp
    have eq: "event_search_loop es key l u = l" using False by (simp add: event_search_loop.simps[of es key l u])
    have "ev_at (es ! j) < key \<longleftrightarrow> j < nat l" if "j < length es" for j
      using "1.prems"(5)[of j] "1.prems"(6)[of j] that l by (cases "int j < l") auto
    then show ?thesis unfolding eq using "1.prems"(2,3) l by (intro exI[of _ "nat l"]) auto
  next
    case lu: True
    then have i: "l \<le> ?i" "?i \<le> u" "0 \<le> ?i" "nat ?i < length es" using "1.prems"(2,3) by auto
    consider "key = ev_at (es ! nat ?i)" | "key < ev_at (es ! nat ?i)" | "ev_at (es ! nat ?i) < key" by linarith
    then show ?thesis
    proof cases
      case 1
      have "ev_at (es ! j) < key \<longleftrightarrow> j < nat ?i" if "j < length es" for j
        using less[of j "nat ?i"] less[of "nat ?i" j] 1 i(4) that by (cases j "nat ?i" rule: linorder_cases) auto
      moreover have "event_search_loop es key l u = ?i"
        using 1 lu by (subst event_search_loop.simps) (simp add: Let_def)
      ultimately show ?thesis using i by (intro exI[of _ "nat ?i"]) auto
    next
      case 2
      then have eq: "event_search_loop es key l u = event_search_loop es key l (?i - 1)" using lu
        by (simp add: event_search_loop.simps[of es key l u] Let_def)
      have "key < ev_at (es ! j)" if "?i - 1 < int j" "j < length es" for j
      proof (cases "j = nat ?i")
        case False
        then have "nat ?i < j" using that by linarith
        from less[OF this that(2)] 2 show ?thesis by simp
      qed (use 2 in simp)
      then show ?thesis unfolding eq
        using "1.IH"(1)[OF lu refl refl _ 2 "1.prems"(1,2) _ _ "1.prems"(5)] 2 i "1.prems"(3) by fastforce
    next
      case 3
      then have eq: "event_search_loop es key l u = event_search_loop es key (?i + 1) u" using lu
        by (simp add: event_search_loop.simps[of es key l u] Let_def)
      have "ev_at (es ! j) < key" if "int j < ?i + 1" for j
      proof (cases "j = nat ?i")
        case False
        then have "j < nat ?i" using that by linarith
        from less[OF this i(4)] 3 show ?thesis by simp
      qed (use 3 in simp)
      then show ?thesis unfolding eq
        using "1.IH"(2)[OF lu refl refl _ _ "1.prems"(1) _ "1.prems"(3) _ _ "1.prems"(6)] 3 i "1.prems"(2) by fastforce
    qed
  qed
qed

lemma event_search:
  assumes "sorted_wrt (<) (map ev_at es)"
  shows "\<exists>n \<le> length es. event_search es key = int n \<and> (\<forall>j < length es. ev_at (es ! j) < key \<longleftrightarrow> j < n)"
  unfolding event_search_def by (rule event_search_loop[OF assms]) auto

text \<open>On events in strict order, the events selected for a window are those inside it, followed, when no
  event is at the end of the window, by the first event after it.\<close>

theorem get_events_window:
  assumes "sorted_wrt (<) (map ev_at es)" "a \<le> b"
  shows "get_events es a b = filter (\<lambda>e. a \<le> ev_at e \<and> ev_at e \<le> b) es @
    (if b \<in> ev_at ` set es then [] else take 1 (filter (\<lambda>e. b < ev_at e) es))"
proof -
  obtain m where m: "m \<le> length es" "event_search es a = int m" "\<And>j. j < length es \<Longrightarrow> ev_at (es ! j) < a \<longleftrightarrow> j < m"
    using event_search[OF assms(1), of a] by blast
  obtain n where n: "n \<le> length es" "event_search es b = int n" "\<And>j. j < length es \<Longrightarrow> ev_at (es ! j) < b \<longleftrightarrow> j < n"
    using event_search[OF assms(1), of b] by blast
  have mn: "m \<le> n"
  proof (cases "n < length es")
    case True
    then show ?thesis using m(3)[of n] n(3)[of n] assms(2) by auto
  qed (use m(1) in simp)
  have less: "ev_at (es ! i) < ev_at (es ! j)" if "i < j" "j < length es" for i j
    using assms(1) that by (simp add: sorted_wrt_iff_nth_less)
  have get: "get_events es a b = slice es m (n + 1)"
    using m n by (simp add: get_events_def py_slice_def nat_add_distrib)
  show ?thesis
  proof (cases "b \<in> ev_at ` set es")
    case True
    then obtain k where k: "k < length es" "ev_at (es ! k) = b" by (auto simp: in_set_conv_nth)
    have "k = n" using less[of n k] n(3)[OF k(1)] n(3)[of n] n(1) k by (cases k n rule: linorder_cases) auto
    then have "a \<le> ev_at (es ! j) \<and> ev_at (es ! j) \<le> b \<longleftrightarrow> m \<le> j \<and> j < n + 1" if "j < length es" for j
      using m(3)[OF that] n(3)[OF that] k less[of n j] that by (cases j n rule: linorder_cases) auto
    then have "filter (\<lambda>e. a \<le> ev_at e \<and> ev_at e \<le> b) es = slice es m (n + 1)" using mn by (intro filter_slice) auto
    then show ?thesis using True get by simp
  next
    case False
    then have ne: "ev_at (es ! j) \<noteq> b" if "j < length es" for j using that by auto
    have "a \<le> ev_at (es ! j) \<and> ev_at (es ! j) \<le> b \<longleftrightarrow> m \<le> j \<and> j < n" if "j < length es" for j
      using m(3)[OF that] n(3)[OF that] ne[OF that] by auto
    then have "filter (\<lambda>e. a \<le> ev_at e \<and> ev_at e \<le> b) es = slice es m n" using mn by (intro filter_slice) auto
    moreover have "b < ev_at (es ! j) \<longleftrightarrow> n \<le> j \<and> j < length es" if "j < length es" for j
      using n(3)[OF that] ne[OF that] that by auto
    then have "filter (\<lambda>e. b < ev_at e) es = slice es n (length es)" using n(1) by (intro filter_slice) auto
    then have "take 1 (filter (\<lambda>e. b < ev_at e) es) = slice es n (n + 1)" by (simp add: slice_def)
    ultimately show ?thesis using False get slice_append[OF mn, of "n + 1" es] by simp
  qed
qed

theorem get_events_window_witness:
  "let es = [\<lparr>ev_at = 1, ev_value = ''a''\<rparr>, \<lparr>ev_at = 4, ev_value = ''b''\<rparr>, \<lparr>ev_at = 9, ev_value = ''c''\<rparr>]
   in get_events es 2 6 = filter (\<lambda>e. 2 \<le> ev_at e \<and> ev_at e \<le> 6) es @
    (if 6 \<in> ev_at ` set es then [] else take 1 (filter (\<lambda>e. 6 < ev_at e) es))"
  unfolding Let_def by (rule get_events_window) auto

section \<open>What a data file holds\<close>

text \<open>\<open>sort (cmp)\<close> is the stable sort by start or by time.\<close>

lemma insert_cmp:
  "insert_cmp ranges_cmp r rs = insort_key dr_start r rs" "insert_cmp events_cmp e es = insort_key ev_at e es"
  by (induction rs, simp_all add: ranges_cmp_def) (induction es, simp_all add: events_cmp_def)

lemma sort_cmp: "sort_cmp ranges_cmp rs = sort_key dr_start rs" "sort_cmp events_cmp es = sort_key ev_at es"
  by (simp_all add: sort_cmp_def sort_key_def insert_cmp cong: foldr_cong)

text \<open>The series of a name in a time line; a name that is not there has none.\<close>

definition series :: "(timeline \<Rightarrow> 'a list named) \<Rightarrow> timelines \<Rightarrow> string \<Rightarrow> string \<Rightarrow> 'a list" where
  "series kind ts t n =
     (case map_of ts t of None \<Rightarrow> []
      | Some line \<Rightarrow> (case map_of (kind line) n of None \<Rightarrow> [] | Some xs \<Rightarrow> xs))"

lemma map_of_on_named:
  "map_of (on_named n new f xs) = (map_of xs)(n \<mapsto> f (case map_of xs n of None \<Rightarrow> new | Some x \<Rightarrow> x))"
  by (induction xs) auto

lemmas series_simps = series_def map_of_on_named add_range_def add_event_str_def add_event_int_def new_timeline_def

lemma series_add:
  "series tl_ranges (add_range t n r ts) a b = series tl_ranges ts a b @ (if (t, n) = (a, b) then [r] else [])"
  "series tl_event_str (add_range t n r ts) a b = series tl_event_str ts a b"
  "series tl_event_int (add_range t n r ts) a b = series tl_event_int ts a b"
  "series tl_ranges (add_event_str t n e ts) a b = series tl_ranges ts a b"
  "series tl_event_str (add_event_str t n e ts) a b = series tl_event_str ts a b @ (if (t, n) = (a, b) then [e] else [])"
  "series tl_event_int (add_event_str t n e ts) a b = series tl_event_int ts a b"
  "series tl_ranges (add_event_int t n i ts) a b = series tl_ranges ts a b"
  "series tl_event_str (add_event_int t n i ts) a b = series tl_event_str ts a b"
  "series tl_event_int (add_event_int t n i ts) a b = series tl_event_int ts a b @ (if (t, n) = (a, b) then [i] else [])"
  by (auto simp: series_simps split: option.splits)

lemma map_of_map_prod: "map_of (map (map_prod id f) xs) k = map_option f (map_of xs k)"
  by (induction xs) auto

lemma series_sort:
  "series tl_ranges (sort_timelines ts) t n = sort_key dr_start (series tl_ranges ts t n)"
  "series tl_event_str (sort_timelines ts) t n = sort_key ev_at (series tl_event_str ts t n)"
  "series tl_event_int (sort_timelines ts) t n = sort_key ev_at (series tl_event_int ts t n)"
  by (auto simp: series_def sort_timelines_def sort_timeline_def map_of_map_prod sort_cmp split: option.splits)

text \<open>A line matches at most one of the four patterns: their first words differ.\<close>

lemma lit_Some: "lit p s = Some r \<longleftrightarrow> s = p @ r"
  by (auto simp: lit_def startswith_def) (metis append_take_drop_id)

lemma pattern_words:
  "match_range l \<noteq> None \<Longrightarrow> \<exists>r. l = ''range '' @ r" "match_event_str l \<noteq> None \<Longrightarrow> \<exists>r. l = ''event-str '' @ r"
  "match_event_int l \<noteq> None \<Longrightarrow> \<exists>r. l = ''event-int '' @ r" "match_color l \<noteq> None \<Longrightarrow> \<exists>r. l = ''color '' @ r"
  by (auto simp: match_range_def match_event_str_def match_event_int_def match_color_def bind_eq_Some_conv lit_Some)

lemmas match_defs = match_range_def match_event_str_def match_event_int_def match_color_def lit_def startswith_def

lemma one_pattern:
  "match_range l \<noteq> None \<Longrightarrow> match_event_str l = None \<and> match_event_int l = None \<and> match_color l = None"
  "match_event_str l \<noteq> None \<Longrightarrow> match_range l = None \<and> match_event_int l = None \<and> match_color l = None"
  "match_event_int l \<noteq> None \<Longrightarrow> match_range l = None \<and> match_event_str l = None \<and> match_color l = None"
proof -
  {
    assume "match_range l \<noteq> None"
    then obtain r where "l = ''range '' @ r" using pattern_words by blast
    then show "match_event_str l = None \<and> match_event_int l = None \<and> match_color l = None" by (simp add: match_defs)
  }
  {
    assume "match_event_str l \<noteq> None"
    then obtain r where "l = ''event-str '' @ r" using pattern_words by blast
    then show "match_range l = None \<and> match_event_int l = None \<and> match_color l = None" by (simp add: match_defs)
  }
  {
    assume "match_event_int l \<noteq> None"
    then obtain r where "l = ''event-int '' @ r" using pattern_words by blast
    then show "match_range l = None \<and> match_event_str l = None \<and> match_color l = None" by (simp add: match_defs)
  }
qed

lemma map_filter_append: "List.map_filter f (xs @ ys) = List.map_filter f xs @ List.map_filter f ys"
  by (simp add: List.map_filter_def)

lemma map_filter_one: "List.map_filter f [x] = (case f x of None \<Rightarrow> [] | Some y \<Rightarrow> [y])"
  by (simp add: List.map_filter_def split: option.splits)

definition picked :: "(string \<Rightarrow> (string \<times> string \<times> 'a) option) \<Rightarrow> string \<Rightarrow> string \<Rightarrow> string list \<Rightarrow> 'a list" where
  "picked m t n ls = List.map_filter (\<lambda>l. case m l of Some (a, b, x) \<Rightarrow> if (a, b) = (t, n) then Some x else None | None \<Rightarrow> None) ls"

lemma picked_simps [simp]:
  "picked m t n [] = []"
  "picked m t n (ls @ [l]) = picked m t n ls @ (case m l of Some (a, b, x) \<Rightarrow> if (a, b) = (t, n) then [x] else [] | None \<Rightarrow> [])"
  by (auto simp: picked_def map_filter_append map_filter_one List.map_filter_def split: option.splits)

lemma read_lines:
  "foldl read_line (new_colors, []) ls = (cs, ts) \<Longrightarrow>
     series tl_ranges ts t n = picked match_range t n ls \<and>
     series tl_event_str ts t n = picked match_event_str t n ls \<and>
     series tl_event_int ts t n = picked match_event_int t n ls \<and>
     named_colors cs = rev (List.map_filter match_color ls) \<and> default_colors cs = default_colors new_colors"
proof (induction ls arbitrary: cs ts rule: rev_induct)
  case Nil
  then show ?case by (auto simp: series_def new_colors_def)
next
  case (snoc l ls)
  obtain cs' ts' where f: "foldl read_line (new_colors, []) ls = (cs', ts')" by (cases "foldl read_line (new_colors, []) ls")
  note IH = snoc.IH[OF f]
  from snoc.prems f have r: "read_line (cs', ts') l = (cs, ts)" by simp
  consider (range) x where "match_range l = Some x" | (str) x where "match_event_str l = Some x"
    | (int) x where "match_event_int l = Some x" | (color) x where "match_color l = Some x" "match_range l = None"
        "match_event_str l = None" "match_event_int l = None"
    | (none) "match_range l = None" "match_event_str l = None" "match_event_int l = None" "match_color l = None"
    by (cases "match_range l"; cases "match_event_str l"; cases "match_event_int l"; cases "match_color l") auto
  then show ?case
  proof cases
    case range
    obtain a b y where "x = (a, b, y)" by (cases x)
    then show ?thesis using r IH range one_pattern(1)[of l]
      by (auto simp: read_line_def series_add map_filter_append map_filter_one)
  next
    case str
    obtain a b y where "x = (a, b, y)" by (cases x)
    then show ?thesis using r IH str one_pattern(2)[of l]
      by (auto simp: read_line_def series_add map_filter_append map_filter_one)
  next
    case int
    obtain a b y where "x = (a, b, y)" by (cases x)
    then show ?thesis using r IH int one_pattern(3)[of l]
      by (auto simp: read_line_def series_add map_filter_append map_filter_one)
  next
    case color
    obtain a y where "x = (a, y)" by (cases x)
    then show ?thesis using r IH color
      by (auto simp: read_line_def add_color_def map_filter_append map_filter_one)
  next
    case none
    then show ?thesis using r IH by (auto simp: read_line_def map_filter_append map_filter_one)
  qed
qed

text \<open>C25. Reading a file gives, for every pair of names, the ranges and the events of the lines that carry
  them, sorted by their time and otherwise in the order of the file; of several colours with one name
  the last one counts.\<close>

theorem read_data_contents:
  assumes "fs f = Some s"
  shows "\<exists>cs ts. read_data fs f = Inr (cs, ts) \<and>
    series tl_ranges ts t n = sort_key dr_start (picked match_range t n (readlines s)) \<and>
    series tl_event_str ts t n = sort_key ev_at (picked match_event_str t n (readlines s)) \<and>
    series tl_event_int ts t n = sort_key ev_at (picked match_event_int t n (readlines s)) \<and>
    map_of (named_colors cs) v = map_of (rev (List.map_filter match_color (readlines s))) v"
proof -
  obtain cs ts where f: "foldl read_line (new_colors, []) (readlines s) = (cs, ts)"
    by (cases "foldl read_line (new_colors, []) (readlines s)")
  then have "read_data fs f = Inr (cs, sort_timelines ts)" using assms by (simp add: read_data_def open_text_def)
  then show ?thesis using read_lines[OF f, of t n] by (simp add: series_sort)
qed

theorem read_data_contents_witness:
  "let s = ''range n1 up ok 5 9\<newline>event-str n1 log hi 7\<newline>range n1 up bad 1 3\<newline>'' in
   \<exists>cs ts. read_data [''d'' \<mapsto> s] ''d'' = Inr (cs, ts) \<and>
    series tl_ranges ts ''n1'' ''up'' = sort_key dr_start (picked match_range ''n1'' ''up'' (readlines s)) \<and>
    series tl_event_str ts ''n1'' ''up'' = sort_key ev_at (picked match_event_str ''n1'' ''up'' (readlines s)) \<and>
    series tl_event_int ts ''n1'' ''up'' = sort_key ev_at (picked match_event_int ''n1'' ''up'' (readlines s)) \<and>
    map_of (named_colors cs) ''ok'' = map_of (rev (List.map_filter match_color (readlines s))) ''ok''"
  unfolding Let_def by (rule read_data_contents) simp

section \<open>Names, colours and bounds\<close>

definition members :: "('a \<Rightarrow> bool) \<Rightarrow> 'a named \<Rightarrow> bool" where
  "members P xs = (distinct (map fst xs) \<and> list_all P (map snd xs))"

lemma on_named_fst: "map fst (on_named n new f xs) = (if n \<in> fst ` set xs then map fst xs else map fst xs @ [n])"
proof (induction xs)
  case (Cons x xs)
  then show ?case by (cases x) (auto split: if_splits)
qed simp

lemma on_named_snd:
  "list_all P (map snd xs) \<Longrightarrow> (\<And>y. y = new \<or> P y \<Longrightarrow> P (f y)) \<Longrightarrow> list_all P (map snd (on_named n new f xs))"
proof (induction xs)
  case (Cons x xs)
  then show ?case by (cases x) simp
qed simp

lemma members_on_named:
  "members P xs \<Longrightarrow> (\<And>y. y = new \<or> P y \<Longrightarrow> P (f y)) \<Longrightarrow> members P (on_named n new f xs)"
  using on_named_snd[of P xs new f n] by (auto simp: members_def on_named_fst)

lemma members_map: "members P xs \<Longrightarrow> (\<And>y. P y \<Longrightarrow> Q (f y)) \<Longrightarrow> members Q (map (map_prod id f) xs)"
  by (auto simp: members_def list_all_iff comp_def)

text \<open>Every list of a time line is reached by one name, has members, and its times are not negative;
  after sorting they are in order.\<close>

definition times_ok :: "('a \<Rightarrow> int) \<Rightarrow> 'a list \<Rightarrow> bool" where
  "times_ok key xs = (xs \<noteq> [] \<and> list_all (\<lambda>x. 0 \<le> key x) xs)"

definition range_ok :: "data_range list \<Rightarrow> bool" where
  "range_ok rs = (times_ok dr_start rs \<and> times_ok dr_end rs)"

definition line_ok :: "(data_range list \<Rightarrow> bool) \<Rightarrow> (string event list \<Rightarrow> bool) \<Rightarrow> (int event list \<Rightarrow> bool) \<Rightarrow> timeline \<Rightarrow> bool" where
  "line_ok P Q R line = (members P (tl_ranges line) \<and> members Q (tl_event_str line) \<and> members R (tl_event_int line))"

abbreviation raw_ok :: "timeline \<Rightarrow> bool" where
  "raw_ok \<equiv> line_ok range_ok (times_ok ev_at) (times_ok ev_at)"

definition sorted_ok :: "timelines \<Rightarrow> bool" where
  "sorted_ok = members (line_ok (\<lambda>rs. range_ok rs \<and> sorted (map dr_start rs))
     (\<lambda>es. times_ok ev_at es \<and> sorted (map ev_at es)) (\<lambda>es. times_ok ev_at es \<and> sorted (map ev_at es)))"

lemma raw_add:
  "members raw_ok ts \<Longrightarrow> 0 \<le> dr_start r \<Longrightarrow> 0 \<le> dr_end r \<Longrightarrow> members raw_ok (add_range t n r ts)"
  "members raw_ok ts \<Longrightarrow> 0 \<le> ev_at e \<Longrightarrow> members raw_ok (add_event_str t n e ts)"
  "members raw_ok ts \<Longrightarrow> 0 \<le> ev_at i \<Longrightarrow> members raw_ok (add_event_int t n i ts)"
  unfolding add_range_def add_event_str_def add_event_int_def
  by (erule members_on_named; force simp: line_ok_def new_timeline_def range_ok_def times_ok_def members_def[where xs = "[]"]
      intro!: members_on_named)+

lemma digits_val_nonneg: "list_all is_digit s \<Longrightarrow> 0 \<le> digits_val s"
proof (induction s rule: rev_induct)
  case (snoc c s)
  then have c: "0 \<le> digit_val c" by (auto simp: is_digit_def digit_val_def)
  have "0 \<le> digits_val s" using snoc by simp
  with c show ?case by simp
qed simp

lemma number_nonneg: "number s = Some (a, r) \<Longrightarrow> 0 \<le> a"
  by (auto simp: number_def Let_def list_all_iff dest: set_takeWhileD intro!: digits_val_nonneg split: if_splits)

lemma match_nonneg:
  "match_range l = Some (t, n, r) \<Longrightarrow> 0 \<le> dr_start r \<and> 0 \<le> dr_end r"
  "match_event_str l = Some (t, n, e) \<Longrightarrow> 0 \<le> ev_at e"
  "match_event_int l = Some (t, n, i) \<Longrightarrow> 0 \<le> ev_at i"
  by (auto simp: match_range_def match_event_str_def match_event_int_def bind_eq_Some_conv dest: number_nonneg)

lemma raw_read: "members raw_ok ts \<Longrightarrow> members raw_ok (snd (foldl read_line (cs, ts) ls))"
proof (induction ls arbitrary: cs ts)
  case (Cons l ls)
  obtain cs' ts' where r: "read_line (cs, ts) l = (cs', ts')" by (cases "read_line (cs, ts) l")
  then have "members raw_ok ts'"
    using Cons.prems by (auto simp: read_line_def raw_add match_nonneg split: option.splits)
  from Cons.IH[OF this] r show ?case by simp
qed simp

lemma sort_key_Nil: "sort_key f xs = [] \<longleftrightarrow> xs = []"
  by (metis length_0_conv length_sort)

lemma sorted_ok_sort: "members raw_ok ts \<Longrightarrow> sorted_ok (sort_timelines ts)"
  unfolding sorted_ok_def sort_timelines_def
  by (erule members_map) (auto simp: line_ok_def sort_timeline_def range_ok_def times_ok_def sort_cmp sort_key_Nil list_all_iff intro!: members_map)

lemma hex_bounds: "hex_digit c = Some x \<Longrightarrow> 0 \<le> x \<and> x \<le> 15"
proof -
  assume c: "hex_digit c = Some x"
  then have "c \<in> set ''0123456789'' \<union> set ''abcdef'' \<union> set ''ABCDEF''"
    unfolding hex_digit_def is_digit_def by (metis UnCI option.distinct(1))
  moreover have "list_all (\<lambda>c. case hex_digit c of Some x \<Rightarrow> 0 \<le> x \<and> x \<le> 15 | None \<Rightarrow> False) ''0123456789abcdefABCDEF''"
    by code_simp
  ultimately show ?thesis using c by (auto simp: list_all_iff)
qed

lemma hex2_bounds: "hex2 s = Some (x, r) \<Longrightarrow> x div 255 = 0 \<or> x div 255 = 1"
proof -
  assume "hex2 s = Some (x, r)"
  then obtain a b where "0 \<le> a" "a \<le> 15" "0 \<le> b" "b \<le> 15" "x = 16 * a + b"
    by (auto simp: hex2_def bind_eq_Some_conv split: list.splits dest!: hex_bounds)
  then show ?thesis by (cases "x = 255") auto
qed

lemma match_color_components:
  "match_color l = Some (n, r, g, b) \<Longrightarrow> r \<in> {0, 1} \<and> g \<in> {0, 1} \<and> b \<in> {0, 1}"
  by (auto simp: match_color_def bind_eq_Some_conv dest!: hex2_bounds)

lemma read_data_run:
  assumes "read_data fs f = Inr (cs, ts)"
  obtains s us where "fs f = Some s" "foldl read_line (new_colors, []) (readlines s) = (cs, us)" "ts = sort_timelines us"
    "members raw_ok us"
proof -
  obtain s where s: "fs f = Some s" using assms by (cases "fs f") (auto simp: read_data_def open_text_def)
  obtain cs' us where f: "foldl read_line (new_colors, []) (readlines s) = (cs', us)"
    by (cases "foldl read_line (new_colors, []) (readlines s)")
  have "members raw_ok us" using raw_read[of "[]" new_colors "readlines s"] f by (simp add: members_def)
  with s f assms show thesis by (intro that[of s us]) (auto simp: read_data_def open_text_def)
qed

lemma read_data_sorted_ok: "read_data fs f = Inr (cs, ts) \<Longrightarrow> sorted_ok ts"
  using sorted_ok_sort by (elim read_data_run) simp

text \<open>C26. In what is read, no name occurs twice among the time lines or within one kind of a time line, no
  list is empty, every list is in order of its times and no time is negative; every component of a
  colour is 0 or 1, because \<open>r / 255\<close> divides integers.\<close>

theorem read_data_typed:
  assumes "read_data fs f = Inr (cs, ts)"
  shows "sorted_ok ts \<and> (\<forall>(n, r, g, b) \<in> set (named_colors cs). r \<in> {0, 1} \<and> g \<in> {0, 1} \<and> b \<in> {0, 1})"
proof -
  obtain s us where s: "foldl read_line (new_colors, []) (readlines s) = (cs, us)"
    using assms by (rule read_data_run)
  have "named_colors cs = rev (List.map_filter match_color (readlines s))" using read_lines[OF s] by simp
  then have "\<forall>(n, r, g, b) \<in> set (named_colors cs). r \<in> {0, 1} \<and> g \<in> {0, 1} \<and> b \<in> {0, 1}"
    using match_color_components by (fastforce simp: List.map_filter_def)
  then show ?thesis using read_data_sorted_ok[OF assms] by blast
qed

theorem read_data_typed_witness:
  "let r = read_data [''d'' \<mapsto> ''range n1 up ok 5 9\<newline>color ok #80ff7F\<newline>''] ''d'';
       cs = fst (projr r); ts = snd (projr r)
   in sorted_ok ts \<and> (\<forall>(n, r, g, b) \<in> set (named_colors cs). r \<in> {0, 1} \<and> g \<in> {0, 1} \<and> b \<in> {0, 1}) \<and>
    named_colors cs = [(''ok'', 0, 1, 0)]"
proof -
  have "read_data [''d'' \<mapsto> ''range n1 up ok 5 9\<newline>color ok #80ff7F\<newline>''] ''d'' =
    Inr (\<lparr>named_colors = [(''ok'', 0, 1, 0)], default_colors = default_colors new_colors\<rparr>,
      [(''n1'', \<lparr>tl_ranges = [(''up'', [\<lparr>dr_start = 5, dr_end = 9, dr_value = ''ok''\<rparr>])], tl_event_str = [], tl_event_int = []\<rparr>)])"
    by code_simp
  from read_data_typed[OF this] this show ?thesis by simp
qed

lemma widen_fold:
  "b' = foldl (\<lambda>b (n, x). widen b (g x)) b xs \<Longrightarrow>
     snd b \<le> snd b' \<and> (\<forall>(n, x) \<in> set xs. snd (g x) \<le> snd b') \<and> (fst b = 0 \<longrightarrow> list_all (\<lambda>x. 0 \<le> fst (g x)) (map snd xs) \<longrightarrow> fst b' = 0)"
proof (induction xs arbitrary: b)
  case (Cons x xs)
  obtain n y where x: "x = (n, y)" by (cases x)
  show ?case using Cons.IH[of "widen b (g y)"] Cons.prems x by (auto simp: widen_def split: if_splits)
qed simp

lemma members_in: "members P xs \<Longrightarrow> (n, x) \<in> set xs \<Longrightarrow> P x"
  by (force simp: members_def list_all_iff)

lemma members_all: "members P xs \<Longrightarrow> (\<And>x. P x \<Longrightarrow> Q x) \<Longrightarrow> list_all Q (map snd xs)"
  by (auto simp: members_def list_all_iff)

lemma series_in:
  assumes "x \<in> set (series kind ts t n)"
  shows "\<exists>line. (t, line) \<in> set ts \<and> (n, series kind ts t n) \<in> set (kind line)"
  using assms by (auto simp: series_def split: option.splits intro: map_of_SomeD)

lemma times_ok_first: "times_ok key xs \<Longrightarrow> 0 < length xs \<and> 0 \<le> key (xs ! 0)"
  by (auto simp: times_ok_def list_all_length)

lemma events_bounds:
  assumes "times_ok ev_at es" "sorted (map ev_at es)"
  shows "0 \<le> fst (events_get_bounds es) \<and> (\<forall>e \<in> set es. ev_at e \<le> snd (events_get_bounds es))"
proof -
  note first = times_ok_first[OF assms(1)]
  have "ev_at (es ! i) \<le> ev_at (last es)" if "i < length es" for i
    using sorted_nth_mono[OF assms(2), of i "length es - 1"] that first by (simp add: last_conv_nth)
  with first show ?thesis by (auto simp: events_get_bounds_def in_set_conv_nth)
qed

lemma ranges_bounds:
  assumes "range_ok rs"
  shows "0 \<le> fst (ranges_get_bounds rs) \<and> (apart rs \<longrightarrow> (\<forall>r \<in> set rs. dr_end r \<le> snd (ranges_get_bounds rs)))"
proof -
  have first: "0 < length rs" "0 \<le> dr_start (rs ! 0)" using times_ok_first[of dr_start rs] assms by (auto simp: range_ok_def)
  have "dr_end (rs ! i) \<le> dr_end (rs ! (length rs - 1))" if "apart rs" "i < length rs" for i
  proof (cases "i = length rs - 1")
    case False
    then have "i < length rs - 1" using that(2) by simp
    then have "dr_end (rs ! i) < dr_start (rs ! (length rs - 1))" using first by (intro apart_nth(2)[OF that(1)]) auto
    moreover have "dr_start (rs ! (length rs - 1)) \<le> dr_end (rs ! (length rs - 1))"
      using first by (intro apart_nth(1)[OF that(1)]) auto
    ultimately show ?thesis by simp
  qed simp
  with first show ?thesis by (auto simp: ranges_get_bounds_def in_set_conv_nth)
qed

text \<open>The bounds computed after reading start at 0 and reach every event; they reach the end of every range
  when the ranges of its list are apart.\<close>

theorem timelines_bounds_reach:
  assumes "read_data fs f = Inr (cs, ts)"
  shows "fst (timelines_bounds ts) = 0 \<and>
    (\<forall>t n. (\<forall>e \<in> set (series tl_event_str ts t n). ev_at e \<le> snd (timelines_bounds ts)) \<and>
       (\<forall>e \<in> set (series tl_event_int ts t n). ev_at e \<le> snd (timelines_bounds ts)) \<and>
       (apart (series tl_ranges ts t n) \<longrightarrow> (\<forall>r \<in> set (series tl_ranges ts t n). dr_end r \<le> snd (timelines_bounds ts))))"
proof -
  note ok = read_data_sorted_ok[OF assms, unfolded sorted_ok_def]
  have line: "fst (timeline_bounds line) = 0 \<and>
      (\<forall>(n, rs) \<in> set (tl_ranges line). snd (ranges_get_bounds rs) \<le> snd (timeline_bounds line)) \<and>
      (\<forall>(n, es) \<in> set (tl_event_str line). snd (events_get_bounds es) \<le> snd (timeline_bounds line)) \<and>
      (\<forall>(n, es) \<in> set (tl_event_int line). snd (events_get_bounds es) \<le> snd (timeline_bounds line))"
    if "(t, line) \<in> set ts" for t line
  proof -
    have l: "line_ok (\<lambda>rs. range_ok rs \<and> sorted (map dr_start rs)) (\<lambda>es. times_ok ev_at es \<and> sorted (map ev_at es))
        (\<lambda>es. times_ok ev_at es \<and> sorted (map ev_at es)) line"
      using members_in[OF ok that] .
    let ?b1 = "foldl (\<lambda>b (n, rs). widen b (ranges_get_bounds rs)) (0, 0) (tl_ranges line)"
    let ?b2 = "foldl (\<lambda>b (n, es). widen b (events_get_bounds es)) ?b1 (tl_event_str line)"
    have "list_all (\<lambda>rs. 0 \<le> fst (ranges_get_bounds rs)) (map snd (tl_ranges line))"
      "list_all (\<lambda>es. 0 \<le> fst (events_get_bounds es)) (map snd (tl_event_str line))"
      "list_all (\<lambda>es. 0 \<le> fst (events_get_bounds es)) (map snd (tl_event_int line))"
      using l by (auto simp: line_ok_def ranges_bounds events_bounds elim!: members_all)
    moreover have "timeline_bounds line = foldl (\<lambda>b (n, es). widen b (events_get_bounds es)) ?b2 (tl_event_int line)"
      by (simp add: timeline_bounds_def)
    ultimately show ?thesis
      using widen_fold[of ?b1 ranges_get_bounds "(0, 0)" "tl_ranges line"]
        widen_fold[of ?b2 events_get_bounds ?b1 "tl_event_str line"]
        widen_fold[of "timeline_bounds line" events_get_bounds ?b2 "tl_event_int line"] by fastforce
  qed
  have all: "fst (timelines_bounds ts) = 0" "\<And>t line. (t, line) \<in> set ts \<Longrightarrow> snd (timeline_bounds line) \<le> snd (timelines_bounds ts)"
    using widen_fold[of "timelines_bounds ts" timeline_bounds "(0, 0)" ts] line
    by (fastforce simp: timelines_bounds_def list_all_iff)+
  show ?thesis
  proof (intro conjI allI ballI impI all(1))
    fix t n e assume e: "e \<in> set (series tl_event_str ts t n)"
    then obtain line where l: "(t, line) \<in> set ts" "(n, series tl_event_str ts t n) \<in> set (tl_event_str line)" using series_in by meson
    from members_in[OF ok l(1)] have "times_ok ev_at (series tl_event_str ts t n)" "sorted (map ev_at (series tl_event_str ts t n))"
      using members_in l(2) by (auto simp: line_ok_def dest: members_in)
    then have "ev_at e \<le> snd (events_get_bounds (series tl_event_str ts t n))" using events_bounds e by blast
    also have "\<dots> \<le> snd (timeline_bounds line)" using line[OF l(1)] l(2) by auto
    also note all(2)[OF l(1)]
    finally show "ev_at e \<le> snd (timelines_bounds ts)" .
  next
    fix t n e assume e: "e \<in> set (series tl_event_int ts t n)"
    then obtain line where l: "(t, line) \<in> set ts" "(n, series tl_event_int ts t n) \<in> set (tl_event_int line)" using series_in by meson
    from members_in[OF ok l(1)] have "times_ok ev_at (series tl_event_int ts t n)" "sorted (map ev_at (series tl_event_int ts t n))"
      using members_in l(2) by (auto simp: line_ok_def dest: members_in)
    then have "ev_at e \<le> snd (events_get_bounds (series tl_event_int ts t n))" using events_bounds e by blast
    also have "\<dots> \<le> snd (timeline_bounds line)" using line[OF l(1)] l(2) by auto
    also note all(2)[OF l(1)]
    finally show "ev_at e \<le> snd (timelines_bounds ts)" .
  next
    fix t n r assume e: "apart (series tl_ranges ts t n)" "r \<in> set (series tl_ranges ts t n)"
    then obtain line where l: "(t, line) \<in> set ts" "(n, series tl_ranges ts t n) \<in> set (tl_ranges line)" using series_in by meson
    from members_in[OF ok l(1)] have "range_ok (series tl_ranges ts t n)"
      using members_in l(2) by (auto simp: line_ok_def dest: members_in)
    then have "dr_end r \<le> snd (ranges_get_bounds (series tl_ranges ts t n))" using ranges_bounds e by blast
    also have "\<dots> \<le> snd (timeline_bounds line)" using line[OF l(1)] l(2) by auto
    also note all(2)[OF l(1)]
    finally show "dr_end r \<le> snd (timelines_bounds ts)" .
  qed
qed

theorem timelines_bounds_reach_witness:
  "let ts = snd (projr (read_data [''d'' \<mapsto> ''range n1 up ok 5 9\<newline>event-str n1 log hi 12\<newline>''] ''d''))
   in fst (timelines_bounds ts) = 0 \<and>
    (\<forall>t n. (\<forall>e \<in> set (series tl_event_str ts t n). ev_at e \<le> snd (timelines_bounds ts)) \<and>
       (\<forall>e \<in> set (series tl_event_int ts t n). ev_at e \<le> snd (timelines_bounds ts)) \<and>
       (apart (series tl_ranges ts t n) \<longrightarrow> (\<forall>r \<in> set (series tl_ranges ts t n). dr_end r \<le> snd (timelines_bounds ts))))"
proof -
  have eq: "read_data [''d'' \<mapsto> ''range n1 up ok 5 9\<newline>event-str n1 log hi 12\<newline>''] ''d'' = Inr (new_colors,
      [(''n1'', \<lparr>tl_ranges = [(''up'', [\<lparr>dr_start = 5, dr_end = 9, dr_value = ''ok''\<rparr>])],
        tl_event_str = [(''log'', [\<lparr>ev_at = 12, ev_value = ''hi''\<rparr>])], tl_event_int = []\<rparr>)])"
    by code_simp
  show ?thesis using timelines_bounds_reach[OF eq] by (simp add: eq)
qed

text \<open>The values without a colour of their own take the default colours from the last one on.\<close>

definition fresh_values :: "string list \<Rightarrow> colors \<Rightarrow> string list" where
  "fresh_values vs cs = filter (\<lambda>v. map_of (named_colors cs) v = None) vs"

definition legend_map :: "string list \<Rightarrow> colors \<Rightarrow> string \<Rightarrow> color option" where
  "legend_map vs cs = map_of (zip (fresh_values vs cs) (rev (default_colors cs))) ++ map_of (named_colors cs)"

lemma fresh_values_other: "v \<notin> set vs \<Longrightarrow> fresh_values vs (add_color v c cs) = fresh_values vs cs"
  unfolding fresh_values_def by (intro filter_cong) (auto simp: add_color_def)

lemma legend_run:
  "distinct vs \<Longrightarrow> (if length (fresh_values vs cs) \<le> length (default_colors cs)
     then \<exists>cl cs'. legend_colors vs cs = Inr (cl, cs') \<and> map Some cl = map (legend_map vs cs) vs
     else legend_colors vs cs = Inl IndexError)"
proof (induction vs arbitrary: cs)
  case Nil
  then show ?case by (simp add: fresh_values_def)
next
  case (Cons v vs)
  show ?case
  proof (cases "map_of (named_colors cs) v")
    case (Some c)
    then have f: "fresh_values (v # vs) cs = fresh_values vs cs" by (simp add: fresh_values_def)
    then have m: "legend_map (v # vs) cs = legend_map vs cs" by (simp add: legend_map_def)
    show ?thesis using Cons.IH[of cs] Cons.prems Some f m by (auto simp: lookup_color_def legend_map_def split: if_splits)
  next
    case None
    then have f: "fresh_values (v # vs) cs = v # fresh_values vs cs" by (simp add: fresh_values_def)
    show ?thesis
    proof (cases "default_colors cs" rule: rev_cases)
      case Nil
      then show ?thesis using None f by (simp add: lookup_color_def)
    next
      case (snoc ds c)
      let ?cs = "add_color v c (cs\<lparr>default_colors := ds\<rparr>)"
      have fresh: "fresh_values vs ?cs = fresh_values vs cs"
        using Cons.prems fresh_values_other[of v vs c "cs\<lparr>default_colors := ds\<rparr>"] by (simp add: fresh_values_def)
      have m: "legend_map vs ?cs w = legend_map (v # vs) cs w" if "w \<in> set vs" for w
        using that Cons.prems fresh f snoc by (auto simp: legend_map_def add_color_def map_add_def split: option.split)
      have v: "legend_map (v # vs) cs v = Some c" using None f snoc by (simp add: legend_map_def map_add_def)
      have d: "default_colors ?cs = ds" by (simp add: add_color_def)
      have l: "lookup_color v cs = Inr (c, ?cs)" using None snoc by (simp add: lookup_color_def Let_def)
      show ?thesis using Cons.IH[of ?cs] Cons.prems
        unfolding fresh d f legend_colors.simps l by (auto simp: snoc v m cong: map_cong split: if_splits)
    qed
  qed
qed

lemma new_colors_simps: "length (default_colors new_colors) = 6" "distinct (default_colors new_colors)" "named_colors new_colors = []"
  by (simp_all add: new_colors_def)

lemma fresh_new: "fresh_values vs new_colors = vs"
  by (simp add: fresh_values_def new_colors_def)

text \<open>The legend shows named values in their colours and gives the others the six default colours from the
  last one on; a seventh value without a colour raises an \<open>IndexError\<close>.  With no named colour, up to six
  values have colours that differ.\<close>

theorem legend_default_colors:
  assumes "distinct vs"
  shows "(if length (fresh_values vs cs) \<le> length (default_colors cs)
      then \<exists>cl cs'. legend_colors vs cs = Inr (cl, cs') \<and> map Some cl = map (legend_map vs cs) vs
      else legend_colors vs cs = Inl IndexError) \<and>
    (if length vs \<le> 6 then \<exists>cl cs'. legend_colors vs new_colors = Inr (cl, cs') \<and> length cl = length vs \<and> distinct cl
      else legend_colors vs new_colors = Inl IndexError)"
proof (intro conjI)
  show "if length vs \<le> 6 then \<exists>cl cs'. legend_colors vs new_colors = Inr (cl, cs') \<and> length cl = length vs \<and> distinct cl
      else legend_colors vs new_colors = Inl IndexError"
  proof (cases "length vs \<le> 6")
    case True
    let ?ds = "rev (default_colors new_colors)"
    obtain cl cs' where l: "legend_colors vs new_colors = Inr (cl, cs')" "map Some cl = map (legend_map vs new_colors) vs"
      using legend_run[OF assms, of new_colors] True by (auto simp: fresh_new new_colors_simps)
    have "legend_map vs new_colors (vs ! i) = Some (?ds ! i)" if "i < length vs" for i
    proof -
      have "(vs ! i, ?ds ! i) \<in> set (zip vs ?ds)" using that True by (auto simp: set_zip new_colors_simps)
      then have "map_of (zip vs ?ds) (vs ! i) = Some (?ds ! i)" using assms by (intro map_of_is_SomeI) (auto simp: map_fst_zip_take)
      then show ?thesis by (simp add: legend_map_def fresh_new map_add_def new_colors_simps)
    qed
    then have "map Some cl = map Some (take (length vs) ?ds)"
      using True by (auto simp: l(2) new_colors_simps intro!: nth_equalityI)
    then have "cl = take (length vs) ?ds" by (simp add: inj_map_eq_map)
    then show ?thesis using l True by (auto simp: new_colors_simps intro!: distinct_take)
  next
    case False
    then show ?thesis using legend_run[OF assms, of new_colors] by (auto simp: fresh_new new_colors_simps)
  qed
qed (rule legend_run[OF assms])

theorem legend_default_colors_witness:
  "let vs = [''a'', ''b'', ''c'']; cs = new_colors\<lparr>named_colors := [(''b'', (0, 0, 0))]\<rparr> in
   (if length (fresh_values vs cs) \<le> length (default_colors cs)
      then \<exists>cl cs'. legend_colors vs cs = Inr (cl, cs') \<and> map Some cl = map (legend_map vs cs) vs
      else legend_colors vs cs = Inl IndexError) \<and>
    (if length vs \<le> 6 then \<exists>cl cs'. legend_colors vs new_colors = Inr (cl, cs') \<and> length cl = length vs \<and> distinct cl
      else legend_colors vs new_colors = Inl IndexError)"
  unfolding Let_def by (rule legend_default_colors) simp

end
