(* ===== verification/PyNum.thy ===== *)
theory PyNum
  imports PyFloat
begin

text \<open>
  Python 2 numbers: integers without bound and binary64 floats.  An operation on two integers stays with
  the integers (\<open>/\<close> rounds down), a float operand makes the result a float.  Comparisons are exact.
  Infinities and NaN do not occur (the components use no number that large).
\<close>

datatype pnum = NInt int | NFlt flt

definition nval :: "pnum \<Rightarrow> rat" where
  "nval a = (case a of NInt i \<Rightarrow> of_int i | NFlt x \<Rightarrow> x)"

definition to_flt :: "pnum \<Rightarrow> flt" where
  "to_flt a = (case a of NInt i \<Rightarrow> f_of_int i | NFlt x \<Rightarrow> x)"

fun num_op :: "(int \<Rightarrow> int \<Rightarrow> int) \<Rightarrow> (flt \<Rightarrow> flt \<Rightarrow> flt) \<Rightarrow> pnum \<Rightarrow> pnum \<Rightarrow> pnum" where
  "num_op f g (NInt i) (NInt j) = NInt (f i j)"
| "num_op f g a b = NFlt (g (to_flt a) (to_flt b))"

instantiation pnum :: "{plus, minus, times, ord}"
begin

definition plus_pnum :: "pnum \<Rightarrow> pnum \<Rightarrow> pnum" where "plus_pnum = num_op (+) fadd"
definition minus_pnum :: "pnum \<Rightarrow> pnum \<Rightarrow> pnum" where "minus_pnum = num_op (-) fsub"
definition times_pnum :: "pnum \<Rightarrow> pnum \<Rightarrow> pnum" where "times_pnum = num_op (*) fmul"
definition less_eq_pnum :: "pnum \<Rightarrow> pnum \<Rightarrow> bool" where "less_eq_pnum a b = (nval a \<le> nval b)"
definition less_pnum :: "pnum \<Rightarrow> pnum \<Rightarrow> bool" where "less_pnum a b = (nval a < nval b)"

instance ..

end

definition truthy :: "pnum \<Rightarrow> bool" where "truthy a = (nval a \<noteq> 0)"

definition same_num :: "pnum \<Rightarrow> pnum \<Rightarrow> bool" where "same_num a b = (nval a = nval b)"

fun ndiv :: "pnum \<Rightarrow> pnum \<Rightarrow> pnum res" where
  "ndiv (NInt i) (NInt j) = (if j = 0 then Inl ZeroDivisionError else Inr (NInt (i div j)))"
| "ndiv a b = (if nval b = 0 then Inl ZeroDivisionError else Inr (NFlt (fquo (to_flt a) (to_flt b))))"

text \<open>The remainder has the sign of the divisor; on floats the truncated remainder is exact and only the
  correction of its sign rounds.\<close>

definition fmod :: "flt \<Rightarrow> flt \<Rightarrow> flt" where
  "fmod x y = (let m = x - y * of_int (py_trunc (x / y)) in if m \<noteq> 0 \<and> (y < 0) \<noteq> (m < 0) then fadd m y else m)"

fun nmod :: "pnum \<Rightarrow> pnum \<Rightarrow> pnum res" where
  "nmod (NInt i) (NInt j) = (if j = 0 then Inl ZeroDivisionError else Inr (NInt (i mod j)))"
| "nmod a b = (if nval b = 0 then Inl ZeroDivisionError else Inr (NFlt (fmod (to_flt a) (to_flt b))))"

text \<open>\<open>max\<close> and \<open>min\<close> keep the first argument unless the second is beyond it.\<close>

definition nmax :: "pnum \<Rightarrow> pnum \<Rightarrow> pnum" where "nmax a b = (if a < b then b else a)"
definition nmin :: "pnum \<Rightarrow> pnum \<Rightarrow> pnum" where "nmin a b = (if b < a then b else a)"

definition nabs :: "pnum \<Rightarrow> pnum" where
  "nabs a = (case a of NInt i \<Rightarrow> NInt \<bar>i\<bar> | NFlt x \<Rightarrow> NFlt \<bar>x\<bar>)"

definition nint :: "pnum \<Rightarrow> int" where
  "nint a = (case a of NInt i \<Rightarrow> i | NFlt x \<Rightarrow> py_trunc x)"

named_theorems num_simps "numbers"

lemma nval_simps [simp, num_simps]: "nval (NInt i) = of_int i" "nval (NFlt x) = x"
  by (simp_all add: nval_def)

lemma to_flt_simps [simp, num_simps]: "to_flt (NInt i) = f_of_int i" "to_flt (NFlt x) = x"
  by (simp_all add: to_flt_def)

lemma num_int [simp, num_simps]:
  "NInt i + NInt j = NInt (i + j)" "NInt i - NInt j = NInt (i - j)" "NInt i * NInt j = NInt (i * j)"
  by (simp_all add: plus_pnum_def minus_pnum_def times_pnum_def)

lemma num_flt [num_simps]:
  "NFlt x + b = NFlt (fadd x (to_flt b))" "NFlt x - b = NFlt (fsub x (to_flt b))" "NFlt x * b = NFlt (fmul x (to_flt b))"
  "NInt i + NFlt y = NFlt (fadd (f_of_int i) y)" "NInt i - NFlt y = NFlt (fsub (f_of_int i) y)"
  "NInt i * NFlt y = NFlt (fmul (f_of_int i) y)"
  by (cases b; simp add: plus_pnum_def minus_pnum_def times_pnum_def)+

lemma num_order [num_simps]: "(a :: pnum) \<le> b \<longleftrightarrow> nval a \<le> nval b" "(a :: pnum) < b \<longleftrightarrow> nval a < nval b"
  by (simp_all add: less_eq_pnum_def less_pnum_def)

lemma nval_max_min: "nval (nmax a b) = max (nval a) (nval b)" "nval (nmin a b) = min (nval a) (nval b)"
  by (auto simp: nmax_def nmin_def num_order)

end
