(* ===== verification/GridView.thy ===== *)
theory GridView
  imports GridData PyNum
begin

text \<open>
  The view of \<open>simulation/utils/grid.py\<close>: the layout of the legend, the time lines and the two scales, the
  window \<open>[r_start, r_end]\<close> that is shown, and the handlers of the mouse, the buttons and the resizing of
  the widget.  An attribute that is set by a later call is an option: reading it before raises an
  \<open>AttributeError\<close>.  The extents of a text are cairo's and are a parameter.  What a handler asks of GTK is
  a list of requests.
\<close>

section \<open>Layout\<close>

record page =
  text_extents :: "string \<Rightarrow> pnum \<times> pnum"
  page_legends :: "string list"
  page_lines :: timelines

definition padding :: pnum where "padding = NInt 10"

definition item_size :: "page \<Rightarrow> string \<Rightarrow> pnum \<times> pnum" where
  "item_size p legend = (let (w, h) = text_extents p legend in (padding + padding + w + padding, h + padding))"

fun legend_loop :: "page \<Rightarrow> pnum \<Rightarrow> string list \<Rightarrow> pnum \<times> pnum \<times> pnum \<Rightarrow> pnum \<times> pnum \<times> pnum" where
  "legend_loop p width [] s = s"
| "legend_loop p width (legend # rest) (line_height, total_height, line_used) =
     (let (item_width, item_height) = item_size p legend;
          line_height = if item_height > line_height then item_height else line_height
      in legend_loop p width rest
           (if line_used + item_width > width then (line_height, total_height + line_height, padding + item_width)
            else (line_height, total_height, line_used + item_width)))"

definition legend_layout :: "page \<Rightarrow> pnum \<Rightarrow> pnum" where
  "legend_layout p width =
     (let (line_height, total_height, line_used) = legend_loop p width (page_legends p) (NInt 0, padding, padding)
      in total_height + line_height)"

record data_size =
  left_width :: pnum
  right_width :: pnum
  max_text_height :: pnum
  data_width :: pnum
  data_height :: pnum

definition alphabet :: string where
  "alphabet = ''ABCDEFGHIJKLMNOPQRSTUVWXYZabcedefghijklmnopqrstuvwxyz0123456789''"

definition widest :: "page \<Rightarrow> string list \<Rightarrow> pnum" where
  "widest p names = foldl (\<lambda>w n. nmax w (fst (text_extents p n))) (NInt 0) names"

definition line_names :: "timeline \<Rightarrow> string list" where
  "line_names line = map fst (tl_ranges line) @ map fst (tl_event_int line) @ map fst (tl_event_str line)"

definition data_layout :: "page \<Rightarrow> pnum \<Rightarrow> data_size" where
  "data_layout p width =
     (let text_height = snd (text_extents p alphabet);
          lines = map snd (page_lines p);
          left_n = int (length lines);
          range_n = int (length (concat (map tl_ranges lines)));
          event_n = int (length (concat (map tl_event_int lines))) + int (length (concat (map tl_event_str lines)));
          left_height = NInt left_n * text_height + NInt (left_n - 1) * padding;
          right_n = range_n + event_n;
          right_height = NInt (right_n - 1) * padding + NInt right_n * text_height;
          right_data_height = NInt event_n * (text_height + NInt 5) + NInt (range_n * 10);
          right_data_height = right_data_height + NInt (right_n - 1) * padding;
          height = nmax left_height right_height;
          height = nmax height right_data_height
      in \<lparr>left_width = widest p (map fst (page_lines p)), right_width = widest p (concat (map line_names lines)),
          max_text_height = text_height, data_width = width, data_height = height + padding\<rparr>)"

definition data_x_start :: "data_size \<Rightarrow> pnum" where
  "data_x_start d = NInt 5 + left_width d + padding + right_width d + NInt 5"

section \<open>Scales\<close>

text \<open>\<open>closest\<close> starts at 1, the guard on its sign only helps to see that the loop ends.\<close>

function closest_loop :: "pnum \<Rightarrow> int \<Rightarrow> int" where
  "closest_loop data_delta closest =
     (if 0 < closest \<and> NInt (closest * 10) < data_delta then closest_loop data_delta (closest * 10) else closest)"
  by pat_completeness auto
termination
proof (relation "measure (\<lambda>(d, c). nat (\<lceil>nval d\<rceil> - c))")
  fix d c assume a: "0 < c \<and> NInt (c * 10) < d"
  then have "of_int (c * 10) < nval d" by (simp add: less_pnum_def)
  then have "c * 10 < \<lceil>nval d\<rceil>" by (simp only: less_ceiling_iff)
  with a show "((d, c * 10), d, c) \<in> measure (\<lambda>(d, c). nat (\<lceil>nval d\<rceil> - c))" by simp
qed simp

declare closest_loop.simps [simp del]

definition scale_delta :: "pnum \<Rightarrow> int res" where
  "scale_delta data_delta =
     (let closest = closest_loop data_delta 1
      in rbind (ndiv data_delta (NInt closest)) (\<lambda>q.
         if same_num q (NInt 0) then Inr closest
         else if same_num q (NInt 1) then Inr (closest div 10)
         else Inr closest))"

record scale =
  scale_bounds :: "(pnum \<times> pnum) option"
  scale_laid :: "(int \<times> pnum \<times> pnum) option"

definition scale_layout :: "page \<Rightarrow> pnum \<Rightarrow> scale \<Rightarrow> scale res" where
  "scale_layout p width sc =
     rbind (of_option AttributeError (scale_bounds sc)) (\<lambda>(lo, hi).
     rbind (scale_delta (hi - lo)) (\<lambda>delta.
     rbind (nmod lo (NInt delta)) (\<lambda>_.
     rbind (nmod hi (NInt delta)) (\<lambda>_.
       Inr (sc\<lparr>scale_laid := Some (delta, width, snd (text_extents p alphabet) + NInt 10)\<rparr>)))))"

definition scale_position :: "scale \<Rightarrow> pnum \<Rightarrow> pnum res" where
  "scale_position sc x =
     rbind (of_option AttributeError (scale_bounds sc)) (\<lambda>(lo, hi).
     rbind (of_option AttributeError (scale_laid sc)) (\<lambda>(delta, width, height).
       ndiv ((x - lo) * width) (hi - lo)))"

definition scale_height :: "scale \<Rightarrow> pnum res" where
  "scale_height sc = rbind (of_option AttributeError (scale_laid sc)) (\<lambda>(delta, width, height). Inr height)"

text \<open>The values at which a scale is marked, \<open>range (int (start), int (end + delta), int (delta))\<close>.\<close>

definition scale_range :: "pnum \<Rightarrow> pnum \<Rightarrow> int \<Rightarrow> int list res" where
  "scale_range lo hi delta =
     rbind (nmod lo (NInt delta)) (\<lambda>l. rbind (nmod hi (NInt delta)) (\<lambda>h.
       let start = lo - l + NInt delta; end' = hi - h
       in Inr (map (\<lambda>k. nint start + int k * delta) [0..<nat ((nint (end' + NInt delta) - nint start + delta - 1) div delta)])))"

definition scale_marks :: "scale \<Rightarrow> (int list \<times> int list) res" where
  "scale_marks sc =
     rbind (of_option AttributeError (scale_laid sc)) (\<lambda>(delta, width, height).
     rbind (of_option AttributeError (scale_bounds sc)) (\<lambda>(lo, hi).
     rbind (scale_range lo hi delta) (\<lambda>ticks.
       let delta = delta div 10
       in if delta > 0 then rbind (scale_range lo hi delta) (\<lambda>subticks. Inr (ticks, subticks)) else Inr (ticks, []))))"

section \<open>The graphic\<close>

record graphic =
  gr_start :: flt
  gr_end :: flt
  gr_mid :: scale
  gr_bot :: scale
  gr_width :: pnum
  gr_height :: pnum
  gr_range :: "(pnum \<times> pnum) option"
  gr_legend :: "pnum option"
  gr_data :: "data_size option"

type_synonym 'a gr = "(graphic, 'a) act"

definition new_graphic :: "int \<Rightarrow> int \<Rightarrow> graphic" where
  "new_graphic s e = \<lparr>gr_start = f_of_int s, gr_end = f_of_int e,
     gr_mid = \<lparr>scale_bounds = None, scale_laid = None\<rparr>, gr_bot = \<lparr>scale_bounds = Some (NInt s, NInt e), scale_laid = None\<rparr>,
     gr_width = NInt 1, gr_height = NInt 1, gr_range = None, gr_legend = None, gr_data = None\<rparr>"

definition gr_attr :: "(graphic \<Rightarrow> 'a option) \<Rightarrow> 'a gr" where
  "gr_attr f = abind (gets f) (\<lambda>x. lift (of_option AttributeError x))"

definition get_range :: "(pnum \<times> pnum) gr" where
  "get_range = gr_attr gr_range"

text \<open>The parts are laid out in order; what an exception leaves undone keeps its old layout.\<close>

definition layout :: "page \<Rightarrow> pnum \<Rightarrow> pnum \<Rightarrow> unit gr" where
  "layout p width height =
     also_do (update (\<lambda>g. g\<lparr>gr_width := width, gr_height := height, gr_legend := Some (legend_layout p width),
       gr_data := Some (data_layout p width)\<rparr>))
    (abind (gets (\<lambda>g. scale_layout p (width - data_x_start (data_layout p width)) (gr_mid g))) (\<lambda>r. abind (lift r) (\<lambda>mid.
     also_do (update (\<lambda>g. g\<lparr>gr_mid := mid\<rparr>))
    (abind (gets (\<lambda>g. scale_layout p width (gr_bot g))) (\<lambda>r. abind (lift r) (\<lambda>bot.
     update (\<lambda>g. g\<lparr>gr_bot := bot\<rparr>)))))))"

definition set_range :: "page \<Rightarrow> pnum \<Rightarrow> pnum \<Rightarrow> unit gr" where
  "set_range p start end' =
     (let s = nmin start end'; e = nmax start end'
      in also_do (update (\<lambda>g. let start = nmax (NFlt (gr_start g)) s; end' = nmin (NFlt (gr_end g)) e
           in g\<lparr>gr_range := Some (start, end'), gr_mid := (gr_mid g)\<lparr>scale_bounds := Some (start, end')\<rparr>\<rparr>))
         (abind (gets (\<lambda>g. (gr_width g, gr_height g))) (\<lambda>(w, h). layout p w h)))"

definition get_data_rectangle :: "(pnum \<times> pnum \<times> pnum \<times> pnum) gr" where
  "get_data_rectangle =
     abind (gr_attr gr_legend) (\<lambda>y. abind (gr_attr gr_data) (\<lambda>d. abind (gets gr_width) (\<lambda>w.
       ret (data_x_start d, y, w - data_x_start d, data_height d))))"

definition scale_data :: "pnum \<Rightarrow> pnum gr" where
  "scale_data x =
     abind (gr_attr gr_data) (\<lambda>d. abind (gets gr_width) (\<lambda>w.
     abind (lift (ndiv x (w - data_x_start d))) (\<lambda>q. abind get_range (\<lambda>(s, e). ret (q * (e - s))))))"

definition get_selection_rectangle :: "(pnum \<times> pnum \<times> pnum \<times> pnum) gr" where
  "get_selection_rectangle =
     abind (gr_attr gr_legend) (\<lambda>lh. abind (gr_attr gr_data) (\<lambda>d.
     abind (gets gr_mid) (\<lambda>mid. abind (lift (scale_height mid)) (\<lambda>mh.
     abind (gets gr_bot) (\<lambda>bot. abind (lift (scale_height bot)) (\<lambda>bh.
     abind get_range (\<lambda>(s, e). abind (lift (scale_position bot s)) (\<lambda>x_start. abind (lift (scale_position bot e)) (\<lambda>x_end.
       ret (x_start, lh + data_height d + mh + NInt 20, x_end - x_start, bh + NInt 20))))))))))"

definition scale_selection :: "pnum \<Rightarrow> pnum gr" where
  "scale_selection x =
     abind (gets gr_width) (\<lambda>w. abind (lift (ndiv x w)) (\<lambda>q. gets (\<lambda>g. q * (NFlt (gr_end g) - NFlt (gr_start g)))))"

section \<open>The widget\<close>

datatype cursor = DoubleArrow | Fleur | DefaultCursor

datatype request = QueueDraw | QueueDrawArea int int int int | SetCursor cursor

text \<open>\<open>mv_right\<close> is a number because a handler also assigns the width to it; \<open>False\<close> and \<open>True\<close> are 0 and 1.\<close>

record widget =
  w_graphic :: graphic
  mv_left :: bool
  mv_right :: pnum
  mv_both :: bool
  mv_top :: bool
  left_cur :: "pnum option"
  right_cur :: "pnum option"
  both_start :: "pnum option"
  both_cur :: "pnum option"
  top_start :: "pnum option"
  top_cur :: "pnum option"
  w_width :: "pnum option"
  w_height :: "pnum option"
  full_redraw :: bool
  requests :: "request list"

type_synonym 'a wg = "(widget, 'a) act"

definition new_widget :: "graphic \<Rightarrow> widget" where
  "new_widget g = \<lparr>w_graphic = g, mv_left = False, mv_right = NInt 0, mv_both = False, mv_top = False, left_cur = None,
     right_cur = None, both_start = None, both_cur = None, top_start = None, top_cur = None, w_width = None,
     w_height = None, full_redraw = True, requests = []\<rparr>"

definition on_graphic :: "'a gr \<Rightarrow> 'a wg" where
  "on_graphic m w = (case m (w_graphic w) of (r, g) \<Rightarrow> (r, w\<lparr>w_graphic := g\<rparr>))"

definition w_attr :: "(widget \<Rightarrow> 'a option) \<Rightarrow> 'a wg" where
  "w_attr f = abind (gets f) (\<lambda>x. lift (of_option AttributeError x))"

definition put_request :: "request \<Rightarrow> unit wg" where
  "put_request r = update (\<lambda>w. w\<lparr>requests := requests w @ [r]\<rparr>)"

definition redraw :: "unit wg" where
  "redraw = also_do (update (\<lambda>w. w\<lparr>full_redraw := True\<rparr>)) (put_request QueueDraw)"

definition set_smaller_zoom :: "page \<Rightarrow> unit wg" where
  "set_smaller_zoom p = abind (on_graphic get_range) (\<lambda>(s, e).
     also_do (on_graphic (set_range p s (s + (e - s) * NInt 2))) redraw)"

definition set_bigger_zoom :: "page \<Rightarrow> unit wg" where
  "set_bigger_zoom p = abind (on_graphic get_range) (\<lambda>(s, e).
     abind (lift (ndiv (e - s) (NInt 2))) (\<lambda>h. also_do (on_graphic (set_range p s (s + h))) redraw))"

definition inside :: "pnum \<Rightarrow> pnum \<Rightarrow> pnum \<Rightarrow> bool" where
  "inside a b v = (v > a \<and> v < b)"

definition near :: "pnum \<Rightarrow> pnum \<Rightarrow> bool" where
  "near v a = (nabs (v - a) < NInt 5)"

definition button_press :: "pnum \<Rightarrow> pnum \<Rightarrow> bool wg" where
  "button_press ex ey =
     abind (on_graphic get_selection_rectangle) (\<lambda>(x, y, width, height).
     abind (on_graphic get_data_rectangle) (\<lambda>(d_x, d_y, d_width, d_height).
       if inside y (y + height) ey \<and> near ex x then also_do (update (\<lambda>w. w\<lparr>mv_left := True\<rparr>)) (ret True)
       else if inside y (y + height) ey \<and> near ex (x + width) then also_do (update (\<lambda>w. w\<lparr>mv_right := NInt 1\<rparr>)) (ret True)
       else if inside y (y + height) ey \<and> inside x (x + width) ex then
         also_do (update (\<lambda>w. w\<lparr>mv_both := True, both_start := Some ex, both_cur := Some ex\<rparr>)) (ret True)
       else if inside d_y (d_y + d_height) ey \<and> inside d_x (d_x + d_width) ex then
         also_do (update (\<lambda>w. w\<lparr>mv_top := True, top_start := Some ex, top_cur := Some ex\<rparr>)) (ret True)
       else ret False))"

definition button_release :: "page \<Rightarrow> bool wg" where
  "button_release p =
     abind (gets mv_left) (\<lambda>l. if l then
       also_do (update (\<lambda>w. w\<lparr>mv_left := False\<rparr>))
      (abind (w_attr left_cur) (\<lambda>c. abind (on_graphic (scale_selection c)) (\<lambda>left. abind (on_graphic get_range) (\<lambda>(_, right).
       also_do (on_graphic (set_range p left right)) (also_do redraw (ret True))))))
     else abind (gets mv_right) (\<lambda>r. if truthy r then
       also_do (update (\<lambda>w. w\<lparr>mv_right := NInt 0\<rparr>))
      (abind (w_attr right_cur) (\<lambda>c. abind (on_graphic (scale_selection c)) (\<lambda>right. abind (on_graphic get_range) (\<lambda>(left, _).
       also_do (on_graphic (set_range p left right)) (also_do redraw (ret True))))))
     else abind (gets mv_both) (\<lambda>b. if b then
       also_do (update (\<lambda>w. w\<lparr>mv_both := False\<rparr>))
      (abind (w_attr both_cur) (\<lambda>c. abind (w_attr both_start) (\<lambda>s. abind (on_graphic (scale_selection (c - s))) (\<lambda>delta.
       abind (on_graphic get_range) (\<lambda>(left, right).
       also_do (on_graphic (set_range p (left + delta) (right + delta))) (also_do redraw (ret True)))))))
     else also_do (update (\<lambda>w. w\<lparr>mv_top := False\<rparr>)) (ret False))))"

definition queue_selection :: "pnum \<Rightarrow> pnum \<Rightarrow> unit wg" where
  "queue_selection y height = abind (w_attr w_width) (\<lambda>width. put_request (QueueDrawArea 0 (nint y) (nint width) (nint height)))"

definition motion_notify :: "page \<Rightarrow> pnum \<Rightarrow> pnum \<Rightarrow> bool wg" where
  "motion_notify p ex ey =
     abind (on_graphic get_selection_rectangle) (\<lambda>(x, y, width, height).
     abind (gets mv_left) (\<lambda>l. if l then
       also_do (update (\<lambda>w. w\<lparr>left_cur := Some (if ex \<le> NInt 0 then NInt 0 else if ex \<ge> x + width then x + width else ex)\<rparr>))
      (also_do (queue_selection y height) (ret True))
     else abind (gets mv_right) (\<lambda>r. if truthy r then
       abind (w_attr w_width) (\<lambda>ww.
       also_do (update (\<lambda>w. if ex \<ge> ww then w\<lparr>mv_right := ww\<rparr>
         else if ex < x then w\<lparr>right_cur := Some x\<rparr> else w\<lparr>right_cur := Some ex\<rparr>))
      (also_do (queue_selection y height) (ret True)))
     else abind (gets mv_both) (\<lambda>b. if b then
       abind (w_attr w_width) (\<lambda>ww. abind (w_attr both_start) (\<lambda>start.
         let cur_e = ww - (x + width - start); cur_s = start - x
         in also_do (update (\<lambda>w. w\<lparr>both_cur := Some (if ex < cur_s then cur_s else if ex > cur_e then cur_e else ex)\<rparr>))
           (also_do (queue_selection y height) (ret True))))
     else abind (gets mv_top) (\<lambda>t. if t then
       also_do (update (\<lambda>w. w\<lparr>top_cur := Some ex\<rparr>))
      (abind (w_attr top_start) (\<lambda>start. abind (on_graphic (scale_data (start - ex))) (\<lambda>delta.
       abind (on_graphic get_range) (\<lambda>(left, right).
       also_do (on_graphic (set_range p (left + delta) (right + delta)))
      (also_do (update (\<lambda>w. w\<lparr>full_redraw := True, top_start := Some ex\<rparr>)) (also_do (put_request QueueDraw) (ret True)))))))
     else abind (on_graphic get_data_rectangle) (\<lambda>(d_x, d_y, d_width, d_height).
       if inside y (y + height) ey \<and> (near ex x \<or> near ex (x + width)) then also_do (put_request (SetCursor DoubleArrow)) (ret True)
       else if inside y (y + height) ey \<and> inside x (x + width) ex then also_do (put_request (SetCursor Fleur)) (ret True)
       else if inside d_y (d_y + d_height) ey \<and> inside d_x (d_x + d_width) ex then also_do (put_request (SetCursor Fleur)) (ret True)
       else also_do (put_request (SetCursor DefaultCursor)) (ret False)))))))"

definition size_allocate :: "page \<Rightarrow> pnum \<Rightarrow> pnum \<Rightarrow> unit wg" where
  "size_allocate p width height =
     also_do (update (\<lambda>w. w\<lparr>w_width := Some width, w_height := Some height\<rparr>))
    (also_do (on_graphic (layout p width height)) redraw)"

text \<open>The events of the main loop.  GTK goes on after an exception in a handler.\<close>

datatype gevent = Press pnum pnum | Release | Motion pnum pnum | Allocate pnum pnum | ZoomOut | ZoomIn

fun handle :: "page \<Rightarrow> gevent \<Rightarrow> unit wg" where
  "handle p (Press x y) = also_do (button_press x y) (ret ())"
| "handle p Release = also_do (button_release p) (ret ())"
| "handle p (Motion x y) = also_do (motion_notify p x y) (ret ())"
| "handle p (Allocate w h) = size_allocate p w h"
| "handle p ZoomOut = set_smaller_zoom p"
| "handle p ZoomIn = set_bigger_zoom p"

inductive reachable :: "page \<Rightarrow> widget \<Rightarrow> widget \<Rightarrow> bool" for p where
  start: "reachable p w w"
| step: "reachable p w v \<Longrightarrow> reachable p w (snd (handle p e v))"

section \<open>The program\<close>

definition first_range :: "int \<Rightarrow> int \<Rightarrow> int \<times> int" where
  "first_range lower upper =
     (let mid = (upper - lower) div 2; width = (upper - lower) div 10 in (mid - width div 2, mid + width div 2))"

definition view_main :: "(string \<Rightarrow> pnum \<times> pnum) \<Rightarrow> files \<Rightarrow> string \<Rightarrow> (widget \<times> color list) res" where
  "view_main ext fs filename =
     rbind (read_data fs filename) (\<lambda>(cs, ts).
       let (lower, upper) = timelines_bounds ts; vs = all_range_values ts
       in rbind (legend_colors vs cs) (\<lambda>(cl, cs).
          let p = \<lparr>text_extents = ext, page_legends = vs, page_lines = ts\<rparr>; (lo, hi) = first_range lower upper
          in case set_range p (NInt lo) (NInt hi) (new_graphic lower upper) of
               (Inl e, g) \<Rightarrow> Inl e
             | (Inr _, g) \<Rightarrow> Inr (new_widget g, cl)))"

section \<open>The marks of a scale\<close>

definition float_num :: "pnum \<Rightarrow> bool" where
  "float_num a = (case a of NInt _ \<Rightarrow> True | NFlt x \<Rightarrow> is_float x)"

lemma closest_loop_ge: "0 < c \<Longrightarrow> c \<le> closest_loop d c \<and> (closest_loop d c = c \<or> 10 \<le> closest_loop d c)"
proof (induction d c rule: closest_loop.induct)
  case (1 d c)
  show ?case
  proof (cases "NInt (c * 10) < d")
    case True
    then have "closest_loop d c = closest_loop d (c * 10)" using 1(2) by (simp add: closest_loop.simps[of d c])
    then show ?thesis using 1(1)[OF conjI[OF 1(2) True]] 1(2) by simp
  next
    case False
    then show ?thesis by (simp add: closest_loop.simps[of d c])
  qed
qed

lemma scale_delta:
  assumes "float_num d"
  shows "\<exists>k \<ge> 0. scale_delta d = Inr k \<and> (k = 0 \<longleftrightarrow> nval d = 1)"
proof -
  let ?c = "closest_loop d 1"
  have c: "1 \<le> ?c" "?c = 1 \<or> 10 \<le> ?c" using closest_loop_ge[of 1 d] by auto
  have one: "?c = 1" if "nval d = 1"
    using that by (simp add: closest_loop.simps[of d 1] less_pnum_def)
  show ?thesis
  proof (cases "?c = 1")
    case True
    obtain q where q: "ndiv d (NInt ?c) = Inr q" "same_num q (NInt 1) \<longleftrightarrow> nval d = 1" "same_num q (NInt 0) \<Longrightarrow> nval d \<noteq> 1"
      using assms True
      by (cases d) (auto simp: same_num_def float_num_def fquo_def f_of_int_small is_float_def)
    then show ?thesis using True by (auto simp: scale_delta_def Let_def)
  next
    case False
    then have "10 \<le> ?c" using c(2) by simp
    moreover obtain q where "ndiv d (NInt ?c) = Inr q" using c(1) by (cases d) auto
    moreover have "nval d \<noteq> 1" using one False by blast
    ultimately show ?thesis by (auto simp: scale_delta_def Let_def)
  qed
qed

lemma nmod_result: "nmod a (NInt 0) = Inl ZeroDivisionError" "k \<noteq> 0 \<Longrightarrow> \<exists>r. nmod a (NInt k) = Inr r"
  by (cases a; simp)+

lemma float_num_op [simp]: "float_num (NInt i)" "float_num (NFlt (rn x))" "is_float x \<Longrightarrow> float_num (NFlt x)"
  by (simp_all add: float_num_def)

lemma float_num_minus [simp]: "float_num (a - b)"
  by (cases a; cases b) (simp_all add: num_flt float_num_def)

lemma scale_layout_unit_aux:
  assumes "scale_bounds sc = Some (lo, hi)"
  shows "if nval (hi - lo) = 1 then scale_layout p w sc = Inl ZeroDivisionError
    else \<exists>delta h. 0 < delta \<and> scale_layout p w sc = Inr (sc\<lparr>scale_laid := Some (delta, w, h)\<rparr>)"
proof -
  obtain k where k: "0 \<le> k" "scale_delta (hi - lo) = Inr k" "k = 0 \<longleftrightarrow> nval (hi - lo) = 1"
    using scale_delta[of "hi - lo"] by auto
  show ?thesis
  proof (cases "k = 0")
    case True
    then show ?thesis using k assms by (simp add: scale_layout_def of_option_def nmod_result)
  next
    case False
    obtain l h where "nmod lo (NInt k) = Inr l" "nmod hi (NInt k) = Inr h" using nmod_result(2)[OF False] by meson
    then have "scale_layout p w sc = Inr (sc\<lparr>scale_laid := Some (k, w, snd (text_extents p alphabet) + NInt 10)\<rparr>)"
      using k False assms by (simp add: scale_layout_def of_option_def)
    moreover have "0 < k" using k(1) False by simp
    ultimately show ?thesis using k False by (simp only: if_False) blast
  qed
qed

text \<open>Laying out a scale fails exactly when its bounds are 1 apart: the distance of its marks is then 1/10,
  which is 0.  Otherwise the marks have a positive distance.\<close>

theorem scale_layout_unit:
  assumes "scale_bounds sc = Some (lo, hi)"
  shows "if nval (hi - lo) = 1 then scale_layout p w sc = Inl ZeroDivisionError
    else \<exists>delta h. 0 < delta \<and> scale_layout p w sc = Inr (sc\<lparr>scale_laid := Some (delta, w, h)\<rparr>)"
  using assms by (rule scale_layout_unit_aux)

theorem scale_layout_unit_witness:
  "let sc = \<lparr>scale_bounds = Some (NInt 4, NInt 5), scale_laid = None\<rparr>; p = \<lparr>text_extents = (\<lambda>s. (NInt 8, NInt 12)), page_legends = [], page_lines = []\<rparr>
   in scale_layout p (NInt 100) sc = Inl ZeroDivisionError"
  unfolding Let_def using scale_layout_unit[of "\<lparr>scale_bounds = Some (NInt 4, NInt 5), scale_laid = None\<rparr>" "NInt 4" "NInt 5"] by simp

lemma multiples_between:
  fixes lo hi delta :: int
  assumes "0 < delta"
  shows "map (\<lambda>k. lo - lo mod delta + delta + int k * delta) [0..<nat ((hi - hi mod delta + delta - (lo - lo mod delta + delta) + delta - 1) div delta)]
    = filter (\<lambda>x. delta dvd x) [lo + 1..hi]"
proof -
  define a where "a = lo div delta"
  define b where "b = hi div delta"
  have lo: "lo - lo mod delta = a * delta" and hi: "hi - hi mod delta = b * delta"
    by (simp_all add: a_def b_def minus_mod_eq_div_mult)
  have n: "(b * delta + delta - (a * delta + delta) + delta - 1) div delta = b - a"
  proof -
    have "b * delta + delta - (a * delta + delta) + delta - 1 = (delta - 1) + (b - a) * delta" by (simp add: algebra_simps)
    then show ?thesis using assms by (simp only: div_mult_self1 less_imp_neq[symmetric]) (simp add: div_pos_pos_trivial)
  qed
  let ?l = "map (\<lambda>k. a * delta + delta + int k * delta) [0..<nat (b - a)]"
  have "sorted ?l" using assms by (auto simp: sorted_iff_nth_mono mult_right_mono)
  moreover have "distinct ?l" using assms by (auto simp: distinct_map inj_on_def)
  moreover have "set ?l = set (filter (\<lambda>x. delta dvd x) [lo + 1..hi])"
  proof (intro set_eqI iffI)
    fix x assume "x \<in> set ?l"
    then obtain k where k: "k < nat (b - a)" "x = a * delta + delta + int k * delta" by auto
    then have x: "x = (a + 1 + int k) * delta" by (simp add: algebra_simps)
    have "a + 1 + int k \<le> b" using k(1) by linarith
    then have "x \<le> b * delta" unfolding x using assms by (intro mult_right_mono) auto
    also have "b * delta \<le> hi" using hi pos_mod_sign[OF assms, of hi] by linarith
    finally have "x \<le> hi" .
    moreover have "(a + 1) * delta \<le> x" unfolding x using assms by (intro mult_right_mono) auto
    then have "lo < x" using lo pos_mod_bound[OF assms, of lo] by (simp add: algebra_simps)
    ultimately show "x \<in> set (filter (\<lambda>x. delta dvd x) [lo + 1..hi])" by (simp add: x)
  next
    fix x assume "x \<in> set (filter (\<lambda>x. delta dvd x) [lo + 1..hi])"
    then obtain m where m: "x = m * delta" "lo < x" "x \<le> hi" by (auto simp: dvd_def mult.commute)
    have "a * delta < m * delta" using lo m(1,2) pos_mod_sign[OF assms, of lo] by linarith
    then have "a < m" using assms by simp
    moreover have "m \<le> b" using zdiv_mono1[OF m(3) assms] m(1) assms by (simp add: b_def)
    ultimately show "x \<in> set ?l" using m(1) by (auto simp: algebra_simps intro!: image_eqI[of _ _ "nat (m - a - 1)"])
  qed
  ultimately have "?l = filter (\<lambda>x. delta dvd x) [lo + 1..hi]"
    by (intro sorted_distinct_set_unique) (auto intro: sorted_wrt_filter)
  then show ?thesis unfolding lo hi n .
qed


text \<open>Between integer bounds a scale is marked exactly at the multiples of its distance in \<open>]lo, hi]\<close>, in
  order, and its small marks are the multiples of a tenth of the distance.\<close>

theorem scale_marks_multiples:
  assumes "scale_bounds sc = Some (NInt lo, NInt hi)" "scale_laid sc = Some (delta, w, h)" "0 < delta"
  shows "scale_marks sc = Inr (filter (\<lambda>x. delta dvd x) [lo + 1..hi],
    if 10 \<le> delta then filter (\<lambda>x. delta div 10 dvd x) [lo + 1..hi] else [])"
proof -
  have r: "scale_range (NInt lo) (NInt hi) d = Inr (filter (\<lambda>x. d dvd x) [lo + 1..hi])" if "0 < d" for d
    unfolding multiples_between[OF that, of lo hi, symmetric]
    using that by (simp add: scale_range_def nint_def Let_def algebra_simps)
  have "0 < delta div 10 \<longleftrightarrow> 10 \<le> delta" by (simp add: pos_imp_zdiv_pos_iff)
  then show ?thesis using assms r by (auto simp: scale_marks_def of_option_def Let_def)
qed

theorem scale_marks_multiples_witness:
  "scale_marks \<lparr>scale_bounds = Some (NInt 7, NInt 38), scale_laid = Some (10, NInt 100, NInt 20)\<rparr> =
    Inr (filter (\<lambda>x. 10 dvd x) [7 + 1..38], if 10 \<le> (10 :: int) then filter (\<lambda>x. 10 div 10 dvd x) [7 + 1..38] else [])"
  by (rule scale_marks_multiples) simp_all

section \<open>The invariant of the widget\<close>

text \<open>The ends of the data stay, the window lies within them and the upper scale shows it, and everything
  is laid out once.\<close>

definition graphic_ok :: "flt \<Rightarrow> flt \<Rightarrow> graphic \<Rightarrow> bool" where
  "graphic_ok a b g = (gr_start g = a \<and> gr_end g = b \<and>
     (\<exists>s e. gr_range g = Some (s, e) \<and> scale_bounds (gr_mid g) = Some (s, e) \<and> a \<le> nval s \<and> nval e \<le> b) \<and>
     scale_bounds (gr_bot g) \<noteq> None \<and> gr_legend g \<noteq> None \<and> gr_data g \<noteq> None \<and>
     scale_laid (gr_mid g) \<noteq> None \<and> scale_laid (gr_bot g) \<noteq> None)"

definition widget_ok :: "flt \<Rightarrow> flt \<Rightarrow> widget \<Rightarrow> bool" where
  "widget_ok a b w = (graphic_ok a b (w_graphic w) \<and> w_width w \<noteq> None \<and>
     (mv_both w \<longrightarrow> both_start w \<noteq> None \<and> both_cur w \<noteq> None) \<and> (mv_top w \<longrightarrow> top_start w \<noteq> None))"

lemma wp_on_graphic [simp]:
  "wp (on_graphic m) Q E w = wp m (\<lambda>x g. Q x (w\<lparr>w_graphic := g\<rparr>)) (\<lambda>e g. E e (w\<lparr>w_graphic := g\<rparr>)) (w_graphic w)"
  by (auto simp: wp_def on_graphic_def split: sum.splits prod.splits)

lemma scale_layout_cases:
  assumes "scale_bounds sc = Some b"
  obtains sc' where "scale_layout p w sc = Inr sc'" "scale_bounds sc' = Some b" "scale_laid sc' \<noteq> None"
  | "scale_layout p w sc = Inl ZeroDivisionError"
proof -
  obtain lo hi where "b = (lo, hi)" by (cases b)
  with assms have "scale_bounds sc = Some (lo, hi)" by simp
  from scale_layout_unit_aux[OF this, of p w] show thesis
    using that assms by (auto split: if_splits)
qed

text \<open>What laying out keeps and what it establishes.\<close>

definition laid :: "graphic \<Rightarrow> graphic \<Rightarrow> bool" where
  "laid g h = (gr_start h = gr_start g \<and> gr_end h = gr_end g \<and> gr_range h = gr_range g \<and>
     scale_bounds (gr_mid h) = scale_bounds (gr_mid g) \<and> scale_bounds (gr_bot h) = scale_bounds (gr_bot g) \<and>
     gr_legend h \<noteq> None \<and> gr_data h \<noteq> None \<and> (scale_laid (gr_mid g) \<noteq> None \<longrightarrow> scale_laid (gr_mid h) \<noteq> None) \<and>
     (scale_laid (gr_bot g) \<noteq> None \<longrightarrow> scale_laid (gr_bot h) \<noteq> None))"

lemma wp_layout:
  assumes "scale_bounds (gr_mid g) = Some m" "scale_bounds (gr_bot g) = Some b"
  shows "wp (layout p w h) (\<lambda>_ g'. laid g g' \<and> scale_laid (gr_mid g') \<noteq> None \<and> scale_laid (gr_bot g') \<noteq> None)
    (\<lambda>e g'. e = ZeroDivisionError \<and> laid g g') g"
proof (cases rule: scale_layout_cases[OF assms(1), of p "w - data_x_start (data_layout p w)"])
  case (1 mid)
  note mid = 1
  show ?thesis
  proof (cases rule: scale_layout_cases[OF assms(2), of p w])
    case (1 bot)
    then show ?thesis using assms mid by (simp add: layout_def laid_def)
  next
    case 2
    then show ?thesis using assms mid by (simp add: layout_def laid_def)
  qed
next
  case 2
  then show ?thesis by (simp add: layout_def laid_def)
qed

lemma wp_set_range:
  assumes "scale_bounds (gr_bot g) = Some b"
  shows "wp (set_range p x y)
     (\<lambda>_ g'. scale_laid (gr_mid g') \<noteq> None \<and> scale_laid (gr_bot g') \<noteq> None \<and> gr_legend g' \<noteq> None \<and> gr_data g' \<noteq> None \<and>
        scale_bounds (gr_bot g') = Some b \<and> gr_start g' = gr_start g \<and> gr_end g' = gr_end g \<and>
        gr_range g' = Some (nmax (NFlt (gr_start g)) (nmin x y), nmin (NFlt (gr_end g)) (nmax x y)) \<and>
        scale_bounds (gr_mid g') = gr_range g')
     (\<lambda>e g'. e = ZeroDivisionError \<and> (scale_laid (gr_mid g) \<noteq> None \<longrightarrow> scale_laid (gr_mid g') \<noteq> None) \<and>
        (scale_laid (gr_bot g) \<noteq> None \<longrightarrow> scale_laid (gr_bot g') \<noteq> None) \<and> gr_legend g' \<noteq> None \<and> gr_data g' \<noteq> None \<and>
        scale_bounds (gr_bot g') = Some b \<and> gr_start g' = gr_start g \<and> gr_end g' = gr_end g \<and>
        gr_range g' = Some (nmax (NFlt (gr_start g)) (nmin x y), nmin (NFlt (gr_end g)) (nmax x y)) \<and>
        scale_bounds (gr_mid g') = gr_range g') g"
proof -
  let ?r = "(nmax (NFlt (gr_start g)) (nmin x y), nmin (NFlt (gr_end g)) (nmax x y))"
  let ?g = "g\<lparr>gr_range := Some ?r, gr_mid := (gr_mid g)\<lparr>scale_bounds := Some ?r\<rparr>\<rparr>"
  have "scale_bounds (gr_mid ?g) = Some ?r" "scale_bounds (gr_bot ?g) = Some b" using assms by simp_all
  from wp_layout[OF this, of p "gr_width g" "gr_height g"] show ?thesis
    by (auto simp: set_range_def Let_def laid_def assms elim!: wp_mono)
qed

lemma set_range_ok:
  assumes "graphic_ok a b g"
  shows "wp (set_range p x y) (\<lambda>_ g'. graphic_ok a b g') (\<lambda>e g'. e = ZeroDivisionError \<and> graphic_ok a b g') g"
proof -
  obtain c where c: "scale_bounds (gr_bot g) = Some c" using assms by (auto simp: graphic_ok_def)
  show ?thesis
    by (rule wp_mono[OF wp_set_range[OF c, of p x y]]) (use assms in \<open>auto simp: graphic_ok_def nval_max_min\<close>)
qed

lemma layout_ok:
  assumes "graphic_ok a b g"
  shows "wp (layout p w h) (\<lambda>_ g'. graphic_ok a b g') (\<lambda>e g'. e = ZeroDivisionError \<and> graphic_ok a b g') g"
proof -
  obtain m c where c: "scale_bounds (gr_mid g) = Some m" "scale_bounds (gr_bot g) = Some c" using assms by (auto simp: graphic_ok_def)
  show ?thesis by (rule wp_mono[OF wp_layout[OF c, of p w h]]) (use assms in \<open>auto simp: graphic_ok_def laid_def\<close>)
qed

text \<open>What only reads the graphic leaves it and fails at most with a division by zero.\<close>

lemma ndiv_error: "ndiv x y = Inl e \<Longrightarrow> e = ZeroDivisionError"
  by (cases x; cases y) (auto split: if_splits)

lemma reads_ok:
  assumes "graphic_ok a b g"
  shows "wp get_range (\<lambda>r g'. g' = g \<and> gr_range g = Some r) (\<lambda>e g'. False) g"
    and "wp get_data_rectangle (\<lambda>_ g'. g' = g) (\<lambda>e g'. False) g"
    and "wp (scale_data x) (\<lambda>_ g'. g' = g) (\<lambda>e g'. g' = g \<and> e = ZeroDivisionError) g"
    and "wp get_selection_rectangle (\<lambda>_ g'. g' = g) (\<lambda>e g'. g' = g \<and> e = ZeroDivisionError) g"
    and "wp (scale_selection x) (\<lambda>_ g'. g' = g) (\<lambda>e g'. g' = g \<and> e = ZeroDivisionError) g"
  using assms
  by (auto simp: graphic_ok_def get_range_def gr_attr_def get_data_rectangle_def scale_data_def get_selection_rectangle_def
      scale_selection_def scale_height_def scale_position_def of_option_def split: sum.split dest: ndiv_error)


text \<open>The one \<open>AttributeError\<close>: releasing a handle that was not moved since the widget was made.\<close>

definition unmoved_handle :: "gevent \<Rightarrow> widget \<Rightarrow> bool" where
  "unmoved_handle e w = (e = Release \<and> (if mv_left w then left_cur w = None else truthy (mv_right w) \<and> right_cur w = None))"

lemma widget_ok_graphic: "widget_ok a b w \<Longrightarrow> graphic_ok a b (w_graphic w)"
  by (simp add: widget_ok_def)

lemma widget_ok_update:
  "widget_ok a b w \<Longrightarrow> graphic_ok a b g \<Longrightarrow> widget_ok a b (w\<lparr>w_graphic := g\<rparr>)"
  by (simp add: widget_ok_def)

lemma w_attr_wp [simp]: "wp (w_attr f) Q E w = (case f w of None \<Rightarrow> E AttributeError w | Some x \<Rightarrow> Q x w)"
  by (simp add: w_attr_def of_option_def split: option.split)

lemma redraw_wp [simp]: "wp redraw Q E w = Q () (w\<lparr>full_redraw := True, requests := requests w @ [QueueDraw]\<rparr>)"
  by (simp add: redraw_def put_request_def)

lemma put_request_wp [simp]: "wp (put_request r) Q E w = Q () (w\<lparr>requests := requests w @ [r]\<rparr>)"
  by (simp add: put_request_def)

text \<open>Rules for the handlers: a read of the graphic, a new window.\<close>

lemma graphic_read:
  assumes "wp m (\<lambda>x g. g = w_graphic w) (\<lambda>e g. g = w_graphic w \<and> e = ZeroDivisionError) (w_graphic w)"
    and "E ZeroDivisionError w" "\<And>x. wp (f x) Q E w"
  shows "wp (abind (on_graphic m) f) Q E w"
  unfolding wp_simps wp_on_graphic by (rule wp_mono[OF assms(1)]) (use assms(2,3) in auto)

lemma new_window:
  assumes "graphic_ok a b (w_graphic w)"
    and "\<And>g. graphic_ok a b g \<Longrightarrow> E ZeroDivisionError (w\<lparr>w_graphic := g\<rparr>)"
    and "\<And>g. graphic_ok a b g \<Longrightarrow> wp k Q E (w\<lparr>w_graphic := g\<rparr>)"
  shows "wp (also_do (on_graphic (set_range p x y)) k) Q E w"
  unfolding wp_simps wp_on_graphic by (rule wp_mono[OF set_range_ok[OF assms(1)]]) (use assms(2,3) in auto)

lemma graphic_reads:
  assumes "graphic_ok a b g"
  shows "wp get_range (\<lambda>x h. h = g) (\<lambda>e h. h = g \<and> e = ZeroDivisionError) g"
    and "wp get_data_rectangle (\<lambda>x h. h = g) (\<lambda>e h. h = g \<and> e = ZeroDivisionError) g"
    and "wp (scale_data v) (\<lambda>x h. h = g) (\<lambda>e h. h = g \<and> e = ZeroDivisionError) g"
    and "wp get_selection_rectangle (\<lambda>x h. h = g) (\<lambda>e h. h = g \<and> e = ZeroDivisionError) g"
    and "wp (scale_selection v) (\<lambda>x h. h = g) (\<lambda>e h. h = g \<and> e = ZeroDivisionError) g"
proof -
  show "wp get_range (\<lambda>x h. h = g) (\<lambda>e h. h = g \<and> e = ZeroDivisionError) g"
    by (rule wp_mono[OF reads_ok(1)[OF assms]]) simp_all
  show "wp get_data_rectangle (\<lambda>x h. h = g) (\<lambda>e h. h = g \<and> e = ZeroDivisionError) g"
    by (rule wp_mono[OF reads_ok(2)[OF assms]]) simp_all
qed (rule reads_ok[OF assms])+

abbreviation handled :: "page \<Rightarrow> flt \<Rightarrow> flt \<Rightarrow> gevent \<Rightarrow> widget \<Rightarrow> bool" where
  "handled p a b e w \<equiv> wp (handle p e) (\<lambda>_. widget_ok a b)
     (\<lambda>err v. widget_ok a b v \<and> (if unmoved_handle e w then err = AttributeError else err = ZeroDivisionError)) w"

lemma handled_simple:
  assumes ok: "widget_ok a b w"
  shows "handled p a b ZoomOut w" "handled p a b ZoomIn w" "handled p a b (Press x y) w" "handled p a b (Allocate u v) w"
proof -
  note g = widget_ok_graphic[OF ok] and u = widget_ok_update[OF ok]
  show "handled p a b ZoomOut w"
    unfolding handle.simps set_smaller_zoom_def
    by (rule graphic_read[OF graphic_reads(1)[OF g]])
      (use ok in \<open>auto simp del: wp_simps(7) wp_on_graphic simp: unmoved_handle_def widget_ok_def split: prod.split intro!: new_window[OF g]\<close>)
  show "handled p a b ZoomIn w"
    unfolding handle.simps set_bigger_zoom_def
    by (rule graphic_read[OF graphic_reads(1)[OF g]])
      (use ok in \<open>auto simp del: wp_simps(7) wp_on_graphic simp: unmoved_handle_def widget_ok_def
        split: prod.split sum.split intro!: new_window[OF g] dest: ndiv_error\<close>)
  show "handled p a b (Press x y) w"
    unfolding handle.simps button_press_def wp_simps(7)
    apply (rule graphic_read[OF graphic_reads(4)[OF g]])
     apply (simp add: ok unmoved_handle_def)
    apply (simp only: split_beta)
    apply (rule graphic_read[OF graphic_reads(2)[OF g]])
     apply (simp add: ok unmoved_handle_def)
    using ok by (auto simp: widget_ok_def)
  show "handled p a b (Allocate u v) w"
    unfolding handle.simps size_allocate_def
    using ok by (auto simp: widget_ok_def unmoved_handle_def intro!: wp_mono[OF layout_ok[OF g]])
qed


lemma shift_window:
  assumes ok: "widget_ok a b w"
    and that: "\<And>v. widget_ok a b v \<Longrightarrow> wp k (\<lambda>_. widget_ok a b) (\<lambda>err v. widget_ok a b v \<and> err = ZeroDivisionError) v"
  shows "wp (abind (on_graphic get_range) (\<lambda>(l, r). also_do (on_graphic (set_range p (f l) (h r))) k)) (\<lambda>_. widget_ok a b)
    (\<lambda>err v. widget_ok a b v \<and> err = ZeroDivisionError) w"
proof (rule graphic_read[OF graphic_reads(1)[OF widget_ok_graphic[OF ok]]])
  fix x :: "pnum \<times> pnum"
  obtain l r where x: "x = (l, r)" by (cases x)
  show "wp (case x of (l, r) \<Rightarrow> also_do (on_graphic (set_range p (f l) (h r))) k) (\<lambda>_. widget_ok a b)
      (\<lambda>err v. widget_ok a b v \<and> err = ZeroDivisionError) w"
    unfolding x prod.case by (rule new_window[OF widget_ok_graphic[OF ok]]) (use widget_ok_update[OF ok] that in simp_all)
qed (use ok in simp)

lemma redraw_ok:
  "widget_ok a b v \<Longrightarrow> wp (also_do redraw (ret True)) (\<lambda>_. widget_ok a b) (\<lambda>err v. widget_ok a b v \<and> err = ZeroDivisionError) v"
  by (simp add: widget_ok_def)

lemmas shift_redraw = shift_window[OF _ redraw_ok]

lemma handled_release:
  assumes ok: "widget_ok a b w"
  shows "handled p a b Release w"
proof -
  note g = widget_ok_graphic[OF ok]
  consider (left) "mv_left w" | (right) "\<not> mv_left w" "truthy (mv_right w)" | (both) "\<not> mv_left w" "\<not> truthy (mv_right w)" "mv_both w"
    | (none) "\<not> mv_left w" "\<not> truthy (mv_right w)" "\<not> mv_both w" by blast
  then show ?thesis
  proof cases
    case left
    let ?w = "w\<lparr>mv_left := False\<rparr>"
    have ok': "widget_ok a b ?w" and g': "graphic_ok a b (w_graphic ?w)" using ok by (simp_all add: widget_ok_def)
    show ?thesis
    proof (cases "left_cur w")
      case None
      then show ?thesis using left ok by (simp add: button_release_def unmoved_handle_def widget_ok_def)
    next
      case (Some c)
      have "wp (abind (on_graphic (scale_selection c)) (\<lambda>left. abind (on_graphic get_range) (\<lambda>(_, right).
         also_do (on_graphic (set_range p left right)) (also_do redraw (ret True)))))
         (\<lambda>_. widget_ok a b) (\<lambda>err v. widget_ok a b v \<and> err = ZeroDivisionError) ?w"
        by (rule graphic_read[OF graphic_reads(5)[OF g']]) (use ok' in simp, rule shift_redraw[OF ok'])
      then show ?thesis using left Some by (simp add: button_release_def unmoved_handle_def)
    qed
  next
    case right
    let ?w = "w\<lparr>mv_right := NInt 0\<rparr>"
    have ok': "widget_ok a b ?w" and g': "graphic_ok a b (w_graphic ?w)" using ok by (simp_all add: widget_ok_def)
    show ?thesis
    proof (cases "right_cur w")
      case None
      then show ?thesis using right ok by (simp add: button_release_def unmoved_handle_def widget_ok_def)
    next
      case (Some c)
      have "wp (abind (on_graphic (scale_selection c)) (\<lambda>right. abind (on_graphic get_range) (\<lambda>(left, _).
         also_do (on_graphic (set_range p left right)) (also_do redraw (ret True)))))
         (\<lambda>_. widget_ok a b) (\<lambda>err v. widget_ok a b v \<and> err = ZeroDivisionError) ?w"
        by (rule graphic_read[OF graphic_reads(5)[OF g']]) (use ok' in simp, rule shift_redraw[OF ok'])
      then show ?thesis using right Some by (simp add: button_release_def unmoved_handle_def)
    qed
  next
    case both
    let ?w = "w\<lparr>mv_both := False\<rparr>"
    have ok': "widget_ok a b ?w" and g': "graphic_ok a b (w_graphic ?w)" using ok by (simp_all add: widget_ok_def)
    obtain c s where cs: "both_cur w = Some c" "both_start w = Some s" using ok both by (auto simp: widget_ok_def)
    have "wp (abind (on_graphic (scale_selection (c - s))) (\<lambda>delta. abind (on_graphic get_range) (\<lambda>(left, right).
         also_do (on_graphic (set_range p (left + delta) (right + delta))) (also_do redraw (ret True)))))
         (\<lambda>_. widget_ok a b) (\<lambda>err v. widget_ok a b v \<and> err = ZeroDivisionError) ?w"
      by (rule graphic_read[OF graphic_reads(5)[OF g']]) (use ok' in simp, rule shift_redraw[OF ok'])
    then show ?thesis using both cs by (simp add: button_release_def unmoved_handle_def)
  next
    case none
    then show ?thesis using ok by (simp add: button_release_def unmoved_handle_def widget_ok_def)
  qed
qed


lemma queue_selection_ok:
  "widget_ok a b v \<Longrightarrow> wp (also_do (queue_selection y h) (ret True)) (\<lambda>_. widget_ok a b)
     (\<lambda>err v. widget_ok a b v \<and> err = ZeroDivisionError) v"
  by (auto simp: queue_selection_def widget_ok_def)

lemma handled_motion:
  assumes ok: "widget_ok a b w"
  shows "handled p a b (Motion ex ey) w"
proof -
  note g = widget_ok_graphic[OF ok]
  obtain ww where ww: "w_width w = Some ww" using ok by (auto simp: widget_ok_def)
  have "wp (motion_notify p ex ey) (\<lambda>_. widget_ok a b) (\<lambda>err v. widget_ok a b v \<and> err = ZeroDivisionError) w"
    unfolding motion_notify_def
  proof (rule graphic_read[OF graphic_reads(4)[OF g]], goal_cases)
    case (2 r)
    obtain x y width height where r: "r = (x, y, width, height)" by (cases r)
    consider (left) "mv_left w" | (right) "\<not> mv_left w" "truthy (mv_right w)" | (both) "\<not> mv_left w" "\<not> truthy (mv_right w)" "mv_both w"
      | (top) "\<not> mv_left w" "\<not> truthy (mv_right w)" "\<not> mv_both w" "mv_top w"
      | (none) "\<not> mv_left w" "\<not> truthy (mv_right w)" "\<not> mv_both w" "\<not> mv_top w" by blast
    then show ?case
    proof cases
      case left
      then show ?thesis using ok ww by (simp add: r queue_selection_def widget_ok_def)
    next
      case right
      then show ?thesis using ok ww by (simp add: r queue_selection_def widget_ok_def)
    next
      case both
      then obtain s where "both_start w = Some s" using ok by (auto simp: widget_ok_def)
      with both show ?thesis using ok ww by (simp add: r queue_selection_def widget_ok_def Let_def)
    next
      case top
      then obtain s where s: "top_start w = Some s" using ok by (auto simp: widget_ok_def)
      let ?w = "w\<lparr>top_cur := Some ex\<rparr>"
      have ok': "widget_ok a b ?w" and g': "graphic_ok a b (w_graphic ?w)" using ok by (simp_all add: widget_ok_def)
      have "wp (abind (on_graphic (scale_data (s - ex))) (\<lambda>delta. abind (on_graphic get_range) (\<lambda>(left, right).
         also_do (on_graphic (set_range p (left + delta) (right + delta)))
        (also_do (update (\<lambda>w. w\<lparr>full_redraw := True, top_start := Some ex\<rparr>)) (also_do (put_request QueueDraw) (ret True))))))
         (\<lambda>_. widget_ok a b) (\<lambda>err v. widget_ok a b v \<and> err = ZeroDivisionError) ?w"
        by (rule graphic_read[OF graphic_reads(3)[OF g']]) (use ok' in simp, rule shift_window[OF ok'], simp add: widget_ok_def)
      then show ?thesis using top s by (simp add: r)
    next
      case none
      then show ?thesis using ok reads_ok(2)[OF g]
        by (auto simp: r widget_ok_def split: prod.split elim!: wp_mono)
    qed
  qed (use ok in simp)
  then show ?thesis by (simp add: unmoved_handle_def)
qed

lemma handled: "widget_ok a b w \<Longrightarrow> handled p a b e w"
  by (cases e) (simp_all only: handled_simple handled_release handled_motion)

lemma handled_step: "widget_ok a b w \<Longrightarrow> widget_ok a b (snd (handle p e w))"
  using handled[of a b w p e] by (cases "handle p e w"; cases "fst (handle p e w)") (auto simp: wp_def)

lemma reachable_ok: "reachable p w v \<Longrightarrow> widget_ok a b w \<Longrightarrow> widget_ok a b v"
  by (induction rule: reachable.induct) (auto intro: handled_step)




section \<open>Windows\<close>

definition unit_apart :: "pnum \<times> pnum \<Rightarrow> bool" where
  "unit_apart b = (nval (snd b - fst b) = 1)"

lemma layout_result:
  assumes "scale_bounds (gr_mid g) = Some m" "scale_bounds (gr_bot g) = Some b"
  shows "fst (layout p w h g) = (if unit_apart m \<or> unit_apart b then Inl ZeroDivisionError else Inr ())"
proof -
  obtain l u where m: "m = (l, u)" by (cases m)
  obtain l' u' where b: "b = (l', u')" by (cases b)
  note M = scale_layout_unit_aux[OF assms(1)[unfolded m], of p "w - data_x_start (data_layout p w)"]
  note B = scale_layout_unit_aux[OF assms(2)[unfolded b], of p w]
  show ?thesis
    using M B by (auto simp: m b unit_apart_def layout_def also_do_def abind_def split: if_splits)
qed

lemma set_range_result:
  assumes "scale_bounds (gr_bot g) = Some b"
  shows "fst (set_range p x y g) = (if unit_apart (nmax (NFlt (gr_start g)) (nmin x y), nmin (NFlt (gr_end g)) (nmax x y)) \<or> unit_apart b
      then Inl ZeroDivisionError else Inr ())"
    and "gr_range (snd (set_range p x y g)) = Some (nmax (NFlt (gr_start g)) (nmin x y), nmin (NFlt (gr_end g)) (nmax x y))"
proof -
  let ?r = "(nmax (NFlt (gr_start g)) (nmin x y), nmin (NFlt (gr_end g)) (nmax x y))"
  let ?g = "g\<lparr>gr_range := Some ?r, gr_mid := (gr_mid g)\<lparr>scale_bounds := Some ?r\<rparr>\<rparr>"
  have g: "scale_bounds (gr_mid ?g) = Some ?r" "scale_bounds (gr_bot ?g) = Some b" using assms by simp_all
  show "fst (set_range p x y g) = (if unit_apart ?r \<or> unit_apart b then Inl ZeroDivisionError else Inr ())"
    using layout_result[OF g, of p "gr_width g" "gr_height g"] by (simp add: set_range_def Let_def)
  show "gr_range (snd (set_range p x y g)) = Some ?r"
    using wp_set_range[OF assms, of p x y] by (cases "set_range p x y g"; cases "fst (set_range p x y g)") (auto simp: wp_def)
qed

lemma nval_diff:
  assumes "nval x = of_int i" "nval y = of_int j" "\<bar>i\<bar> \<le> 2 ^ 52" "\<bar>j\<bar> \<le> 2 ^ 52"
  shows "nval (x - y) = of_int (i - j)"
proof -
  have "\<bar>i - j\<bar> \<le> 2 ^ 53" "\<bar>i\<bar> \<le> 2 ^ 53" "\<bar>j\<bar> \<le> 2 ^ 53" using assms(3,4) by (simp_all add: abs_le_iff)
  then show ?thesis using assms(1,2)
    by (cases x; cases y) (auto simp: num_flt fsub_def f_of_int_small simp flip: of_int_diff intro: rn_of_int)
qed

text \<open>Zooming into a window with integer ends halves it from its start, rounding down; the layout fails
  exactly when the new window is 1 wide (an old width of 2 or 3), and then no redrawing is asked for.\<close>

theorem zoom_in:
  assumes "widget_ok a b w" "gr_range (w_graphic w) = Some (NInt s, NInt e)" "s < e" "\<bar>s\<bar> \<le> 2 ^ 52" "\<bar>e\<bar> \<le> 2 ^ 52"
    and "scale_bounds (gr_bot (w_graphic w)) = Some c" "\<not> unit_apart c"
  shows "\<exists>s' e'. gr_range (w_graphic (snd (handle p ZoomIn w))) = Some (s', e') \<and>
    nval s' = of_int s \<and> nval e' = of_int (s + (e - s) div 2) \<and>
    (if (e - s) div 2 = 1 then fst (handle p ZoomIn w) = Inl ZeroDivisionError \<and> requests (snd (handle p ZoomIn w)) = requests w
     else fst (handle p ZoomIn w) = Inr () \<and> requests (snd (handle p ZoomIn w)) = requests w @ [QueueDraw])"
proof -
  let ?g = "w_graphic w" and ?h = "(e - s) div 2"
  have ab: "a \<le> of_int s" "of_int e \<le> b" "gr_start ?g = a" "gr_end ?g = b"
    using assms(1,2) by (auto simp: widget_ok_def graphic_ok_def)
  have h: "0 \<le> ?h" "s + ?h \<le> e" using assms(3) by linarith+
  let ?s = "nmax (NFlt a) (nmin (NInt s) (NInt (s + ?h)))" and ?e = "nmin (NFlt b) (nmax (NInt s) (NInt (s + ?h)))"
  have o: "(of_int s :: rat) \<le> of_int (s + ?h)" "of_int (s + ?h) \<le> b"
    using h ab(2) order.trans[of "of_int (s + ?h)" "of_int e" b] by (simp_all only: of_int_le_iff)
  have v: "nval ?s = of_int s" "nval ?e = of_int (s + ?h)"
    using o ab(1) by (simp_all only: nval_max_min nval_simps max_absorb2 min_absorb2 min_absorb1 order.refl)
  have "\<bar>s + ?h\<bar> \<le> 2 ^ 52" using h assms(4,5) by (simp add: abs_le_iff)
  then have u: "unit_apart (?s, ?e) \<longleftrightarrow> ?h = 1" using nval_diff[OF v(2,1) _ assms(4)] by (simp add: unit_apart_def)
  obtain r g' where sr: "set_range p (NInt s) (NInt (s + ?h)) ?g = (r, g')" by (cases "set_range p (NInt s) (NInt (s + ?h)) ?g")
  have g': "gr_range g' = Some (?s, ?e)" "r = (if ?h = 1 then Inl ZeroDivisionError else Inr ())"
    using set_range_result[OF assms(6), of p "NInt s" "NInt (s + ?h)"] sr u assms(7) ab by simp_all
  have run: "handle p ZoomIn w = also_do (on_graphic (set_range p (NInt s) (NInt (s + ?h)))) redraw w"
    using assms(2) by (simp add: set_bigger_zoom_def abind_def on_graphic_def get_range_def gr_attr_def of_option_def)
  have run2: "handle p ZoomIn w = (case r of Inl x \<Rightarrow> (Inl x, w\<lparr>w_graphic := g'\<rparr>)
      | Inr _ \<Rightarrow> (Inr (), w\<lparr>w_graphic := g', full_redraw := True, requests := requests w @ [QueueDraw]\<rparr>))"
    unfolding run by (simp add: sr also_do_def abind_def on_graphic_def redraw_def put_request_def split: sum.split)
  have "gr_range (w_graphic (snd (handle p ZoomIn w))) = Some (?s, ?e)"
    "if ?h = 1 then fst (handle p ZoomIn w) = Inl ZeroDivisionError \<and> requests (snd (handle p ZoomIn w)) = requests w
     else fst (handle p ZoomIn w) = Inr () \<and> requests (snd (handle p ZoomIn w)) = requests w @ [QueueDraw]"
    using g' unfolding run2 by simp_all
  with v show ?thesis by blast
qed

lemma right_edge_step:
  assumes "widget_ok a b w" "\<not> mv_left w" "truthy (mv_right w)" "w_width w = Some ww" "truthy ww" "ww \<le> ex"
  shows "wp (motion_notify p ex ey)
    (\<lambda>_ v. \<not> mv_left v \<and> truthy (mv_right v) \<and> w_width v = Some ww \<and> right_cur v = right_cur w \<and>
       gr_range (w_graphic v) = gr_range (w_graphic w))
    (\<lambda>_ v. \<not> mv_left v \<and> truthy (mv_right v) \<and> w_width v = Some ww \<and> right_cur v = right_cur w \<and>
       gr_range (w_graphic v) = gr_range (w_graphic w)) w"
  unfolding motion_notify_def
  by (rule graphic_read[OF graphic_reads(4)[OF widget_ok_graphic[OF assms(1)]]])
    (use assms in \<open>simp_all add: queue_selection_def split: prod.split\<close>)

text \<open>While the right handle is held, every motion at or beyond the right edge of the widget is forgotten:
  releasing the handle after any number of them fails, or takes the position from before.\<close>

theorem right_edge_lost:
  assumes "widget_ok a b w" "\<not> mv_left w" "truthy (mv_right w)" "w_width w = Some ww" "truthy ww"
    and "\<forall>(x, y) \<in> set moves. ww \<le> x"
  shows "let v = foldl (\<lambda>v (x, y). snd (handle p (Motion x y) v)) w moves
    in right_cur v = right_cur w \<and> truthy (mv_right v) \<and> gr_range (w_graphic v) = gr_range (w_graphic w) \<and>
       (right_cur w = None \<longrightarrow> fst (handle p Release v) = Inl AttributeError)"
  using assms
proof (induction moves arbitrary: w)
  case Nil
  then show ?case
    by (auto simp: button_release_def act_simps also_do_def abind_def w_attr_def of_option_def)
next
  case (Cons m moves)
  obtain x y where m: "m = (x, y)" by (cases m)
  let ?v = "snd (handle p (Motion x y) w)"
  have "wp (motion_notify p x y)
    (\<lambda>_ v. \<not> mv_left v \<and> truthy (mv_right v) \<and> w_width v = Some ww \<and> right_cur v = right_cur w \<and>
       gr_range (w_graphic v) = gr_range (w_graphic w))
    (\<lambda>_ v. \<not> mv_left v \<and> truthy (mv_right v) \<and> w_width v = Some ww \<and> right_cur v = right_cur w \<and>
       gr_range (w_graphic v) = gr_range (w_graphic w)) w"
    using Cons.prems m by (intro right_edge_step[of a b]) auto
  then have "\<not> mv_left ?v \<and> truthy (mv_right ?v) \<and> w_width ?v = Some ww \<and> right_cur ?v = right_cur w \<and>
       gr_range (w_graphic ?v) = gr_range (w_graphic w)"
    by (cases "motion_notify p x y w"; cases "fst (motion_notify p x y w)") (auto simp: wp_def also_do_def abind_def)
  note v = this
  have "\<forall>(x, y) \<in> set moves. ww \<le> x" using Cons.prems(6) by simp
  note IH = Cons.IH[OF handled_step[OF Cons.prems(1)] _ _ _ Cons.prems(5) this, of p "Motion x y"]
  then show ?case using v by (simp add: m del: handle.simps)
qed

text \<open>The program opens on a tenth of the data around its middle, or fails: with a \<open>ZeroDivisionError\<close>
  exactly when the data is 1 long.\<close>

theorem first_window:
  assumes "read_data fs f = Inr (cs, ts)" "legend_colors (all_range_values ts) cs = Inr (cl, cs')"
    and "timelines_bounds ts = (0, upper)" "0 \<le> upper" "upper \<le> 2 ^ 52"
  shows "if upper = 1 then view_main ext fs f = Inl ZeroDivisionError
    else \<exists>w s e. view_main ext fs f = Inr (w, cl) \<and> gr_range (w_graphic w) = Some (s, e) \<and>
      nval s = of_int (fst (first_range 0 upper)) \<and> nval e = of_int (snd (first_range 0 upper)) \<and>
      0 \<le> fst (first_range 0 upper) \<and> snd (first_range 0 upper) - fst (first_range 0 upper) = upper div 10 div 2 * 2 \<and>
      snd (first_range 0 upper) \<le> upper"
proof -
  obtain lo hi where r: "first_range 0 upper = (lo, hi)" by (cases "first_range 0 upper")
  then have eq: "lo = upper div 2 - upper div 10 div 2" "hi = upper div 2 + upper div 10 div 2"
    by (simp_all add: first_range_def Let_def)
  have t: "upper div 10 div 2 = upper div 20" by (simp flip: div_mult2_eq)
  have x: "0 \<le> upper div 20" "upper div 20 \<le> upper div 2" "upper div 2 + upper div 20 \<le> upper"
    using assms(4) div_mult_mod_eq[of upper 20] div_mult_mod_eq[of upper 2] pos_mod_sign[of 20 upper, simplified]
      pos_mod_sign[of 2 upper, simplified] pos_mod_bound[of 20 upper, simplified] pos_mod_bound[of 2 upper, simplified]
    by linarith+
  have b: "0 \<le> lo" "lo \<le> hi" "hi \<le> upper" "hi - lo = upper div 10 div 2 * 2"
    unfolding eq t using x by simp_all
  let ?p = "\<lparr>text_extents = ext, page_legends = all_range_values ts, page_lines = ts\<rparr>" and ?g = "new_graphic 0 upper"
  let ?s = "nmax (NFlt (gr_start ?g)) (nmin (NInt lo) (NInt hi))" and ?e = "nmin (NFlt (gr_end ?g)) (nmax (NInt lo) (NInt hi))"
  have g: "gr_start ?g = 0" "gr_end ?g = of_int upper" "scale_bounds (gr_bot ?g) = Some (NInt 0, NInt upper)"
    using assms(4,5) by (simp_all add: new_graphic_def f_of_int_small)
  have v: "nval ?s = of_int lo" "nval ?e = of_int hi"
    using b g(1,2) by (simp_all add: nval_max_min max_absorb2 min_absorb2 min_absorb1)
  have "\<not> unit_apart (?s, ?e)"
  proof -
    have "nval (?e - ?s) = of_int (hi - lo)" using b assms(5) by (intro nval_diff[OF v(2,1)]) auto
    moreover have "hi - lo \<noteq> 1" unfolding b(4) by presburger
    ultimately show ?thesis by (simp add: unit_apart_def flip: of_int_diff)
  qed
  then have res: "fst (set_range ?p (NInt lo) (NInt hi) ?g) = (if upper = 1 then Inl ZeroDivisionError else Inr ())"
    using set_range_result(1)[OF g(3), of ?p "NInt lo" "NInt hi"] by (simp add: unit_apart_def)
  have range: "gr_range (snd (set_range ?p (NInt lo) (NInt hi) ?g)) = Some (?s, ?e)"
    by (rule set_range_result(2)[OF g(3)])
  obtain x g' where sr: "set_range ?p (NInt lo) (NInt hi) ?g = (x, g')" by (cases "set_range ?p (NInt lo) (NInt hi) ?g")
  have main: "view_main ext fs f = (case x of Inl e \<Rightarrow> Inl e | Inr _ \<Rightarrow> Inr (new_widget g', cl))"
    using assms(1,2,3) r sr by (simp add: view_main_def Let_def split: sum.split)
  show ?thesis
  proof (cases "upper = 1")
    case True
    then show ?thesis using main res sr by simp
  next
    case False
    then have "view_main ext fs f = Inr (new_widget g', cl)" using main res sr by simp
    moreover have "gr_range (w_graphic (new_widget g')) = Some (?s, ?e)" using range sr by (simp add: new_widget_def)
    ultimately show ?thesis using False v b r by (intro iffD2[OF if_not_P] exI conjI) auto
  qed
qed


section \<open>A small view\<close>

definition demo_page :: page where
  "demo_page = \<lparr>text_extents = (\<lambda>s. (NInt (8 * int (length s)), NInt 12)), page_legends = [''ok''], page_lines = []\<rparr>"

definition demo_scale :: "int \<Rightarrow> int \<Rightarrow> scale" where
  "demo_scale lo hi = \<lparr>scale_bounds = Some (NInt lo, NInt hi), scale_laid = Some (10, NInt 200, NInt 22)\<rparr>"

definition demo_view :: widget where
  "demo_view = (new_widget \<lparr>gr_start = 0, gr_end = 100, gr_mid = demo_scale 20 40, gr_bot = demo_scale 0 100,
     gr_width = NInt 200, gr_height = NInt 100, gr_range = Some (NInt 20, NInt 40), gr_legend = Some (NInt 32),
     gr_data = Some \<lparr>left_width = NInt 16, right_width = NInt 16, max_text_height = NInt 12, data_width = NInt 200, data_height = NInt 50\<rparr>\<rparr>)
     \<lparr>w_width := Some (NInt 200)\<rparr>"

lemma demo_ok: "widget_ok 0 100 demo_view"
  by (simp add: widget_ok_def graphic_ok_def demo_view_def new_widget_def demo_scale_def)

text \<open>The left handle, at 40 from the left, is pressed.\<close>

definition demo_pressed :: widget where
  "demo_pressed = snd (handle demo_page (Press (NInt 41) (NInt 130)) demo_view)"

lemma demo_reachable: "reachable demo_page demo_view demo_pressed"
  unfolding demo_pressed_def by (rule reachable.step[OF reachable.start])

lemma demo_unmoved: "unmoved_handle Release demo_pressed"
  by code_simp



theorem zoom_in_witness:
  "\<exists>s' e'. gr_range (w_graphic (snd (handle demo_page ZoomIn demo_view))) = Some (s', e') \<and>
    nval s' = of_int 20 \<and> nval e' = of_int (20 + (40 - 20) div 2) \<and>
    (if (40 - 20) div 2 = (1 :: int)
     then fst (handle demo_page ZoomIn demo_view) = Inl ZeroDivisionError \<and> requests (snd (handle demo_page ZoomIn demo_view)) = requests demo_view
     else fst (handle demo_page ZoomIn demo_view) = Inr () \<and> requests (snd (handle demo_page ZoomIn demo_view)) = requests demo_view @ [QueueDraw])"
  by (rule zoom_in[OF demo_ok, where c = "(NInt 0, NInt 100)"])
    (simp_all add: demo_view_def new_widget_def demo_scale_def unit_apart_def)

theorem right_edge_lost_witness:
  "let v = foldl (\<lambda>v (x, y). snd (handle demo_page (Motion x y) v)) (demo_view\<lparr>mv_right := NInt 1\<rparr>) [(NInt 200, NInt 60), (NInt 230, NInt 60)]
    in right_cur v = right_cur (demo_view\<lparr>mv_right := NInt 1\<rparr>) \<and> truthy (mv_right v) \<and>
       gr_range (w_graphic v) = gr_range (w_graphic (demo_view\<lparr>mv_right := NInt 1\<rparr>)) \<and>
       (right_cur (demo_view\<lparr>mv_right := NInt 1\<rparr>) = None \<longrightarrow> fst (handle demo_page Release v) = Inl AttributeError)"
proof (rule right_edge_lost[where ww = "NInt 200"])
  show "widget_ok 0 100 (demo_view\<lparr>mv_right := NInt 1\<rparr>)" using demo_ok by (simp add: widget_ok_def)
qed (simp_all add: demo_view_def new_widget_def truthy_def less_eq_pnum_def)

theorem first_window_witness:
  "\<exists>w s e. view_main (\<lambda>s. (NInt 8, NInt 12)) [''d'' \<mapsto> ''range n1 up ok 5 90\<newline>''] ''d'' = Inr (w, [(0, 1, 1)]) \<and>
     gr_range (w_graphic w) = Some (s, e) \<and> nval s = 41 \<and> nval e = 49"
proof -
  let ?ts = "[(''n1'', \<lparr>tl_ranges = [(''up'', [\<lparr>dr_start = 5, dr_end = 90, dr_value = ''ok''\<rparr>])], tl_event_str = [], tl_event_int = []\<rparr>)]"
  have r: "read_data [''d'' \<mapsto> ''range n1 up ok 5 90\<newline>''] ''d'' = Inr (new_colors, ?ts)"
    by code_simp
  have l: "legend_colors (all_range_values ?ts) new_colors = Inr ([(0, 1, 1)], snd (projr (legend_colors (all_range_values ?ts) new_colors)))"
    by code_simp
  have b: "timelines_bounds ?ts = (0, 90)" by code_simp
  have "first_range 0 90 = (41, 49)" by code_simp
  with first_window[OF r l b, of "\<lambda>s. (NInt 8, NInt 12)"] show ?thesis by simp
qed

end
