(* ===== verification/FlowMon.thy ===== *)
theory FlowMon
  imports PyWorld PyNum
begin

text \<open>
  \<open>src/flow-monitor/examples/flowmon-parse-results.py\<close>: the statistics of the flows of a flow monitor file
  and the report printed for them.  The parsed document is a tree of elements.  The flow objects are
  shared between the list \<open>flows\<close> and the dictionary \<open>flow_map\<close>; the list holds them and the dictionary
  holds their positions.  The progress dots are not modelled.
\<close>

section \<open>Elements\<close>

datatype xml = Element (tag: string) (attrs: "(string \<times> string) list") (kids: "xml list")

definition findall :: "string \<Rightarrow> xml \<Rightarrow> xml list" where
  "findall t el = filter (\<lambda>k. tag k = t) (kids el)"

definition findall2 :: "string \<Rightarrow> string \<Rightarrow> xml \<Rightarrow> xml list" where
  "findall2 t u el = concat (map (findall u) (findall t el))"

definition find_el :: "string \<Rightarrow> xml \<Rightarrow> xml option" where
  "find_el t el = (case findall t el of [] \<Rightarrow> None | k # _ \<Rightarrow> Some k)"

text \<open>Conversions and slices of an attribute that is missing (\<open>None\<close>) are type errors.\<close>

definition attr :: "string \<Rightarrow> xml \<Rightarrow> string res" where
  "attr k el = of_option TypeError (map_of (attrs el) k)"

definition int_attr :: "string \<Rightarrow> xml \<Rightarrow> int res" where
  "int_attr k el = rbind (attr k el) py_int"

definition float_attr :: "string \<Rightarrow> xml \<Rightarrow> flt res" where
  "float_attr k el = rbind (attr k el) py_float"

definition without_unit :: "string \<Rightarrow> string" where
  "without_unit s = take (length s - 2) s"

definition ns_attr :: "string \<Rightarrow> xml \<Rightarrow> int res" where
  "ns_attr k el = rbind (attr k el) (\<lambda>s. py_int (without_unit s))"

definition parse_time_ns :: "string option \<Rightarrow> int res" where
  "parse_time_ns tm = (case tm of None \<Rightarrow> Inl AttributeError
     | Some tm \<Rightarrow> if endswith ''ns'' tm then py_int (without_unit tm) else Inl ValueError)"

section \<open>Flows\<close>

record five_tuple =
  source_address :: "string option"
  destination_address :: "string option"
  protocol :: int
  source_port :: int
  destination_port :: int

definition new_five_tuple :: "xml \<Rightarrow> five_tuple res" where
  "new_five_tuple el =
     rbind (int_attr ''sourcePort'' el) (\<lambda>sp. rbind (int_attr ''destinationPort'' el) (\<lambda>dp.
     rbind (int_attr ''protocol'' el) (\<lambda>p. Inr \<lparr>source_address = map_of (attrs el) ''sourceAddress'',
       destination_address = map_of (attrs el) ''destinationAddress'', protocol = p, source_port = sp, destination_port = dp\<rparr>)))"

type_synonym histogram = "(flt \<times> flt \<times> int) list"

definition new_histogram :: "xml \<Rightarrow> histogram res" where
  "new_histogram el = rmap (\<lambda>bin. rbind (float_attr ''start'' bin) (\<lambda>s. rbind (float_attr ''width'' bin) (\<lambda>w.
     rbind (int_attr ''count'' bin) (\<lambda>c. Inr (s, w, c))))) (findall ''bin'' el)"

record probe_stats =
  probe_id :: int
  probe_packets :: int
  probe_bytes :: int
  delay_from_first :: pnum

record mon_flow =
  flow_id :: int
  delay_mean :: "flt option"
  loss_ratio :: "flt option"
  rx_bitrate :: "flt option"
  tx_bitrate :: "flt option"
  flow_tuple :: "five_tuple option"
  packet_size_mean :: "flt option"
  probes :: "probe_stats list"
  hop_count :: pnum
  interruptions :: "histogram option"
  rx_duration :: flt

definition nano :: flt where "nano = rn (1 / 10 ^ 9)"

definition duration :: "string \<Rightarrow> string \<Rightarrow> xml \<Rightarrow> flt res" where
  "duration l f el = rbind (ns_attr l el) (\<lambda>b. rbind (ns_attr f el) (\<lambda>a. Inr (fmul (f_of_int (b - a)) nano)))"

definition bitrate :: "string \<Rightarrow> flt \<Rightarrow> xml \<Rightarrow> flt option res" where
  "bitrate k d el =
     (if d > 0 then rbind (int_attr k el) (\<lambda>b. rbind (fdiv (f_of_int (b * 8)) d) (\<lambda>r. Inr (Some r))) else Inr None)"

definition per_packet :: "flt res \<Rightarrow> int \<Rightarrow> flt res" where
  "per_packet r n = rbind r (\<lambda>t. fdiv t (f_of_int n))"

definition new_flow :: "xml \<Rightarrow> mon_flow res" where
  "new_flow el =
     rbind (int_attr ''flowId'' el) (\<lambda>i.
     rbind (int_attr ''rxPackets'' el) (\<lambda>rx.
     rbind (int_attr ''txPackets'' el) (\<lambda>tx.
     rbind (duration ''timeLastTxPacket'' ''timeFirstTxPacket'' el) (\<lambda>tx_duration.
     rbind (duration ''timeLastRxPacket'' ''timeFirstRxPacket'' el) (\<lambda>rx_duration.
     rbind (if rx \<noteq> 0 then rbind (per_packet (float_attr ''timesForwarded'' el) rx) (\<lambda>h. Inr (NFlt (fadd h 1)))
            else Inr (NInt (- 1000))) (\<lambda>hops.
     rbind (if rx \<noteq> 0
            then rbind (per_packet (rbind (attr ''delaySum'' el) (\<lambda>s. py_float (without_unit s))) rx) (\<lambda>d.
                 rbind (per_packet (float_attr ''rxBytes'' el) rx) (\<lambda>s. Inr (Some (fmul d nano), Some s)))
            else Inr (None, None)) (\<lambda>(delay, packet_size).
     rbind (bitrate ''rxBytes'' rx_duration el) (\<lambda>rxb.
     rbind (bitrate ''txBytes'' tx_duration el) (\<lambda>txb.
     rbind (float_attr ''lostPackets'' el) (\<lambda>lost.
     rbind (if rx = 0 then Inr None else rbind (fdiv lost (fadd (f_of_int rx) lost)) (\<lambda>r. Inr (Some r))) (\<lambda>loss.
     rbind (case find_el ''flowInterruptionsHistogram'' el of None \<Rightarrow> Inr None
            | Some h \<Rightarrow> rbind (new_histogram h) (\<lambda>h. Inr (Some h))) (\<lambda>hist.
       Inr \<lparr>flow_id = i, delay_mean = delay, loss_ratio = loss, rx_bitrate = rxb, tx_bitrate = txb, flow_tuple = None,
         packet_size_mean = packet_size, probes = [], hop_count = hops, interruptions = hist, rx_duration = rx_duration\<rparr>))))))))))))"

section \<open>The simulation\<close>

text \<open>The position of the last flow with a number, \<open>flow_map[flowId]\<close>.\<close>

definition flow_ref :: "mon_flow list \<Rightarrow> int \<Rightarrow> nat res" where
  "flow_ref flows i = of_option KeyError (map_of (rev (zip (map flow_id flows) [0..<length flows])) i)"

definition set_tuple :: "mon_flow list \<Rightarrow> xml \<Rightarrow> mon_flow list res" where
  "set_tuple flows cls =
     rbind (int_attr ''flowId'' cls) (\<lambda>i. rbind (new_five_tuple cls) (\<lambda>t. rbind (flow_ref flows i) (\<lambda>k.
       Inr (flows[k := (flows ! k)\<lparr>flow_tuple := Some t\<rparr>]))))"

definition add_probe :: "int \<Rightarrow> mon_flow list \<Rightarrow> xml \<Rightarrow> mon_flow list res" where
  "add_probe pid flows stats =
     rbind (int_attr ''flowId'' stats) (\<lambda>i. rbind (int_attr ''packets'' stats) (\<lambda>packets.
     rbind (int_attr ''bytes'' stats) (\<lambda>b.
     rbind (if packets > 0
            then rbind (parse_time_ns (map_of (attrs stats) ''delayFromFirstProbeSum'')) (\<lambda>d.
                 rbind (fdiv (f_of_int d) (f_of_int packets)) (\<lambda>q. Inr (NFlt q)))
            else Inr (NInt 0)) (\<lambda>delay.
     rbind (flow_ref flows i) (\<lambda>k.
       Inr (flows[k := (flows ! k)\<lparr>probes := probes (flows ! k) @
         [\<lparr>probe_id = pid, probe_packets = packets, probe_bytes = b, delay_from_first = delay\<rparr>]\<rparr>]))))))"

definition add_probes :: "mon_flow list \<Rightarrow> xml \<Rightarrow> mon_flow list res" where
  "add_probes flows probe = rbind (int_attr ''index'' probe) (\<lambda>pid. rfold (add_probe pid) flows (findall ''FlowStats'' probe))"

definition simulation :: "xml \<Rightarrow> mon_flow list res" where
  "simulation el =
     (case findall ''Ipv4FlowClassifier'' el of [classifier] \<Rightarrow>
        rbind (rmap new_flow (findall2 ''FlowStats'' ''Flow'' el)) (\<lambda>flows.
        rbind (rfold set_tuple flows (findall ''Flow'' classifier)) (\<lambda>flows.
          rfold add_probes flows (findall2 ''FlowProbes'' ''FlowProbe'' el)))
      | _ \<Rightarrow> Inl ValueError)"

section \<open>The program\<close>

datatype xml_event = Start xml | End xml

fun events :: "xml \<Rightarrow> xml_event list" where
  "events (Element t a ks) = Start (Element t a ks) # concat (map events ks) @ [End (Element t a ks)]"

definition on_event :: "int \<times> mon_flow list list \<Rightarrow> xml_event \<Rightarrow> (int \<times> mon_flow list list) res" where
  "on_event s ev = (let (level, sims) = s in case ev of
       Start el \<Rightarrow> Inr (level + 1, sims)
     | End el \<Rightarrow> if level - 1 = 0 \<and> tag el = ''FlowMonitor'' then rbind (simulation el) (\<lambda>sim. Inr (level - 1, sims @ [sim]))
               else Inr (level - 1, sims))"

definition show_text :: "string option \<Rightarrow> string" where
  "show_text s = (case s of None \<Rightarrow> ''None'' | Some s \<Rightarrow> s)"

definition scaled :: "flt option \<Rightarrow> flt \<Rightarrow> flt res" where
  "scaled x f = (case x of None \<Rightarrow> Inl TypeError | Some x \<Rightarrow> Inr (fmul x f))"

definition proto_name :: "int \<Rightarrow> string res" where
  "proto_name p = of_option KeyError (map_of [(6, ''TCP''), (17, ''UDP'')] p)"

definition say_line :: "string \<Rightarrow> (string list, unit) act" where
  "say_line l = update (\<lambda>ls. ls @ [l])"

definition report_flow :: "mon_flow \<Rightarrow> (string list, unit) act" where
  "report_flow f =
     abind (lift (of_option AttributeError (flow_tuple f))) (\<lambda>t. abind (lift (proto_name (protocol t))) (\<lambda>proto.
     also_do (say_line (''FlowID: '' @ str_int (flow_id f) @ '' ('' @ proto @ '' '' @ show_text (source_address t) @ ''/'' @
       str_int (source_port t) @ '' --> '' @ show_text (destination_address t) @ ''/'' @ str_int (destination_port t) @ '')''))
    (abind (lift (scaled (tx_bitrate f) (rn (1 / 1000)))) (\<lambda>x.
     also_do (say_line (tab # ''TX bitrate: '' @ fmt_fixed 2 x @ '' kbit/s''))
    (abind (lift (scaled (rx_bitrate f) (rn (1 / 1000)))) (\<lambda>x.
     also_do (say_line (tab # ''RX bitrate: '' @ fmt_fixed 2 x @ '' kbit/s''))
    (abind (lift (scaled (delay_mean f) 1000)) (\<lambda>x.
     also_do (say_line (tab # ''Mean Delay: '' @ fmt_fixed 2 x @ '' ms''))
    (abind (lift (scaled (loss_ratio f) 100)) (\<lambda>x.
     say_line (tab # ''Packet Loss Ratio: '' @ fmt_fixed 2 x @ '' %'')))))))))))"

definition report_main :: "xml \<Rightarrow> (string list, unit) act" where
  "report_main doc =
     abind (lift (rfold on_event (0, []) (events doc))) (\<lambda>(level, sims). each (\<lambda>sim. each report_flow sim) sims)"


section \<open>What it computes\<close>

lemma on_event_simps [simp]:
  "on_event (level, sims) (Start el) = Inr (level + 1, sims)"
  "on_event (level, sims) (End el) = (if level = 1 \<and> tag el = ''FlowMonitor''
     then rbind (simulation el) (\<lambda>sim. Inr (level - 1, sims @ [sim])) else Inr (level - 1, sims))"
  by (simp_all add: on_event_def)

lemma rbind_Inr [simp]: "rbind m Inr = m"
  by (cases m) simp_all

lemma run_events:
  "rfold on_event (level, sims) (events el) =
     (if level = 0 \<and> tag el = ''FlowMonitor'' then rbind (simulation el) (\<lambda>s. Inr (level, sims @ [s])) else Inr (level, sims))"
  if "0 \<le> level"
  using that
proof (induction el arbitrary: level)
  case (Element t a ks)
  have inner: "rfold on_event (l, sims) (concat (map events xs)) = Inr (l, sims)" if "set xs \<subseteq> set ks" "0 < l" for xs l
    using that
  proof (induction xs)
    case (Cons x xs)
    then show ?case using Element.IH[of x l] by (simp add: rfold_append)
  qed simp
  show ?case using Element.prems inner[of ks "level + 1"] by (simp add: rfold_append rbind_assoc)
qed

lemma report_main_run:
  "report_main doc out = (if tag doc = ''FlowMonitor'' then
     (case simulation doc of Inl e \<Rightarrow> (Inl e, out) | Inr flows \<Rightarrow> each report_flow flows out) else (Inr (), out))"
  by (auto simp: report_main_def run_events abind_def also_do_def split: sum.split prod.split)


lemma py_float_is_float: "py_float s = Inr x \<Longrightarrow> is_float x"
  by (auto simp: py_float_def Let_def split: list.split_asm prod.split_asm option.split_asm)

text \<open>A flow that received packets has a loss ratio between 0 and 1 and a mean delay; one that received none has
  neither, and its hop count is -1000; a bit rate is missing exactly when its duration is not positive.\<close>

theorem flow_statistics:
  assumes "new_flow el = Inr f" "int_attr ''rxPackets'' el = Inr rx" "float_attr ''lostPackets'' el = Inr lost" "0 \<le> rx" "0 \<le> lost"
  shows "(if rx = 0 then loss_ratio f = None \<and> delay_mean f = None \<and> packet_size_mean f = None \<and> hop_count f = NInt (- 1000)
      else (\<exists>l. loss_ratio f = Some l \<and> 0 \<le> l \<and> l \<le> 1) \<and> delay_mean f \<noteq> None \<and> packet_size_mean f \<noteq> None) \<and>
    (rx_bitrate f = None \<longleftrightarrow> rx_duration f \<le> 0) \<and> flow_tuple f = None \<and> probes f = []"
proof -
  have loss: "0 \<le> q \<and> q \<le> 1" if "fdiv lost (fadd (f_of_int rx) lost) = Inr q" "0 < rx" for q
  proof -
    have "0 \<le> f_of_int rx" using that(2) by (simp add: f_of_int_def f64.rnd_nonneg)
    then have "lost \<le> f_of_int rx + lost" by simp
    have "is_float lost" using assms(3)
      by (auto simp: float_attr_def res_simps intro: py_float_is_float)
    then have le: "lost \<le> fadd (f_of_int rx) lost" unfolding fadd_def is_float_def
      using f64.rnd_lower[of lost "f_of_int rx + lost"] \<open>lost \<le> f_of_int rx + lost\<close> by simp
    moreover have "fadd (f_of_int rx) lost \<noteq> 0" using that(1) by (auto simp: fdiv_def split: if_splits)
    ultimately have pos: "0 < fadd (f_of_int rx) lost" using assms(5) by simp
    have q: "q = rn (lost / fadd (f_of_int rx) lost)" using that(1) pos by (simp add: fquo_def)
    have "lost / fadd (f_of_int rx) lost \<le> 1" using le pos by (simp add: divide_le_eq)
    then show ?thesis unfolding q using assms(5) pos f64.rnd_upper[of 1] f64.rnd_1 by (simp add: f64.rnd_nonneg)
  qed
  show ?thesis
  proof (cases "rx = 0")
    case True
    then show ?thesis using assms(1,2)
      by (auto simp: new_flow_def res_simps bitrate_def split: if_splits)
  next
    case False
    then have "0 < rx" using assms(4) by simp
    then show ?thesis using assms(1,2,3) False loss
      by (auto simp: new_flow_def res_simps bitrate_def split: if_splits)
  qed
qed


definition demo_flow :: xml where
  "demo_flow = Element ''Flow'' [(''flowId'', ''1''), (''rxPackets'', ''3''), (''txPackets'', ''4''), (''timeLastTxPacket'', ''7ns''),
     (''timeFirstTxPacket'', ''7ns''), (''timeLastRxPacket'', ''9ns''), (''timeFirstRxPacket'', ''9ns''), (''timesForwarded'', ''6''),
     (''delaySum'', ''0ns''), (''rxBytes'', ''192''), (''lostPackets'', ''1'')] []"

theorem flow_statistics_witness:
  "\<exists>f. new_flow demo_flow = Inr f \<and> (\<exists>l. loss_ratio f = Some l \<and> 0 \<le> l \<and> l \<le> 1)"
proof -
  have "\<not> isl (new_flow demo_flow)" by code_simp
  then obtain f where f: "new_flow demo_flow = Inr f" by (auto simp: isl_def) (metis sum.exhaust)
  have rx: "int_attr ''rxPackets'' demo_flow = Inr 3" by code_simp
  have lost: "float_attr ''lostPackets'' demo_flow = Inr 1" by code_simp
  show ?thesis using flow_statistics[OF f rx lost] f by simp
qed

text \<open>What the simulator writes for a time: the sign, the whole number and \<open>.0ns\<close> (\<open>operator<<\<close> of \<open>Time\<close>).\<close>

definition ns3_time :: "int \<Rightarrow> string" where
  "ns3_time v = (if v < 0 then CHR ''-'' else CHR ''+'') # str_nat (nat \<bar>v\<bar>) @ ''.0ns''"

lemma split_on_digits: "\<not> list_all is_digit s \<Longrightarrow> CHR ''_'' \<notin> set s \<Longrightarrow> read_digits s = None"
  by (simp add: read_digits_def split_on_single)

lemma ns3_time_not_int: "py_int (without_unit (ns3_time v)) = Inl ValueError"
proof -
  let ?d = "str_nat (nat \<bar>v\<bar>) @ ''.0''"
  have w: "without_unit (ns3_time v) = (if v < 0 then CHR ''-'' else CHR ''+'') # ?d"
    by (simp add: without_unit_def ns3_time_def)
  have ws: "\<not> is_ws (CHR ''0'')" "\<not> is_ws (CHR ''+'')" "\<not> is_ws (CHR ''-'')" by (simp_all add: is_ws_def)
  have "strip ((if v < 0 then CHR ''-'' else CHR ''+'') # ?d) = (if v < 0 then CHR ''-'' else CHR ''+'') # ?d"
    using ws by (simp add: strip_def lstrip_def rstrip_def rstrip_by_def)
  moreover have "read_digits ?d = None"
  proof (rule split_on_digits)
    show "\<not> list_all is_digit ?d" by (simp add: is_digit_def)
    show "CHR ''_'' \<notin> set ?d"
      using str_nat_digits[of "CHR ''_''"] by (auto simp: is_digit_def)
  qed
  ultimately show ?thesis unfolding w by (simp add: py_int_def read_sign_def)
qed

text \<open>The times the simulator writes are not whole numbers to the script: a flow with such a time raises a
  \<open>ValueError\<close>, and so does the whole report of a document with such a flow first.\<close>

theorem simulator_times_unreadable:
  assumes "int_attr ''flowId'' el = Inr i" "int_attr ''rxPackets'' el = Inr rx" "int_attr ''txPackets'' el = Inr tx"
    and "map_of (attrs el) ''timeLastTxPacket'' = Some (ns3_time v)"
    and "findall2 ''FlowStats'' ''Flow'' doc = el # els" "findall ''Ipv4FlowClassifier'' doc = [c]" "tag doc = ''FlowMonitor''"
  shows "new_flow el = Inl ValueError \<and> report_main doc out = (Inl ValueError, out)"
proof -
  have "new_flow el = Inl ValueError"
    using assms(1-4) by (simp add: new_flow_def duration_def ns_attr_def attr_def of_option_def ns3_time_not_int)
  with assms(5-7) show ?thesis by (simp add: report_main_run simulation_def)
qed

theorem simulator_times_unreadable_witness:
  "let el = Element ''Flow'' [(''flowId'', ''1''), (''rxPackets'', ''3''), (''txPackets'', ''3''), (''timeLastTxPacket'', ns3_time 2500)] [];
       doc = Element ''FlowMonitor'' [] [Element ''FlowStats'' [] [el], Element ''Ipv4FlowClassifier'' [] []]
   in new_flow el = Inl ValueError \<and> report_main doc [] = (Inl ValueError, [])"
  unfolding Let_def
proof (rule simulator_times_unreadable)
  let ?el = "Element ''Flow'' [(''flowId'', ''1''), (''rxPackets'', ''3''), (''txPackets'', ''3''), (''timeLastTxPacket'', ns3_time 2500)] []"
  show "int_attr ''flowId'' ?el = Inr 1" "int_attr ''rxPackets'' ?el = Inr 3" "int_attr ''txPackets'' ?el = Inr 3"
    by (simp_all add: int_attr_def attr_def of_option_def) (code_simp)+
qed (simp_all add: findall2_def findall_def)

section \<open>The report\<close>

definition complete :: "mon_flow \<Rightarrow> bool" where
  "complete f = ((\<exists>t. flow_tuple f = Some t \<and> protocol t \<in> {6, 17}) \<and> tx_bitrate f \<noteq> None \<and> rx_bitrate f \<noteq> None \<and>
     delay_mean f \<noteq> None \<and> loss_ratio f \<noteq> None)"

lemma report_complete: "complete f \<Longrightarrow> \<exists>ls. length ls = 5 \<and> report_flow f out = (Inr (), out @ ls)"
  by (auto simp: complete_def report_flow_def say_line_def proto_name_def of_option_def scaled_def also_do_def)

lemma report_all: "list_all complete fs \<Longrightarrow> \<exists>ls. length ls = 5 * length fs \<and> each report_flow fs out = (Inr (), out @ ls)"
proof (induction fs arbitrary: out)
  case (Cons f fs)
  obtain ls where ls: "length ls = 5" "report_flow f out = (Inr (), out @ ls)" using report_complete[of f out] Cons.prems by auto
  obtain ks where "length ks = 5 * length fs" "each report_flow fs (out @ ls) = (Inr (), (out @ ls) @ ks)"
    using Cons.IH[of "out @ ls"] Cons.prems by auto
  with ls show ?case by (intro exI[of _ "ls @ ks"]) (simp add: act_simps)
qed simp

text \<open>The report has five lines for every flow; the first flow that received nothing ends it with a
  \<open>TypeError\<close> after its first two lines, and the flows behind it are not reported.\<close>

theorem report_lines:
  assumes "tag doc = ''FlowMonitor''" "simulation doc = Inr (fs @ gs)" "list_all complete fs"
  shows "(gs = [] \<longrightarrow> (\<exists>ls. length ls = 5 * length fs \<and> report_main doc out = (Inr (), out @ ls))) \<and>
    (\<forall>g hs t. gs = g # hs \<longrightarrow> flow_tuple g = Some t \<longrightarrow> protocol t \<in> {6, 17} \<longrightarrow> tx_bitrate g \<noteq> None \<longrightarrow> rx_bitrate g = None \<longrightarrow>
       (\<exists>ls. length ls = 5 * length fs + 2 \<and> report_main doc out = (Inl TypeError, out @ ls)))"
proof -
  obtain ls where ls: "length ls = 5 * length fs" "each report_flow fs out = (Inr (), out @ ls)"
    using report_all[OF assms(3), of out] by blast
  have run: "report_main doc out = each report_flow gs (out @ ls)"
    using assms(1,2) ls(2) by (simp add: report_main_run each_append act_simps)
  have "\<exists>ks. length ks = 2 \<and> each report_flow (g # hs) o' = (Inl TypeError, o' @ ks)"
    if "flow_tuple g = Some t" "protocol t \<in> {6, 17}" "tx_bitrate g \<noteq> None" "rx_bitrate g = None" for g hs t o'
    using that by (auto simp: report_flow_def say_line_def proto_name_def of_option_def scaled_def also_do_def abind_def)
  then have two: "\<exists>ks. length ks = 2 \<and> report_main doc out = (Inl TypeError, (out @ ls) @ ks)"
    if "gs = g # hs" "flow_tuple g = Some t" "protocol t \<in> {6, 17}" "tx_bitrate g \<noteq> None" "rx_bitrate g = None" for g hs t
    using that unfolding run by blast
  show ?thesis
  proof (intro conjI allI impI)
    assume "gs = []"
    then show "\<exists>ls. length ls = 5 * length fs \<and> report_main doc out = (Inr (), out @ ls)" using ls run by auto
  next
    fix g hs t assume "gs = g # hs" "flow_tuple g = Some t" "protocol t \<in> {6, 17}" "tx_bitrate g \<noteq> None" "rx_bitrate g = None"
    from two[OF this] obtain ks where "length ks = 2" "report_main doc out = (Inl TypeError, (out @ ls) @ ks)" by blast
    then show "\<exists>ls. length ls = 5 * length fs + 2 \<and> report_main doc out = (Inl TypeError, out @ ls)"
      using ls(1) by (intro exI[of _ "ls @ ks"]) simp
  qed
qed


text \<open>A flow that was sent for a second and received nothing.\<close>

definition demo_doc :: xml where
  "demo_doc = Element ''FlowMonitor'' [] [
     Element ''FlowStats'' [] [Element ''Flow'' [(''flowId'', ''1''), (''rxPackets'', ''0''), (''txPackets'', ''4''),
       (''timeLastTxPacket'', ''1000000000ns''), (''timeFirstTxPacket'', ''0ns''), (''timeLastRxPacket'', ''0ns''),
       (''timeFirstRxPacket'', ''0ns''), (''txBytes'', ''0''), (''lostPackets'', ''4'')] []],
     Element ''Ipv4FlowClassifier'' [] [Element ''Flow'' [(''flowId'', ''1''), (''protocol'', ''6''),
       (''sourcePort'', ''80''), (''destinationPort'', ''81'')] []]]"

theorem report_lines_witness:
  "\<exists>ls. length ls = 2 \<and> report_main demo_doc [] = (Inl TypeError, ls)"
proof -
  have "case simulation demo_doc of Inr [g] \<Rightarrow> (case flow_tuple g of Some t \<Rightarrow> protocol t = 6 | None \<Rightarrow> False) \<and>
      tx_bitrate g \<noteq> None \<and> rx_bitrate g = None | _ \<Rightarrow> False"
    by code_simp
  then obtain g t where g: "simulation demo_doc = Inr ([] @ [g])" "flow_tuple g = Some t" "protocol t \<in> {6, 17}"
      "tx_bitrate g \<noteq> None" "rx_bitrate g = None"
    by (auto split: sum.split_asm list.split_asm option.split_asm)
  have "tag demo_doc = ''FlowMonitor''" by (simp add: demo_doc_def)
  from report_lines[OF this g(1), of "[]"] g(2-) show ?thesis by auto
qed

end
