(* ===== verification/Ns3rc.thy ===== *)
theory Ns3rc
  imports PyFiles
begin

text \<open>
  \<open>simulation/utils.py\<close>: reading the lists and the switches of an \<open>.ns3rc\<close> file, and the configuration the
  build takes from it.  The value of a right-hand side is what Python's \<open>eval\<close> makes of its text; it is a
  parameter, an arbitrary function from texts to values or exceptions.
\<close>

section \<open>Lists and switches\<close>

datatype pyval = VBool bool | VInt int | VStr string | VList "pyval list"

fun is_true :: "pyval \<Rightarrow> bool" where
  "is_true (VBool b) = b"
| "is_true (VInt n) = (n \<noteq> 0)"
| "is_true (VStr s) = (s \<noteq> [])"
| "is_true (VList vs) = (vs \<noteq> [])"

definition cut_comment :: "string \<Rightarrow> string" where
  "cut_comment line = takeWhile (\<lambda>c. c \<noteq> CHR ''#'') line"

definition right_side :: "(string \<Rightarrow> pyval res) \<Rightarrow> string \<Rightarrow> pyval res" where
  "right_side ev s =
     (if CHR ''='' \<in> set s then ev (strip (tl (dropWhile (\<lambda>c. c \<noteq> CHR ''='') s))) else Inl IndexError)"

fun list_scan :: "(string \<Rightarrow> pyval res) \<Rightarrow> string \<Rightarrow> string \<Rightarrow> bool \<Rightarrow> string list \<Rightarrow> pyval res" where
  "list_scan ev list_name list_string parsing [] = Inr (VList [])"
| "list_scan ev list_name list_string parsing (line # rest) =
     (let line = cut_comment line
      in if contains list_name line \<or> parsing then
           (let list_string = list_string @ line
            in if CHR '']'' \<notin> set list_string then list_scan ev list_name list_string True rest
               else right_side ev list_string)
         else list_scan ev list_name list_string parsing rest)"

definition get_list_from_file :: "(string \<Rightarrow> pyval res) \<Rightarrow> files \<Rightarrow> string \<Rightarrow> string \<Rightarrow> pyval res" where
  "get_list_from_file ev fs file_path list_name =
     (case fs file_path of None \<Rightarrow> Inr (VList []) | Some t \<Rightarrow> list_scan ev list_name [] False (readlines t))"

fun bool_scan :: "(string \<Rightarrow> pyval res) \<Rightarrow> string \<Rightarrow> string list \<Rightarrow> pyval option res" where
  "bool_scan ev bool_name [] = Inr None"
| "bool_scan ev bool_name (line # rest) =
     (let line = cut_comment line
      in if contains bool_name line then rbind (right_side ev line) (\<lambda>v. Inr (Some v)) else bool_scan ev bool_name rest)"

text \<open>\<open>bool_found\<close> is only assigned when the file exists.\<close>

definition get_bool_from_file :: "(string \<Rightarrow> pyval res) \<Rightarrow> files \<Rightarrow> string \<Rightarrow> string \<Rightarrow> pyval \<Rightarrow> pyval res" where
  "get_bool_from_file ev fs file_path bool_name value_if_missing =
     (case fs file_path of None \<Rightarrow> Inl UnboundLocalError
      | Some t \<Rightarrow> rbind (bool_scan ev bool_name (readlines t)) (\<lambda>found.
          Inr (case found of Some v \<Rightarrow> v | None \<Rightarrow> value_if_missing)))"

definition dot_ns3rc_name :: string where "dot_ns3rc_name = ''.ns3rc''"

definition all_modules :: pyval where "all_modules = VList [VStr ''all_modules'']"

text \<open>\<open>home\<close> is what \<open>os.path.expanduser\<close> gives for \<open>~/\<close>.\<close>

definition read_config_file :: "(string \<Rightarrow> pyval res) \<Rightarrow> string \<Rightarrow> files \<Rightarrow> (bool \<times> pyval \<times> pyval \<times> pyval) res" where
  "read_config_file ev home fs =
     (let path = (if fs dot_ns3rc_name \<noteq> None then dot_ns3rc_name else home @ dot_ns3rc_name)
      in if fs path = None then Inr (False, all_modules, VBool False, VBool False)
         else rbind (get_list_from_file ev fs path ''modules_enabled'') (\<lambda>modules.
              let modules = (if \<not> is_true modules then all_modules else modules)
              in rbind (get_bool_from_file ev fs path ''examples_enabled'' (VBool False)) (\<lambda>examples.
                 rbind (get_bool_from_file ev fs path ''tests_enabled'' (VBool False)) (\<lambda>tests.
                   Inr (True, modules, examples, tests)))))"

section \<open>What the scans find\<close>

text \<open>The text of a list: the lines from the first one with the name up to the first that brings a bracket.\<close>

definition list_text :: "string \<Rightarrow> string list \<Rightarrow> string option" where
  "list_text name ls =
     (let rest = dropWhile (\<lambda>l. \<not> contains name l) (map cut_comment ls)
      in find (\<lambda>s. CHR '']'' \<in> set s) (map (\<lambda>n. concat (take (Suc n) rest)) [0..<length rest]))"

lemma find_map_Suc: "find P (map f [0..<Suc n]) = (if P (f 0) then Some (f 0) else find P (map (\<lambda>i. f (Suc i)) [0..<n]))"
  by (simp add: upt_rec[of 0] map_Suc_upt[symmetric] comp_def del: upt_Suc)

lemma list_scan_parsing:
  "list_scan ev name s True ls =
     (case find (\<lambda>s. CHR '']'' \<in> set s) (map (\<lambda>n. s @ concat (take (Suc n) (map cut_comment ls))) [0..<length ls]) of
        None \<Rightarrow> Inr (VList []) | Some t \<Rightarrow> right_side ev t)"
proof (induction ls arbitrary: s)
  case (Cons l ls)
  then show ?case by (simp only: list_scan.simps length_Cons find_map_Suc) (simp add: Let_def)
qed simp

lemma list_scan_text:
  "list_scan ev name [] False ls = (case list_text name ls of None \<Rightarrow> Inr (VList []) | Some t \<Rightarrow> right_side ev t)"
proof (induction ls)
  case (Cons l ls)
  show ?case
  proof (cases "contains name (cut_comment l)")
    case True
    then have "list_text name (l # ls) = find (\<lambda>s. CHR '']'' \<in> set s)
        (map (\<lambda>n. concat (take (Suc n) (map cut_comment (l # ls)))) [0..<Suc (length ls)])"
      by (simp add: list_text_def del: upt_Suc)
    then show ?thesis unfolding find_map_Suc
      using list_scan_parsing[of ev name "cut_comment l" ls] True by (simp add: Let_def)
  next
    case False
    then show ?thesis using Cons by (simp add: list_text_def Let_def)
  qed
qed (simp add: list_text_def)

lemma bool_scan_text:
  "bool_scan ev name ls = (case find (contains name) (map cut_comment ls) of None \<Rightarrow> Inr None
     | Some l \<Rightarrow> rbind (right_side ev l) (\<lambda>v. Inr (Some v)))"
  by (induction ls) (simp_all add: Let_def)

lemma lookup:
  assumes "fs path = Some t"
  shows "get_list_from_file ev fs path name = (case list_text name (readlines t) of None \<Rightarrow> Inr (VList []) | Some s \<Rightarrow> right_side ev s)"
    and "get_bool_from_file ev fs path name v = (case find (contains name) (map cut_comment (readlines t)) of None \<Rightarrow> Inr v | Some l \<Rightarrow> right_side ev l)"
proof -
  have "rbind (rbind r (\<lambda>v. Inr (Some v))) (\<lambda>found. Inr (case found of Some v \<Rightarrow> v | None \<Rightarrow> v0)) = r" for r :: "pyval res" and v0
    by (cases r) simp_all
  then show "get_bool_from_file ev fs path name v = (case find (contains name) (map cut_comment (readlines t)) of None \<Rightarrow> Inr v | Some l \<Rightarrow> right_side ev l)"
    using assms by (auto simp: get_bool_from_file_def bool_scan_text split: option.split)
qed (simp add: assms get_list_from_file_def list_scan_text)

text \<open>In a file that exists, the list is the value behind the first equals sign of the lines, without their
  comments, from the first that contains the name to the first that completes a bracket, and empty when
  there are none; the switch is the value on the first line that contains its name, or the given one.
  Without the file the list is empty and the switch is not its given value, as the code says, but an
  \<open>UnboundLocalError\<close>.\<close>

theorem ns3rc_lookup:
  assumes "fs path = Some t"
  shows "get_list_from_file ev fs path name =
      (case list_text name (readlines t) of None \<Rightarrow> Inr (VList []) | Some s \<Rightarrow> right_side ev s) \<and>
    get_bool_from_file ev fs path name v =
      (case find (contains name) (map cut_comment (readlines t)) of None \<Rightarrow> Inr v | Some l \<Rightarrow> right_side ev l) \<and>
    get_list_from_file ev (fs(path := None)) path name = Inr (VList []) \<and>
    get_bool_from_file ev (fs(path := None)) path name v = Inl UnboundLocalError"
  using lookup[of fs path t ev name, OF assms] by (simp add: get_list_from_file_def get_bool_from_file_def)

definition demo_rc :: string where
  "demo_rc = ''# tests_enabled = True\<newline>tests_enabled = [1, # one\<newline> 2] # two\<newline>''"

theorem ns3rc_lookup_witness:
  "get_list_from_file (\<lambda>s. Inr (VStr s)) [''p'' \<mapsto> demo_rc] ''p'' ''tests_enabled'' = Inr (VStr ''[1,  2]'') \<and>
   get_bool_from_file (\<lambda>s. Inr (VStr s)) [''p'' \<mapsto> demo_rc] ''p'' ''tests_enabled'' (VBool False) = Inr (VStr ''[1,'') \<and>
   get_bool_from_file (\<lambda>s. Inr (VStr s)) ([''p'' \<mapsto> demo_rc](''p'' := None)) ''p'' ''tests_enabled'' (VBool False) = Inl UnboundLocalError"
proof -
  have v: "list_text ''tests_enabled'' (readlines demo_rc) = Some ''tests_enabled = [1,  2] ''"
    "find (contains ''tests_enabled'') (map cut_comment (readlines demo_rc)) = Some ''tests_enabled = [1, ''"
    "right_side (\<lambda>s. Inr (VStr s)) ''tests_enabled = [1,  2] '' = Inr (VStr ''[1,  2]'')"
    "right_side (\<lambda>s. Inr (VStr s)) ''tests_enabled = [1, '' = Inr (VStr ''[1,'')"
    by code_simp+
  have "[''p'' \<mapsto> demo_rc] ''p'' = Some demo_rc" by simp
  from ns3rc_lookup[of "[''p'' \<mapsto> demo_rc]" "''p''", OF this, of "\<lambda>s. Inr (VStr s)" "''tests_enabled''" "VBool False", unfolded v option.case v]
  show ?thesis by blast
qed

text \<open>What a file says: the modules, the examples switch and the tests switch.\<close>

definition configured :: "(string \<Rightarrow> pyval res) \<Rightarrow> string \<Rightarrow> (bool \<times> pyval \<times> pyval \<times> pyval) res" where
  "configured ev t =
     (let value = \<lambda>name. case find (contains name) (map cut_comment (readlines t)) of None \<Rightarrow> Inr (VBool False) | Some l \<Rightarrow> right_side ev l
      in rbind (case list_text ''modules_enabled'' (readlines t) of None \<Rightarrow> Inr (VList []) | Some s \<Rightarrow> right_side ev s) (\<lambda>modules.
         rbind (value ''examples_enabled'') (\<lambda>examples. rbind (value ''tests_enabled'') (\<lambda>tests.
           Inr (True, if \<not> is_true modules then all_modules else modules, examples, tests)))))"

definition allowed :: "(string \<Rightarrow> pyval res) \<Rightarrow> 'a res \<Rightarrow> bool" where
  "allowed ev r = (\<forall>e. r = Inl e \<longrightarrow> e = IndexError \<or> (\<exists>s. ev s = Inl e))"

lemma allowed_simps [simp]: "allowed ev (Inr x)"
  by (simp add: allowed_def)

lemma allowed_bind [intro]: "allowed ev r \<Longrightarrow> (\<And>x. allowed ev (f x)) \<Longrightarrow> allowed ev (rbind r f)"
  by (cases r) (auto simp: allowed_def)

lemma allowed_right [simp]: "allowed ev (right_side ev s)"
  by (auto simp: allowed_def right_side_def)

lemma allowed_configured: "allowed ev (configured ev t)"
  unfolding configured_def Let_def by (intro allowed_bind) (simp_all split: option.split)

text \<open>The configuration is read from the file of the working directory, otherwise from the one of the home
  directory, otherwise it is the default; it raises nothing but what evaluating a value raises, and an
  \<open>IndexError\<close> for a line with a name and no equals sign.\<close>

theorem read_config_spec:
  "read_config_file ev home fs =
     (case fs dot_ns3rc_name of Some t \<Rightarrow> configured ev t
      | None \<Rightarrow> (case fs (home @ dot_ns3rc_name) of Some t \<Rightarrow> configured ev t
          | None \<Rightarrow> Inr (False, all_modules, VBool False, VBool False))) \<and>
   (read_config_file ev home fs = Inl e \<longrightarrow> e = IndexError \<or> (\<exists>s. ev s = Inl e))"
proof
  show "read_config_file ev home fs =
     (case fs dot_ns3rc_name of Some t \<Rightarrow> configured ev t
      | None \<Rightarrow> (case fs (home @ dot_ns3rc_name) of Some t \<Rightarrow> configured ev t
          | None \<Rightarrow> Inr (False, all_modules, VBool False, VBool False)))"
    by (auto simp: read_config_file_def configured_def lookup Let_def split: option.split)
  note eq = this
  have "allowed ev (read_config_file ev home fs)"
    unfolding eq using allowed_configured by (simp split: option.split)
  then show "read_config_file ev home fs = Inl e \<longrightarrow> e = IndexError \<or> (\<exists>s. ev s = Inl e)"
    unfolding allowed_def by blast
qed

end
