(* ===== verification/ShellCmd.thy ===== *)
theory ShellCmd
  imports PyWorld "HOL-Library.AList"
begin

text \<open>
  \<open>simulation/waf-tools/shellcmd.py\<close>: a small shell for the build: the splitting of a command line
  (\<open>shlex.split\<close>), the parser, a state machine over the tokens, and the execution of the parsed
  pipeline.  The operating system is a parameter: which files open, which processes start, and the exit
  code of every process, by the order in which they were started.  What is opened, started, awaited,
  closed and printed is a list of events; the debug lines on the error stream are not modelled, and the
  variables of the environment are printed in the order of the command line.
\<close>

section \<open>Splitting a command line\<close>

text \<open>\<open>shlex\<close> in POSIX mode, split at white space, without comments.  An escape returns to the mode it was
  met in; within double quotes it only takes effect on a quote or a backslash.\<close>

datatype lex_mode = Between | Word | Quoted char | Escaped lex_mode

definition lex_space :: "char \<Rightarrow> bool" where
  "lex_space c = (c \<in> {CHR 0x20, CHR 0x09, CHR 0x0D, CHR 0x0A})"

definition quote_mark :: "char \<Rightarrow> bool" where
  "quote_mark c = (c = CHR 0x22 \<or> c = CHR 0x27)"

definition backslash :: char where "backslash = CHR 0x5C"

fun shlex :: "lex_mode \<Rightarrow> string \<Rightarrow> string \<Rightarrow> string list res" where
  "shlex Between token [] = Inr []"
| "shlex Word token [] = Inr [token]"
| "shlex (Quoted q) token [] = Inl ValueError"
| "shlex (Escaped m) token [] = Inl ValueError"
| "shlex Between token (c # cs) =
     (if lex_space c then shlex Between [] cs
      else if c = backslash then shlex (Escaped Word) [] cs
      else if quote_mark c then shlex (Quoted c) [] cs
      else shlex Word [c] cs)"
| "shlex Word token (c # cs) =
     (if lex_space c then rbind (shlex Between [] cs) (\<lambda>ts. Inr (token # ts))
      else if quote_mark c then shlex (Quoted c) token cs
      else if c = backslash then shlex (Escaped Word) token cs
      else shlex Word (token @ [c]) cs)"
| "shlex (Quoted q) token (c # cs) =
     (if c = q then shlex Word token cs
      else if c = backslash \<and> q = CHR 0x22 then shlex (Escaped (Quoted q)) token cs
      else shlex (Quoted q) (token @ [c]) cs)"
| "shlex (Escaped m) token (c # cs) =
     (case m of Quoted q \<Rightarrow> shlex m (if c \<noteq> backslash \<and> c \<noteq> q then token @ [backslash, c] else token @ [c]) cs
      | _ \<Rightarrow> shlex m (token @ [c]) cs)"

definition shlex_split :: "string \<Rightarrow> string list res" where
  "shlex_split s = shlex Between [] s"

section \<open>Commands\<close>

datatype target = ToFile string | ToPipe | ToStdout

record command =
  argv :: "string list"
  stdin :: "string option"
  stdout :: "target option"
  stderr :: "target option"
  env_vars :: "(string \<times> string) list option"

definition new_command :: "string \<Rightarrow> command" where
  "new_command name = \<lparr>argv = [name], stdin = None, stdout = None, stderr = None, env_vars = None\<rparr>"

datatype node = Command command | Chdir "string option" | Pipe | And | Or

section \<open>The parser\<close>

datatype pstate = Begin | InCommand | InChdir | InStderr | InStdout | InStdin

record parser =
  p_state :: pstate
  current_command :: "node option"
  pipeline :: "node list"
  p_env :: "(string \<times> string) list"

definition new_parser :: parser where
  "new_parser = \<lparr>p_state = Begin, current_command = None, pipeline = [], p_env = []\<rparr>"

definition name_char :: "char \<Rightarrow> bool" where
  "name_char c = (c \<in> set ''abcdefghijklmnopqrstuvwxyzABCDEFGHIJKLMNOPQRSTUVWXYZ0123456789_'')"

text \<open>\<open>^([a-zA-Z0-9_]+)=(\S+)$\<close>; the end also matches before a final line break.\<close>

definition env_var_match :: "string \<Rightarrow> (string \<times> string) option" where
  "env_var_match token =
     (let name = takeWhile name_char token; rest = dropWhile name_char token
      in case rest of [] \<Rightarrow> None
         | c # v \<Rightarrow> let v = (if v \<noteq> [] \<and> last v = nl then butlast v else v)
             in if name \<noteq> [] \<and> c = CHR ''='' \<and> v \<noteq> [] \<and> list_all (\<lambda>c. \<not> is_ws c) v then Some (name, v) else None)"

definition commit_command :: "parser \<Rightarrow> parser res" where
  "commit_command p = (case current_command p of None \<Rightarrow> Inl AssertionError
     | Some n \<Rightarrow> Inr (p\<lparr>pipeline := pipeline p @ [n], current_command := None\<rparr>))"

definition finish :: "node \<Rightarrow> parser \<Rightarrow> parser res" where
  "finish op p = rbind (commit_command p) (\<lambda>p. Inr (p\<lparr>pipeline := pipeline p @ [op], p_state := Begin\<rparr>))"

definition begin_token :: "parser \<Rightarrow> string \<Rightarrow> parser res" where
  "begin_token p token =
     (case env_var_match token of Some (k, v) \<Rightarrow> Inr (p\<lparr>p_env := AList.update k v (p_env p)\<rparr>)
      | None \<Rightarrow> if current_command p \<noteq> None then Inl AssertionError
          else if token = ''cd'' then
            (if p_env p \<noteq> [] then Inl AssertionError
             else Inr (p\<lparr>current_command := Some (Chdir None), p_state := InChdir\<rparr>))
          else Inr (p\<lparr>current_command := Some (Command ((new_command token)\<lparr>env_vars := (if p_env p \<noteq> [] then Some (p_env p) else None)\<rparr>)),
            p_env := [], p_state := InCommand\<rparr>))"

text \<open>In the other states the current command is there: a command, or a change of directory.\<close>

definition with_command :: "(command \<Rightarrow> command res) \<Rightarrow> pstate \<Rightarrow> parser \<Rightarrow> parser res" where
  "with_command f st p = (case current_command p of
       Some (Command c) \<Rightarrow> rbind (f c) (\<lambda>c. Inr (p\<lparr>current_command := Some (Command c), p_state := st\<rparr>))
     | _ \<Rightarrow> Inl AttributeError)"

definition command_token :: "parser \<Rightarrow> string \<Rightarrow> parser res" where
  "command_token p token =
     (if token = ''>'' then Inr (p\<lparr>p_state := InStdout\<rparr>)
      else if token = ''2>'' then Inr (p\<lparr>p_state := InStderr\<rparr>)
      else if token = ''2>&1'' then
        with_command (\<lambda>c. rbind (assert (stderr c = None)) (\<lambda>_. Inr (c\<lparr>stderr := Some ToStdout\<rparr>))) InCommand p
      else if token = ''<'' then Inr (p\<lparr>p_state := InStdin\<rparr>)
      else if token = ''|'' then
        rbind (with_command (\<lambda>c. rbind (assert (stdout c = None)) (\<lambda>_. Inr (c\<lparr>stdout := Some ToPipe\<rparr>))) InCommand p) (finish Pipe)
      else if token = ''&&'' then finish And p
      else if token = ''||'' then finish Or p
      else with_command (\<lambda>c. Inr (c\<lparr>argv := argv c @ [token]\<rparr>)) InCommand p)"

definition chdir_token :: "parser \<Rightarrow> string \<Rightarrow> parser res" where
  "chdir_token p token =
     (if token = ''&&'' then finish And p
      else (case current_command p of
          Some (Chdir None) \<Rightarrow> Inr (p\<lparr>current_command := Some (Chdir (Some token))\<rparr>)
        | Some (Chdir (Some d)) \<Rightarrow> Inl AssertionError
        | _ \<Rightarrow> Inl AttributeError))"

definition parse_token :: "parser \<Rightarrow> string \<Rightarrow> parser res" where
  "parse_token p token = (case p_state p of
       Begin \<Rightarrow> begin_token p token
     | InCommand \<Rightarrow> command_token p token
     | InChdir \<Rightarrow> chdir_token p token
     | InStdout \<Rightarrow> with_command (\<lambda>c. rbind (assert (stdout c = None)) (\<lambda>_. Inr (c\<lparr>stdout := Some (ToFile token)\<rparr>))) InCommand p
     | InStderr \<Rightarrow> with_command (\<lambda>c. rbind (assert (stderr c = None)) (\<lambda>_. Inr (c\<lparr>stderr := Some (ToFile token)\<rparr>))) InCommand p
     | InStdin \<Rightarrow> with_command (\<lambda>c. rbind (assert (stdin c = None)) (\<lambda>_. Inr (c\<lparr>stdin := Some token\<rparr>))) InCommand p)"

definition parse_tokens :: "string list \<Rightarrow> node list res" where
  "parse_tokens tokens = rbind (rfold parse_token new_parser tokens) (\<lambda>p. rbind (commit_command p) (\<lambda>p. Inr (pipeline p)))"

definition parse :: "string \<Rightarrow> node list res" where
  "parse s = rbind (shlex_split s) parse_tokens"

text \<open>\<open>Or\<close> nodes give nothing: the branch for them tests for \<open>And\<close> a second time.\<close>

definition get_abbreviated_command :: "node list \<Rightarrow> string" where
  "get_abbreviated_command p = join '' '' (concat (map (\<lambda>n. case n of Command c \<Rightarrow> [hd (argv c)]
     | Chdir d \<Rightarrow> [''cd '' @ (case d of None \<Rightarrow> ''None'' | Some d \<Rightarrow> d)] | Pipe \<Rightarrow> [''|''] | And \<Rightarrow> [''&&''] | Or \<Rightarrow> []) p))"

section \<open>Execution\<close>

datatype stream = Inherit | OfFile string | OfProc nat | NewPipe | SameAsStdout | DevNull

record popen_call =
  pc_argv :: "string list"
  pc_stdin :: stream
  pc_stdout :: stream
  pc_stderr :: stream
  pc_env :: "(string \<Rightarrow> string option) option"
  pc_cwd :: "string option"

datatype run_event = OpenIn string | OpenOut string | Spawn popen_call | Wait nat | Close string | Print string

text \<open>The exception of opening a file to read, to write, of starting a process; the exit codes; the environment.\<close>

record system =
  cannot_read :: "string \<Rightarrow> py_error option"
  cannot_write :: "string \<Rightarrow> py_error option"
  cannot_start :: "popen_call \<Rightarrow> py_error option"
  exit_code :: "nat \<Rightarrow> int"
  environ :: "string \<Rightarrow> string option"

record runner =
  spawned :: nat
  happened :: "run_event list"

type_synonym 'a run = "(runner, 'a) act"

definition emit :: "run_event \<Rightarrow> unit run" where
  "emit e = update (\<lambda>r. r\<lparr>happened := happened r @ [e]\<rparr>)"

definition raise_if :: "py_error option \<Rightarrow> unit run" where
  "raise_if e = (case e of None \<Rightarrow> ret () | Some e \<Rightarrow> raise e)"

definition open_in :: "system \<Rightarrow> string \<Rightarrow> stream run" where
  "open_in S f = also_do (raise_if (cannot_read S f)) (also_do (emit (OpenIn f)) (ret (OfFile f)))"

definition open_out_file :: "system \<Rightarrow> string \<Rightarrow> stream run" where
  "open_out_file S f =
     (if f \<in> {''NUL:'', ''/dev/null''} then ret DevNull
      else also_do (raise_if (cannot_write S f)) (also_do (emit (OpenOut f)) (ret (OfFile f))))"

definition popen :: "system \<Rightarrow> popen_call \<Rightarrow> nat run" where
  "popen S c = also_do (raise_if (cannot_start S c))
     (also_do (emit (Spawn c)) (abind (gets spawned) (\<lambda>n. also_do (update (\<lambda>r. r\<lparr>spawned := Suc n\<rparr>)) (ret n))))"

text \<open>All processes of the pipe are awaited in order; the code is the last one's if any failed.\<close>

definition exec_piped_commands :: "system \<Rightarrow> nat list \<Rightarrow> int run" where
  "exec_piped_commands S commands =
     also_do (each (\<lambda>n. emit (Wait n)) commands)
       (ret (if \<exists>n \<in> set commands. exit_code S n \<noteq> 0 then exit_code S (last commands) else 0))"

definition close_files :: "stream list \<Rightarrow> unit run" where
  "close_files fs = each (\<lambda>f. case f of OfFile n \<Rightarrow> emit (Close n) | _ \<Rightarrow> ret ()) fs"

text \<open>The local variables of \<open>run\<close>.\<close>

record locals =
  to_close :: "stream list"
  piped :: "nat list"
  display :: "string list"
  in_pipe :: bool
  cwd :: string

definition new_locals :: locals where
  "new_locals = \<lparr>to_close = [], piped = [], display = [], in_pipe = False, cwd = ''.''\<rparr>"

definition shown :: "bool \<Rightarrow> string \<Rightarrow> locals \<Rightarrow> locals" where
  "shown verbose s l = (if verbose then l\<lparr>display := display l @ [s]\<rparr> else l)"

definition command_text :: "command \<Rightarrow> string" where
  "command_text c = (case env_vars c of
       Some (e # es) \<Rightarrow> join '' '' (map (\<lambda>(k, v). k @ ''='' @ v) (e # es)) @ '' '' @ join '' '' (argv c)
     | _ \<Rightarrow> join '' '' (argv c))"

definition choose_stdin :: "system \<Rightarrow> bool \<Rightarrow> command \<Rightarrow> locals \<Rightarrow> (stream \<times> locals) run" where
  "choose_stdin S verbose c l =
     (if in_pipe l then abind (lift (py_get (piped l) (- 1))) (\<lambda>n. ret (OfProc n, l))
      else (case stdin c of None \<Rightarrow> ret (Inherit, l)
        | Some f \<Rightarrow> abind (open_in S f) (\<lambda>x. ret (x, (shown verbose (''< '' @ f) l)\<lparr>to_close := to_close l @ [x]\<rparr>))))"

definition choose_stdout :: "system \<Rightarrow> bool \<Rightarrow> command \<Rightarrow> locals \<Rightarrow> (stream \<times> locals) run" where
  "choose_stdout S verbose c l = (case stdout c of
       None \<Rightarrow> ret (Inherit, l)
     | Some ToPipe \<Rightarrow> ret (NewPipe, l)
     | Some (ToFile f) \<Rightarrow> abind (open_out_file S f) (\<lambda>x. ret (x, (shown verbose (''> '' @ f) l)\<lparr>to_close := to_close l @ [x]\<rparr>))
     | Some ToStdout \<Rightarrow> raise TypeError)"

definition choose_stderr :: "system \<Rightarrow> bool \<Rightarrow> command \<Rightarrow> locals \<Rightarrow> (stream \<times> locals) run" where
  "choose_stderr S verbose c l = (case stderr c of
       None \<Rightarrow> ret (Inherit, l)
     | Some ToPipe \<Rightarrow> ret (NewPipe, l)
     | Some ToStdout \<Rightarrow> ret (SameAsStdout, shown verbose ''2>&1'' l)
     | Some (ToFile f) \<Rightarrow> abind (open_out_file S f) (\<lambda>x. ret (x, (shown verbose (''2> '' @ f) l)\<lparr>to_close := to_close l @ [x]\<rparr>)))"

definition start_command :: "system \<Rightarrow> bool \<Rightarrow> command \<Rightarrow> locals \<Rightarrow> locals run" where
  "start_command S verbose c l =
     abind (choose_stdin S verbose c (shown verbose (command_text c) l)) (\<lambda>(i, l).
     abind (choose_stdout S verbose c l) (\<lambda>(o', l).
     abind (choose_stderr S verbose c l) (\<lambda>(e, l).
     abind (popen S \<lparr>pc_argv = argv c, pc_stdin = i, pc_stdout = o', pc_stderr = e,
         pc_env = (case env_vars c of Some (x # xs) \<Rightarrow> Some (environ S ++ map_of (x # xs)) | _ \<Rightarrow> None),
         pc_cwd = (if cwd l = ''.'' then None else Some (cwd l))\<rparr>) (\<lambda>n.
       ret (l\<lparr>piped := piped l @ [n]\<rparr>)))))"

text \<open>The awaited group; the printed line of \<open>&&\<close> and \<open>||\<close> uses \<open>retval\<close>, which only the last group assigns.\<close>

definition await_group :: "system \<Rightarrow> locals \<Rightarrow> int run" where
  "await_group S l = abind (exec_piped_commands S (piped l)) (\<lambda>r. also_do (close_files (to_close l)) (ret r))"

definition group_report :: "bool \<Rightarrow> unit run" where
  "group_report verbose = (if verbose then raise UnboundLocalError else ret ())"

text \<open>The result is \<open>None\<close> when the loop runs out of nodes.\<close>

fun run_nodes :: "system \<Rightarrow> bool \<Rightarrow> locals \<Rightarrow> node list \<Rightarrow> int option run" where
  "run_nodes S verbose l [] = ret None"
| "run_nodes S verbose l (Chdir d # []) = raise IndexError"
| "run_nodes S verbose l (Chdir d # op # rest) =
     (if op \<noteq> And then raise AssertionError
      else (case d of None \<Rightarrow> raise AttributeError
        | Some d \<Rightarrow> run_nodes S verbose (shown verbose (''cd '' @ d @ '' &&'') (l\<lparr>cwd := path_join (cwd l) d\<rparr>)) rest))"
| "run_nodes S verbose l (Command c # []) =
     abind (start_command S verbose c l) (\<lambda>l.
     abind (exec_piped_commands S (piped l)) (\<lambda>r.
     also_do (if verbose then emit (Print (join '' '' (display l) @ '': exit code '' @ str_int r)) else ret ())
    (also_do (close_files (to_close l)) (ret (Some r)))))"
| "run_nodes S verbose l (Command c # op # rest) =
     abind (start_command S verbose c l) (\<lambda>l. case op of
         Pipe \<Rightarrow> run_nodes S verbose (l\<lparr>in_pipe := True, display := display l @ [''|'']\<rparr>) rest
       | Or \<Rightarrow> abind (await_group S l) (\<lambda>r. also_do (group_report verbose)
           (if r = 0 then ret (Some r)
            else run_nodes S verbose (l\<lparr>to_close := [], in_pipe := False, piped := [], display := []\<rparr>) rest))
       | And \<Rightarrow> abind (await_group S l) (\<lambda>r. also_do (group_report verbose)
           (if r \<noteq> 0 then ret (Some r)
            else run_nodes S verbose (l\<lparr>to_close := [], in_pipe := False, piped := [], display := []\<rparr>) rest))
       | _ \<Rightarrow> run_nodes S verbose l rest)"
| "run_nodes S verbose l (op # rest) = raise AssertionError"

definition run_pipeline :: "system \<Rightarrow> bool \<Rightarrow> node list \<Rightarrow> int option run" where
  "run_pipeline S verbose nodes = run_nodes S verbose new_locals nodes"

section \<open>What is parsed can be run\<close>

text \<open>Commands and operators alternate; a command writes to a pipe exactly before \<open>|\<close>, and after \<open>cd\<close> comes \<open>&&\<close>.\<close>

fun shaped :: "node list \<Rightarrow> bool" where
  "shaped [] = False"
| "shaped [n] = (case n of Command c \<Rightarrow> stdout c \<noteq> Some ToPipe \<and> stdout c \<noteq> Some ToStdout | Chdir d \<Rightarrow> True | _ \<Rightarrow> False)"
| "shaped (n # op # rest) = (shaped rest \<and> (case n of
      Command c \<Rightarrow> op \<in> {Pipe, And, Or} \<and> (op = Pipe \<longleftrightarrow> stdout c = Some ToPipe) \<and> stdout c \<noteq> Some ToStdout
    | Chdir d \<Rightarrow> op = And | _ \<Rightarrow> False))"

definition opened :: "node list \<Rightarrow> bool" where
  "opened pl = (\<forall>rest. shaped rest \<longrightarrow> shaped (pl @ rest))"

lemma opened_Nil: "opened []"
  by (simp add: opened_def)

lemma opened_snoc:
  "opened pl \<Longrightarrow> op \<in> {Pipe, And, Or} \<Longrightarrow> (op = Pipe \<longleftrightarrow> stdout c = Some ToPipe) \<Longrightarrow> stdout c \<noteq> Some ToStdout \<Longrightarrow> opened (pl @ [Command c, op])"
  "opened pl \<Longrightarrow> opened (pl @ [Chdir d, And])"
  by (auto simp: opened_def)

definition free :: "command \<Rightarrow> bool" where
  "free c = (stdout c \<noteq> Some ToPipe \<and> stdout c \<noteq> Some ToStdout)"

definition parser_ok :: "parser \<Rightarrow> bool" where
  "parser_ok p = (opened (pipeline p) \<and> (case p_state p of
      Begin \<Rightarrow> current_command p = None
    | InChdir \<Rightarrow> (\<exists>d. current_command p = Some (Chdir d))
    | _ \<Rightarrow> (\<exists>c. current_command p = Some (Command c) \<and> free c)))"

declare assert_eq(1) [simp]

lemma parser_ok_step:
  assumes "parser_ok p" "parse_token p token = Inr p'"
  shows "parser_ok p'"
proof (cases "p_state p")
  case Begin
  then show ?thesis using assms
    by (auto simp: parse_token_def begin_token_def parser_ok_def new_command_def free_def split: option.splits if_splits prod.splits)
next
  case InCommand
  then obtain c where c: "current_command p = Some (Command c)" "free c" "opened (pipeline p)"
    using assms(1) by (auto simp: parser_ok_def)
  show ?thesis
    using assms(2) InCommand c opened_snoc(1)[OF c(3), of And c] opened_snoc(1)[OF c(3), of Or c]
      opened_snoc(1)[OF c(3), of Pipe "c\<lparr>stdout := Some ToPipe\<rparr>"]
    by (auto simp: parse_token_def command_token_def with_command_def finish_def commit_command_def parser_ok_def free_def res_simps split: if_splits)
next
  case InChdir
  then show ?thesis using assms opened_snoc(2)
    by (auto simp: parse_token_def chdir_token_def finish_def commit_command_def parser_ok_def res_simps split: if_splits option.splits)
qed (use assms in \<open>auto simp: parse_token_def with_command_def parser_ok_def free_def res_simps\<close>)

lemma parser_ok_run: "rfold parse_token p ts = Inr p' \<Longrightarrow> parser_ok p \<Longrightarrow> parser_ok p'"
  by (induction ts arbitrary: p) (auto simp: res_simps intro: parser_ok_step)

lemma parse_shaped: "parse_tokens ts = Inr nodes \<Longrightarrow> shaped nodes"
proof -
  assume "parse_tokens ts = Inr nodes"
  then obtain p n where p: "rfold parse_token new_parser ts = Inr p" "current_command p = Some n" "nodes = pipeline p @ [n]"
    by (auto simp: parse_tokens_def commit_command_def res_simps split: option.splits)
  have "parser_ok new_parser" by (simp add: parser_ok_def new_parser_def opened_Nil)
  then have "parser_ok p" using parser_ok_run[OF p(1)] by blast
  then have "opened (pipeline p)" "shaped [n]"
    using p(2) by (auto simp: parser_ok_def free_def split: pstate.splits)
  then show ?thesis unfolding p(3) opened_def by blast
qed

section \<open>What a run does\<close>

text \<open>The result and the argument lists of the processes, from the exit codes alone: a pipe has the code of
  its last command, \<open>&&\<close> goes on after a zero, \<open>||\<close> after a code that is not zero, and otherwise everything
  that follows is left out.\<close>

fun outcome :: "(nat \<Rightarrow> int) \<Rightarrow> nat \<Rightarrow> node list \<Rightarrow> int option \<times> string list list" where
  "outcome code k (Command c # []) = (Some (code k), [argv c])"
| "outcome code k (Command c # op # rest) =
     (if op = And \<and> code k \<noteq> 0 \<or> op = Or \<and> code k = 0 then (Some (code k), [argv c])
      else (let (x, cs) = outcome code (Suc k) rest in (x, argv c # cs)))"
| "outcome code k (Chdir d # op # rest) = outcome code k rest"
| "outcome code k _ = (None, [])"

definition permissive :: "system \<Rightarrow> bool" where
  "permissive S = (cannot_read S = (\<lambda>_. None) \<and> cannot_write S = (\<lambda>_. None) \<and> cannot_start S = (\<lambda>_. None))"

definition started :: "run_event list \<Rightarrow> string list list" where
  "started es = List.map_filter (\<lambda>e. case e of Spawn c \<Rightarrow> Some (pc_argv c) | _ \<Rightarrow> None) es"

lemma started_simps [simp]:
  "started [] = []" "started (es @ fs) = started es @ started fs"
  "started (e # es) = (case e of Spawn c \<Rightarrow> [pc_argv c] | _ \<Rightarrow> []) @ started es"
  by (auto simp: started_def List.map_filter_def split: run_event.splits)

definition later :: "runner \<Rightarrow> nat \<Rightarrow> run_event list \<Rightarrow> runner" where
  "later r n es = \<lparr>spawned = spawned r + n, happened = happened r @ es\<rparr>"

lemma later_simps [simp]:
  "spawned (later r n es) = spawned r + n" "happened (later r n es) = happened r @ es"
  "later (later r n es) m fs = later r (n + m) (es @ fs)" "later r 0 [] = r"
  by (simp_all add: later_def)

text \<open>\<open>runs m r x n es\<close>: from \<open>r\<close> the action gives \<open>x\<close>, starts \<open>n\<close> processes and causes the events \<open>es\<close>.\<close>

definition runs :: "'a run \<Rightarrow> runner \<Rightarrow> 'a \<Rightarrow> nat \<Rightarrow> run_event list \<Rightarrow> bool" where
  "runs m r x n es = (m r = (Inr x, later r n es))"

lemma runs_ret [simp]: "runs (ret x) r y n es \<longleftrightarrow> x = y \<and> later r 0 [] = later r n es"
  by (auto simp: runs_def)

lemma runs_bind: "runs m r x n es \<Longrightarrow> runs (f x) (later r n es) y k fs \<Longrightarrow> runs (abind m f) r y (n + k) (es @ fs)"
  by (simp add: runs_def abind_def)

lemma runs_then: "runs m r x n es \<Longrightarrow> runs k (later r n es) y j fs \<Longrightarrow> runs (also_do m k) r y (n + j) (es @ fs)"
  unfolding also_do_def by (rule runs_bind)

lemma runs_skip [simp]: "runs (also_do (ret ()) m) r x n es \<longleftrightarrow> runs m r x n es"
  by (simp add: runs_def also_do_def abind_def ret_def)

lemma runs_emit: "runs (emit e) r () 0 [e]"
  by (simp add: runs_def emit_def later_def)

lemma runs_emits: "runs (each (\<lambda>x. emit (f x)) xs) r () 0 (map f xs)"
proof (induction xs arbitrary: r)
  case (Cons x xs)
  show ?case using runs_then[OF runs_emit Cons.IH] by simp
qed simp

lemma runs_close: "\<exists>es. runs (close_files fs) r () 0 es \<and> started es = []"
proof (induction fs arbitrary: r)
  case (Cons f fs)
  have "\<exists>es. runs (case f of OfFile n \<Rightarrow> emit (Close n) | _ \<Rightarrow> ret ()) r () 0 es \<and> started es = []"
  proof (cases "\<exists>n. f = OfFile n")
    case True
    then show ?thesis using runs_emit by fastforce
  next
    case False
    then show ?thesis by (intro exI[of _ "[]"]) (auto split: stream.split)
  qed
  then obtain es where es: "runs (case f of OfFile n \<Rightarrow> emit (Close n) | _ \<Rightarrow> ret ()) r () 0 es" "started es = []" by blast
  obtain es' where es': "runs (close_files fs) (later r 0 es) () 0 es'" "started es' = []" using Cons.IH by blast
  show ?case using runs_then[OF es(1) es'(1)[unfolded close_files_def]] es(2) es'(2)
    by (intro exI[of _ "es @ es'"]) (simp add: close_files_def)
qed (simp add: close_files_def exI[of _ "[]"])

lemma runs_await:
  assumes "piped l = ns @ [k]"
  shows "\<exists>es. runs (exec_piped_commands S (piped l)) r (exit_code S k) 0 es \<and> started es = []"
proof -
  have "(if \<exists>n \<in> set (piped l). exit_code S n \<noteq> 0 then exit_code S (last (piped l)) else 0) = exit_code S k"
    using assms by auto
  then have "runs (exec_piped_commands S (piped l)) r (exit_code S k) 0 (map Wait (piped l))"
    unfolding exec_piped_commands_def using runs_then[OF runs_emits[of Wait "piped l" r], of "ret (exit_code S k)" "exit_code S k" 0 "[]"] by simp
  moreover have "started (map Wait ns) = []" for ns by (induction ns) simp_all
  ultimately show ?thesis by blast
qed

lemma runs_group:
  assumes "piped l = ns @ [k]"
  shows "\<exists>es. runs (await_group S l) r (exit_code S k) 0 es \<and> started es = []"
proof -
  obtain es where es: "runs (exec_piped_commands S (piped l)) r (exit_code S k) 0 es" "started es = []"
    using runs_await[OF assms] by blast
  obtain fs where fs: "runs (close_files (to_close l)) (later r 0 es) () 0 fs" "started fs = []" using runs_close by blast
  have "runs (also_do (close_files (to_close l)) (ret (exit_code S k))) (later r 0 es) (exit_code S k) 0 (fs @ [])"
    using runs_then[OF fs(1), of "ret (exit_code S k)" "exit_code S k" 0 "[]"] by simp
  from runs_bind[OF es(1), of "\<lambda>r. also_do (close_files (to_close l)) (ret r)", OF this]
  show ?thesis unfolding await_group_def using es(2) fs(2) by (intro exI[of _ "es @ fs"]) simp
qed

text \<open>A choice of a stream opens at most a file and keeps the processes of the pipe.\<close>

definition same_pipe :: "locals \<Rightarrow> locals \<Rightarrow> bool" where
  "same_pipe l k = (piped k = piped l \<and> in_pipe k = in_pipe l \<and> cwd k = cwd l)"

lemma same_pipe_simps [simp]: "same_pipe l l" "same_pipe l (shown v s l)" "same_pipe l ((shown v s l)\<lparr>to_close := fs\<rparr>)"
  by (simp_all add: same_pipe_def shown_def)

lemma same_pipe_trans: "same_pipe l k \<Longrightarrow> same_pipe k m \<Longrightarrow> same_pipe l m"
  by (simp add: same_pipe_def)

lemma runs_open:
  assumes "permissive S"
  shows "runs (open_in S f) r (OfFile f) 0 [OpenIn f]"
    and "\<exists>x es. runs (open_out_file S f) r x 0 es \<and> started es = []"
proof -
  show "runs (open_in S f) r (OfFile f) 0 [OpenIn f]"
    using assms runs_then[OF runs_emit, of "ret (OfFile f)" r "OpenIn f" "OfFile f" 0 "[]"] by (simp add: permissive_def open_in_def raise_if_def)
  show "\<exists>x es. runs (open_out_file S f) r x 0 es \<and> started es = []"
  proof (cases "f \<in> {''NUL:'', ''/dev/null''}")
    case True
    then show ?thesis by (intro exI[of _ DevNull] exI[of _ "[]"]) (simp add: open_out_file_def)
  next
    case False
    then show ?thesis using assms runs_then[OF runs_emit, of "ret (OfFile f)" r "OpenOut f" "OfFile f" 0 "[]"]
      by (intro exI[of _ "OfFile f"] exI[of _ "[OpenOut f]"]) (simp add: permissive_def open_out_file_def raise_if_def)
  qed
qed

lemma runs_choices:
  assumes "permissive S" "free c \<or> stdout c = Some ToPipe" "in_pipe l \<longrightarrow> piped l \<noteq> []"
  shows "\<exists>x k es. runs (choose_stdin S v c l) r (x, k) 0 es \<and> same_pipe l k \<and> started es = []"
    and "\<exists>x k es. runs (choose_stdout S v c l) r (x, k) 0 es \<and> same_pipe l k \<and> started es = []"
    and "\<exists>x k es. runs (choose_stderr S v c l) r (x, k) 0 es \<and> same_pipe l k \<and> started es = []"
proof -
  have redir: "\<exists>x k es. runs (abind (open_out_file S f) (\<lambda>x. ret (x, (shown v t l)\<lparr>to_close := to_close l @ [x]\<rparr>))) r (x, k) 0 es \<and>
      same_pipe l k \<and> started es = []" for f t
  proof -
    obtain x es where x: "runs (open_out_file S f) r x 0 es" "started es = []" using runs_open(2)[OF assms(1)] by blast
    from runs_bind[OF x(1), of "\<lambda>x. ret (x, (shown v t l)\<lparr>to_close := to_close l @ [x]\<rparr>)" _ 0 "[]"] x(2)
    show ?thesis by (intro exI[of _ x] exI[of _ "(shown v t l)\<lparr>to_close := to_close l @ [x]\<rparr>"] exI[of _ es]) simp
  qed
  have same: "\<exists>x k es. runs (ret (y, m)) r (x, k) 0 es \<and> same_pipe l k \<and> started es = []" if "same_pipe l m" for y m
    using that by (intro exI[of _ y] exI[of _ m] exI[of _ "[]"]) simp
  show "\<exists>x k es. runs (choose_stdin S v c l) r (x, k) 0 es \<and> same_pipe l k \<and> started es = []"
  proof (cases "in_pipe l")
    case True
    then obtain ns n where n: "piped l = ns @ [n]" using assms(3) by (cases "piped l" rule: rev_cases) auto
    have "py_get (piped l) (- 1) = Inr n" unfolding n by (simp add: py_get_def)
    then show ?thesis using True by (intro exI[of _ "OfProc n"] exI[of _ l] exI[of _ "[]"]) (simp add: choose_stdin_def runs_def)
  next
    case False
    then show ?thesis
    proof (cases "stdin c")
      case (Some f)
      from runs_bind[OF runs_open(1)[OF assms(1), of f r], of "\<lambda>x. ret (x, (shown v (''< '' @ f) l)\<lparr>to_close := to_close l @ [x]\<rparr>)" _ 0 "[]"]
      show ?thesis using False Some
        by (intro exI[of _ "OfFile f"] exI[of _ "(shown v (''< '' @ f) l)\<lparr>to_close := to_close l @ [OfFile f]\<rparr>"] exI[of _ "[OpenIn f]"])
          (simp add: choose_stdin_def)
    next
      case None
      then show ?thesis using False same[of l Inherit] by (simp add: choose_stdin_def del: runs_ret)
    qed
  qed
  show "\<exists>x k es. runs (choose_stdout S v c l) r (x, k) 0 es \<and> same_pipe l k \<and> started es = []"
    using assms(2) redir same by (auto simp: choose_stdout_def free_def split: option.split target.split)
  show "\<exists>x k es. runs (choose_stderr S v c l) r (x, k) 0 es \<and> same_pipe l k \<and> started es = []"
    using redir same by (auto simp: choose_stderr_def split: option.split target.split)
qed

lemma runs_popen:
  "permissive S \<Longrightarrow> runs (popen S c) r (spawned r) 1 [Spawn c]"
  by (simp add: permissive_def popen_def raise_if_def runs_def also_do_def abind_def emit_def update_def gets_def ret_def later_def)

lemma runs_bind_pair: "runs m r (x, k) n es \<Longrightarrow> runs (f x k) (later r n es) y j fs \<Longrightarrow> runs (abind m (\<lambda>(x, k). f x k)) r y (n + j) (es @ fs)"
  by (simp add: runs_def abind_def)

lemma runs_start:
  assumes "permissive S" "free c \<or> stdout c = Some ToPipe" "in_pipe l \<longrightarrow> piped l \<noteq> []"
  shows "\<exists>k es. runs (start_command S v c l) r k 1 es \<and> piped k = piped l @ [spawned r] \<and> in_pipe k = in_pipe l \<and> started es = [argv c]"
proof -
  let ?l = "shown v (command_text c) l"
  have l: "in_pipe ?l \<longrightarrow> piped ?l \<noteq> []" using assms(3) by (simp add: shown_def)
  obtain i l1 e1 where 1: "runs (choose_stdin S v c ?l) r (i, l1) 0 e1" "same_pipe ?l l1" "started e1 = []"
    using runs_choices(1)[OF assms(1,2) l] by blast
  have l1: "in_pipe l1 \<longrightarrow> piped l1 \<noteq> []" using 1(2) l by (simp add: same_pipe_def)
  obtain o2 l2 e2 where 2: "runs (choose_stdout S v c l1) (later r 0 e1) (o2, l2) 0 e2" "same_pipe l1 l2" "started e2 = []"
    using runs_choices(2)[OF assms(1,2) l1] by blast
  have l2: "in_pipe l2 \<longrightarrow> piped l2 \<noteq> []" using 2(2) l1 by (simp add: same_pipe_def)
  obtain o3 l3 e3 where 3: "runs (choose_stderr S v c l2) (later (later r 0 e1) 0 e2) (o3, l3) 0 e3" "same_pipe l2 l3" "started e3 = []"
    using runs_choices(3)[OF assms(1,2) l2] by blast
  let ?c = "\<lparr>pc_argv = argv c, pc_stdin = i, pc_stdout = o2, pc_stderr = o3,
         pc_env = (case env_vars c of Some (x # xs) \<Rightarrow> Some (environ S ++ map_of (x # xs)) | _ \<Rightarrow> None),
         pc_cwd = (if cwd l3 = ''.'' then None else Some (cwd l3))\<rparr>"
  have same: "same_pipe ?l l3" using 1(2) 2(2) 3(2) same_pipe_trans by blast
  have 4: "runs (abind (popen S ?c) (\<lambda>n. ret (l3\<lparr>piped := piped l3 @ [n]\<rparr>))) (later (later (later r 0 e1) 0 e2) 0 e3)
      (l3\<lparr>piped := piped l3 @ [spawned r]\<rparr>) 1 ([Spawn ?c] @ [])"
    using runs_bind[OF runs_popen[OF assms(1), of ?c], of "\<lambda>n. ret (l3\<lparr>piped := piped l3 @ [n]\<rparr>)" "later (later (later r 0 e1) 0 e2) 0 e3" _ 0 "[]"]
    by simp
  have "runs (start_command S v c l) r (l3\<lparr>piped := piped l3 @ [spawned r]\<rparr>) (0 + (0 + (0 + 1))) (e1 @ e2 @ e3 @ [Spawn ?c] @ [])"
    unfolding start_command_def by (rule runs_bind_pair[OF 1(1)], rule runs_bind_pair[OF 2(1)], rule runs_bind_pair[OF 3(1)], rule 4)
  then show ?thesis using 1(3) 2(3) 3(3) same
    by (intro exI[of _ "l3\<lparr>piped := piped l3 @ [spawned r]\<rparr>"] exI[of _ "e1 @ e2 @ e3 @ [Spawn ?c]"]) (auto simp: same_pipe_def shown_def)
qed

text \<open>A pipeline that runs: each \<open>cd\<close> has a directory, and none is the end.\<close>

definition runnable :: "node list \<Rightarrow> bool" where
  "runnable nodes = (shaped nodes \<and> Chdir None \<notin> set nodes \<and> (\<exists>c. last nodes = Command c))"

lemma runnable_simps:
  "\<not> runnable []" "\<not> runnable [Chdir d]" "runnable [Command c] = free c"
  "runnable (Chdir d # op # rest) = (op = And \<and> d \<noteq> None \<and> runnable rest)"
  "runnable (Command c # op # rest) = (op \<in> {Pipe, And, Or} \<and> (op = Pipe \<longleftrightarrow> stdout c = Some ToPipe) \<and> stdout c \<noteq> Some ToStdout \<and> runnable rest)"
  by (cases d; auto simp: runnable_def free_def)+

text \<open>A group that has been awaited ends the run, or the rest goes on with an empty group.\<close>

definition stops :: "node \<Rightarrow> int \<Rightarrow> bool" where
  "stops op r = (op = And \<and> r \<noteq> 0 \<or> op = Or \<and> r = 0)"

definition fresh :: "locals \<Rightarrow> locals" where
  "fresh l = l\<lparr>to_close := [], in_pipe := False, piped := [], display := []\<rparr>"

lemma run_nodes_last:
  "run_nodes S False l [Command c] = abind (start_command S False c l) (\<lambda>l. abind (await_group S l) (\<lambda>r. ret (Some r)))"
  unfolding await_group_def by (rule ext) (simp add: abind_def also_do_def ret_def split: prod.splits sum.splits)

lemma run_nodes_pipe:
  "run_nodes S False l (Command c # Pipe # rest) = abind (start_command S False c l)
     (\<lambda>l. run_nodes S False (l\<lparr>in_pipe := True, display := display l @ [''|'']\<rparr>) rest)"
  by simp

lemma run_nodes_group:
  "op = And \<or> op = Or \<Longrightarrow> run_nodes S False l (Command c # op # rest) = abind (start_command S False c l)
     (\<lambda>l. abind (await_group S l) (\<lambda>r. if stops op r then ret (Some r) else run_nodes S False (fresh l) rest))"
  by (auto simp: stops_def fresh_def group_report_def also_do_def ret_def abind_def fun_eq_iff split: prod.splits sum.splits)

lemma runs_two:
  assumes "runs m r k n es" "runs (g k) (later r n es) x 0 fs" "runs (h k x) (later (later r n es) 0 fs) y j gs"
  shows "runs (abind m (\<lambda>k. abind (g k) (h k))) r y (n + j) (es @ fs @ gs)"
  using runs_bind[OF assms(1), of "\<lambda>k. abind (g k) (h k)", OF runs_bind[OF assms(2), of "h k", OF assms(3)]] by simp

lemma runs_group_step:
  assumes "permissive S" "free c" "in_pipe l \<longrightarrow> piped l \<noteq> []"
  shows "\<exists>k es fs. runs (start_command S False c l) r k 1 es \<and> started es = [argv c] \<and>
    runs (await_group S k) (later r 1 es) (exit_code S (spawned r)) 0 fs \<and> started fs = []"
proof -
  obtain k es where k: "runs (start_command S False c l) r k 1 es" "piped k = piped l @ [spawned r]" "started es = [argv c]"
    using runs_start[OF assms(1) disjI1[OF assms(2)] assms(3)] by blast
  show ?thesis using k(1,3) runs_group[OF k(2), of S "later r 1 es"] by blast
qed

lemma runs_nodes:
  assumes "permissive S"
  shows "runnable nodes \<Longrightarrow> in_pipe l \<longrightarrow> piped l \<noteq> [] \<Longrightarrow>
    \<exists>x es. runs (run_nodes S False l nodes) r (Some x) (length (started es)) es \<and>
      outcome (exit_code S) (spawned r) nodes = (Some x, started es)"
proof (induction nodes arbitrary: l r rule: shaped.induct)
  case (2 n)
  then obtain c where c: "n = Command c" "free c" by (cases n) (auto simp: runnable_simps runnable_def free_def)
  obtain k es fs where k: "runs (start_command S False c l) r k 1 es" "started es = [argv c]"
      "runs (await_group S k) (later r 1 es) (exit_code S (spawned r)) 0 fs" "started fs = []"
    using runs_group_step[OF assms c(2) 2(2)] by blast
  have "runs (ret (Some (exit_code S (spawned r)))) (later (later r 1 es) 0 fs) (Some (exit_code S (spawned r))) 0 []" by simp
  from runs_two[OF k(1), of "await_group S" _ fs "\<lambda>_ r. ret (Some r)", OF k(3) this]
  show ?case using k(2,4) c by (intro exI[of _ "exit_code S (spawned r)"] exI[of _ "es @ fs"]) (simp add: run_nodes_last del: run_nodes.simps)
next
  case (3 n op rest)
  show ?case
  proof (cases n)
    case (Chdir d)
    then show ?thesis using 3 by (auto simp: runnable_simps shown_def)
  next
    case (Command c)
    then have c: "op \<in> {Pipe, And, Or}" "op = Pipe \<longleftrightarrow> stdout c = Some ToPipe" "free c \<or> stdout c = Some ToPipe" "runnable rest"
      using 3(2) by (auto simp: runnable_simps free_def)
    show ?thesis
    proof (cases "op = Pipe")
      case True
      obtain k es where k: "runs (start_command S False c l) r k 1 es" "piped k = piped l @ [spawned r]" "started es = [argv c]"
        using runs_start[OF assms c(3) 3(3), of False r] by blast
      obtain x fs where x: "runs (run_nodes S False (k\<lparr>in_pipe := True, display := display k @ [''|'']\<rparr>) rest) (later r 1 es) (Some x) (length (started fs)) fs"
          "outcome (exit_code S) (spawned (later r 1 es)) rest = (Some x, started fs)"
        using 3(1)[OF c(4), of "k\<lparr>in_pipe := True, display := display k @ [''|'']\<rparr>" "later r 1 es"] k(2) by auto
      have "runs (run_nodes S False l (n # op # rest)) r (Some x) (1 + length (started fs)) (es @ fs)"
        unfolding Command True run_nodes_pipe using x(1) by (rule runs_bind[OF k(1)])
      then show ?thesis using k(3) x(2) Command True by (intro exI[of _ x] exI[of _ "es @ fs"]) simp
    next
      case False
      let ?r = "exit_code S (spawned r)" and ?h = "\<lambda>k r. if stops op r then ret (Some r) else run_nodes S False (fresh k) rest"
      have op: "op = And \<or> op = Or" "free c" using False c by auto
      obtain k es fs where k: "runs (start_command S False c l) r k 1 es" "started es = [argv c]"
          "runs (await_group S k) (later r 1 es) ?r 0 fs" "started fs = []"
        using runs_group_step[OF assms op(2) 3(3)] by blast
      show ?thesis
      proof (cases "stops op ?r")
        case True
        then have "runs (?h k ?r) (later (later r 1 es) 0 fs) (Some ?r) 0 []" by simp
        from runs_two[OF k(1), of "await_group S" _ fs ?h, OF k(3) this] show ?thesis
          using k(2,4) True by (intro exI[of _ ?r] exI[of _ "es @ fs"]) (simp add: run_nodes_group[OF op(1)] stops_def Command del: run_nodes.simps)
      next
        case go: False
        obtain x gs where x: "runs (run_nodes S False (fresh k) rest) (later (later r 1 es) 0 fs) (Some x) (length (started gs)) gs"
            "outcome (exit_code S) (spawned (later (later r 1 es) 0 fs)) rest = (Some x, started gs)"
          using 3(1)[OF c(4), of "fresh k" "later (later r 1 es) 0 fs"] by (auto simp: fresh_def)
        have "runs (?h k ?r) (later (later r 1 es) 0 fs) (Some x) (length (started gs)) gs" using x(1) go by simp
        from runs_two[OF k(1), of "await_group S" _ fs ?h, OF k(3) this] show ?thesis
          using k(2,4) x(2) go by (intro exI[of _ x] exI[of _ "es @ fs @ gs"]) (auto simp add: run_nodes_group[OF op(1)] stops_def Command simp del: run_nodes.simps)
      qed
    qed
  qed (use 3(2) in \<open>auto simp: runnable_def\<close>)
qed (simp add: runnable_simps)

section \<open>Writing a pipeline and parsing it\<close>

text \<open>The tokens a pipeline is written with; a pipe needs no redirection of its own.\<close>

definition redirections :: "command \<Rightarrow> string list" where
  "redirections c =
     (case stdin c of Some f \<Rightarrow> [''<'', f] | None \<Rightarrow> []) @
     (case stderr c of Some (ToFile f) \<Rightarrow> [''2>'', f] | Some ToStdout \<Rightarrow> [''2>&1''] | _ \<Rightarrow> []) @
     (case stdout c of Some (ToFile f) \<Rightarrow> [''>'', f] | _ \<Rightarrow> [])"

definition env_tokens :: "command \<Rightarrow> string list" where
  "env_tokens c = (case env_vars c of Some es \<Rightarrow> map (\<lambda>(k, v). k @ ''='' @ v) es | None \<Rightarrow> [])"

definition node_tokens :: "node \<Rightarrow> string list" where
  "node_tokens n = (case n of Command c \<Rightarrow> env_tokens c @ argv c @ redirections c
     | Chdir d \<Rightarrow> (case d of Some d \<Rightarrow> [''cd'', d] | None \<Rightarrow> [''cd'']) | Pipe \<Rightarrow> [''|''] | And \<Rightarrow> [''&&''] | Or \<Rightarrow> [''||''])"

definition env_entry :: "string \<times> string \<Rightarrow> bool" where
  "env_entry e = (fst e \<noteq> [] \<and> list_all name_char (fst e) \<and> snd e \<noteq> [] \<and> list_all (\<lambda>c. \<not> is_ws c) (snd e))"

definition operators :: "string set" where
  "operators = {''>'', ''2>'', ''2>&1'', ''<'', ''|'', ''&&'', ''||''}"

definition plain_command :: "command \<Rightarrow> bool" where
  "plain_command c = ((case env_vars c of Some es \<Rightarrow> es \<noteq> [] \<and> distinct (map fst es) \<and> list_all env_entry es | None \<Rightarrow> True) \<and>
     (case argv c of [] \<Rightarrow> False | x # xs \<Rightarrow> x \<noteq> ''cd'' \<and> env_var_match x = None \<and> list_all (\<lambda>y. y \<notin> operators) xs) \<and>
     stderr c \<noteq> Some ToPipe)"

definition plain :: "node \<Rightarrow> bool" where
  "plain n = (case n of Command c \<Rightarrow> plain_command c | Chdir d \<Rightarrow> d \<noteq> Some ''&&'' | _ \<Rightarrow> True)"

lemma env_var_match_entry: "env_entry (k, v) \<Longrightarrow> env_var_match (k @ CHR ''='' # v) = Some (k, v)"
proof -
  assume e: "env_entry (k, v)"
  have "\<not> name_char CHR ''=''" by (simp add: name_char_def)
  then have "takeWhile name_char (k @ CHR ''='' # v) = k" "dropWhile name_char (k @ CHR ''='' # v) = CHR ''='' # v"
    using e by (auto simp: env_entry_def list_all_iff takeWhile_append dropWhile_append)
  moreover have "last v \<noteq> nl" using e last_in_set[of v] by (auto simp: env_entry_def list_all_iff is_ws_def)
  ultimately show ?thesis using e by (simp add: env_var_match_def env_entry_def)
qed

lemma update_new: "k \<notin> fst ` set xs \<Longrightarrow> AList.update k v xs = xs @ [(k, v)]"
  by (induction xs) auto

lemma parse_env:
  "list_all env_entry es \<Longrightarrow> distinct (map fst (p_env p @ es)) \<Longrightarrow> p_state p = Begin \<Longrightarrow>
   rfold parse_token p (map (\<lambda>(k, v). k @ CHR ''='' # v) es) = Inr (p\<lparr>p_env := p_env p @ es\<rparr>)"
proof (induction es arbitrary: p)
  case (Cons e es)
  obtain k v where e: "e = (k, v)" by (cases e)
  have "parse_token p (k @ CHR ''='' # v) = Inr (p\<lparr>p_env := p_env p @ [(k, v)]\<rparr>)"
    using Cons.prems e by (auto simp: parse_token_def begin_token_def env_var_match_entry update_new image_iff)
  then show ?case using Cons.IH[of "p\<lparr>p_env := p_env p @ [(k, v)]\<rparr>"] Cons.prems e by simp
qed simp

lemma parse_args:
  "list_all (\<lambda>y. y \<notin> operators) xs \<Longrightarrow> p_state p = InCommand \<Longrightarrow> current_command p = Some (Command c) \<Longrightarrow>
   rfold parse_token p xs = Inr (p\<lparr>current_command := Some (Command (c\<lparr>argv := argv c @ xs\<rparr>))\<rparr>)"
proof (induction xs arbitrary: p c)
  case (Cons x xs)
  have "parse_token p x = Inr (p\<lparr>current_command := Some (Command (c\<lparr>argv := argv c @ [x]\<rparr>))\<rparr>)"
    using Cons.prems by (simp add: parse_token_def command_token_def with_command_def operators_def res_simps)
  then show ?case using Cons.IH[of "p\<lparr>current_command := Some (Command (c\<lparr>argv := argv c @ [x]\<rparr>))\<rparr>" "c\<lparr>argv := argv c @ [x]\<rparr>"] Cons.prems by simp
qed simp

lemma parse_redirections:
  assumes "p_state p = InCommand" "current_command p = Some (Command (c\<lparr>stdin := None, stdout := None, stderr := None\<rparr>))"
    and "stdout c \<noteq> Some ToStdout" "stderr c \<noteq> Some ToPipe"
  shows "rfold parse_token p (redirections c) =
    Inr (p\<lparr>current_command := Some (Command (c\<lparr>stdout := (if stdout c = Some ToPipe then None else stdout c)\<rparr>))\<rparr>)"
proof -
  obtain a i oo e v where c: "c = \<lparr>argv = a, stdin = i, stdout = oo, stderr = e, env_vars = v\<rparr>" by (cases c)
  show ?thesis using assms unfolding c redirections_def
    by (cases i; cases oo; cases e) (auto simp: parse_token_def command_token_def with_command_def res_simps assert_def split: target.splits)
qed

lemma parse_command:
  assumes "plain_command c" "stdout c \<noteq> Some ToStdout" "p_state p = Begin" "current_command p = None" "p_env p = []"
  shows "rfold parse_token p (node_tokens (Command c)) =
    Inr (p\<lparr>p_state := InCommand, current_command := Some (Command (c\<lparr>stdout := (if stdout c = Some ToPipe then None else stdout c)\<rparr>))\<rparr>)"
proof -
  define es where "es = (case env_vars c of Some es \<Rightarrow> es | None \<Rightarrow> [])"
  obtain x xs where x: "argv c = x # xs" "x \<noteq> ''cd''" "env_var_match x = None" "list_all (\<lambda>y. y \<notin> operators) xs"
    using assms(1) by (auto simp: plain_command_def split: list.splits)
  have es: "env_tokens c = map (\<lambda>(k, v). k @ CHR ''='' # v) es" "list_all env_entry es" "distinct (map fst es)"
      "(if es \<noteq> [] then Some es else None) = env_vars c"
    using assms(1) by (auto simp: es_def env_tokens_def plain_command_def split: option.splits)
  let ?p = "p\<lparr>current_command := Some (Command ((new_command x)\<lparr>env_vars := env_vars c\<rparr>)), p_env := [], p_state := InCommand\<rparr>"
  have 1: "rfold parse_token p (env_tokens c) = Inr (p\<lparr>p_env := es\<rparr>)"
    using parse_env[of es p] es assms by simp
  have 2: "parse_token (p\<lparr>p_env := es\<rparr>) x = Inr ?p"
    using x assms es(4)[symmetric] by (auto simp: parse_token_def begin_token_def)
  have 3: "rfold parse_token ?p xs = Inr (?p\<lparr>current_command := Some (Command (c\<lparr>stdin := None, stdout := None, stderr := None\<rparr>))\<rparr>)"
    using parse_args[OF x(4), of ?p "(new_command x)\<lparr>env_vars := env_vars c\<rparr>"] x(1) by (cases c) (simp add: new_command_def)
  have 4: "stderr c \<noteq> Some ToPipe" using assms(1) by (simp add: plain_command_def)
  have "rfold parse_token p (env_tokens c @ (x # xs) @ redirections c) =
      rfold parse_token (?p\<lparr>current_command := Some (Command (c\<lparr>stdin := None, stdout := None, stderr := None\<rparr>))\<rparr>) (redirections c)"
    by (simp add: rfold_append 1 2 3)
  also have "\<dots> = Inr (?p\<lparr>current_command := Some (Command (c\<lparr>stdout := (if stdout c = Some ToPipe then None else stdout c)\<rparr>))\<rparr>)"
    using parse_redirections[of "?p\<lparr>current_command := Some (Command (c\<lparr>stdin := None, stdout := None, stderr := None\<rparr>))\<rparr>" c] assms(2) 4 by simp
  finally show ?thesis using x(1) assms(3-5) by (simp add: node_tokens_def)
qed

text \<open>Between two nodes the parser has collected a pipeline and waits for a command.\<close>

definition waiting :: "node list \<Rightarrow> parser" where
  "waiting ns = \<lparr>p_state = Begin, current_command = None, pipeline = ns, p_env = []\<rparr>"

lemma parse_chdir:
  "d \<noteq> Some ''&&'' \<Longrightarrow> rfold parse_token (waiting ns) (node_tokens (Chdir d)) =
    Inr ((waiting ns)\<lparr>p_state := InChdir, current_command := Some (Chdir d)\<rparr>)"
  by (cases d) (auto simp: waiting_def node_tokens_def parse_token_def begin_token_def chdir_token_def env_var_match_def name_char_def)

lemma parse_node_op:
  assumes "shaped (n # op # rest)" "plain n"
  shows "rfold parse_token (waiting ns) (node_tokens n @ node_tokens op) = Inr (waiting (ns @ [n, op]))"
proof (cases n)
  case (Command c)
  have "rfold parse_token (waiting ns) (node_tokens n) = Inr ((waiting ns)\<lparr>p_state := InCommand,
      current_command := Some (Command (c\<lparr>stdout := (if stdout c = Some ToPipe then None else stdout c)\<rparr>))\<rparr>)"
    using parse_command[of c "waiting ns"] assms by (simp add: Command plain_def waiting_def)
  then show ?thesis using assms Command by (cases c) (auto simp: rfold_append node_tokens_def parse_token_def command_token_def
      with_command_def finish_def commit_command_def waiting_def res_simps assert_def)
next
  case (Chdir d)
  then show ?thesis using assms parse_chdir[of d ns]
    by (auto simp: rfold_append plain_def) (simp add: node_tokens_def parse_token_def chdir_token_def finish_def commit_command_def waiting_def res_simps)
qed (use assms in auto)

lemma parse_node_last:
  assumes "shaped [n]" "plain n"
  shows "rbind (rfold parse_token (waiting ns) (node_tokens n)) (\<lambda>p. rbind (commit_command p) (\<lambda>p. Inr (pipeline p))) = Inr (ns @ [n])"
proof (cases n)
  case (Command c)
  then show ?thesis using parse_command[of c "waiting ns"] assms
    by (simp add: plain_def waiting_def commit_command_def res_simps)
next
  case (Chdir d)
  then show ?thesis using assms parse_chdir[of d ns] by (simp add: plain_def commit_command_def res_simps) (simp add: waiting_def)
qed (use assms in auto)

lemma parse_nodes:
  "shaped nodes \<Longrightarrow> list_all plain nodes \<Longrightarrow>
   rbind (rfold parse_token (waiting ns) (concat (map node_tokens nodes))) (\<lambda>p. rbind (commit_command p) (\<lambda>p. Inr (pipeline p))) = Inr (ns @ nodes)"
proof (induction nodes arbitrary: ns rule: shaped.induct)
  case (2 n)
  then show ?case using parse_node_last[of n ns] by simp
next
  case (3 n op rest)
  have "rfold parse_token (waiting ns) ((node_tokens n @ node_tokens op) @ concat (map node_tokens rest)) =
      rfold parse_token (waiting (ns @ [n, op])) (concat (map node_tokens rest))"
    using parse_node_op[OF 3(2), of ns] 3(3) by (simp add: rfold_append del: append_assoc)
  then show ?case using 3(1)[of "ns @ [n, op]"] 3(2,3) by (simp del: append_assoc add: append_assoc[symmetric])
qed simp

text \<open>Words without white space, quotes and backslashes, separated by blanks, are the words of the line.\<close>

definition bare :: "string \<Rightarrow> bool" where
  "bare w = (w \<noteq> [] \<and> list_all (\<lambda>c. \<not> lex_space c \<and> \<not> quote_mark c \<and> c \<noteq> backslash) w)"

lemma shlex_bare: "list_all (\<lambda>c. \<not> lex_space c \<and> \<not> quote_mark c \<and> c \<noteq> backslash) w \<Longrightarrow> shlex Word t (w @ s) = shlex Word (t @ w) s"
  by (induction w arbitrary: t) auto

lemma shlex_join: "list_all bare ws \<Longrightarrow> shlex Between [] (join [sp] ws) = Inr ws"
proof (induction ws)
  case (Cons w ws)
  obtain c cs where w: "w = c # cs" using Cons.prems by (cases w) (auto simp: bare_def)
  have cs: "list_all (\<lambda>c. \<not> lex_space c \<and> \<not> quote_mark c \<and> c \<noteq> backslash) cs" and c: "\<not> lex_space c" "\<not> quote_mark c" "c \<noteq> backslash"
    using Cons.prems w by (auto simp: bare_def)
  have "shlex Between [] (w @ s) = shlex Word w s" for s using shlex_bare[OF cs, of "[c]" s] c w by simp
  from this[of "[]"] this[of "sp # join [sp] ws"] show ?case using Cons
    by (cases "ws = []") (simp_all add: join_Cons lex_space_def)
qed simp

lemma line_parsed:
  assumes "shaped nodes" "list_all plain nodes" "list_all bare (concat (map node_tokens nodes))"
  shows "parse (join [sp] (concat (map node_tokens nodes))) = Inr nodes"
  using parse_nodes[OF assms(1,2), of "[]"] shlex_join[OF assms(3)]
  by (simp add: parse_def shlex_split_def parse_tokens_def waiting_def new_parser_def)

section \<open>Runs that report\<close>

text \<open>The commands before the first \<open>&&\<close> or \<open>||\<close>.\<close>

definition first_group :: "node list \<Rightarrow> string list list" where
  "first_group nodes = List.map_filter (\<lambda>n. case n of Command c \<Rightarrow> Some (argv c) | _ \<Rightarrow> None) (takeWhile (\<lambda>n. n \<noteq> And \<and> n \<noteq> Or) nodes)"

definition fails :: "'a run \<Rightarrow> runner \<Rightarrow> py_error \<Rightarrow> run_event list \<Rightarrow> bool" where
  "fails m r e es = (\<exists>n. m r = (Inl e, later r n es))"

lemma fails_bind: "runs m r x n es \<Longrightarrow> fails (f x) (later r n es) e fs \<Longrightarrow> fails (abind m f) r e (es @ fs)"
  by (auto simp: runs_def fails_def abind_def)

lemma verbose_nodes:
  assumes "permissive S"
  shows "shaped nodes \<Longrightarrow> \<forall>d. Chdir d \<notin> set nodes \<Longrightarrow> And \<in> set nodes \<or> Or \<in> set nodes \<Longrightarrow> in_pipe l \<longrightarrow> piped l \<noteq> [] \<Longrightarrow>
    \<exists>es. fails (run_nodes S True l nodes) r UnboundLocalError es \<and> started es = first_group nodes"
proof (induction nodes arbitrary: l r rule: shaped.induct)
  case (3 n op rest)
  then obtain c where c: "n = Command c" "free c \<or> stdout c = Some ToPipe" "op \<in> {Pipe, And, Or}" by (cases n) (auto simp: free_def)
  obtain k es where k: "runs (start_command S True c l) r k 1 es" "piped k = piped l @ [spawned r]" "started es = [argv c]"
    using runs_start[OF assms c(2) 3(5), of True r] by blast
  show ?case
  proof (cases "op = Pipe")
    case True
    obtain fs where fs: "fails (run_nodes S True (k\<lparr>in_pipe := True, display := display k @ [''|'']\<rparr>) rest) (later r 1 es) UnboundLocalError fs"
        "started fs = first_group rest"
      using 3(1)[of "k\<lparr>in_pipe := True, display := display k @ [''|'']\<rparr>" "later r 1 es"] 3(2-5) k(2) c True by auto
    have "fails (run_nodes S True l (n # op # rest)) r UnboundLocalError (es @ fs)"
      using fails_bind[OF k(1), of "\<lambda>l. run_nodes S True (l\<lparr>in_pipe := True, display := display l @ [''|'']\<rparr>) rest", OF fs(1)] c True by simp
    then show ?thesis using fs(2) k(3) c True by (intro exI[of _ "es @ fs"]) (simp add: first_group_def List.map_filter_def)
  next
    case False
    obtain fs where fs: "runs (await_group S k) (later r 1 es) (exit_code S (spawned r)) 0 fs" "started fs = []"
      using runs_group[OF k(2)] by blast
    have stop: "fails (also_do (group_report True) m) s UnboundLocalError []" for m :: "int option run" and s
      using later_simps(4)[of s] by (auto simp: fails_def group_report_def also_do_def abind_def raise_def intro!: exI[of _ 0])
    have "op = And \<or> op = Or" using c(3) False by blast
    then have "fails (run_nodes S True l (n # op # rest)) r UnboundLocalError (es @ fs @ [])"
      unfolding c(1) by (elim disjE; simp only: run_nodes.simps node.case; intro fails_bind[OF k(1)] fails_bind[OF fs(1)] stop)
    then show ?thesis using fs(2) k(3) c False by (intro exI[of _ "es @ fs"]) (auto simp: first_group_def List.map_filter_def)
  qed
next
  case (2 n)
  then show ?case by (cases n) auto
qed simp

section \<open>Properties\<close>

text \<open>C19. The line written for a pipeline is parsed to that pipeline: environment, arguments, redirections, pipes, \<open>&&\<close>, \<open>||\<close> and \<open>cd\<close>.\<close>

theorem parse_written:
  assumes "shaped nodes" "list_all plain nodes" "list_all bare (concat (map node_tokens nodes))"
  shows "parse (join [sp] (concat (map node_tokens nodes))) = Inr nodes"
  using assms by (rule line_parsed)

definition demo_nodes :: "node list" where
  "demo_nodes = [Chdir (Some ''build''), And,
     Command \<lparr>argv = [''./foo.py'', ''-x''], stdin = Some ''xxx'', stdout = Some ToPipe, stderr = Some ToStdout, env_vars = Some [(''A'', ''1'')]\<rparr>, Pipe,
     Command (new_command ''cat''), And, Command ((new_command ''ls'')\<lparr>stdout := Some (ToFile ''list'')\<rparr>)]"

theorem parse_written_witness:
  "parse ''cd build && A=1 ./foo.py -x < xxx 2>&1 | cat && ls > list'' = Inr demo_nodes"
proof -
  have "join [sp] (concat (map node_tokens demo_nodes)) = ''cd build && A=1 ./foo.py -x < xxx 2>&1 | cat && ls > list''"
    by (simp add: demo_nodes_def node_tokens_def env_tokens_def redirections_def new_command_def)
  moreover have "parse (join [sp] (concat (map node_tokens demo_nodes))) = Inr demo_nodes"
    by (rule parse_written) (simp_all add: demo_nodes_def node_tokens_def env_tokens_def redirections_def new_command_def plain_def
        plain_command_def env_entry_def operators_def env_var_match_def name_char_def bare_def lex_space_def quote_mark_def backslash_def is_ws_def)
  ultimately show ?thesis by simp
qed

text \<open>C18. A pipeline as the parser gives it, whose files open and whose processes start, starts the commands
  that the exit codes ask for, in their order, and gives the last code: a pipe the code of its last command.\<close>

theorem run_outcome:
  assumes "permissive S" "parse_tokens tokens = Inr nodes" "Chdir None \<notin> set nodes" "last nodes = Command c"
  shows "\<exists>x w. run_pipeline S False nodes \<lparr>spawned = 0, happened = []\<rparr> = (Inr (Some x), w) \<and>
    outcome (exit_code S) 0 nodes = (Some x, started (happened w)) \<and> spawned w = length (started (happened w))"
proof -
  have "runnable nodes" using assms parse_shaped by (auto simp: runnable_def)
  from runs_nodes[OF assms(1) this, of new_locals "\<lparr>spawned = 0, happened = []\<rparr>"] show ?thesis
    by (auto simp: new_locals_def runs_def run_pipeline_def later_def)
qed

definition demo_system :: system where
  "demo_system = \<lparr>cannot_read = (\<lambda>_. None), cannot_write = (\<lambda>_. None), cannot_start = (\<lambda>_. None),
     exit_code = (\<lambda>n. if n = 0 then 1 else 0), environ = (\<lambda>_. None)\<rparr>"

theorem run_outcome_witness:
  "\<exists>nodes w. parse_tokens [''a'', ''||'', ''b'', ''|'', ''c'', ''&&'', ''d''] = Inr nodes \<and>
     run_pipeline demo_system False nodes \<lparr>spawned = 0, happened = []\<rparr> = (Inr (Some 0), w) \<and>
     started (happened w) = [[''a''], [''b''], [''c''], [''d'']]"
proof -
  let ?nodes = "[Command (new_command ''a''), Or, Command ((new_command ''b'')\<lparr>stdout := Some ToPipe\<rparr>), Pipe,
    Command (new_command ''c''), And, Command (new_command ''d'')]"
  have p: "parse_tokens [''a'', ''||'', ''b'', ''|'', ''c'', ''&&'', ''d''] = Inr ?nodes"
    by (simp add: parse_tokens_def new_parser_def parse_token_def begin_token_def env_var_match_def name_char_def command_token_def
        with_command_def finish_def commit_command_def new_command_def assert_def)
  have "outcome (exit_code demo_system) 0 ?nodes = (Some 0, [[''a''], [''b''], [''c''], [''d'']])"
    by (simp add: demo_system_def new_command_def)
  then show ?thesis using run_outcome[of demo_system, OF _ p] p by (auto simp: permissive_def demo_system_def)
qed

text \<open>With the report asked for, a pipeline with \<open>&&\<close> or \<open>||\<close> fails after its first group, by the unassigned \<open>retval\<close>.\<close>

theorem verbose_run_fails:
  assumes "permissive S" "parse_tokens tokens = Inr nodes" "\<forall>d. Chdir d \<notin> set nodes" "And \<in> set nodes \<or> Or \<in> set nodes"
  shows "\<exists>w. run_pipeline S True nodes \<lparr>spawned = 0, happened = []\<rparr> = (Inl UnboundLocalError, w) \<and> started (happened w) = first_group nodes"
  using verbose_nodes[OF assms(1) parse_shaped[OF assms(2)] assms(3,4), of new_locals "\<lparr>spawned = 0, happened = []\<rparr>"]
  by (auto simp: new_locals_def fails_def run_pipeline_def later_def)

theorem verbose_run_fails_witness:
  "\<exists>nodes w. parse_tokens [''a'', ''&&'', ''b''] = Inr nodes \<and>
     run_pipeline demo_system True nodes \<lparr>spawned = 0, happened = []\<rparr> = (Inl UnboundLocalError, w) \<and> started (happened w) = [[''a'']]"
proof -
  let ?nodes = "[Command (new_command ''a''), And, Command (new_command ''b'')]"
  have p: "parse_tokens [''a'', ''&&'', ''b''] = Inr ?nodes"
    by (simp add: parse_tokens_def new_parser_def parse_token_def begin_token_def env_var_match_def name_char_def command_token_def
        finish_def commit_command_def new_command_def)
  show ?thesis using verbose_run_fails[of demo_system, OF _ p] p
    by (auto simp: permissive_def demo_system_def first_group_def List.map_filter_def new_command_def)
qed

text \<open>The shortened command drops every \<open>||\<close>: two different pipelines have the same text.\<close>

theorem abbreviation_drops_or:
  "get_abbreviated_command (pre @ [Or] @ post) = get_abbreviated_command (pre @ post)"
  by (simp add: get_abbreviated_command_def)

end
