(* ===== verification/LinkUtil.thy ===== *)
theory LinkUtil
  imports Topology TrafficGen "HOL-Library.AList"
begin

text \<open>
  \<open>analysis/plot_link_utilization.py\<close>: the bandwidths of the links, read from the topology file, the ends of
  the windows the routing modes are analysed in, and the utilization of a link in an interval.  The tables
  themselves are read, resampled and grouped by pandas and are not modelled: the last completion time and the
  last time stamp of a mode are parameters.  The file is a text of bytes, decoded characters occur in comments only.
\<close>

section \<open>Bandwidths\<close>

definition lower :: "string \<Rightarrow> string" where
  "lower s = map (\<lambda>c. let n = of_char c :: nat in if 65 \<le> n \<and> n \<le> 90 then char_of (n + 32) else c) s"

text \<open>The first match of \<open>[0-9\.]+\<close>.\<close>

definition number_char :: "char \<Rightarrow> bool" where
  "number_char c = (is_digit c \<or> c = CHR ''.'')"

definition first_number :: "string \<Rightarrow> string res" where
  "first_number s = (let r = dropWhile (\<lambda>c. \<not> number_char c) s in if r = [] then Inl IndexError else Inr (takeWhile number_char r))"

datatype bw_arg = BwNumber flt | BwText string

definition parse_bandwidth :: "bw_arg \<Rightarrow> flt res" where
  "parse_bandwidth b = (case b of BwNumber x \<Rightarrow> Inr x
     | BwText s \<Rightarrow> let s = lower s in
         rbind (first_number s) (\<lambda>n. rbind (py_float n) (\<lambda>val. Inr (
           if contains ''gbps'' s then fmul (fmul (fmul val 1024) 1024) 1024
           else if contains ''mbps'' s then fmul (fmul val 1024) 1024
           else if contains ''kbps'' s then fmul val 1024
           else val))))"

type_synonym bandwidths = "((int \<times> int) \<times> flt) list"

definition link_pair :: "int \<Rightarrow> int \<Rightarrow> int \<times> int" where
  "link_pair a b = (if b < a then (b, a) else (a, b))"

definition read_link :: "string list \<Rightarrow> ((int \<times> int) \<times> flt) res" where
  "read_link parts =
     rbind (py_get parts 0) (\<lambda>a. rbind (py_int a) (\<lambda>src.
     rbind (py_get parts 1) (\<lambda>b. rbind (py_int b) (\<lambda>dst.
     rbind (py_get parts 2) (\<lambda>bw_str. rbind (parse_bandwidth (BwText bw_str)) (\<lambda>bw.
       Inr (link_pair src dst, bw)))))))"

definition bandwidth_line :: "bandwidths \<Rightarrow> string \<Rightarrow> bandwidths res" where
  "bandwidth_line d line =
     (let l = strip line in
      if l = [] \<or> startswith ''#'' l then Inr d
      else if length (split_ws l) < 3 then Inr d
      else (case read_link (split_ws l) of Inr (k, v) \<Rightarrow> Inr (AList.update k v d)
        | Inl e \<Rightarrow> if e = ValueError \<or> e = IndexError then Inr d else Inl e))"

definition load_bandwidths :: "files \<Rightarrow> string \<Rightarrow> bandwidths res" where
  "load_bandwidths fs topology_file = rbind (open_text fs topology_file) (\<lambda>text. rfold bandwidth_line [] (readlines text))"

section \<open>Windows\<close>

definition routing_modes :: "string list" where
  "routing_modes = [''ECMP'', ''UCMP'', ''Ours'']"

text \<open>The ends of the modes that have one, and the largest of them; a mode whose end is 0 counts here.\<close>

definition latest :: "(string \<Rightarrow> int option) \<Rightarrow> int option" where
  "latest m = (case List.map_filter m routing_modes of [] \<Rightarrow> None | x # xs \<Rightarrow> Some (fold max xs x))"

definition global_max_cutoff :: "(string \<Rightarrow> int option) \<Rightarrow> (string \<Rightarrow> int option) \<Rightarrow> int option" where
  "global_max_cutoff fct lu = (case latest fct of None \<Rightarrow> latest lu | Some c \<Rightarrow> Some c)"

text \<open>\<open>a or b\<close>: neither \<open>None\<close> nor 0 counts.\<close>

definition py_or :: "int option \<Rightarrow> int option \<Rightarrow> int option" where
  "py_or a b = (case a of None \<Rightarrow> b | Some n \<Rightarrow> if n = 0 then b else Some n)"

definition per_mode_cutoff :: "(string \<Rightarrow> int option) \<Rightarrow> (string \<Rightarrow> int option) \<Rightarrow> string \<Rightarrow> int option" where
  "per_mode_cutoff fct lu mode = py_or (py_or (fct mode) (lu mode)) (global_max_cutoff fct lu)"

section \<open>Utilization\<close>

text \<open>Of one interval of a link: the bytes of both directions, over the time, which is positive between two
  time stamps, and the bandwidth of the file.\<close>

definition utilization :: "flt \<Rightarrow> flt \<Rightarrow> flt \<Rightarrow> flt" where
  "utilization bytes_diff time_diff_ns bandwidth_bps =
     (if 0 < bandwidth_bps then fquo (fmul bytes_diff 8) (fmul (fmul time_diff_ns (rn (1 / 10 ^ 9))) bandwidth_bps) else 0)"

section \<open>Reading a topology file\<close>

lemma py_int_error: "py_int s = Inl e \<Longrightarrow> e = ValueError"
  by (auto simp: py_int_def Let_def split: prod.splits option.splits)

lemma py_float_error: "py_float s = Inl e \<Longrightarrow> e = ValueError"
  by (auto simp: py_float_def Let_def split: prod.splits option.splits list.splits)

lemma parse_bandwidth_error: "parse_bandwidth b = Inl e \<Longrightarrow> e = ValueError \<or> e = IndexError"
  by (auto simp: parse_bandwidth_def first_number_def Let_def res_simps dest: py_float_error split: bw_arg.splits if_splits)

lemma py_get_error: "py_get xs i = Inl e \<Longrightarrow> e = IndexError"
  by (auto simp: py_get_def Let_def split: if_splits)

lemma read_link_error: "read_link parts = Inl e \<Longrightarrow> e = ValueError \<or> e = IndexError"
  by (auto simp: read_link_def rbind_eq_Inl dest: py_int_error py_get_error parse_bandwidth_error)

lemma bandwidth_line_total: "\<exists>d'. bandwidth_line d line = Inr d'"
  using read_link_error by (fastforce simp: bandwidth_line_def Let_def split: sum.split prod.split)

lemma bandwidth_lines_total: "\<exists>d'. rfold bandwidth_line d ls = Inr d'"
proof (induction ls arbitrary: d)
  case (Cons l ls)
  obtain d' where "bandwidth_line d l = Inr d'" using bandwidth_line_total by blast
  then show ?case using Cons by simp
qed simp

lemma readlines_append_nl: "readlines (s @ nl # t) = readlines (s @ [nl]) @ readlines t"
proof (induction s)
  case (Cons x s)
  have "readlines (s @ [nl]) \<noteq> []"
    by (cases s) (auto split: list.splits)
  then show ?case using Cons by (auto split: list.splits)
qed simp

section \<open>The bandwidths of a written topology\<close>

text \<open>A word of a line, and an entry whose rate can be read.\<close>

definition word :: "string \<Rightarrow> bool" where
  "word s = (s \<noteq> [] \<and> list_all (\<lambda>c. \<not> is_ws c) s)"

definition comment :: "string \<Rightarrow> bool" where
  "comment s = (s = [] \<or> startswith ''#'' s)"

fun readable :: "entry \<Rightarrow> bool" where
  "readable (Note s) = (comment s \<and> nl \<notin> set s)"
| "readable (Link a b r l) = (word r \<and> word l \<and> (\<exists>bw. parse_bandwidth (BwText r) = Inr bw))"

fun link_bandwidth :: "entry \<Rightarrow> ((int \<times> int) \<times> flt) option" where
  "link_bandwidth (Note s) = None"
| "link_bandwidth (Link a b r l) = (case parse_bandwidth (BwText r) of Inr bw \<Rightarrow> Some (link_pair (int a) (int b), bw) | Inl e \<Rightarrow> None)"

lemma str_nat_word: "word (str_nat n)"
  using str_int_no_ws[of _ "int n"] by (auto simp: word_def str_int_nat list_all_iff)

lemma comment_line: "comment s \<Longrightarrow> bandwidth_line d (s @ [nl]) = Inr d"
proof -
  assume c: "comment s"
  show ?thesis
  proof (cases s)
    case Nil
    then show ?thesis by (simp add: bandwidth_line_def strip_def rstrip_def rstrip_by_def lstrip_def)
  next
    case (Cons x xs)
    then have x: "x = CHR ''#''" using c by (simp add: comment_def)
    have "lstrip (s @ [nl]) = s @ [nl]" by (simp add: lstrip_def Cons x is_ws_def)
    moreover have "\<exists>t. rstrip (CHR ''#'' # t) = CHR ''#'' # rstrip t \<or> rstrip (CHR ''#'' # t) = [CHR ''#'']" for t
      by (simp add: rstrip_def rstrip_by_def dropWhile_append is_ws_def)
    ultimately show ?thesis
      by (simp add: bandwidth_line_def strip_def Cons x rstrip_def rstrip_by_def dropWhile_append is_ws_def Let_def)
  qed
qed

lemma link_line:
  assumes "readable (Link a b r l)"
  shows "bandwidth_line d (render (Link a b r l) @ [nl]) = Inr (AList.update (link_pair (int a) (int b)) (the (map_option snd (link_bandwidth (Link a b r l)))) d)"
proof -
  let ?ws = "[str_nat a, str_nat b, r, l, ''0'']" and ?s = "render (Link a b r l)"
  have w: "word x" if "x \<in> set ?ws" for x using that assms str_nat_word by (auto simp: word_def is_ws_def)
  have s: "?s = join [sp] ?ws" by simp
  have "split_ws ?s = ?ws" unfolding s by (rule split_ws_join) (use w in \<open>auto simp: word_def list_all_iff\<close>)
  moreover have "strip (?s @ [nl]) = ?s"
  proof (rule strip_nl)
    have "\<not> is_ws (hd (str_nat a))" "str_nat a \<noteq> []" using str_nat_word[of a] by (auto simp: word_def list_all_iff)
    then show "\<not> is_ws (hd ?s)" by simp
    show "\<not> is_ws (last ?s)" by (simp add: is_ws_def)
  qed simp
  moreover have "?s \<noteq> [] \<and> \<not> startswith ''#'' ?s"
  proof -
    have "is_digit (hd (str_nat a))" "str_nat a \<noteq> []" using str_nat_hd by simp_all
    then show ?thesis by (cases "str_nat a") (auto simp: is_digit_def)
  qed
  moreover have "py_int (str_nat n) = Inr (int n)" for n using py_int_str_int[of "int n"] by (simp add: str_int_nat)
  moreover obtain bw where "parse_bandwidth (BwText r) = Inr bw" using assms by auto
  ultimately show ?thesis by (simp add: bandwidth_line_def read_link_def py_get_def)
qed

lemma entry_line:
  "readable e \<Longrightarrow> bandwidth_line d (render e @ [nl]) = Inr (case link_bandwidth e of None \<Rightarrow> d | Some (k, v) \<Rightarrow> AList.update k v d)"
proof (cases e)
  case (Link a b r l)
  assume "readable e"
  then show ?thesis using link_line[of a b r l d] Link by (auto simp del: render.simps)
qed (simp add: comment_line)

lemma entry_lines:
  "list_all readable es \<Longrightarrow> rfold bandwidth_line d (map (\<lambda>e. render e @ [nl]) es) =
    Inr (fold (\<lambda>(k, v). AList.update k v) (List.map_filter link_bandwidth es) d)"
  by (induction es arbitrary: d) (auto simp: entry_line List.map_filter_def split: option.split)

lemma fold_update_other: "k \<notin> fst ` set kvs \<Longrightarrow> map_of (fold (\<lambda>(k, v). AList.update k v) kvs d) k = map_of d k"
  by (induction kvs arbitrary: d) (auto simp: update_conv')

lemma fold_update_distinct:
  "distinct (map fst kvs) \<Longrightarrow> (k, v) \<in> set kvs \<Longrightarrow> map_of (fold (\<lambda>(k, v). AList.update k v) kvs d) k = Some v"
  by (induction kvs arbitrary: d) (auto simp: fold_update_other update_conv' image_iff)

text \<open>Whatever stands before them, the last entries of a text give the bandwidths of their links.\<close>

lemma bandwidths_of_text:
  assumes "list_all readable es" "distinct (map fst (List.map_filter link_bandwidth es))" "comment last_line"
    and "fs f = Some (before @ nl # concat (map (\<lambda>e. render e @ [nl]) es) @ last_line)" "nl \<notin> set last_line"
  shows "\<exists>d. load_bandwidths fs f = Inr d \<and> (\<forall>k v. (k, v) \<in> set (List.map_filter link_bandwidth es) \<longrightarrow> map_of d k = Some v)"
proof -
  let ?body = "concat (map (\<lambda>e. render e @ [nl]) es)"
  have no: "nl \<notin> set (render e)" if "readable e" for e
    using that str_nat_word by (cases e) (auto simp: word_def list_all_iff is_ws_def str_nat_no is_digit_def)
  have "readlines (concat ls @ t) = ls @ readlines t" if "\<forall>l \<in> set ls. is_line l" for ls t
    using that by (induction ls) (auto simp: is_line_iff readlines_line)
  from this[of "map (\<lambda>e. render e @ [nl]) es" last_line] no assms(1)
  have lines: "readlines (before @ nl # ?body @ last_line) =
      readlines (before @ [nl]) @ map (\<lambda>e. render e @ [nl]) es @ readlines last_line"
    using readlines_append_nl[of before "?body @ last_line"] by (auto simp: is_line_iff list_all_iff)
  obtain d where d: "rfold bandwidth_line [] (readlines (before @ [nl])) = Inr d" using bandwidth_lines_total by blast
  have "rfold bandwidth_line d' (readlines last_line) = Inr d'" for d'
  proof -
    have "readlines last_line = (if last_line = [] then [] else [last_line])"
      using assms(5) by (induction last_line) auto
    moreover have "bandwidth_line d' last_line = Inr d'" if ne: "last_line \<noteq> []"
    proof -
      obtain t where t: "last_line = CHR ''#'' # t" using assms(3) ne by (cases last_line) (auto simp: comment_def)
      show ?thesis unfolding t by (simp add: bandwidth_line_def strip_def lstrip_def rstrip_def rstrip_by_def dropWhile_append is_ws_def Let_def)
    qed
    ultimately show ?thesis by simp
  qed
  then have "load_bandwidths fs f = Inr (fold (\<lambda>(k, v). AList.update k v) (List.map_filter link_bandwidth es) d)"
    using d assms(4) by (simp add: load_bandwidths_def open_text_def of_option_def lines rfold_append entry_lines[OF assms(1)])
  then show ?thesis using fold_update_distinct[OF assms(2)] by blast
qed

lemma join_entries: "join [nl] (map render es @ [t]) = concat (map (\<lambda>e. render e @ [nl]) es) @ t"
  by (induction es) (auto simp: join_Cons)

lemma link_keys:
  "list_all readable es \<Longrightarrow> map fst (List.map_filter link_bandwidth es) = map (\<lambda>(a, b). link_pair (int a) (int b)) (links es)"
proof (induction es)
  case (Cons e es)
  then show ?case by (cases e) (auto simp: List.map_filter_def)
qed (simp add: List.map_filter_def)

text \<open>The rates and latencies of the parameters are words, and the rates are bandwidths.\<close>

definition rates_ok :: "topo_params \<Rightarrow> bool" where
  "rates_ok p = (list_all word [leafspine_link_rate p, leafspine_link_latency p, dci_link_rate p, dci_link_latency p] \<and>
     list_all (\<lambda>r. case parse_bandwidth (BwText r) of Inr bw \<Rightarrow> True | Inl e \<Rightarrow> False) [leafspine_link_rate p, dci_link_rate p])"

lemma rates_readable:
  "rates_ok p \<Longrightarrow> readable (Link a b (leafspine_link_rate p) (leafspine_link_latency p))"
  "rates_ok p \<Longrightarrow> readable (Link a b (dci_link_rate p) (dci_link_latency p))"
  by (auto simp: rates_ok_def split: sum.splits)

lemma leafspine_readable: "rates_ok p \<Longrightarrow> list_all readable (leafspine_links p)"
  by (auto simp: list_all_iff leafspine_links_def leafspine_connections_def leafspine_dc_def leafspine_dci_mesh_def dci_mesh_def
      host_leaf_links_def leaf_spine_links_def spine_dci_links_def Let_def comment_def str_nat_no is_digit_def
      simp del: readable.simps(2) intro: rates_readable split: if_splits)

lemma leafspine_text:
  "\<exists>before. join [nl] (leafspine_content p) =
     before @ nl # concat (map (\<lambda>e. render e @ [nl]) (leafspine_links p @ [Note []])) @ end_note"
proof -
  obtain s c where sc: "leafspine_node_counts p = (s, c)" by (cases "leafspine_node_counts p")
  let ?A = "leafspine_header p @ leafspine_allocation p s @ [leafspine_counts_line p c (leafspine_link_counts p s)] @ [leafspine_switch_ids p s, []]"
  have "leafspine_content p = ?A @ (map render (leafspine_links p @ [Note []]) @ [end_note])"
    by (simp add: leafspine_content_def sc)
  moreover have "join [nl] (?A @ (map render es @ [end_note])) = join [nl] ?A @ nl # join [nl] (map render es @ [end_note])" for es
    by (subst join_append) auto
  ultimately show ?thesis unfolding join_entries by metis
qed

lemma readable_entry_bandwidth:
  "readable (Link a b r l) \<Longrightarrow> Link a b r l \<in> set es \<Longrightarrow>
    \<exists>bw. parse_bandwidth (BwText r) = Inr bw \<and> (link_pair (int a) (int b), bw) \<in> set (List.map_filter link_bandwidth es)"
  by (force simp: List.map_filter_def)

lemma written_bandwidths:
  assumes "proper p" "rates_ok p" "fs f = Some (join [nl] (leafspine_content p))"
  shows "\<exists>d. load_bandwidths fs f = Inr d \<and> (\<forall>a b r l. Link a b r l \<in> set (leafspine_links p) \<longrightarrow>
    (\<exists>bw. parse_bandwidth (BwText r) = Inr bw \<and> map_of d (int a, int b) = Some bw))"
proof -
  let ?es = "leafspine_links p @ [Note []]"
  have es: "list_all readable ?es" using leafspine_readable[OF assms(2)] by (simp add: comment_def)
  have ls: "links ?es = links (leafspine_links p)" by simp
  have pair: "link_pair (int a) (int b) = (int a, int b)" if "(a, b) \<in> set (links (leafspine_links p))" for a b
    using link_ends[OF assms(1) that] by (simp add: link_pair_def)
  have "map fst (List.map_filter link_bandwidth ?es) = map (\<lambda>(a, b). (int a, int b)) (links (leafspine_links p))"
    unfolding link_keys[OF es] ls using pair by (intro map_cong) auto
  then have dist: "distinct (map fst (List.map_filter link_bandwidth ?es))"
    using links_distinct[OF assms(1)] by (auto simp: distinct_map inj_on_def)
  obtain before where content: "fs f = Some (before @ nl # concat (map (\<lambda>e. render e @ [nl]) ?es) @ end_note)"
    using leafspine_text[of p] assms(3) by auto
  have "comment end_note" "nl \<notin> set end_note" by (simp_all add: comment_def end_note_def)
  from bandwidths_of_text[of ?es end_note fs f before, OF es dist this(1) content this(2)] obtain d where
    d: "load_bandwidths fs f = Inr d" "\<And>k v. (k, v) \<in> set (List.map_filter link_bandwidth ?es) \<Longrightarrow> map_of d k = Some v" by blast
  show ?thesis
  proof (intro exI[of _ d] conjI allI impI d(1))
    fix a b r l assume l: "Link a b r l \<in> set (leafspine_links p)"
    then have "(a, b) \<in> set (links (leafspine_links p))" by (force simp: links_def List.map_filter_def)
    moreover have "readable (Link a b r l)" using es l by (auto simp: list_all_iff)
    ultimately show "\<exists>bw. parse_bandwidth (BwText r) = Inr bw \<and> map_of d (int a, int b) = Some bw"
      using readable_entry_bandwidth[of a b r l ?es] l d(2) pair by auto
  qed
qed

section \<open>Properties\<close>

text \<open>C17. The topology file the generator writes is read back: every link of the topology has the bandwidth of
  its rate, whatever the header lines are taken for.\<close>

theorem topology_bandwidths:
  assumes "proper p" "rates_ok p" "topology_type p = 2"
  shows "\<exists>d. load_bandwidths (topo_main dir p fs) (dir @ ''/topology_LeafSpine_MultiDC'' @ str_nat (dc_num p) @ ''.txt'') = Inr d \<and>
    (\<forall>a b r l. Link a b r l \<in> set (leafspine_links p) \<longrightarrow>
      (\<exists>bw. parse_bandwidth (BwText r) = Inr bw \<and> map_of d (int a, int b) = Some bw))"
  by (rule written_bandwidths[OF assms(1,2)]) (simp add: topo_main_def write_to_file_def assms(3))

lemma gbps_100: "parse_bandwidth (BwText ''100Gbps'') = Inr 107374182400"
proof -
  have n: "first_number (lower ''100Gbps'') = Inr ''100''" "contains ''gbps'' (lower ''100Gbps'')" by code_simp+
  have f: "py_float ''100'' = Inr 100"
    by (simp add: py_float_def strip_def rstrip_def rstrip_by_def lstrip_def is_ws_def read_sign_def read_mantissa_def read_digits_def
        is_digit_def digits_val_def digit_val_def float_simps)
  have "fmul (fmul (fmul 100 1024) 1024) 1024 = 107374182400"
    using rn_of_int[of 102400] rn_of_int[of 104857600] rn_of_int[of 107374182400] by (simp add: fmul_def)
  then show ?thesis using n f by (simp add: parse_bandwidth_def Let_def)
qed

theorem topology_bandwidths_witness:
  "\<exists>d. load_bandwidths (topo_main ''config'' shipped (\<lambda>_. None)) (''config/topology_LeafSpine_MultiDC8.txt'') = Inr d \<and>
     map_of d (0, 256) = Some 107374182400"
proof -
  have ok: "proper shipped" "rates_ok shipped" "topology_type shipped = 2"
    using gbps_100 by (simp_all add: proper_def rates_ok_def shipped_def word_def is_ws_def)
  let ?s = "fst (leafspine_node_counts shipped)"
  have "Link 0 256 ''100Gbps'' ''1us'' \<in> set (host_leaf_links shipped ?s 0)"
    by (auto simp: host_leaf_links_def leafspine_node_counts_def shipped_def Let_def intro!: bexI[of _ 0] image_eqI[of _ _ 0])
  moreover have "set (host_leaf_links shipped ?s 0) \<subseteq> set (leafspine_links shipped)"
    by (auto simp: leafspine_links_def leafspine_connections_def leafspine_dc_def Let_def shipped_def intro!: bexI[of _ 0])
  ultimately have "Link 0 256 ''100Gbps'' ''1us'' \<in> set (leafspine_links shipped)" by blast
  moreover have "str_nat (dc_num shipped) = ''8''" by code_simp
  ultimately obtain d bw where "load_bandwidths (topo_main ''config'' shipped (\<lambda>_. None)) (''config/topology_LeafSpine_MultiDC8.txt'') = Inr d"
      "parse_bandwidth (BwText ''100Gbps'') = Inr bw" "map_of d (int 0, int 256) = Some bw"
    using topology_bandwidths[OF ok, of "''config''" "\<lambda>_. None"] by fastforce
  then show ?thesis using gbps_100 by auto
qed

lemma float_str_nat: "py_float (str_nat n) = Inr (f_of_int (int n))"
proof -
  have no: "c \<notin> set (str_nat n)" if "\<not> is_digit c" for c using that by (rule str_nat_no)
  have strip: "strip (str_nat n) = str_nat n" using strip_str_int[of "int n"] by (simp add: str_int_nat)
  have sign: "read_sign (str_nat n) = (1, str_nat n)" using read_sign_str_int[of "int n"] by (simp add: str_int_nat)
  have "CHR ''E'' \<notin> set (str_nat n)" by (rule no) (simp add: is_digit_def)
  then have "map (\<lambda>c. if c = CHR ''E'' then CHR ''e'' else c) (str_nat n) = str_nat n"
    by (intro map_idI) auto
  moreover have "split_on (CHR ''e'') (str_nat n) = [str_nat n]" "split_on (CHR ''.'') (str_nat n) = [str_nat n]"
    by (rule split_on_single, rule no, simp add: is_digit_def)+
  ultimately show ?thesis by (simp add: py_float_def strip sign read_mantissa_def f_of_int_def)
qed

lemma bandwidth_str_nat: "parse_bandwidth (BwText (str_nat n)) = Inr (f_of_int (int n))"
proof -
  have dig: "is_digit c" if "c \<in> set (str_nat n)" for c using that by (rule str_nat_digits)
  have low: "lower (str_nat n) = str_nat n"
  proof -
    have "is_digit c \<Longrightarrow> (of_char c :: nat) \<le> 57" for c by (auto simp: is_digit_def)
    then show ?thesis unfolding lower_def by (intro map_idI) (use dig in \<open>fastforce simp: Let_def\<close>)
  qed
  have "first_number (str_nat n) = Inr (str_nat n)"
  proof -
    have all: "\<forall>c \<in> set (str_nat n). number_char c" using dig by (auto simp: number_char_def)
    then have "takeWhile number_char (str_nat n) = str_nat n" by (simp add: takeWhile_eq_all_conv)
    moreover have "dropWhile (\<lambda>c. \<not> number_char c) (str_nat n) = str_nat n"
      using all hd_in_set[OF str_nat_not_Nil, of n] by (metis dropWhile_eq_self_iff)
    ultimately show ?thesis by (simp add: first_number_def)
  qed
  moreover have "\<not> contains (c # s) (str_nat n)" if "\<not> is_digit c" for c s
    using that dig set_mono_sublist by (fastforce simp: contains_iff_sublist)
  ultimately show ?thesis by (simp add: parse_bandwidth_def low float_str_nat is_digit_def)
qed

text \<open>The line of the counts is taken for a link: between the numbers of nodes and of switches, with as many
  bits per second as there are switches towards other data centres.\<close>

theorem counts_taken_for_link:
  "bandwidth_line d (counts_line c n @ [nl]) =
    Inr (AList.update (link_pair (int (total_nodes c)) (int (total_intra_dc_switches c))) (f_of_int (int (total_dcis c))) d)"
proof -
  let ?ws = "[str_nat (total_nodes c), str_nat (total_intra_dc_switches c), str_nat (total_dcis c), str_int n]" and ?s = "counts_line c n"
  have w: "word x" if "x \<in> set ?ws" for x
    using that str_nat_word str_int_no_ws by (auto simp: word_def list_all_iff)
  have s: "?s = join [sp] ?ws" by (simp add: counts_line_def)
  have "split_ws ?s = ?ws" unfolding s by (rule split_ws_join) (use w in \<open>auto simp: word_def list_all_iff\<close>)
  moreover have d: "is_digit (hd (str_nat (total_nodes c)))" "hd ?s = hd (str_nat (total_nodes c))" "?s \<noteq> []"
    using str_nat_hd by (simp_all add: counts_line_def)
  moreover have "strip (?s @ [nl]) = ?s"
  proof (rule strip_nl)
    show "\<not> is_ws (hd ?s)" using d by (simp add: digit_not_ws)
    have "last ?s = last (str_int n)" by (simp add: counts_line_def)
    then show "\<not> is_ws (last ?s)" using str_int_no_ws[of "last (str_int n)" n] by simp
  qed (rule d)
  moreover have "\<not> startswith ''#'' ?s" using d by (cases ?s) (auto simp: is_digit_def)
  moreover have "py_int (str_nat m) = Inr (int m)" for m using py_int_str_int[of "int m"] by (simp add: str_int_nat)
  ultimately show ?thesis by (simp add: bandwidth_line_def read_link_def py_get_def bandwidth_str_nat)
qed

lemma latest_upper:
  assumes "m \<in> set routing_modes" "f m = Some c"
  shows "\<exists>e. latest f = Some e \<and> c \<le> e"
proof -
  have c: "c \<in> set (List.map_filter f routing_modes)" using assms by (force simp: List.map_filter_def)
  moreover have "y \<le> fold max xs x" if "y \<in> set (x # xs)" for x y :: int and xs
    using that Max_ge[of "set (x # xs)" y] by (simp only: Max.set_eq_fold finite_set)
  ultimately show ?thesis by (cases "List.map_filter f routing_modes") (auto simp: latest_def)
qed

text \<open>The end of a mode's window: its last completed flow when there is one, which is never behind the common
  end; without any file of completed flows no end is behind the common end.\<close>

theorem window_ends:
  assumes "mode \<in> set routing_modes"
  shows "(\<forall>c. fct mode = Some c \<and> c \<noteq> 0 \<longrightarrow> per_mode_cutoff fct lu mode = Some c \<and> (\<exists>e. global_max_cutoff fct lu = Some e \<and> c \<le> e)) \<and>
    ((\<forall>m \<in> set routing_modes. fct m = None) \<longrightarrow>
      (\<forall>c. per_mode_cutoff fct lu mode = Some c \<longrightarrow> (\<exists>e. global_max_cutoff fct lu = Some e \<and> c \<le> e)))"
proof (intro conjI allI impI)
  fix c assume c: "fct mode = Some c \<and> c \<noteq> 0"
  then show "per_mode_cutoff fct lu mode = Some c" by (simp add: per_mode_cutoff_def py_or_def)
  show "\<exists>e. global_max_cutoff fct lu = Some e \<and> c \<le> e"
    using latest_upper[of mode fct c] assms c by (auto simp: global_max_cutoff_def)
next
  fix c assume none: "\<forall>m \<in> set routing_modes. fct m = None" and c: "per_mode_cutoff fct lu mode = Some c"
  have "latest fct = None" using none by (simp add: latest_def List.map_filter_def routing_modes_def)
  then have g: "global_max_cutoff fct lu = latest lu" by (simp add: global_max_cutoff_def)
  show "\<exists>e. global_max_cutoff fct lu = Some e \<and> c \<le> e"
  proof (cases "lu mode = Some c")
    case True
    then show ?thesis using latest_upper[OF assms] g by simp
  next
    case False
    then have "latest lu = Some c"
      using c none assms g by (auto simp: per_mode_cutoff_def py_or_def split: option.splits if_splits)
    then show ?thesis using g by simp
  qed
qed

theorem window_ends_witness:
  "per_mode_cutoff (\<lambda>m. if m = ''ECMP'' then Some 7 else None) (\<lambda>_. Some 9) ''ECMP'' = Some 7 \<and>
   per_mode_cutoff (\<lambda>m. if m = ''ECMP'' then Some 7 else None) (\<lambda>_. Some 9) ''Ours'' = Some 9 \<and>
   global_max_cutoff (\<lambda>m. if m = ''ECMP'' then Some 7 else None) (\<lambda>_. Some 9) = Some 7"
  using window_ends[of "''ECMP''" "\<lambda>m. if m = ''ECMP'' then Some 7 else None" "\<lambda>_. Some 9"]
  by (simp add: routing_modes_def per_mode_cutoff_def py_or_def global_max_cutoff_def latest_def List.map_filter_def)

end
