(* ===== verification/TopSort.thy ===== *)
theory TopSort
  imports Prelude "HOL-Library.AList"
begin

text \<open>
  \<open>simulation/bindings/python/topsort.py\<close>: the sorting of dependencies, all at once and level by level.
  A dictionary is an association list; the order in which the interpreter lists the keys of a dictionary is a
  parameter.  A \<open>CycleError\<close> is a value of its own.
\<close>

section \<open>Sorting\<close>

type_synonym 'a counts = "('a \<times> int) list"
type_synonym 'a children = "('a \<times> 'a list) list"

definition add_key :: "'a \<Rightarrow> 'a counts \<Rightarrow> 'a counts" where
  "add_key k np = (if map_of np k = None then np @ [(k, 0)] else np)"

definition count_pair :: "'a \<times> 'a \<Rightarrow> 'a counts \<times> 'a children \<Rightarrow> 'a counts \<times> 'a children" where
  "count_pair pc s =
     (let (parent, child) = pc; (np, ch) = s
      in (AList.map_entry child (\<lambda>n. n + 1) (add_key child (add_key parent np)),
          AList.map_default parent [child] (\<lambda>cs. cs @ [child]) ch))"

definition count_pairs :: "('a \<times> 'a) list \<Rightarrow> 'a counts \<times> 'a children" where
  "count_pairs pairlist = fold count_pair pairlist ([], [])"

definition no_parents :: "('a list \<Rightarrow> 'a list) \<Rightarrow> 'a counts \<Rightarrow> 'a list" where
  "no_parents order np = filter (\<lambda>x. map_of np x = Some 0) (order (map fst np))"

text \<open>The loop over the children: the new counts, and the children that have lost their last parent.\<close>

fun knock_down :: "'a list \<Rightarrow> 'a counts \<Rightarrow> ('a counts \<times> 'a list) res" where
  "knock_down [] np = Inr (np, [])"
| "knock_down (c # cs) np = (case map_of np c of None \<Rightarrow> Inl KeyError
     | Some n \<Rightarrow> rbind (knock_down cs (AList.update c (n - 1) np)) (\<lambda>(np', new). Inr (np', if n - 1 = 0 then c # new else new)))"

lemma update_keys: "map_of np c \<noteq> None \<Longrightarrow> map fst (AList.update c v np) = map fst np"
  by (induction np) auto

lemma knock_down_keys: "knock_down cs np = Inr (np', new) \<Longrightarrow> map fst np' = map fst np"
proof (induction cs arbitrary: np new)
  case (Cons c cs)
  then show ?case by (auto simp: res_simps update_keys split: option.splits)
qed simp

lemma delete_length: "map_of np c \<noteq> None \<Longrightarrow> length (AList.delete c np) < length np"
proof (induction np)
  case (Cons x np)
  have "length (AList.delete c np) \<le> length np" by (simp add: AList.delete_eq)
  then show ?case using Cons by (auto split: if_splits)
qed simp

lemma knock_down_shorter:
  "map_of np p = Some n \<Longrightarrow> knock_down cs (AList.delete p np) = Inr (np', new) \<Longrightarrow> length np' < length np"
  using knock_down_keys[of cs "AList.delete p np" np' new] delete_length[of np p] by (metis length_map option.discI)

text \<open>The list of the answer grows in the loop: what has been visited, and what has not.\<close>

function topsort_loop :: "'a list \<Rightarrow> 'a list \<Rightarrow> 'a counts \<Rightarrow> 'a children \<Rightarrow> ('a list \<times> 'a counts \<times> 'a children) res" where
  "topsort_loop visited [] np ch = Inr (visited, np, ch)"
| "topsort_loop visited (parent # pending) np ch =
     (if map_of np parent = None then Inl KeyError
      else (case map_of ch parent of
          None \<Rightarrow> topsort_loop (visited @ [parent]) pending (AList.delete parent np) ch
        | Some cs \<Rightarrow> (case knock_down cs (AList.delete parent np) of Inl e \<Rightarrow> Inl e
            | Inr (np', new) \<Rightarrow> topsort_loop (visited @ [parent]) (pending @ new) np' (AList.delete parent ch))))"
  by pat_completeness auto
termination
  by (relation "measure (\<lambda>(_, _, np, _). length np)") (auto intro: knock_down_shorter delete_length)

datatype 'a sorting = Sorted "'a list" | CycleError "'a list" "'a counts" "'a children"

definition topsort :: "('a list \<Rightarrow> 'a list) \<Rightarrow> ('a \<times> 'a) list \<Rightarrow> 'a sorting res" where
  "topsort order pairlist =
     (let (np, ch) = count_pairs pairlist
      in rbind (topsort_loop [] (no_parents order np) np ch) (\<lambda>(answer, np, ch).
           Inr (if np = [] then Sorted answer else CycleError answer np ch)))"

section \<open>Levels\<close>

text \<open>The generator as the list of what it yields, and whether it ends by a \<open>CycleError\<close>.\<close>

fun lower_counts :: "'a list \<Rightarrow> 'a counts \<Rightarrow> 'a counts res" where
  "lower_counts [] np = Inr np"
| "lower_counts (c # cs) np = (case map_of np c of None \<Rightarrow> Inl KeyError
     | Some n \<Rightarrow> lower_counts cs (AList.update c (n - 1) np))"

fun remove_level :: "'a list \<Rightarrow> 'a counts \<Rightarrow> 'a children \<Rightarrow> ('a counts \<times> 'a children) res" where
  "remove_level [] np ch = Inr (np, ch)"
| "remove_level (p # ps) np ch =
     (if map_of np p = None then Inl KeyError
      else (case map_of ch p of None \<Rightarrow> remove_level ps (AList.delete p np) ch
        | Some cs \<Rightarrow> rbind (lower_counts cs (AList.delete p np)) (\<lambda>np'. remove_level ps np' (AList.delete p ch))))"

lemma lower_counts_keys: "lower_counts cs np = Inr np' \<Longrightarrow> map fst np' = map fst np"
  by (induction cs arbitrary: np) (auto simp: update_keys split: option.splits)

lemma remove_level_length: "remove_level ps np ch = Inr (np', ch') \<Longrightarrow> length np' + length ps \<le> length np"
proof (induction ps arbitrary: np ch)
  case (Cons p ps)
  have d: "length (AList.delete p np) < length np" using Cons.prems by (intro delete_length) (auto split: if_splits)
  show ?case
  proof (cases "map_of ch p")
    case None
    then show ?thesis using Cons.IH[of "AList.delete p np" ch] Cons.prems d by (auto split: if_splits)
  next
    case (Some cs)
    then obtain np1 where np1: "lower_counts cs (AList.delete p np) = Inr np1" "remove_level ps np1 (AList.delete p ch) = Inr (np', ch')"
      using Cons.prems by (auto simp: res_simps split: if_splits)
    have "length np1 = length (AList.delete p np)" using lower_counts_keys[OF np1(1)] by (metis length_map)
    then show ?thesis using Cons.IH[OF np1(2)] d by simp
  qed
qed simp

datatype 'a levels_end = Exhausted | LevelsCycle "'a counts" "'a children"

function topsort_levels_core :: "('a list \<Rightarrow> 'a list) \<Rightarrow> 'a counts \<Rightarrow> 'a children \<Rightarrow> ('a list list \<times> 'a levels_end) res" where
  "topsort_levels_core order np ch =
     (let level_parents = no_parents order np
      in if level_parents = [] then Inr ([], if np = [] then Exhausted else LevelsCycle np ch)
         else (case remove_level level_parents np ch of Inl e \<Rightarrow> Inl e
           | Inr (np', ch') \<Rightarrow> rbind (topsort_levels_core order np' ch') (\<lambda>(ls, e). Inr (level_parents # ls, e))))"
  by pat_completeness auto
termination
proof (relation "measure (\<lambda>(_, np, _). length np)", goal_cases)
  case (2 order np ch ps z np' ch')
  then show ?case using remove_level_length[of ps np ch np' ch'] by (cases "no_parents order np") auto
qed simp

declare topsort_levels_core.simps [simp del]

definition topsort_levels :: "('a list \<Rightarrow> 'a list) \<Rightarrow> ('a \<times> 'a) list \<Rightarrow> ('a list list \<times> 'a levels_end) res" where
  "topsort_levels order pairlist = (let (np, ch) = count_pairs pairlist in topsort_levels_core order np ch)"

section \<open>The counts of a graph\<close>

text \<open>The elements of the pairs, the children of an element, and the parents it still has when the elements of
  \<open>D\<close> are gone.\<close>

definition elements :: "('a \<times> 'a) list \<Rightarrow> 'a set" where
  "elements P = fst ` set P \<union> snd ` set P"

definition kids :: "('a \<times> 'a) list \<Rightarrow> 'a \<Rightarrow> 'a list" where
  "kids P x = map snd (filter (\<lambda>(a, b). a = x) P)"

definition parents_left :: "('a \<times> 'a) list \<Rightarrow> 'a set \<Rightarrow> 'a \<Rightarrow> int" where
  "parents_left P D x = int (length (filter (\<lambda>(a, b). b = x \<and> a \<notin> D) P))"

definition counted :: "('a \<times> 'a) list \<Rightarrow> 'a set \<Rightarrow> 'a counts \<Rightarrow> bool" where
  "counted P D np = (distinct (map fst np) \<and> map_of np = (\<lambda>x. if x \<in> elements P - D then Some (parents_left P D x) else None))"

definition childs :: "('a \<times> 'a) list \<Rightarrow> 'a set \<Rightarrow> 'a children \<Rightarrow> bool" where
  "childs P D ch = (map_of ch = (\<lambda>x. if x \<in> D \<or> kids P x = [] then None else Some (kids P x)))"

lemma map_of_snoc: "map_of np k = None \<Longrightarrow> map_of (np @ [(k, v)]) = (map_of np)(k \<mapsto> v)"
  by (induction np) (auto simp: fun_eq_iff)

lemma map_of_add_key: "map_of (add_key k np) = (\<lambda>x. if x = k \<and> map_of np k = None then Some 0 else map_of np x)"
  by (auto simp: add_key_def map_of_snoc fun_eq_iff simp del: map_of_append)

lemma distinct_add_key: "distinct (map fst np) \<Longrightarrow> distinct (map fst (add_key k np))"
  by (auto simp: add_key_def map_of_eq_None_iff)

lemma count_pairs_spec: "count_pairs P = (np, ch) \<Longrightarrow> counted P {} np \<and> childs P {} ch"
proof (induction P arbitrary: np ch rule: rev_induct)
  case Nil
  then show ?case by (simp add: count_pairs_def counted_def childs_def elements_def kids_def)
next
  case (snoc pc P)
  obtain a b where ab: "pc = (a, b)" by (cases pc)
  obtain np0 ch0 where 0: "count_pairs P = (np0, ch0)" by (cases "count_pairs P")
  have np: "np = AList.map_entry b (\<lambda>n. n + 1) (add_key b (add_key a np0))"
    and ch: "ch = AList.map_default a [b] (\<lambda>cs. cs @ [b]) ch0"
    using snoc.prems 0 by (simp_all add: count_pairs_def count_pair_def ab)
  have IH: "counted P {} np0" "childs P {} ch0" using snoc.IH[OF 0] by simp_all
  have zero: "parents_left P {} x = 0" if "x \<notin> elements P" for x
    using that by (auto simp: parents_left_def elements_def filter_empty_conv image_iff)
  have "map_of np x = (if x \<in> elements (P @ [pc]) then Some (parents_left (P @ [pc]) {} x) else None)" for x
    using IH(1) zero[of x] by (auto simp: np counted_def map_of_map_entry map_of_add_key ab elements_def parents_left_def)
  then have "counted (P @ [pc]) {} np"
    using IH(1) unfolding counted_def np by (intro conjI distinct_map_entry distinct_add_key ext) (auto simp: np)
  moreover have "childs (P @ [pc]) {} ch"
    using IH(2) by (auto simp: childs_def ch map_of_map_default kids_def ab fun_eq_iff)
  ultimately show ?case by simp
qed

section \<open>Knocking down the counts\<close>

lemma knock_down_spec:
  assumes "\<forall>x \<in> set cs. \<exists>n. map_of np x = Some n \<and> int (count_list cs x) \<le> n" "distinct (map fst np)"
  shows "\<exists>np' new. knock_down cs np = Inr (np', new) \<and> distinct (map fst np') \<and> distinct new \<and>
    map_of np' = (\<lambda>x. map_option (\<lambda>n. n - int (count_list cs x)) (map_of np x)) \<and>
    set new = {x \<in> set cs. map_of np x = Some (int (count_list cs x))}"
  using assms
proof (induction cs arbitrary: np)
  case Nil
  then show ?case by (simp add: option.map_ident)
next
  case (Cons c cs)
  obtain n where n: "map_of np c = Some n" "int (count_list (c # cs) c) \<le> n" using Cons.prems(1) by auto
  let ?np = "AList.update c (n - 1) np"
  have m: "map_of ?np = (map_of np)(c \<mapsto> n - 1)" by (rule update_conv')
  have "\<forall>x \<in> set cs. \<exists>k. map_of ?np x = Some k \<and> int (count_list cs x) \<le> k"
  proof
    fix x assume "x \<in> set cs"
    then obtain k where "map_of np x = Some k" "int (count_list (c # cs) x) \<le> k" using Cons.prems(1) by auto
    then show "\<exists>k. map_of ?np x = Some k \<and> int (count_list cs x) \<le> k" using n by (auto simp: m)
  qed
  moreover have "distinct (map fst ?np)" using Cons.prems(2) by (rule distinct_update)
  ultimately obtain np' new where IH: "knock_down cs ?np = Inr (np', new)" "distinct (map fst np')" "distinct new"
      "map_of np' = (\<lambda>x. map_option (\<lambda>n. n - int (count_list cs x)) (map_of ?np x))"
      "set new = {x \<in> set cs. map_of ?np x = Some (int (count_list cs x))}"
    using Cons.IH by blast
  have "c \<notin> set new" if "n - 1 = 0"
  proof
    assume "c \<in> set new"
    then have "count_list cs c = 0" "c \<in> set cs" using IH(5) that n by (auto simp: m)
    then show False by (simp add: count_list_0_iff)
  qed
  moreover have "map_of np' = (\<lambda>x. map_option (\<lambda>n. n - int (count_list (c # cs) x)) (map_of np x))"
    by (auto simp: IH(4) m n fun_eq_iff)
  moreover have "set (if n - 1 = 0 then c # new else new) = {x \<in> set (c # cs). map_of np x = Some (int (count_list (c # cs) x))}"
  proof (rule set_eqI)
    fix x
    have mem: "x \<in> set new \<longleftrightarrow> x \<in> set cs \<and> map_of ?np x = Some (int (count_list cs x))" using IH(5) by blast
    show "x \<in> set (if n - 1 = 0 then c # new else new) \<longleftrightarrow>
        x \<in> {x \<in> set (c # cs). map_of np x = Some (int (count_list (c # cs) x))}"
    proof (cases "x = c")
      case True
      then have "x \<in> set new \<longleftrightarrow> c \<in> set cs \<and> n - 1 = int (count_list cs c)" using mem by (simp add: m)
      moreover have "count_list cs c = 0" if "c \<notin> set cs" using that by (simp add: count_list_0_iff)
      ultimately show ?thesis using True n(1) n(2) by (cases "c \<in> set cs") auto
    next
      case False
      then show ?thesis using mem by (simp add: m)
    qed
  qed
  moreover have "knock_down (c # cs) np = Inr (np', if n - 1 = 0 then c # new else new)" by (simp add: n(1) IH(1))
  moreover have "distinct (if n - 1 = 0 then c # new else new)" using calculation(1) IH(3) by auto
  ultimately show ?case using IH(2) by blast
qed

section \<open>The invariant of the sorting loop\<close>

text \<open>Every element comes after its parents.\<close>

definition ordered :: "('a \<times> 'a) list \<Rightarrow> 'a list \<Rightarrow> bool" where
  "ordered P xs = (\<forall>i < length xs. \<forall>a. (a, xs ! i) \<in> set P \<longrightarrow> a \<in> set (take i xs))"

definition sort_inv :: "('a \<times> 'a) list \<Rightarrow> 'a list \<Rightarrow> 'a list \<Rightarrow> 'a counts \<Rightarrow> 'a children \<Rightarrow> bool" where
  "sort_inv P visited pending np ch = (distinct (visited @ pending) \<and> set visited \<subseteq> elements P \<and> ordered P visited \<and>
     counted P (set visited) np \<and> childs P (set visited) ch \<and>
     set pending = {x \<in> elements P - set visited. parents_left P (set visited) x = 0})"

lemma parents_left_0: "parents_left P D x = 0 \<longleftrightarrow> (\<forall>a. (a, x) \<in> set P \<longrightarrow> a \<in> D)"
  by (auto simp: parents_left_def filter_empty_conv)

lemma kids_iff: "b \<in> set (kids P a) \<longleftrightarrow> (a, b) \<in> set P"
  by (force simp: kids_def)

lemma parents_left_insert:
  "p \<notin> D \<Longrightarrow> parents_left P (insert p D) x = parents_left P D x - int (count_list (kids P p) x)"
  by (induction P) (auto simp: parents_left_def kids_def)

lemma count_le_parents: "p \<notin> D \<Longrightarrow> int (count_list (kids P p) x) \<le> parents_left P D x"
proof -
  assume "p \<notin> D"
  then have "parents_left P D x - int (count_list (kids P p) x) \<ge> 0"
    using parents_left_insert[of p D P x] by (simp add: parents_left_def)
  then show ?thesis by simp
qed

lemma ordered_snoc: "ordered P (xs @ [p]) \<longleftrightarrow> ordered P xs \<and> (\<forall>a. (a, p) \<in> set P \<longrightarrow> a \<in> set xs)"
  by (auto simp: ordered_def nth_append less_Suc_eq all_conj_distrib)

lemma ordered_closed: "ordered P xs \<Longrightarrow> b \<in> set xs \<Longrightarrow> (a, b) \<in> set P \<Longrightarrow> a \<in> set xs"
  unfolding ordered_def by (metis in_set_conv_nth in_set_takeD)

lemma counted_delete:
  assumes "counted P D np" "p \<in> elements P - D"
  shows "distinct (map fst (AList.delete p np))"
    "map_of (AList.delete p np) = (\<lambda>x. if x \<in> elements P - insert p D then Some (parents_left P D x) else None)"
  using assms distinct_delete by (auto simp: counted_def delete_conv' fun_eq_iff)

text \<open>The work on an element without parents: its children lose a parent, and those that have none left are new.\<close>

lemma knock_kids:
  assumes "counted P D np" "p \<in> elements P - D" "parents_left P D p = 0" "\<forall>b \<in> set (kids P p). b \<notin> D"
  shows "\<exists>np' new. knock_down (kids P p) (AList.delete p np) = Inr (np', new) \<and> distinct new \<and> counted P (insert p D) np' \<and>
    set new = {x \<in> set (kids P p). parents_left P (insert p D) x = 0}"
proof -
  let ?np = "AList.delete p np"
  have p: "p \<notin> D" "p \<notin> set (kids P p)" using assms(2,3) by (auto simp: parents_left_0 kids_iff)
  have mem: "x \<in> elements P - insert p D" if "x \<in> set (kids P p)" for x
    using that assms(4) p by (force simp: kids_iff elements_def)
  have "\<forall>x \<in> set (kids P p). \<exists>n. map_of ?np x = Some n \<and> int (count_list (kids P p) x) \<le> n"
    using mem count_le_parents[OF p(1), of P] by (simp add: counted_delete(2)[OF assms(1,2)])
  from knock_down_spec[OF this counted_delete(1)[OF assms(1,2)]] obtain np' new where
    k: "knock_down (kids P p) ?np = Inr (np', new)" "distinct (map fst np')" "distinct new"
      "map_of np' = (\<lambda>x. map_option (\<lambda>n. n - int (count_list (kids P p) x)) (map_of ?np x))"
      "set new = {x \<in> set (kids P p). map_of ?np x = Some (int (count_list (kids P p) x))}" by blast
  have "counted P (insert p D) np'"
    using k(2) by (auto simp: counted_def k(4) counted_delete(2)[OF assms(1,2)] parents_left_insert[OF p(1)] fun_eq_iff)
  moreover have "set new = {x \<in> set (kids P p). parents_left P (insert p D) x = 0}"
    unfolding k(5) using mem by (auto simp: counted_delete(2)[OF assms(1,2)] parents_left_insert[OF p(1)])
  ultimately show ?thesis using k by blast
qed

lemma childs_delete:
  "childs P D ch \<Longrightarrow> childs P (insert p D) (AList.delete p ch)"
  "childs P D ch \<Longrightarrow> kids P p = [] \<Longrightarrow> childs P (insert p D) ch"
  by (auto simp: childs_def delete_conv' fun_eq_iff)

lemma sort_inv_step:
  assumes "sort_inv P visited (p # pending) np ch"
  shows "\<exists>np' new. knock_down (kids P p) (AList.delete p np) = Inr (np', new) \<and>
    sort_inv P (visited @ [p]) (pending @ new) np' (AList.delete p ch) \<and> (kids P p = [] \<longrightarrow> sort_inv P (visited @ [p]) (pending @ new) np' ch)"
proof -
  let ?D = "set visited"
  have inv: "distinct (visited @ p # pending)" "?D \<subseteq> elements P" "ordered P visited" "counted P ?D np" "childs P ?D ch"
      and pend: "insert p (set pending) = {x \<in> elements P - ?D. parents_left P ?D x = 0}"
    using assms by (auto simp: sort_inv_def)
  have p: "p \<in> elements P - ?D" "parents_left P ?D p = 0" using pend by auto
  have kids: "\<forall>b \<in> set (kids P p). b \<notin> ?D"
    using ordered_closed[OF inv(3)] p(1) by (auto simp: kids_iff)
  obtain np' new where k: "knock_down (kids P p) (AList.delete p np) = Inr (np', new)" "distinct new" "counted P (insert p ?D) np'"
      "set new = {x \<in> set (kids P p). parents_left P (insert p ?D) x = 0}"
    using knock_kids[OF inv(4) p kids] by blast
  have ordered: "ordered P (visited @ [p])" using inv(3) p(2) by (auto simp: ordered_snoc parents_left_0)
  have new: "set new = {x \<in> elements P - insert p ?D. parents_left P (insert p ?D) x = 0 \<and> parents_left P ?D x \<noteq> 0}"
  proof -
    have "x \<in> set (kids P p)" if "parents_left P (insert p ?D) x = 0" "parents_left P ?D x \<noteq> 0" for x
      using that by (auto simp: parents_left_0 kids_iff)
    moreover have "x \<in> elements P - insert p ?D \<and> parents_left P ?D x \<noteq> 0" if "x \<in> set (kids P p)" for x
    proof -
      have px: "(p, x) \<in> set P" using that by (simp add: kids_iff)
      then have "x \<in> elements P" by (force simp: elements_def)
      moreover have "x \<notin> ?D" using that kids by blast
      moreover have "x \<noteq> p" using px p by (auto simp: parents_left_0)
      moreover have "parents_left P ?D x \<noteq> 0" using px p(1) by (auto simp: parents_left_0)
      ultimately show ?thesis by blast
    qed
    ultimately show ?thesis unfolding k(4) by blast
  qed
  have old: "set pending = {x \<in> elements P - insert p ?D. parents_left P ?D x = 0}"
    using pend inv(1) by auto
  have zero: "parents_left P (insert p ?D) x = 0" if "parents_left P ?D x = 0" for x using that by (auto simp: parents_left_0)
  have "set (pending @ new) = {x \<in> elements P - insert p ?D. parents_left P (insert p ?D) x = 0}"
    unfolding set_append old new using zero by blast
  moreover have "distinct ((visited @ [p]) @ pending @ new)" using inv(1) k(2) old new by auto
  ultimately have "sort_inv P (visited @ [p]) (pending @ new) np' ch'" if "childs P (insert p ?D) ch'" for ch'
    using that ordered k(3) inv(2) p(1) by (simp add: sort_inv_def)
  then show ?thesis using k(1) childs_delete[OF inv(5)] by blast
qed

lemma topsort_loop_inv:
  "sort_inv P visited pending np ch \<Longrightarrow>
   \<exists>answer np' ch'. topsort_loop visited pending np ch = Inr (answer, np', ch') \<and> sort_inv P answer [] np' ch'"
proof (induction visited pending np ch rule: topsort_loop.induct)
  case (2 visited p pending np ch)
  obtain np' new where k: "knock_down (kids P p) (AList.delete p np) = Inr (np', new)"
      "sort_inv P (visited @ [p]) (pending @ new) np' (AList.delete p ch)" "kids P p = [] \<longrightarrow> sort_inv P (visited @ [p]) (pending @ new) np' ch"
    using sort_inv_step[OF 2(3)] by blast
  have p: "map_of np p \<noteq> None" "p \<notin> set visited" using 2(3) by (auto simp: sort_inv_def counted_def)
  have ch: "map_of ch p = (if kids P p = [] then None else Some (kids P p))"
    using 2(3) p(2) by (auto simp: sort_inv_def childs_def)
  show ?case
  proof (cases "kids P p = []")
    case True
    then have "np' = AList.delete p np" "new = []" using k(1) by simp_all
    then show ?thesis using 2(1)[OF p(1)] ch k(3) True p(1) by simp
  next
    case False
    then show ?thesis using 2(2)[OF p(1) _ k(1) refl] ch k(1,2) p(1) by simp
  qed
qed auto

text \<open>What is left over has parents only among itself.\<close>

lemma left_over_cyclic:
  assumes "x \<in> elements P - D" "\<forall>x \<in> elements P - D. parents_left P D x \<noteq> 0"
  shows "\<not> acyclic (set P)"
proof
  assume "acyclic (set P)"
  then have "wf (set P)" by (simp add: finite_acyclic_wf)
  then obtain z where z: "z \<in> elements P - D" "\<And>y. (y, z) \<in> set P \<Longrightarrow> y \<notin> elements P - D"
    using assms(1) by (rule wfE_min) blast
  have "(y, z) \<in> set P \<longrightarrow> y \<in> D" for y using z(2)[of y] by (force simp: elements_def)
  then have "parents_left P D z = 0" by (simp add: parents_left_0)
  then show False using assms(2) z(1) by blast
qed

lemma ordered_acyclic:
  assumes "ordered P xs" "set xs = elements P" "distinct xs"
  shows "acyclic (set P)"
proof -
  define pos where "pos x = (LEAST i. i < length xs \<and> xs ! i = x)" for x
  have pos: "pos x < length xs \<and> xs ! pos x = x" if "x \<in> elements P" for x
    unfolding pos_def by (rule LeastI_ex) (use that assms(2) in \<open>auto simp: in_set_conv_nth\<close>)
  have "pos a < pos b" if "(a, b) \<in> set P" for a b
  proof -
    have m: "a \<in> elements P" "b \<in> elements P" using that by (force simp: elements_def)+
    then have "a \<in> set (take (pos b) xs)" using assms(1) that pos[of b] by (auto simp: ordered_def)
    then obtain i where i: "i < pos b" "i < length xs" "xs ! i = a" by (auto simp: in_set_conv_nth)
    then have "i = pos a" using pos[OF m(1)] assms(3) by (metis nth_eq_iff_index_eq)
    then show ?thesis using i by simp
  qed
  then have "set P \<subseteq> measure pos" by auto
  then have "wf (set P)" by (rule wf_subset[OF wf_measure])
  then show ?thesis by (rule wf_acyclic)
qed

section \<open>Sorting and its failure\<close>

text \<open>The interpreter lists every key of a dictionary once.\<close>

definition fair :: "('a list \<Rightarrow> 'a list) \<Rightarrow> bool" where
  "fair order = (\<forall>xs. distinct xs \<longrightarrow> distinct (order xs) \<and> set (order xs) = set xs)"

lemma counted_keys: "counted P D np \<Longrightarrow> fst ` set np = elements P - D"
  unfolding counted_def dom_map_of_conv_image_fst[symmetric] by (auto simp: dom_def)

lemma no_parents_spec:
  assumes "fair order" "counted P D np"
  shows "distinct (no_parents order np)" "set (no_parents order np) = {x \<in> elements P - D. parents_left P D x = 0}"
proof -
  have "fst ` set np = elements P - D" using assms(2) by (rule counted_keys)
  then show "distinct (no_parents order np)" "set (no_parents order np) = {x \<in> elements P - D. parents_left P D x = 0}"
    using assms by (auto simp: no_parents_def fair_def counted_def)
qed

lemma counted_Nil: "counted P D np \<Longrightarrow> np = [] \<longleftrightarrow> elements P \<subseteq> D"
proof -
  assume "counted P D np"
  then have "np = [] \<longleftrightarrow> elements P - D = {}" using counted_keys[of P D np] by (metis image_is_empty set_empty)
  then show ?thesis by blast
qed

lemma topsort_run:
  assumes "fair order"
  shows "\<exists>answer np ch. topsort order P = Inr (if np = [] then Sorted answer else CycleError answer np ch) \<and> sort_inv P answer [] np ch"
proof -
  obtain np ch where 0: "count_pairs P = (np, ch)" by (cases "count_pairs P")
  have c: "counted P {} np" "childs P {} ch" using count_pairs_spec[OF 0] by simp_all
  then have "sort_inv P [] (no_parents order np) np ch"
    using no_parents_spec[OF assms c(1)] by (simp add: sort_inv_def ordered_def)
  from topsort_loop_inv[OF this] obtain answer np' ch' where
    "topsort_loop [] (no_parents order np) np ch = Inr (answer, np', ch')" "sort_inv P answer [] np' ch'" by blast
  then show ?thesis by (intro exI[of _ answer] exI[of _ np'] exI[of _ ch']) (simp add: topsort_def 0)
qed

lemma sorted_iff_acyclic:
  assumes "sort_inv P answer [] np ch"
  shows "np = [] \<longleftrightarrow> acyclic (set P)" "np = [] \<Longrightarrow> set answer = elements P"
proof -
  have inv: "distinct answer" "set answer \<subseteq> elements P" "ordered P answer" "counted P (set answer) np"
      "\<forall>x \<in> elements P - set answer. parents_left P (set answer) x \<noteq> 0"
    using assms by (auto simp: sort_inv_def)
  show all: "set answer = elements P" if "np = []" using that counted_Nil[OF inv(4)] inv(2) by auto
  show "np = [] \<longleftrightarrow> acyclic (set P)"
  proof
    assume "np = []"
    then show "acyclic (set P)" using ordered_acyclic[OF inv(3) all inv(1)] by blast
  next
    assume ac: "acyclic (set P)"
    show "np = []"
    proof (rule ccontr)
      assume "np \<noteq> []"
      then obtain x where "x \<in> elements P - set answer" using counted_Nil[OF inv(4)] by blast
      then show False using left_over_cyclic[OF _ inv(5)] ac by blast
    qed
  qed
qed

lemma left_over_parent:
  assumes "counted P D np" "\<forall>x \<in> elements P - D. parents_left P D x \<noteq> 0" "x \<in> fst ` set np"
  shows "\<exists>a \<in> fst ` set np. (a, x) \<in> set P"
proof -
  have keys: "fst ` set np = elements P - D" using assms(1) by (rule counted_keys)
  then have "parents_left P D x \<noteq> 0" using assms(2,3) by blast
  then obtain a where "(a, x) \<in> set P" "a \<notin> D" by (auto simp: parents_left_0)
  then show ?thesis unfolding keys by (force simp: elements_def)
qed

section \<open>The levels\<close>

lemma lower_counts_knock: "lower_counts cs np = rbind (knock_down cs np) (\<lambda>(np', new). Inr np')"
  by (induction cs arbitrary: np) (auto simp: rbind_def split: option.splits sum.splits)

definition closed :: "('a \<times> 'a) list \<Rightarrow> 'a set \<Rightarrow> bool" where
  "closed P D = (\<forall>(a, b) \<in> set P. b \<in> D \<longrightarrow> a \<in> D)"

lemma remove_level_spec:
  "counted P D np \<Longrightarrow> childs P D ch \<Longrightarrow> closed P D \<Longrightarrow> distinct ps \<Longrightarrow>
   set ps \<subseteq> {x \<in> elements P - D. parents_left P D x = 0} \<Longrightarrow>
   \<exists>np' ch'. remove_level ps np ch = Inr (np', ch') \<and> counted P (D \<union> set ps) np' \<and> childs P (D \<union> set ps) ch' \<and> closed P (D \<union> set ps)"
proof (induction ps arbitrary: D np ch)
  case (Cons p ps)
  have p: "p \<in> elements P - D" "parents_left P D p = 0" using Cons.prems(5) by auto
  have closed: "closed P (insert p D)" using Cons.prems(3) p(2) by (auto simp: closed_def parents_left_0)
  have kids: "\<forall>b \<in> set (kids P p). b \<notin> D" using Cons.prems(3) p(1) by (auto simp: closed_def kids_iff)
  obtain np1 new where k: "knock_down (kids P p) (AList.delete p np) = Inr (np1, new)" "counted P (insert p D) np1"
    using knock_kids[OF Cons.prems(1) p kids] by blast
  have rest: "set ps \<subseteq> {x \<in> elements P - insert p D. parents_left P (insert p D) x = 0}"
    using Cons.prems(4,5) by (auto simp: parents_left_0)
  note IH = Cons.IH[OF k(2) _ closed _ rest]
  have np: "map_of np p \<noteq> None" using Cons.prems(1) p(1) by (simp add: counted_def)
  have ch: "map_of ch p = (if kids P p = [] then None else Some (kids P p))"
    using Cons.prems(2) p(1) by (simp add: childs_def)
  show ?case
  proof (cases "kids P p = []")
    case True
    then show ?thesis using IH[OF childs_delete(2)[OF Cons.prems(2) True]] Cons.prems(4) k(1) ch np by auto
  next
    case False
    then show ?thesis using IH[OF childs_delete(1)[OF Cons.prems(2)]] Cons.prems(4) k(1) ch np by (auto simp: lower_counts_knock)
  qed
qed auto

text \<open>Each level: the elements whose parents are in the levels before it, and which are not there themselves.\<close>

definition earlier :: "'a list list \<Rightarrow> nat \<Rightarrow> 'a set" where
  "earlier ls k = \<Union> (set ` set (take k ls))"

fun levels_from :: "('a \<times> 'a) list \<Rightarrow> 'a set \<Rightarrow> 'a list list \<Rightarrow> bool" where
  "levels_from P D [] = True"
| "levels_from P D (l # ls) = (l \<noteq> [] \<and> distinct l \<and> set l = {x \<in> elements P - D. \<forall>a. (a, x) \<in> set P \<longrightarrow> a \<in> D} \<and> levels_from P (D \<union> set l) ls)"

lemma levels_from_nth:
  "levels_from P D ls \<Longrightarrow> k < length ls \<Longrightarrow>
   ls ! k \<noteq> [] \<and> distinct (ls ! k) \<and> set (ls ! k) = {x \<in> elements P - (D \<union> earlier ls k). \<forall>a. (a, x) \<in> set P \<longrightarrow> a \<in> D \<union> earlier ls k}"
proof (induction ls arbitrary: D k)
  case (Cons l ls)
  have e: "D \<union> set l \<union> earlier ls j = D \<union> earlier (l # ls) (Suc j)" for j by (auto simp: earlier_def)
  show ?case
  proof (cases k)
    case 0
    then show ?thesis using Cons.prems(1) by (simp add: earlier_def)
  next
    case (Suc j)
    have "levels_from P (D \<union> set l) ls" "j < length ls" using Cons.prems Suc levels_from.simps(2)[of P D l ls] by (blast, simp)
    from Cons.IH[OF this] show ?thesis unfolding Suc e nth_Cons_Suc .
  qed
qed simp

lemma levels_core_spec:
  "fair order \<Longrightarrow> counted P D np \<Longrightarrow> childs P D ch \<Longrightarrow> closed P D \<Longrightarrow>
    \<exists>ls e D'. topsort_levels_core order np ch = Inr (ls, e) \<and> levels_from P D ls \<and> D' = D \<union> set (concat ls) \<and>
      (e = Exhausted \<longleftrightarrow> elements P \<subseteq> D') \<and> (\<forall>x \<in> elements P - D'. parents_left P D' x \<noteq> 0)"
proof (induction order np ch arbitrary: D rule: topsort_levels_core.induct)
  case (1 order np ch)
  let ?l = "no_parents order np"
  have l: "distinct ?l" "set ?l = {x \<in> elements P - D. parents_left P D x = 0}"
    using no_parents_spec[OF 1(2,3)] by simp_all
  show ?case
  proof (cases "?l = []")
    case True
    then have "topsort_levels_core order np ch = Inr ([], if np = [] then Exhausted else LevelsCycle np ch)"
      by (subst topsort_levels_core.simps) simp
    moreover have "\<forall>x \<in> elements P - D. parents_left P D x \<noteq> 0" using l(2) True by auto
    moreover have "(if np = [] then Exhausted else LevelsCycle np ch) = Exhausted \<longleftrightarrow> elements P \<subseteq> D"
      using counted_Nil[OF 1(3)] by simp
    ultimately show ?thesis
      by (intro exI[of _ "[]"] exI[of _ "if np = [] then Exhausted else LevelsCycle np ch"] exI[of _ D]) simp
  next
    case False
    obtain np1 ch1 where r: "remove_level ?l np ch = Inr (np1, ch1)" "counted P (D \<union> set ?l) np1" "childs P (D \<union> set ?l) ch1" "closed P (D \<union> set ?l)"
      using remove_level_spec[OF 1(3-5) l(1)] l(2) by auto
    obtain ls e where ls: "topsort_levels_core order np1 ch1 = Inr (ls, e)" "levels_from P (D \<union> set ?l) ls"
        "e = Exhausted \<longleftrightarrow> elements P \<subseteq> D \<union> set ?l \<union> set (concat ls)"
        "\<forall>x \<in> elements P - (D \<union> set ?l \<union> set (concat ls)). parents_left P (D \<union> set ?l \<union> set (concat ls)) x \<noteq> 0"
      using 1(1)[OF refl False r(1) refl 1(2) r(2-4)] by blast
    have "topsort_levels_core order np ch = Inr (?l # ls, e)"
      by (subst topsort_levels_core.simps) (simp add: False r(1) ls(1) Let_def)
    moreover have "levels_from P D (?l # ls)" using False l ls(2) by (simp add: parents_left_0)
    moreover have "D \<union> set ?l \<union> set (concat ls) = D \<union> set (concat (?l # ls))" by auto
    ultimately show ?thesis using ls(3,4) by (metis (no_types))
  qed
qed

lemma ordered_append: "ordered P xs \<Longrightarrow> \<forall>x \<in> set l. \<forall>a. (a, x) \<in> set P \<longrightarrow> a \<in> set xs \<Longrightarrow> ordered P (xs @ l)"
proof (induction l arbitrary: xs)
  case (Cons x l)
  have "ordered P (xs @ [x])" using Cons.prems by (simp add: ordered_snoc)
  then show ?case using Cons.IH[of "xs @ [x]"] Cons.prems(2) by simp
qed simp

lemma levels_from_ordered:
  "levels_from P (set xs) ls \<Longrightarrow> ordered P xs \<Longrightarrow> distinct xs \<Longrightarrow> set xs \<subseteq> elements P \<Longrightarrow>
   ordered P (xs @ concat ls) \<and> distinct (xs @ concat ls) \<and> set (concat ls) \<subseteq> elements P"
proof (induction ls arbitrary: xs)
  case (Cons l ls)
  have l: "distinct l" "set l = {x \<in> elements P - set xs. \<forall>a. (a, x) \<in> set P \<longrightarrow> a \<in> set xs}" "levels_from P (set (xs @ l)) ls"
    using Cons.prems(1) unfolding levels_from.simps(2) set_append by blast+
  have "ordered P (xs @ l)" using Cons.prems(2) l(2) by (intro ordered_append) auto
  moreover have "distinct (xs @ l)" "set (xs @ l) \<subseteq> elements P" using Cons.prems(3,4) l(1,2) by auto
  ultimately show ?case using Cons.IH[OF l(3)] by simp
qed simp

section \<open>Properties\<close>

text \<open>C20. An acyclic list of pairs is sorted: every element once, and each after all its parents.  A cyclic one
  ends by a \<open>CycleError\<close> with what could be sorted, where every element left has a parent that is left too.  No
  \<open>KeyError\<close> can occur, whatever the order of the keys.\<close>

theorem topsort_correct:
  assumes "fair order"
  shows "if acyclic (set P)
    then (\<exists>xs. topsort order P = Inr (Sorted xs) \<and> distinct xs \<and> set xs = elements P \<and> ordered P xs)
    else (\<exists>xs np ch. topsort order P = Inr (CycleError xs np ch) \<and> np \<noteq> [] \<and> distinct xs \<and> ordered P xs \<and>
      set xs \<inter> fst ` set np = {} \<and> set xs \<union> fst ` set np = elements P \<and> (\<forall>x \<in> fst ` set np. \<exists>a \<in> fst ` set np. (a, x) \<in> set P))"
proof -
  obtain xs np ch where t: "topsort order P = Inr (if np = [] then Sorted xs else CycleError xs np ch)" "sort_inv P xs [] np ch"
    using topsort_run[OF assms] by blast
  have inv: "distinct xs" "ordered P xs" "counted P (set xs) np" "\<forall>x \<in> elements P - set xs. parents_left P (set xs) x \<noteq> 0" "set xs \<subseteq> elements P"
    using t(2) by (auto simp: sort_inv_def)
  show ?thesis
  proof (cases "acyclic (set P)")
    case True
    then show ?thesis using t(1) sorted_iff_acyclic[OF t(2)] inv by simp
  next
    case False
    then have "np \<noteq> []" using sorted_iff_acyclic(1)[OF t(2)] by simp
    moreover have "set xs \<inter> fst ` set np = {}" "set xs \<union> fst ` set np = elements P"
      using counted_keys[OF inv(3)] inv(5) by auto
    moreover have "\<forall>x \<in> fst ` set np. \<exists>a \<in> fst ` set np. (a, x) \<in> set P" using left_over_parent[OF inv(3,4)] by blast
    ultimately show ?thesis using False t(1) inv(1,2) by simp
  qed
qed

definition demo_pairs :: "(nat \<times> nat) list" where
  "demo_pairs = [(1, 2), (3, 4), (5, 6), (1, 3), (1, 5), (1, 6), (2, 5)]"

lemma demo_facts: "acyclic (set demo_pairs)" "fair id"
proof -
  have "set demo_pairs \<subseteq> measure id" by (simp add: demo_pairs_def)
  then show "acyclic (set demo_pairs)" by (intro wf_acyclic wf_subset[OF wf_measure])
qed (simp add: fair_def)

theorem topsort_correct_witness:
  "topsort id demo_pairs = Inr (Sorted [1, 2, 3, 5, 4, 6]) \<and> ordered demo_pairs [1, 2, 3, 5, 4, 6]"
proof -
  have t: "topsort id demo_pairs = Inr (Sorted [1, 2, 3, 5, 4, 6])" by code_simp
  show ?thesis using topsort_correct[OF demo_facts(2), of demo_pairs] demo_facts(1) unfolding t by auto
qed

text \<open>C22. The levels: each holds exactly the elements whose parents are all in earlier levels; they end without an
  error exactly when there is no cycle, and then the levels in a row hold the elements of \<open>topsort\<close>.\<close>

theorem topsort_levels_correct:
  assumes "fair order"
  shows "\<exists>ls e. topsort_levels order P = Inr (ls, e) \<and>
    (\<forall>k < length ls. ls ! k \<noteq> [] \<and> distinct (ls ! k) \<and>
      set (ls ! k) = {x \<in> elements P - earlier ls k. \<forall>a. (a, x) \<in> set P \<longrightarrow> a \<in> earlier ls k}) \<and>
    (e = Exhausted \<longleftrightarrow> acyclic (set P)) \<and>
    (\<forall>xs. topsort order P = Inr (Sorted xs) \<longrightarrow> e = Exhausted \<and> set (concat ls) = set xs)"
proof -
  obtain np ch where 0: "count_pairs P = (np, ch)" by (cases "count_pairs P")
  have c: "counted P {} np" "childs P {} ch" using count_pairs_spec[OF 0] by simp_all
  obtain ls e where ls: "topsort_levels_core order np ch = Inr (ls, e)" "levels_from P {} ls"
      "e = Exhausted \<longleftrightarrow> elements P \<subseteq> set (concat ls)" "\<forall>x \<in> elements P - set (concat ls). parents_left P (set (concat ls)) x \<noteq> 0"
    using levels_core_spec[OF assms c] by (auto simp: closed_def)
  have all: "ordered P (concat ls)" "distinct (concat ls)" "set (concat ls) \<subseteq> elements P"
    using levels_from_ordered[where xs = "[]" and P = P and ls = ls] ls(2) by (auto simp: ordered_def)
  have acyclic: "e = Exhausted \<longleftrightarrow> acyclic (set P)"
  proof
    assume "e = Exhausted"
    then show "acyclic (set P)" using ordered_acyclic[OF all(1) _ all(2)] ls(3) all(3) by blast
  next
    assume "acyclic (set P)"
    then show "e = Exhausted" using left_over_cyclic[OF _ ls(4)] ls(3) by blast
  qed
  have same: "e = Exhausted \<and> set (concat ls) = set xs" if t: "topsort order P = Inr (Sorted xs)" for xs
  proof -
    obtain ys np ch where r: "topsort order P = Inr (if np = [] then Sorted ys else CycleError ys np ch)" "sort_inv P ys [] np ch"
      using topsort_run[OF assms] by blast
    then have "np = []" "ys = xs" using t by (auto split: if_splits)
    then have "acyclic (set P)" "set xs = elements P" using sorted_iff_acyclic[OF r(2)] by simp_all
    then show ?thesis using acyclic ls(3) all(3) by blast
  qed
  have levels: "\<forall>k < length ls. ls ! k \<noteq> [] \<and> distinct (ls ! k) \<and>
      set (ls ! k) = {x \<in> elements P - earlier ls k. \<forall>a. (a, x) \<in> set P \<longrightarrow> a \<in> earlier ls k}"
    using levels_from_nth[OF ls(2)] by simp
  have "topsort_levels order P = Inr (ls, e)" using ls(1) by (simp add: topsort_levels_def 0)
  then show ?thesis using levels acyclic same by blast
qed

theorem topsort_levels_correct_witness:
  "topsort_levels id demo_pairs = Inr ([[1], [2, 3], [4, 5], [6]], Exhausted) \<and> set (concat [[1], [2, 3], [4, 5], [6]]) = set [1, 2, 3, 5, 4, 6 :: nat]"
proof -
  have t: "topsort_levels id demo_pairs = Inr ([[1], [2, 3], [4, 5], [6]], Exhausted)" "topsort id demo_pairs = Inr (Sorted [1, 2, 3, 5, 4, 6])"
    by code_simp+
  show ?thesis using topsort_levels_correct[OF demo_facts(2), of demo_pairs] unfolding t by blast
qed

end
