(* ===== verification/FindCycles.thy ===== *)
theory FindCycles
  imports TopSort "HOL-Library.Multiset"
begin

text \<open>
  \<open>find_cycles\<close> of \<open>simulation/bindings/python/topsort.py\<close>, with \<open>is_rotated\<close> of \<open>rad_util.py\<close>: the search for the
  cycles of a graph, given as a dictionary from parents to children, by a stack of paths.  The generator is modelled
  as the list of what it yields, for a caller that leaves the dictionary alone.  The loop ends because every path
  that is pushed leaves less room than the one it replaces.
\<close>

section \<open>Cycles\<close>

definition is_rotated :: "'a list \<Rightarrow> 'a list \<Rightarrow> bool res" where
  "is_rotated seq1 seq2 =
     (if length seq1 \<noteq> length seq2 then Inr False
      else rbind (py_get seq2 0) (\<lambda>head_item.
        let start_indexes = filter (\<lambda>i. seq1 ! i = head_item) [0..<length seq1]; double = seq1 @ seq1
        in Inr (\<exists>i \<in> set start_indexes. slice double i (i + length seq1) = seq2)))"

definition rotated_of_any :: "'a list list \<Rightarrow> 'a list \<Rightarrow> bool res" where
  "rotated_of_any cycles cycle = rfold (\<lambda>dup other. if dup then Inr True else is_rotated other cycle) False cycles"

text \<open>The loop over the children of the last node of a path; the head of the list of paths is the top of the stack.\<close>

type_synonym 'a search = "'a list list \<times> 'a set \<times> 'a list list"

fun scan_children :: "'a list \<Rightarrow> 'a list \<Rightarrow> 'a search \<Rightarrow> 'a search res" where
  "scan_children path [] s = Inr s"
| "scan_children path (child # cs) (paths, visited, cycles) =
     (if child \<in> set path then
        (let cycle = dropWhile (\<lambda>x. x \<noteq> child) path
         in rbind (rotated_of_any cycles cycle) (\<lambda>is_dup.
              scan_children path cs (paths, visited, if is_dup then cycles else cycles @ [cycle])))
      else scan_children path cs ((path @ [child]) # paths, insert child visited, cycles))"

definition nodes_of :: "'a children \<Rightarrow> 'a set" where
  "nodes_of g = fst ` set g \<union> (\<Union>(_, cs) \<in> set g. set cs)"

definition room :: "'a children \<Rightarrow> 'a list list \<Rightarrow> nat multiset" where
  "room g paths = mset (map (\<lambda>p. card (nodes_of g - set p)) paths)"

lemma scan_children_paths:
  "scan_children path cs (paths, visited, cycles) = Inr (paths', visited', cycles') \<Longrightarrow>
   paths' = rev (map (\<lambda>c. path @ [c]) (filter (\<lambda>c. c \<notin> set path) cs)) @ paths \<and>
   visited' = visited \<union> (set cs - set path)"
proof (induction cs arbitrary: paths visited cycles)
  case (Cons c cs)
  then show ?case by (auto simp: res_simps Let_def split: if_splits)
qed simp

lemma room_decreases:
  assumes "map_of g (last path) = Some cs" "scan_children path cs (paths, visited, cycles) = Inr (paths', v', c')"
  shows "(room g paths', room g (path # paths)) \<in> mult less_than"
proof -
  have fin: "finite (nodes_of g)" by (auto simp: nodes_of_def)
  let ?new = "map (\<lambda>c. path @ [c]) (filter (\<lambda>c. c \<notin> set path) cs)"
  have "card (nodes_of g - set p) < card (nodes_of g - set path)" if p: "p \<in> set ?new" for p
  proof -
    obtain c where c: "p = path @ [c]" "c \<in> set cs" "c \<notin> set path" using p by auto
    have "(last path, cs) \<in> set g" using assms(1) by (rule map_of_SomeD)
    then have "c \<in> nodes_of g" using c(2) by (auto simp: nodes_of_def)
    then have "nodes_of g - set p \<subset> nodes_of g - set path" using c by auto
    then show ?thesis using fin by (simp add: psubset_card_mono)
  qed
  then have "\<forall>k \<in># room g (rev ?new). \<exists>j \<in># {#card (nodes_of g - set path)#}. (k, j) \<in> less_than"
    by (auto simp: room_def)
  then have "(room g paths + room g (rev ?new), room g paths + {#card (nodes_of g - set path)#}) \<in> mult less_than"
    by (intro one_step_implies_mult) auto
  moreover have "paths' = rev ?new @ paths" using scan_children_paths[OF assms(2)] by simp
  ultimately show ?thesis by (simp add: room_def union_commute)
qed

function walk_paths :: "'a children \<Rightarrow> 'a search \<Rightarrow> 'a search res" where
  "walk_paths g ([], visited, cycles) = Inr ([], visited, cycles)"
| "walk_paths g (path # paths, visited, cycles) =
     (if path = [] then Inl IndexError
      else (case map_of g (last path) of None \<Rightarrow> walk_paths g (paths, visited, cycles)
        | Some children \<Rightarrow> (case scan_children path children (paths, visited, cycles) of Inl e \<Rightarrow> Inl e
            | Inr (paths', visited', cycles') \<Rightarrow> walk_paths g (paths', visited', cycles'))))"
  by pat_completeness auto
termination
proof (relation "inv_image (mult less_than) (\<lambda>(g, paths, _). room g paths)", goal_cases)
  case 1
  then show ?case by (intro wf_inv_image wf_mult) simp
next
  case (2 g path paths visited cycles)
  have "(room g paths + {#}, room g paths + {#card (nodes_of g - set path)#}) \<in> mult less_than"
    by (rule one_step_implies_mult) auto
  then show ?case by (simp add: room_def)
next
  case 3
  then show ?case using room_decreases by fastforce
qed

text \<open>Every key is the start of a search, unless an earlier search has visited it.\<close>

definition search_from :: "'a children \<Rightarrow> 'a set \<times> 'a list list \<Rightarrow> 'a \<Rightarrow> ('a set \<times> 'a list list) res" where
  "search_from g s parent =
     (let (visited, cycles) = s
      in if parent \<in> visited then Inr s else rbind (walk_paths g ([[parent]], visited, cycles)) (\<lambda>(_, v, c). Inr (v, c)))"

definition find_cycles :: "('a list \<Rightarrow> 'a list) \<Rightarrow> 'a children \<Rightarrow> 'a list list res" where
  "find_cycles order g = rbind (rfold (search_from g) ({}, []) (order (map fst g))) (\<lambda>(_, cycles). Inr cycles)"

section \<open>Rotations\<close>

definition rotation :: "'a list \<Rightarrow> 'a list \<Rightarrow> bool" where
  "rotation a b = (\<exists>n. b = rotate n a)"

lemma rotation_sym: "rotation a b \<Longrightarrow> rotation b a"
proof -
  assume "rotation a b"
  then obtain n where n: "b = rotate (n mod length a) a" unfolding rotation_def by (metis rotate_conv_mod)
  have "rotate (length a - n mod length a) b = a"
  proof (cases "a = []")
    case False
    then have "n mod length a < length a" by simp
    then have "rotate (length a - n mod length a) b = rotate (length a) a" unfolding n rotate_rotate by simp
    then show ?thesis by simp
  qed (simp add: n)
  then show ?thesis unfolding rotation_def by metis
qed

lemma rotation_trans: "rotation a b \<Longrightarrow> rotation b c \<Longrightarrow> rotation a c"
  by (auto simp: rotation_def rotate_rotate)

lemma rotation_swap: "rotation (xs @ ys) (ys @ xs)"
  unfolding rotation_def by (metis rotate_append)

lemma slice_double: "i < length xs \<Longrightarrow> slice (xs @ xs) i (i + length xs) = rotate i xs"
  by (simp add: slice_def rotate_drop_take)

lemma is_rotated_spec:
  assumes "b \<noteq> []"
  shows "is_rotated a b = Inr (rotation a b)"
proof (cases "length a = length b")
  case True
  have "(\<exists>i < length a. a ! i = hd b \<and> rotate i a = b) \<longleftrightarrow> rotation a b"
  proof
    assume "rotation a b"
    then obtain n where "b = rotate (n mod length a) a" unfolding rotation_def by (metis rotate_conv_mod)
    moreover have "n mod length a < length a" "a \<noteq> []" using assms True by auto
    ultimately show "\<exists>i < length a. a ! i = hd b \<and> rotate i a = b"
      using hd_rotate_conv_nth[of a "n mod length a"] by (intro exI[of _ "n mod length a"]) simp
  qed (auto simp: rotation_def)
  moreover have "(\<exists>i \<in> set (filter (\<lambda>i. a ! i = hd b) [0..<length a]). slice (a @ a) i (i + length a) = b) \<longleftrightarrow>
      (\<exists>i < length a. a ! i = hd b \<and> rotate i a = b)"
    by (auto simp: slice_double)
  moreover have "py_get b 0 = Inr (hd b)" using assms by (simp add: py_get_def hd_conv_nth)
  ultimately show ?thesis using True by (simp add: is_rotated_def Let_def)
next
  case False
  then show ?thesis by (auto simp: is_rotated_def rotation_def)
qed

lemma rotated_of_any_spec: "c \<noteq> [] \<Longrightarrow> rotated_of_any cycles c = Inr (\<exists>z \<in> set cycles. rotation z c)"
proof -
  assume c: "c \<noteq> []"
  have "rfold (\<lambda>dup other. if dup then Inr True else is_rotated other c) b cycles = Inr (b \<or> (\<exists>z \<in> set cycles. rotation z c))" for b
    by (induction cycles arbitrary: b) (auto simp: is_rotated_spec[OF c])
  then show ?thesis by (simp add: rotated_of_any_def)
qed

section \<open>Paths and cycles of a graph\<close>

definition edge :: "'a children \<Rightarrow> 'a \<Rightarrow> 'a \<Rightarrow> bool" where
  "edge g a b = (\<exists>cs. map_of g a = Some cs \<and> b \<in> set cs)"

definition simple :: "'a children \<Rightarrow> 'a list \<Rightarrow> bool" where
  "simple g p = (p \<noteq> [] \<and> distinct p \<and> successively (edge g) p)"

definition is_cycle :: "'a children \<Rightarrow> 'a list \<Rightarrow> bool" where
  "is_cycle g z = (simple g z \<and> edge g (last z) (hd z))"

lemma simple_extend: "simple g p \<Longrightarrow> edge g (last p) c \<Longrightarrow> c \<notin> set p \<Longrightarrow> simple g (p @ [c])"
  by (auto simp: simple_def successively_append_iff)

lemma cycle_found:
  assumes "simple g p" "edge g (last p) c" "c \<in> set p"
  shows "is_cycle g (dropWhile (\<lambda>x. x \<noteq> c) p)"
proof -
  obtain xs ys where p: "p = xs @ c # ys" "c \<notin> set xs" using split_list_first[OF assms(3)] by blast
  then have "dropWhile (\<lambda>x. x \<noteq> c) p = c # ys" by (simp add: dropWhile_append)
  then show ?thesis using assms(1,2) by (auto simp: p(1) is_cycle_def simple_def successively_append_iff)
qed

definition good_cycles :: "'a children \<Rightarrow> 'a list list \<Rightarrow> bool" where
  "good_cycles g cycles = ((\<forall>z \<in> set cycles. is_cycle g z) \<and> sorted_wrt (\<lambda>a b. \<not> rotation a b) cycles)"

lemma scan_children_spec:
  assumes "simple g path"
  shows "good_cycles g cycles \<Longrightarrow> \<forall>c \<in> set cs. edge g (last path) c \<Longrightarrow>
    \<exists>cycles'. scan_children path cs (paths, visited, cycles) =
      Inr (rev (map (\<lambda>c. path @ [c]) (filter (\<lambda>c. c \<notin> set path) cs)) @ paths, visited \<union> (set cs - set path), cycles') \<and>
      good_cycles g cycles' \<and> set cycles \<subseteq> set cycles' \<and>
      (\<forall>c \<in> set cs \<inter> set path. \<exists>z \<in> set cycles'. rotation z (dropWhile (\<lambda>x. x \<noteq> c) path))"
proof (induction cs arbitrary: paths visited cycles)
  case (Cons c cs)
  show ?case
  proof (cases "c \<in> set path")
    case True
    let ?z = "dropWhile (\<lambda>x. x \<noteq> c) path" and ?dup = "\<lambda>z. \<exists>y \<in> set cycles. rotation y z"
    let ?cycles = "if ?dup ?z then cycles else cycles @ [?z]"
    have z: "is_cycle g ?z" using cycle_found[OF assms _ True] Cons.prems(2) by simp
    then have ne: "?z \<noteq> []" by (auto simp: is_cycle_def simple_def)
    have f: "good_cycles g ?cycles" using Cons.prems(1) z by (auto simp: good_cycles_def sorted_wrt_append)
    have "rotation ?z ?z" unfolding rotation_def by (rule exI[of _ 0]) simp
    then have this_one: "\<exists>y \<in> set ?cycles. rotation y ?z" by auto
    obtain cycles' where IH: "scan_children path cs (paths, visited, ?cycles) =
        Inr (rev (map (\<lambda>c. path @ [c]) (filter (\<lambda>c. c \<notin> set path) cs)) @ paths, visited \<union> (set cs - set path), cycles')"
        "good_cycles g cycles'" "set ?cycles \<subseteq> set cycles'" "\<forall>c \<in> set cs \<inter> set path. \<exists>z \<in> set cycles'. rotation z (dropWhile (\<lambda>x. x \<noteq> c) path)"
      using Cons.IH[OF f, of paths visited] Cons.prems(2) by auto
    have "\<exists>y \<in> set cycles'. rotation y ?z" using this_one IH(3) by blast
    then have "\<forall>x \<in> set (c # cs) \<inter> set path. \<exists>z \<in> set cycles'. rotation z (dropWhile (\<lambda>y. y \<noteq> x) path)"
      using IH(4) by (metis Int_iff set_ConsD)
    moreover have "set cycles \<subseteq> set cycles'" using IH(3) by (simp split: if_splits)
    moreover have "scan_children path (c # cs) (paths, visited, cycles) = scan_children path cs (paths, visited, ?cycles)"
      using True by (simp only: scan_children.simps if_True Let_def rotated_of_any_spec[OF ne] rbind_simps)
    moreover have "filter (\<lambda>c. c \<notin> set path) (c # cs) = filter (\<lambda>c. c \<notin> set path) cs" "set (c # cs) - set path = set cs - set path"
      using True by auto
    ultimately show ?thesis using IH(1,2) by (intro exI[of _ cycles']) simp
  next
    case False
    then show ?thesis using Cons.IH[OF Cons.prems(1), of "(path @ [c]) # paths" "insert c visited"] Cons.prems(2) by auto
  qed
qed auto

section \<open>A search finds every cycle behind its start\<close>

text \<open>All cycles that close on an extension of the path are among the found ones, up to rotation.\<close>

definition covered :: "'a children \<Rightarrow> 'a list list \<Rightarrow> 'a list \<Rightarrow> bool" where
  "covered g cycles p = (\<forall>q c. simple g (p @ q) \<and> edge g (last (p @ q)) c \<and> c \<in> set (p @ q) \<longrightarrow>
     (\<exists>z \<in> set cycles. rotation z (dropWhile (\<lambda>x. x \<noteq> c) (p @ q))))"

lemma covered_mono: "covered g cycles p \<Longrightarrow> set cycles \<subseteq> set cycles' \<Longrightarrow> covered g cycles' p"
  unfolding covered_def by (meson subsetD)

definition reach :: "'a children \<Rightarrow> ('a \<times> 'a) set" where
  "reach g = {(a, b). edge g a b}\<^sup>*"

lemma covered_scanned:
  assumes "map_of g (last p) = Some cs" "p \<noteq> []"
    and "\<forall>c \<in> set cs \<inter> set p. \<exists>z \<in> set cycles. rotation z (dropWhile (\<lambda>x. x \<noteq> c) p)"
    and "\<forall>c \<in> set cs - set p. covered g cycles (p @ [c])"
  shows "covered g cycles p"
  unfolding covered_def
proof (intro allI impI, elim conjE)
  fix q c assume q: "simple g (p @ q)" "edge g (last (p @ q)) c" "c \<in> set (p @ q)"
  show "\<exists>z \<in> set cycles. rotation z (dropWhile (\<lambda>x. x \<noteq> c) (p @ q))"
  proof (cases q)
    case Nil
    then show ?thesis using q assms(1,3) by (auto simp: edge_def)
  next
    case (Cons x q')
    then have "edge g (last p) x" "x \<notin> set p" using q(1) assms(2) by (auto simp: simple_def successively_append_iff)
    then have "covered g cycles (p @ [x])" using assms(1,4) by (auto simp: edge_def)
    moreover have "p @ q = (p @ [x]) @ q'" using Cons by simp
    ultimately show ?thesis using q unfolding covered_def by metis
  qed
qed

lemma covered_no_children:
  assumes "map_of g (last p) = None" "p \<noteq> []"
  shows "covered g cycles p"
proof -
  have False if "simple g (p @ q)" "edge g (last (p @ q)) c" for q c
    using that assms by (cases q) (auto simp: simple_def successively_append_iff edge_def)
  then show ?thesis unfolding covered_def by blast
qed

lemma walk_paths_spec:
  "\<forall>p \<in> set paths. simple g p \<Longrightarrow> good_cycles g cycles \<Longrightarrow>
   \<exists>v cycles'. walk_paths g (paths, visited, cycles) = Inr ([], v, cycles') \<and> good_cycles g cycles' \<and> set cycles \<subseteq> set cycles' \<and>
     (\<forall>p \<in> set paths. covered g cycles' p) \<and> v \<subseteq> visited \<union> {x. \<exists>p \<in> set paths. (last p, x) \<in> reach g}"
proof (induction g "(paths, visited, cycles)" arbitrary: paths visited cycles rule: walk_paths.induct)
  case (2 g path paths visited cycles)
  have path: "simple g path" "path \<noteq> []" using 2(3) by (auto simp: simple_def)
  show ?case
  proof (cases "map_of g (last path)")
    case None
    obtain v cycles' where IH: "walk_paths g (paths, visited, cycles) = Inr ([], v, cycles')" "good_cycles g cycles'" "set cycles \<subseteq> set cycles'"
        "\<forall>p \<in> set paths. covered g cycles' p" "v \<subseteq> visited \<union> {x. \<exists>p \<in> set paths. (last p, x) \<in> reach g}"
      using 2(1)[OF path(2) None] 2(3,4) by auto
    then show ?thesis using None path(2) covered_no_children[OF None path(2)] by (intro exI[of _ v] exI[of _ cycles']) auto
  next
    case (Some cs)
    let ?paths = "rev (map (\<lambda>c. path @ [c]) (filter (\<lambda>c. c \<notin> set path) cs)) @ paths"
    have e: "\<forall>c \<in> set cs. edge g (last path) c" using Some by (auto simp: edge_def)
    obtain cycles1 where s: "scan_children path cs (paths, visited, cycles) = Inr (?paths, visited \<union> (set cs - set path), cycles1)"
        "good_cycles g cycles1" "set cycles \<subseteq> set cycles1" "\<forall>c \<in> set cs \<inter> set path. \<exists>z \<in> set cycles1. rotation z (dropWhile (\<lambda>x. x \<noteq> c) path)"
      using scan_children_spec[OF path(1) 2(4) e, of paths visited] by blast
    have simple: "\<forall>p \<in> set ?paths. simple g p" using 2(3) e simple_extend[OF path(1)] by auto
    obtain v cycles' where IH: "walk_paths g (?paths, visited \<union> (set cs - set path), cycles1) = Inr ([], v, cycles')" "good_cycles g cycles'" "set cycles1 \<subseteq> set cycles'"
        "\<forall>p \<in> set ?paths. covered g cycles' p" "v \<subseteq> visited \<union> (set cs - set path) \<union> {x. \<exists>p \<in> set ?paths. (last p, x) \<in> reach g}"
      using 2(2)[OF path(2) Some s(1) refl refl simple s(2)] by blast
    have "covered g cycles' path"
    proof (rule covered_scanned[OF Some path(2)])
      show "\<forall>c \<in> set cs \<inter> set path. \<exists>z \<in> set cycles'. rotation z (dropWhile (\<lambda>x. x \<noteq> c) path)" using s(4) IH(3) by (meson subsetD)
      show "\<forall>c \<in> set cs - set path. covered g cycles' (path @ [c])" using IH(4) by auto
    qed
    moreover have "(last path, x) \<in> reach g" if "c \<in> set cs" "(c, x) \<in> reach g" for c x
      using that e unfolding reach_def by (meson converse_rtrancl_into_rtrancl case_prodI mem_Collect_eq)
    then have "v \<subseteq> visited \<union> {x. \<exists>p \<in> set (path # paths). (last p, x) \<in> reach g}"
      using IH(5) by (fastforce simp: reach_def)
    moreover have "walk_paths g (path # paths, visited, cycles) = Inr ([], v, cycles')" using path(2) Some s(1) IH(1) by simp
    ultimately show ?thesis using IH(2-4) s(3) by (intro exI[of _ v] exI[of _ cycles']) auto
  qed
qed auto

text \<open>Behind a start stands a path without repetition that meets a given cycle in its last node only.\<close>

lemma path_to_cycle:
  assumes "(s, v) \<in> reach g" "v \<in> set z"
  shows "\<exists>p w. simple g (p @ [w]) \<and> hd (p @ [w]) = s \<and> w \<in> set z \<and> set p \<inter> set z = {}"
  using assms unfolding reach_def
proof (induction rule: converse_rtrancl_induct)
  case base
  then show ?case by (intro exI[of _ "[]"] exI[of _ v]) (simp add: simple_def)
next
  case (step s t)
  then obtain p w where p: "simple g (p @ [w])" "hd (p @ [w]) = t" "w \<in> set z" "set p \<inter> set z = {}" by blast
  show ?case
  proof (cases "s \<in> set z")
    case True
    then show ?thesis by (intro exI[of _ "[]"] exI[of _ s]) (simp add: simple_def)
  next
    case False
    show ?thesis
    proof (cases "s \<in> set p")
      case True
      then obtain xs ys where xs: "p = xs @ s # ys" by (meson split_list)
      then show ?thesis using p by (intro exI[of _ "s # ys"] exI[of _ w]) (auto simp: simple_def successively_append_iff)
    next
      case out: False
      have "simple g ((s # p) @ [w])" using p(1,2,3) step(1) False out by (cases p) (auto simp: simple_def)
      then show ?thesis using p(3,4) False by (intro exI[of _ "s # p"] exI[of _ w]) auto
    qed
  qed
qed

lemma is_cycle_rotated:
  assumes "is_cycle g (xs @ ws)" "ws \<noteq> []"
  shows "is_cycle g (ws @ xs)"
proof (cases "xs = []")
  case False
  then show ?thesis using assms by (auto simp: is_cycle_def simple_def successively_append_iff hd_append last_append)
qed (use assms in simp)

lemma cycle_covered:
  assumes "(s, v) \<in> reach g" "v \<in> set z" "is_cycle g z" "covered g cycles [s]"
  shows "\<exists>y \<in> set cycles. rotation y z"
proof -
  obtain p w where p: "simple g (p @ [w])" "hd (p @ [w]) = s" "w \<in> set z" "set p \<inter> set z = {}"
    using path_to_cycle[OF assms(1,2)] by blast
  obtain xs ys where z: "z = xs @ w # ys" using p(3) by (meson split_list)
  let ?z = "w # ys @ xs"
  have c: "is_cycle g ?z" using assms(3) is_cycle_rotated[of g xs "w # ys"] unfolding z by simp
  have path: "simple g (p @ ?z)" using p(1,4) c by (auto simp: z is_cycle_def simple_def successively_append_iff)
  obtain q where q: "p @ ?z = [s] @ q" using p(2) by (cases p) auto
  have "edge g (last (p @ ?z)) w" using c by (simp add: is_cycle_def)
  then have "\<exists>y \<in> set cycles. rotation y (dropWhile (\<lambda>x. x \<noteq> w) (p @ ?z))"
    using assms(4) path unfolding covered_def q by (metis list.set_intros(1) Un_iff q set_append)
  moreover have "w \<notin> set p" using p(3,4) by blast
  then have "dropWhile (\<lambda>x. x \<noteq> w) (p @ ?z) = ?z" by (auto simp: dropWhile_append)
  moreover have "rotation ?z z" unfolding z using rotation_swap[of "w # ys" xs] by simp
  ultimately show ?thesis using rotation_trans by metis
qed

lemma search_from_spec:
  assumes "good_cycles g cycles" "\<forall>x \<in> visited. \<exists>s. (s, x) \<in> reach g \<and> covered g cycles [s]"
  shows "\<exists>v cycles'. search_from g (visited, cycles) k = Inr (v, cycles') \<and> good_cycles g cycles' \<and> set cycles \<subseteq> set cycles' \<and>
    (\<forall>x \<in> insert k v. \<exists>s. (s, x) \<in> reach g \<and> covered g cycles' [s])"
proof (cases "k \<in> visited")
  case True
  then show ?thesis using assms by (intro exI[of _ visited] exI[of _ cycles]) (auto simp: search_from_def)
next
  case False
  obtain v cycles' where w: "walk_paths g ([[k]], visited, cycles) = Inr ([], v, cycles')" "good_cycles g cycles'" "set cycles \<subseteq> set cycles'"
      "\<forall>p \<in> set [[k]]. covered g cycles' p" "v \<subseteq> visited \<union> {x. \<exists>p \<in> set [[k]]. (last p, x) \<in> reach g}"
    using walk_paths_spec[of "[[k]]" g cycles visited] assms(1) by (auto simp: simple_def)
  have "\<exists>s. (s, x) \<in> reach g \<and> covered g cycles' [s]" if x: "x \<in> insert k v" for x
  proof (cases "x \<in> visited")
    case True
    then show ?thesis using assms(2) covered_mono[OF _ w(3)] by blast
  next
    case False
    then have "(k, x) \<in> reach g" using x w(5) by (auto simp: reach_def)
    then show ?thesis using w(4) by auto
  qed
  then show ?thesis using w(1-3) False by (intro exI[of _ v] exI[of _ cycles']) (auto simp: search_from_def)
qed

lemma searches_spec:
  "good_cycles g cycles \<Longrightarrow> \<forall>x \<in> visited. \<exists>s. (s, x) \<in> reach g \<and> covered g cycles [s] \<Longrightarrow>
   \<exists>v cycles'. rfold (search_from g) (visited, cycles) ks = Inr (v, cycles') \<and> good_cycles g cycles' \<and> set cycles \<subseteq> set cycles' \<and>
     (\<forall>x \<in> set ks. \<exists>s. (s, x) \<in> reach g \<and> covered g cycles' [s])"
proof (induction ks arbitrary: visited cycles)
  case (Cons k ks)
  obtain v cycles1 where 1: "search_from g (visited, cycles) k = Inr (v, cycles1)" "good_cycles g cycles1" "set cycles \<subseteq> set cycles1"
      "\<forall>x \<in> insert k v. \<exists>s. (s, x) \<in> reach g \<and> covered g cycles1 [s]"
    using search_from_spec[OF Cons.prems] by blast
  have "\<forall>x \<in> v. \<exists>s. (s, x) \<in> reach g \<and> covered g cycles1 [s]" using 1(4) by blast
  from Cons.IH[OF 1(2) this] obtain v' cycles' where 2: "rfold (search_from g) (v, cycles1) ks = Inr (v', cycles')" "good_cycles g cycles'" "set cycles1 \<subseteq> set cycles'"
      "\<forall>x \<in> set ks. \<exists>s. (s, x) \<in> reach g \<and> covered g cycles' [s]"
    by blast
  have "\<exists>s. (s, k) \<in> reach g \<and> covered g cycles' [s]" using 1(4) covered_mono[OF _ 2(3)] by blast
  then show ?case using 1(1,3) 2 by (intro exI[of _ v'] exI[of _ cycles']) auto
qed auto

lemma cycles_found:
  assumes "fair order" "distinct (map fst g)"
  shows "\<exists>cycles. find_cycles order g = Inr cycles \<and> good_cycles g cycles \<and> (\<forall>z. is_cycle g z \<longrightarrow> (\<exists>y \<in> set cycles. rotation y z))"
proof -
  obtain v cycles where c: "rfold (search_from g) ({}, []) (order (map fst g)) = Inr (v, cycles)" "good_cycles g cycles"
      "\<forall>x \<in> set (order (map fst g)). \<exists>s. (s, x) \<in> reach g \<and> covered g cycles [s]"
    using searches_spec[of g "[]" "{}" "order (map fst g)"] by (auto simp: good_cycles_def)
  have "\<exists>y \<in> set cycles. rotation y z" if z: "is_cycle g z" for z
  proof -
    have "last z \<in> set z" "edge g (last z) (hd z)" using z by (auto simp: is_cycle_def simple_def)
    moreover from this have "last z \<in> set (order (map fst g))"
      using assms by (auto simp: fair_def edge_def dest: map_of_SomeD intro: rev_image_eqI)
    ultimately show ?thesis using c(3) cycle_covered[OF _ _ z] by blast
  qed
  then show ?thesis using c(1,2) by (auto simp: find_cycles_def)
qed

section \<open>Properties\<close>

text \<open>C21. The search yields cycles only, no cycle twice (not even rotated), and every cycle of the graph, up to rotation.\<close>

theorem find_cycles_correct:
  assumes "fair order" "distinct (map fst g)"
  shows "\<exists>cycles. find_cycles order g = Inr cycles \<and> (\<forall>z \<in> set cycles. is_cycle g z) \<and>
    sorted_wrt (\<lambda>a b. \<not> rotation a b) cycles \<and> (\<forall>z. is_cycle g z \<longrightarrow> (\<exists>y \<in> set cycles. rotation y z))"
  using cycles_found[OF assms] by (auto simp: good_cycles_def)

theorem find_cycles_correct_witness:
  "find_cycles id [(''A'', [''B1'', ''B2'']), (''B1'', [''C'']), (''B2'', [''C'']), (''C'', [''A'', ''B1''])] =
     Inr [[''A'', ''B2'', ''C''], [''C'', ''B1''], [''A'', ''B1'', ''C'']] \<and> \<not> rotation [''A'', ''B2'', ''C''] [''A'', ''B1'', ''C'']"
proof -
  let ?g = "[(''A'', [''B1'', ''B2'']), (''B1'', [''C'']), (''B2'', [''C'']), (''C'', [''A'', ''B1''])]"
  have t: "find_cycles id ?g = Inr [[''A'', ''B2'', ''C''], [''C'', ''B1''], [''A'', ''B1'', ''C'']]" by code_simp
  have d: "distinct (map fst ?g)" "fair id" by (simp_all add: fair_def)
  show ?thesis using find_cycles_correct[OF d(2,1)] unfolding t by simp
qed

end
