(* ===== verification/ModuleScan.thy ===== *)
theory ModuleScan
  imports TopSort PyFiles "HOL-Library.List_Lexorder" "HOL-Library.Char_ord"
begin

text \<open>
  The first half of \<open>ns3_module_scan\<close> in \<open>simulation/bindings/python/ns3modulescan.py\<close>: the modules of the simulator,
  read as a dictionary from names to dependencies and headers, are sorted by \<open>topsort\<close>; each gets a section of the
  generated bindings, its headers are mapped to the section, and the section's place is its precedence.  The scan of
  the headers by pybindgen, which uses the two tables, is not modelled.
\<close>

type_synonym modules = "(string \<times> string list \<times> string list) list"

definition module_graph :: "modules \<Rightarrow> (string \<times> string) list" where
  "module_graph ms = concat (map (\<lambda>name. map (\<lambda>dep. (dep, name)) (sort (fst (the (map_of ms name))))) (sort (map fst ms)))"

definition section_name :: "string \<Rightarrow> string" where
  "section_name m = ''ns3_module_'' @ map (\<lambda>c. if c = CHR ''-'' then CHR ''_'' else c) m"

record scan_tables =
  sections :: "string list"
  headers_map :: "(string \<times> string) list"
  section_precedences :: "(string \<times> nat) list"

definition add_section :: "modules \<Rightarrow> scan_tables \<Rightarrow> nat \<times> string \<Rightarrow> scan_tables res" where
  "add_section ms t e =
     (let (prec, m) = e; name = section_name m
      in rbind (of_option KeyError (map_of ms m)) (\<lambda>(deps, headers).
        Inr (t\<lparr>sections := sections t @ [name], headers_map := fold (\<lambda>h. AList.update h name) headers (headers_map t),
          section_precedences := AList.update name prec (section_precedences t)\<rparr>)))"

text \<open>The value is \<open>None\<close> when the sorting ends by a \<open>CycleError\<close>.\<close>

definition module_sections :: "(string list \<Rightarrow> string list) \<Rightarrow> modules \<Rightarrow> scan_tables option res" where
  "module_sections order ms =
     rbind (topsort order (module_graph ms)) (\<lambda>s. case s of CycleError _ _ _ \<Rightarrow> Inr None
       | Sorted sorted_modules \<Rightarrow>
           rbind (rfold (add_section ms) \<lparr>sections = [''__main__''], headers_map = [], section_precedences = []\<rparr> (enumerate 0 sorted_modules))
             (\<lambda>t. Inr (Some t)))"

definition get_section_precedence :: "scan_tables \<Rightarrow> string \<Rightarrow> int res" where
  "get_section_precedence t name =
     (if name = ''__main__'' then Inr (- 1) else of_option KeyError (map_option int (map_of (section_precedences t) name)))"

definition classify :: "scan_tables \<Rightarrow> string \<Rightarrow> string" where
  "classify t file_name = (case map_of (headers_map t) (basename file_name) of Some s \<Rightarrow> s | None \<Rightarrow> ''__main__'')"

section \<open>The sections\<close>

lemma module_graph_iff:
  "(d, m) \<in> set (module_graph ms) \<longleftrightarrow> m \<in> fst ` set ms \<and> d \<in> set (fst (the (map_of ms m)))"
  by (auto simp: module_graph_def)

definition headers_of :: "modules \<Rightarrow> string \<Rightarrow> string list" where
  "headers_of ms m = snd (the (map_of ms m))"

lemma map_of_fold_update: "map_of (fold (\<lambda>h. AList.update h v) hs d) h = (if h \<in> set hs then Some v else map_of d h)"
  by (induction hs arbitrary: d) (auto simp: update_conv')

lemma find_append: "find P (xs @ ys) = (case find P xs of None \<Rightarrow> find P ys | Some x \<Rightarrow> Some x)"
  by (induction xs) auto

text \<open>The tables after the modules \<open>xs\<close>, of which the first has the place \<open>k\<close>.\<close>

lemma add_sections:
  "set xs \<subseteq> fst ` set ms \<Longrightarrow> distinct (map section_name xs) \<Longrightarrow>
   \<exists>t'. rfold (add_section ms) t (enumerate k xs) = Inr t' \<and> sections t' = sections t @ map section_name xs \<and>
     (\<forall>i < length xs. map_of (section_precedences t') (section_name (xs ! i)) = Some (k + i)) \<and>
     (\<forall>s. s \<notin> section_name ` set xs \<longrightarrow> map_of (section_precedences t') s = map_of (section_precedences t) s) \<and>
     (\<forall>h. map_of (headers_map t') h = (case find (\<lambda>m. h \<in> set (headers_of ms m)) (rev xs) of None \<Rightarrow> map_of (headers_map t) h | Some m \<Rightarrow> Some (section_name m)))"
proof (induction xs arbitrary: t k)
  case (Cons x xs)
  obtain deps hs where x: "map_of ms x = Some (deps, hs)" using Cons.prems(1) by (metis insert_subset list.simps(15) map_of_eq_None_iff not_None_eq surj_pair)
  let ?t = "t\<lparr>sections := sections t @ [section_name x], headers_map := fold (\<lambda>h. AList.update h (section_name x)) hs (headers_map t),
      section_precedences := AList.update (section_name x) k (section_precedences t)\<rparr>"
  have step: "add_section ms t (k, x) = Inr ?t" by (simp add: add_section_def x of_option_def Let_def)
  obtain t' where IH: "rfold (add_section ms) ?t (enumerate (Suc k) xs) = Inr t'" "sections t' = sections ?t @ map section_name xs"
      "\<forall>i < length xs. map_of (section_precedences t') (section_name (xs ! i)) = Some (Suc k + i)"
      "\<forall>s. s \<notin> section_name ` set xs \<longrightarrow> map_of (section_precedences t') s = map_of (section_precedences ?t) s"
      "\<forall>h. map_of (headers_map t') h = (case find (\<lambda>m. h \<in> set (headers_of ms m)) (rev xs) of None \<Rightarrow> map_of (headers_map ?t) h | Some m \<Rightarrow> Some (section_name m))"
    using Cons.IH[of ?t "Suc k"] Cons.prems by auto
  have "map_of (section_precedences t') (section_name ((x # xs) ! i)) = Some (k + i)" if "i < length (x # xs)" for i
    using IH(3,4) that Cons.prems(2) by (cases i) (auto simp: update_conv')
  moreover have "map_of (section_precedences t') s = map_of (section_precedences t) s" if "s \<notin> section_name ` set (x # xs)" for s
    using IH(4) that by (auto simp: update_conv')
  moreover have "find P (rev (x # xs)) = (case find P (rev xs) of None \<Rightarrow> if P x then Some x else None | Some m \<Rightarrow> Some m)" for P
    by (auto simp: find_append split: option.split)
  then have "map_of (headers_map t') h = (case find (\<lambda>m. h \<in> set (headers_of ms m)) (rev (x # xs)) of None \<Rightarrow> map_of (headers_map t) h | Some m \<Rightarrow> Some (section_name m))" for h
    using IH(5) x by (auto simp: map_of_fold_update headers_of_def split: option.split)
  ultimately show ?case using IH(1,2) step by (intro exI[of _ t']) auto
qed simp

lemma elements_graph: "m \<in> elements (module_graph ms) \<longleftrightarrow> (\<exists>d. (d, m) \<in> set (module_graph ms)) \<or> (\<exists>k. (m, k) \<in> set (module_graph ms))"
  by (force simp: elements_def)

section \<open>Properties\<close>

text \<open>A module graph without cycles, whose dependencies are modules and whose section names differ, gets its
  sections: those of the dependencies of a module come before its own, a header of one module is classified into the
  section of that module, and a module that neither has nor is a dependency gets no section.\<close>

theorem sections_ordered:
  assumes "fair order" "acyclic (set (module_graph ms))" "inj_on section_name (fst ` set ms)"
    and "\<forall>(d, m) \<in> set (module_graph ms). d \<in> fst ` set ms"
  shows "\<exists>t. module_sections order ms = Inr (Some t) \<and>
    (\<forall>(d, m) \<in> set (module_graph ms). \<exists>i j. map_of (section_precedences t) (section_name d) = Some i \<and>
      map_of (section_precedences t) (section_name m) = Some j \<and> i < j) \<and>
    (\<forall>m \<in> elements (module_graph ms). \<forall>f. basename f \<in> set (headers_of ms m) \<and>
      (\<forall>k \<in> fst ` set ms. basename f \<in> set (headers_of ms k) \<longrightarrow> k = m) \<longrightarrow> classify t f = section_name m) \<and>
    (\<forall>m \<in> fst ` set ms - elements (module_graph ms). section_name m \<notin> set (tl (sections t)))"
proof -
  let ?P = "module_graph ms"
  obtain xs np ch where r: "topsort order ?P = Inr (if np = [] then Sorted xs else CycleError xs np ch)" "sort_inv ?P xs [] np ch"
    using topsort_run[OF assms(1)] by blast
  have np: "np = []" "set xs = elements ?P" using sorted_iff_acyclic[OF r(2)] assms(2) by blast+
  have xs: "distinct xs" "ordered ?P xs" using r(2) by (auto simp: sort_inv_def)
  have sub: "elements ?P \<subseteq> fst ` set ms"
  proof
    fix m assume "m \<in> elements ?P"
    then consider d where "(d, m) \<in> set ?P" | k where "(m, k) \<in> set ?P" unfolding elements_graph by blast
    then show "m \<in> fst ` set ms" using assms(4) by cases (simp add: module_graph_iff, blast)
  qed
  have inj: "distinct (map section_name xs)" using xs(1) inj_on_subset[OF assms(3) sub] np(2) by (simp add: distinct_map)
  let ?t0 = "\<lparr>sections = [''__main__''], headers_map = [], section_precedences = []\<rparr>"
  obtain t where t: "rfold (add_section ms) ?t0 (enumerate 0 xs) = Inr t" "sections t = ''__main__'' # map section_name xs"
      "\<forall>i < length xs. map_of (section_precedences t) (section_name (xs ! i)) = Some i"
      "\<forall>h. map_of (headers_map t) h = (case find (\<lambda>m. h \<in> set (headers_of ms m)) (rev xs) of None \<Rightarrow> map_of (headers_map ?t0) h | Some m \<Rightarrow> Some (section_name m))"
    using add_sections[of xs ms ?t0 0] sub np(2) inj by auto
  have "module_sections order ms = Inr (Some t)" using r(1) np(1) t(1) by (simp add: module_sections_def)
  moreover have "\<exists>i j. map_of (section_precedences t) (section_name d) = Some i \<and> map_of (section_precedences t) (section_name m) = Some j \<and> i < j"
    if e: "(d, m) \<in> set ?P" for d m
  proof -
    have "m \<in> set xs" using e np(2) by (force simp: elements_graph)
    then obtain j where j: "j < length xs" "xs ! j = m" by (auto simp: in_set_conv_nth)
    then have "d \<in> set (take j xs)" using xs(2) e by (auto simp: ordered_def)
    then obtain i where i: "i < j" "xs ! i = d" by (auto simp: in_set_conv_nth)
    then show ?thesis using t(3) j by (metis less_trans)
  qed
  moreover have "classify t f = section_name m"
    if m: "m \<in> elements ?P" and f: "basename f \<in> set (headers_of ms m)" "\<forall>k \<in> fst ` set ms. basename f \<in> set (headers_of ms k) \<longrightarrow> k = m" for m f
  proof -
    have "find (\<lambda>m. basename f \<in> set (headers_of ms m)) (rev xs) \<noteq> None" using m f(1) np(2) by (auto simp: find_None_iff)
    then obtain k where k: "find (\<lambda>m. basename f \<in> set (headers_of ms m)) (rev xs) = Some k" by blast
    then have "k \<in> set (rev xs)" "basename f \<in> set (headers_of ms k)" unfolding find_Some_iff by (metis nth_mem, blast)
    then have "k = m" using f(2) sub np(2) by auto
    then show ?thesis using k t(4) by (simp add: classify_def)
  qed
  moreover have "section_name m \<notin> set (tl (sections t))" if "m \<in> fst ` set ms - elements ?P" for m
  proof -
    have "section_name m \<noteq> section_name x" if "x \<in> set xs" for x
      using inj_onD[OF assms(3), of m x] \<open>m \<in> fst ` set ms - elements ?P\<close> sub np(2) that by blast
    then show ?thesis by (auto simp: t(2))
  qed
  ultimately show ?thesis by blast
qed

definition demo_modules :: modules where
  "demo_modules = [(''point-to-point'', [''network'', ''core''], [''pp.h'']), (''core'', [], [''object.h'']),
     (''network'', [''core''], [''node.h'']), (''lonely'', [], [''lonely.h''])]"

theorem sections_ordered_witness:
  "\<exists>t. module_sections id demo_modules = Inr (Some t) \<and> sections t = [''__main__'', ''ns3_module_core'', ''ns3_module_network'', ''ns3_module_point_to_point''] \<and>
     classify t ''ns3/node.h'' = ''ns3_module_network'' \<and> classify t ''ns3/lonely.h'' = ''__main__'' \<and>
     (\<exists>i j. map_of (section_precedences t) ''ns3_module_core'' = Some i \<and> map_of (section_precedences t) ''ns3_module_network'' = Some j \<and> i < j)"
proof -
  define t where "t = \<lparr>sections = [''__main__'', ''ns3_module_core'', ''ns3_module_network'', ''ns3_module_point_to_point''],
    headers_map = [(''object.h'', ''ns3_module_core''), (''node.h'', ''ns3_module_network''), (''pp.h'', ''ns3_module_point_to_point'')],
    section_precedences = [(''ns3_module_core'', 0), (''ns3_module_network'', 1), (''ns3_module_point_to_point'', 2)]\<rparr>"
  have g: "module_graph demo_modules = [(''core'', ''network''), (''core'', ''point-to-point''), (''network'', ''point-to-point'')]" by code_simp
  have m: "module_sections id demo_modules = Inr (Some t)" unfolding t_def by code_simp
  have f: "fair id" by (simp add: fair_def)
  have a: "acyclic (set (module_graph demo_modules))"
  proof -
    have "set (module_graph demo_modules) \<subseteq> measure length" by (simp add: g)
    then show ?thesis by (intro wf_acyclic wf_subset[OF wf_measure])
  qed
  have i: "inj_on section_name (fst ` set demo_modules)" by (simp add: demo_modules_def section_name_def)
  have d: "\<forall>(d, m) \<in> set (module_graph demo_modules). d \<in> fst ` set demo_modules" unfolding g by (simp add: demo_modules_def)
  have "(''core'', ''network'') \<in> set (module_graph demo_modules)" by (simp add: g)
  then have "\<exists>i j. map_of (section_precedences t) (section_name ''core'') = Some i \<and> map_of (section_precedences t) (section_name ''network'') = Some j \<and> i < j"
    using sections_ordered[OF f a i d] unfolding m by fast
  then have "\<exists>i j. map_of (section_precedences t) ''ns3_module_core'' = Some i \<and> map_of (section_precedences t) ''ns3_module_network'' = Some j \<and> i < j"
    by (simp add: section_name_def)
  moreover have "classify t ''ns3/node.h'' = ''ns3_module_network''" "classify t ''ns3/lonely.h'' = ''__main__''" unfolding t_def by code_simp+
  ultimately show ?thesis using m by (intro exI[of _ t]) (simp add: t_def)
qed

end
