(* ===== verification/Cflags.thy ===== *)
theory Cflags
  imports Prelude
begin

text \<open>
  \<open>simulation/waf-tools/cflags.py\<close>: the flags of the compiler for a build profile.  The environment is what the
  configuration has found out: the two compilers and the flags the user has set; \<open>append_value\<close> of waf appends to a
  list of it.  The warning and the help text of the option are not modelled.
\<close>

datatype traits = GccTraits | IccTraits | MsvcTraits

definition warnings_flags :: "traits \<Rightarrow> string list list" where
  "warnings_flags t = (case t of GccTraits \<Rightarrow> [] | IccTraits \<Rightarrow> [[], [], [''-Wall'']] | MsvcTraits \<Rightarrow> [[''/W2''], [''/WX''], [''/Wall'']])"

fun collect_warnings :: "string list list \<Rightarrow> nat list \<Rightarrow> string list" where
  "collect_warnings flags [] = []"
| "collect_warnings flags (l # ls) = (if l < length flags then flags ! l @ collect_warnings flags ls else [])"

definition get_warnings_flags :: "traits \<Rightarrow> nat \<Rightarrow> string list" where
  "get_warnings_flags t level = collect_warnings (warnings_flags t) [0..<level]"

text \<open>For a level above 3 there is no value.\<close>

definition get_optimization_flags :: "traits \<Rightarrow> nat \<Rightarrow> string list option" where
  "get_optimization_flags t level =
     (let msvc = (t = MsvcTraits)
      in if level = 0 then Some [if msvc then ''/Od'' else ''-O0'']
         else if level = 1 then Some (if msvc then [] else [''-O''])
         else if level = 2 then Some [if msvc then ''/O2'' else ''-O2'']
         else if level = 3 then Some [if msvc then ''/Ox'' else ''-O3'']
         else None)"

definition get_debug_flags :: "traits \<Rightarrow> nat \<Rightarrow> string list \<times> string list" where
  "get_debug_flags t level =
     (let msvc = (t = MsvcTraits)
      in if level = 0 then (if msvc then [] else [''-g0''], [''NDEBUG''])
         else if level = 1 then (if msvc then [''/ZI'', ''/RTC1''] else [''-g''], [])
         else (if msvc then [''/ZI'', ''/RTC1''] else [''-ggdb'', ''-g3''], [''_DEBUG'']))"

text \<open>Only the traits of gcc have this method.\<close>

definition get_cxx_version_flags :: "traits \<Rightarrow> string list res" where
  "get_cxx_version_flags t = (if t = GccTraits then Inr [''-std=gnu++11''] else Inl AttributeError)"

definition compiler_mapping :: "string \<Rightarrow> traits option" where
  "compiler_mapping = map_of [(''gcc'', GccTraits), (''g++'', GccTraits), (''msvc'', MsvcTraits), (''icc'', IccTraits), (''icpc'', IccTraits)]"

definition profiles :: "string \<Rightarrow> (nat \<times> nat \<times> nat) option" where
  "profiles = map_of [(''default'', 2, 1, 1), (''debug'', 0, 2, 3), (''release'', 3, 1, 0)]"

record build_env =
  compiler_cc :: string
  compiler_cxx :: string
  ccflags :: "string list"
  cxxflags :: "string list"
  ccdefines :: "string list"
  cxxdefines :: "string list"

definition find_traits :: "build_env \<Rightarrow> traits option" where
  "find_traits env = (case compiler_mapping (compiler_cc env) of Some t \<Rightarrow> Some t | None \<Rightarrow> compiler_mapping (compiler_cxx env))"

text \<open>\<open>append_value\<close> needs a list.\<close>

definition set_ccflags :: "string list option \<Rightarrow> string list \<times> string list \<Rightarrow> string list \<Rightarrow> build_env \<Rightarrow> build_env res" where
  "set_ccflags optimizations debug warnings env =
     (if compiler_cc env \<noteq> [] \<and> ccflags env = [] then
        rbind (of_option TypeError optimizations) (\<lambda>opt.
          Inr (env\<lparr>ccflags := ccflags env @ opt @ fst debug @ warnings, ccdefines := ccdefines env @ snd debug\<rparr>))
      else Inr env)"

definition set_cxxflags :: "string list option \<Rightarrow> string list \<times> string list \<Rightarrow> string list \<Rightarrow> string list \<Rightarrow> build_env \<Rightarrow> build_env res" where
  "set_cxxflags optimizations debug warnings cxx_version env =
     (if compiler_cxx env \<noteq> [] \<and> cxxflags env = [] then
        rbind (of_option TypeError optimizations) (\<lambda>opt.
          Inr (env\<lparr>cxxflags := cxxflags env @ opt @ fst debug @ warnings @ cxx_version, cxxdefines := cxxdefines env @ snd debug\<rparr>))
      else Inr env)"

text \<open>Without a compiler the code raises \<open>Utils.WafError\<close>, a name that the module \<open>Utils\<close> of the waf in the
  repository does not have.\<close>

definition configure :: "string \<Rightarrow> build_env \<Rightarrow> build_env res" where
  "configure build_profile env =
     (if compiler_cc env = [] \<and> compiler_cxx env = [] then Inl AttributeError
      else (case find_traits env of None \<Rightarrow> Inr env
        | Some compiler \<Rightarrow>
            rbind (of_option KeyError (profiles build_profile)) (\<lambda>(opt_level, warn_level, dbg_level).
            let optimizations = get_optimization_flags compiler opt_level;
                debug = get_debug_flags compiler dbg_level;
                warnings = get_warnings_flags compiler warn_level
            in rbind (get_cxx_version_flags compiler) (\<lambda>cxx_version.
               rbind (set_ccflags optimizations debug warnings env) (set_cxxflags optimizations debug warnings cxx_version)))))"

section \<open>The flags of gcc\<close>

lemma collect_warnings_take: "collect_warnings flags [k..<level] = concat (take (level - k) (drop k flags))"
proof (induction "level - k" arbitrary: k)
  case (Suc n)
  then have "[k..<level] = k # [Suc k..<level]" by (simp add: upt_conv_Cons)
  moreover have "level - k = Suc (level - Suc k)" using Suc(2) by simp
  ultimately show ?case using Suc(1)[of "Suc k"] Suc(2) by (cases "k < length flags") (auto simp: Cons_nth_drop_Suc[symmetric])
qed simp

lemma get_warnings_flags_eq: "get_warnings_flags t level = concat (take level (warnings_flags t))"
  by (simp add: get_warnings_flags_def collect_warnings_take)

lemma profiles_levels: "profiles p = Some (opt, warn, dbg) \<Longrightarrow> opt \<le> 3"
  by (auto simp: profiles_def split: if_splits)

text \<open>With gcc every profile sets, for each compiler that was found, the flags of its level of optimization and
  debugging, and for C++ the version of the language; flags the user has set are left alone, with their definitions.\<close>

theorem gcc_flags:
  assumes "find_traits env = Some GccTraits" "profiles p = Some (opt, warn, dbg)"
  shows "\<exists>o2 env'. get_optimization_flags GccTraits opt = Some o2 \<and> configure p env = Inr env' \<and>
    compiler_cc env' = compiler_cc env \<and> compiler_cxx env' = compiler_cxx env \<and>
    (if compiler_cc env \<noteq> [] \<and> ccflags env = []
     then ccflags env' = o2 @ fst (get_debug_flags GccTraits dbg) \<and> ccdefines env' = ccdefines env @ snd (get_debug_flags GccTraits dbg)
     else ccflags env' = ccflags env \<and> ccdefines env' = ccdefines env) \<and>
    (if compiler_cxx env \<noteq> [] \<and> cxxflags env = []
     then cxxflags env' = o2 @ fst (get_debug_flags GccTraits dbg) @ [''-std=gnu++11''] \<and> cxxdefines env' = cxxdefines env @ snd (get_debug_flags GccTraits dbg)
     else cxxflags env' = cxxflags env \<and> cxxdefines env' = cxxdefines env)"
proof -
  have some: "\<not> (compiler_cc env = [] \<and> compiler_cxx env = [])"
    using assms(1) by (auto simp: find_traits_def compiler_mapping_def)
  have "opt = 0 \<or> opt = 1 \<or> opt = 2 \<or> opt = 3" using profiles_levels[OF assms(2)] by auto
  then obtain o2 where o2: "get_optimization_flags GccTraits opt = Some o2" by (auto simp: get_optimization_flags_def)
  have w: "get_warnings_flags GccTraits warn = []" by (simp add: get_warnings_flags_eq warnings_flags_def)
  show ?thesis using some assms
    by (simp add: configure_def o2 w of_option_def get_cxx_version_flags_def Let_def set_ccflags_def set_cxxflags_def)
qed

definition demo_env :: build_env where
  "demo_env = \<lparr>compiler_cc = ''gcc'', compiler_cxx = ''g++'', ccflags = [''-O1''], cxxflags = [], ccdefines = [], cxxdefines = []\<rparr>"

theorem gcc_flags_witness:
  "configure ''release'' demo_env = Inr (demo_env\<lparr>cxxflags := [''-O3'', ''-g0'', ''-std=gnu++11''], cxxdefines := [''NDEBUG'']\<rparr>) \<and>
   (\<exists>env'. configure ''release'' demo_env = Inr env' \<and> ccflags env' = [''-O1''])"
proof -
  have "find_traits demo_env = Some GccTraits" "profiles ''release'' = Some (3, 1, 0)"
    by (simp_all add: find_traits_def demo_env_def compiler_mapping_def profiles_def)
  from gcc_flags[OF this] have "\<exists>env'. configure ''release'' demo_env = Inr env' \<and> ccflags env' = [''-O1'']"
    by (auto simp: demo_env_def)
  moreover have "configure ''release'' demo_env = Inr (demo_env\<lparr>cxxflags := [''-O3'', ''-g0'', ''-std=gnu++11''], cxxdefines := [''NDEBUG'']\<rparr>)"
    by code_simp
  ultimately show ?thesis by blast
qed

text \<open>The traits of icc and of msvc lack a method that is called for every compiler: the configuration fails.\<close>

theorem other_compilers_fail:
  assumes "find_traits env = Some t" "t \<noteq> GccTraits" "profiles p \<noteq> None"
  shows "configure p env = Inl AttributeError"
proof -
  have "\<not> (compiler_cc env = [] \<and> compiler_cxx env = [])"
    using assms(1) by (auto simp: find_traits_def compiler_mapping_def)
  then show ?thesis using assms by (auto simp: configure_def of_option_def get_cxx_version_flags_def Let_def)
qed

theorem other_compilers_fail_witness:
  "configure ''default'' (demo_env\<lparr>compiler_cc := ''icc'', compiler_cxx := ''icpc''\<rparr>) = Inl AttributeError"
  by (rule other_compilers_fail[of _ IccTraits]) (simp_all add: find_traits_def demo_env_def compiler_mapping_def profiles_def)

end
