(* ===== verification/FlowBins.thy ===== *)
theory FlowBins
  imports TrafficGen
begin

text \<open>
  \<open>traffic_gen/flow_bins.py\<close>: bins of flow sizes for a distribution.  From the largest size the loop goes down by one
  percentage point, or to half of the size where a point is more than a factor of two; the printed bins are the sizes
  in increasing order with their percentages, here a list of pairs.  The loop takes fuel, and enough fuel is shown to
  exist for the distributions of byte sizes; \<open>None\<close> is the lack of fuel.
\<close>

section \<open>The bins\<close>

definition size_at :: "custom_rand \<Rightarrow> flt \<Rightarrow> int res" where
  "size_at cr p = rbind (getValueFromPercentile cr p) (\<lambda>v. case v of None \<Rightarrow> Inl TypeError | Some v \<Rightarrow> Inr (py_trunc v))"

text \<open>The percentage of a bin; in Python 2 \<open>None < 0\<close> holds, so that no percentage is an error too.\<close>

definition checked :: "int \<Rightarrow> flt option \<Rightarrow> (int \<times> flt) res" where
  "checked x p = (case p of None \<Rightarrow> Inl (SysExit 0) | Some p \<Rightarrow> if p < 0 then Inl (SysExit 0) else Inr (x, p))"

definition next_bin :: "custom_rand \<Rightarrow> int \<Rightarrow> flt \<Rightarrow> (int \<times> flt) res" where
  "next_bin cr x p1 = rbind (size_at cr p1) (\<lambda>x1.
     if x1 < x div 2 \<and> 1000 < x
     then rbind (getPercentileFromValue cr (f_of_int (x div 2))) (checked (x div 2))
     else checked x1 (Some p1))"

fun bins_loop :: "nat \<Rightarrow> custom_rand \<Rightarrow> int \<Rightarrow> flt \<Rightarrow> int list \<Rightarrow> int list res option" where
  "bins_loop 0 cr x p bins = None"
| "bins_loop (Suc n) cr x p bins =
     (if x \<le> 0 then Some (Inr bins)
      else let bins = (if bins = [] \<or> x \<noteq> last bins then bins @ [x] else bins) in
        if 1 < p then
          (case next_bin cr x (if 2 < p then fsub p 1 else 1) of Inl e \<Rightarrow> Some (Inl e)
            | Inr (x1, p1) \<Rightarrow> bins_loop n cr x1 p1 bins)
        else Some (Inr bins))"

definition flow_bins :: "nat \<Rightarrow> files \<Rightarrow> string \<Rightarrow> (int \<times> flt option) list res option" where
  "flow_bins fuel fs fileName =
     (case rbind (open_text fs fileName) (\<lambda>text. rbind (read_cdf text) (\<lambda>c. rbind (load_distribution c) (\<lambda>cr.
        rbind (size_at cr 100) (\<lambda>x. Inr (cr, x))))) of Inl e \<Rightarrow> Some (Inl e)
      | Inr (cr, x) \<Rightarrow> map_option (\<lambda>r. rbind r (\<lambda>bins.
          rmap (\<lambda>x. rbind (getPercentileFromValue cr (f_of_int x)) (\<lambda>p. Inr (x, p))) (sort bins))) (bins_loop fuel cr x 100 []))"

section \<open>Rounding of percentages\<close>

lemma rn_error_small: "\<bar>x\<bar> \<le> 256 \<Longrightarrow> \<bar>rn x - x\<bar> \<le> 1 / 2 ^ 45"
proof -
  assume x: "\<bar>x\<bar> \<le> 256"
  show ?thesis
  proof (cases "x = 0")
    case False
    have "pow2 (expo x) \<le> \<bar>x\<bar>" by (rule expo_bounds(1)[OF False])
    also have "\<bar>x\<bar> \<le> pow2 8" using x by (simp add: pow2_def)
    finally have "expo x \<le> 8" by simp
    then have "quantum x - 1 \<le> - 45" by (simp add: quantum_def)
    then have "pow2 (quantum x - 1) \<le> pow2 (- 45)" by simp
    then show ?thesis using rn_error[of x] by (simp add: pow2_def)
  qed simp
qed

lemma rn_le_small: "\<bar>x\<bar> \<le> 256 \<Longrightarrow> rn x \<le> x + 1 / 2 ^ 45"
  using rn_error_small[of x] by linarith

text \<open>One point below the percentage of a size lies no larger size: \<open>t\<close> is the distance of the size from the left end
  of its segment, which is \<open>dx\<close> sizes and \<open>dy\<close> points long and starts at the percentage \<open>y0\<close>.\<close>

lemma one_point_below:
  assumes dx: "1 \<le> dx" "dx \<le> 2 ^ 51" and dy: "pow2 (- 100) \<le> dy" "dy \<le> 101" and t: "0 \<le> t" "t \<le> dx" and y0: "0 \<le> y0" "y0 \<le> 100"
    and q: "q = rn (rn (y0 + rn (rn (dy / dx) * t)) - 1)" "y0 < q"
  shows "rn (dx / dy) * rn (q - y0) \<le> t" "q \<le> y0 + dy - 1 / 2"
proof -
  define e u :: rat where "e = 1 / 2 ^ 45" and "u = pow2 (- 53)"
  have eu: "0 \<le> e" "e \<le> 1 / 100" "101 * u \<le> e" "0 \<le> u" by (simp_all add: e_def u_def pow2_def)
  have dy0: "0 < dy" using dy(1) pow2_pos[of "- 100"] by linarith
  have dx0: "0 < dx" using dx(1) by linarith
  define D where "D = dy * t / dx"
  have D: "0 \<le> D" "D \<le> dy"
    using t dx0 dy0 mult_left_mono[OF t(2), of dy] by (simp_all add: D_def divide_le_eq)
  have low: "pow2 (- 1022) \<le> dy / dx" "pow2 (- 1022) \<le> dx / dy"
  proof -
    have "pow2 (- 1022) * dx \<le> pow2 (- 1022) * pow2 51" using dx(2) by (intro mult_left_mono) (simp_all add: pow2_nat)
    also have "\<dots> = pow2 (- 971)" by (simp flip: pow2_add)
    also have "\<dots> \<le> dy" using dy(1) pow2_le_iff[of "- 971" "- 100"] by linarith
    finally show "pow2 (- 1022) \<le> dy / dx" using dx0 by (simp add: le_divide_eq)
    have "pow2 (- 1022) * dy \<le> pow2 (- 1022) * pow2 7" using dy(2) by (intro mult_left_mono) (simp_all add: pow2_def)
    also have "\<dots> = pow2 (- 1015)" by (simp flip: pow2_add)
    also have "\<dots> \<le> dx" using dx(1) pow2_le_iff[of "- 1015" 0] by simp
    finally show "pow2 (- 1022) \<le> dx / dy" using dy0 by (simp add: le_divide_eq)
  qed
  have s: "rn (dy / dx) \<le> dy / dx * (1 + u)" "rn (dx / dy) \<le> dx / dy * (1 + u)"
    using f64.rnd_le_rel[OF low(1)] f64.rnd_le_rel[OF low(2)] unfolding u_def by blast+
  have s0: "0 \<le> rn (dy / dx)" "0 \<le> rn (dx / dy)" using dx0 dy0 by (simp_all add: rn_nonneg)
  have "rn (dy / dx) * t \<le> dy / dx * (1 + u) * t" using s(1) t(1) by (rule mult_right_mono)
  also have "\<dots> = D + D * u" by (simp add: D_def algebra_simps add_divide_distrib)
  also have "D * u \<le> 101 * u" using D dy(2) eu(4) by (intro mult_right_mono) auto
  finally have a: "rn (dy / dx) * t \<le> D + e" "0 \<le> rn (dy / dx) * t" using eu s0 t(1) by simp_all
  then have "rn (rn (dy / dx) * t) \<le> D + 2 * e"
    using rn_le_small[of "rn (dy / dx) * t"] D dy(2) eu(2) unfolding e_def[symmetric] by linarith
  moreover have "0 \<le> rn (rn (dy / dx) * t)" using a(2) by (rule rn_nonneg)
  ultimately have "rn (y0 + rn (rn (dy / dx) * t)) \<le> y0 + D + 3 * e" "0 \<le> rn (y0 + rn (rn (dy / dx) * t))"
    using rn_le_small[of "y0 + rn (rn (dy / dx) * t)"] y0 D dy(2) eu(2) rn_nonneg[of "y0 + rn (rn (dy / dx) * t)"]
    unfolding e_def[symmetric] by linarith+
  then have qD: "q \<le> y0 + D - 1 + 4 * e"
    using rn_le_small[of "rn (y0 + rn (rn (dy / dx) * t)) - 1"] y0 D dy(2) eu(2) unfolding q(1) e_def[symmetric] by linarith
  then show "q \<le> y0 + dy - 1 / 2" using D(2) eu(2) by linarith
  have b: "rn (q - y0) \<le> D - 1 / 2" "0 \<le> rn (q - y0)" "1 / 2 \<le> D"
    using rn_le_small[of "q - y0"] qD q(2) D dy(2) eu(2) rn_nonneg[of "q - y0"] unfolding e_def[symmetric] by linarith+
  have "rn (dx / dy) * rn (q - y0) \<le> dx / dy * (1 + u) * (D - 1 / 2)"
    using s(2) b s0 dx0 dy0 eu(4) by (intro mult_mono) auto
  also have "\<dots> = dx / dy * ((1 + u) * (D - 1 / 2))" by simp
  also have "(1 + u) * (D - 1 / 2) \<le> D"
  proof -
    have "u * D \<le> u * 101" using D dy(2) eu(4) by (intro mult_left_mono) auto
    then show ?thesis using eu by (simp add: algebra_simps)
  qed
  then have "dx / dy * ((1 + u) * (D - 1 / 2)) \<le> dx / dy * D" using dx0 dy0 by (intro mult_left_mono) auto
  also have "\<dots> = t" using dx0 dy0 by (simp add: D_def)
  finally show "rn (dx / dy) * rn (q - y0) \<le> t" .
qed

section \<open>One step down\<close>

lemma size_at_total:
  assumes "setCdf self0 c = Inr (cr, True)" "float_cdf c" "byte_cdf c" "0 \<le> y" "y \<le> 100"
  obtains z where "size_at cr y = Inr z" "fst (hd c) \<le> of_int z" "of_int z \<le> fst (last c)" "0 \<le> z"
proof -
  have inc: "increasing c" using setCdf_True[OF assms(1)] by (simp add: valid_cdf_def)
  obtain i v m n where i: "in_segment c y i" and v: "getValueFromPercentile cr y = Inr (Some v)"
    and mn: "fst (c ! i) = of_int m" "fst (c ! Suc i) = of_int n" "m \<le> py_trunc v" "py_trunc v \<le> n"
    by (rule value_size[OF assms]) blast
  have i': "Suc i < length c" using i by (simp add: in_segment_def)
  have "fst (hd c) \<le> of_int m" using increasing_ends(1)[OF inc, of i] i' mn(1) by simp
  moreover have "of_int n \<le> fst (last c)" using increasing_ends(3)[OF inc i'] mn(2) by simp
  moreover have "0 \<le> m" using byte_cdf_nth[OF assms(3), of i] i' mn(1) by (metis Suc_lessD of_int_eq_iff)
  ultimately show ?thesis using that[of "py_trunc v"] v mn(3,4) by (simp add: size_at_def)
qed

lemma size_at_mono:
  assumes "setCdf self0 c = Inr (cr, True)" "float_cdf c" "byte_cdf c" "0 \<le> y" "y \<le> y'" "y' \<le> 100"
    and "size_at cr y = Inr z" "size_at cr y' = Inr z'"
  shows "z \<le> z'"
  using assms(7,8) size_monotone[OF assms(1-6)] by (auto simp: size_at_def res_simps split: option.splits)

lemma below_percentile:
  assumes cdf: "setCdf self0 c = Inr (cr, True)" "float_cdf c" "byte_cdf c"
    and y: "fst (hd c) \<le> of_int y" "of_int y \<le> fst (last c)" "0 \<le> y"
    and p: "getPercentileFromValue cr (of_int y) = Inr (Some p)" "2 < p"
  shows "0 \<le> fsub p 1" "fsub p 1 \<le> 100" "size_at cr (fsub p 1) = Inr z \<Longrightarrow> z \<le> y"
proof -
  from setCdf_True[OF cdf(1)] have c: "valid_cdf c" by simp
  then have inc: "increasing c" "snd (hd c) = 0" "snd (last c) = 100" by (auto simp: valid_cdf_def)
  obtain i where i: "Suc i < length c" "fst (c ! i) \<le> of_int y" "of_int y \<le> fst (c ! Suc i)"
    and p_eq: "p = fadd (snd (c ! i)) (fmul (fquo (fsub (snd (c ! Suc i)) (snd (c ! i)))
       (fsub (fst (c ! Suc i)) (fst (c ! i)))) (fsub (of_int y) (fst (c ! i))))"
    by (rule percentile_in_segment[OF cdf(1,2) y(1,2)]) (use y(3) p(1) in auto)
  obtain m where m: "fst (c ! i) = of_int m" "0 \<le> m" "m \<le> 2 ^ 50" using byte_cdf_nth[OF cdf(3), of i] i(1) by auto
  obtain n where n: "fst (c ! Suc i) = of_int n" "0 \<le> n" "n \<le> 2 ^ 50" using byte_cdf_nth[OF cdf(3) i(1)] by auto
  let ?y0 = "snd (c ! i)" and ?y1 = "snd (c ! Suc i)" and ?q = "fsub p 1"
  let ?dy = "fsub ?y1 ?y0"
  have mn: "m < n" "m \<le> y" "y \<le> n" using increasing_nth(1)[OF inc(1) lessI i(1)] i(2,3) by (simp_all add: m n)
  have dx: "fsub (fst (c ! Suc i)) (fst (c ! i)) = of_int (n - m)" "fsub (of_int y) (fst (c ! i)) = of_int (y - m)"
    using m n mn rn_of_int[of "n - m"] rn_of_int[of "y - m"] by (simp_all add: fsub_def)
  have y01: "0 \<le> ?y0" "?y1 \<le> 100" "?y0 < ?y1" "?y0 \<le> 100"
    using increasing_ends(2)[OF inc(1), of i] increasing_ends(4)[OF inc(1) i(1)] increasing_nth(2)[OF inc(1) lessI i(1)] i(1) inc(2,3)
    by auto
  have dy: "pow2 (- 100) \<le> ?dy" "?dy \<le> 101" "?dy \<le> ?y1 - ?y0 + 1 / 2"
    using byte_cdf_step[OF cdf(3) i(1)] rn_le_small[of "?y1 - ?y0"] y01 by (simp_all add: fsub_def)
  have q_eq: "?q = rn (rn (?y0 + rn (rn (?dy / of_int (n - m)) * of_int (y - m))) - 1)"
    unfolding p_eq dx by (simp add: fsub_def fadd_def fmul_def fquo_def)
  have n_m: "(1 :: rat) \<le> of_int (n - m)" "(of_int (n - m) :: rat) \<le> 2 ^ 51" "(0 :: rat) \<le> of_int (y - m)" "(of_int (y - m) :: rat) \<le> of_int (n - m)"
  proof -
    have "n - m \<le> 2 ^ 51" using m n by simp
    then show "(of_int (n - m) :: rat) \<le> 2 ^ 51" by (metis of_int_le_iff of_int_numeral of_int_power)
  qed (use mn in simp_all)
  note below = one_point_below[OF n_m(1,2) dy(1,2) n_m(3,4) y01(1,4) q_eq]
  show q0: "0 \<le> ?q" using p(2) by (simp add: fsub_def rn_nonneg)
  have q1: "?q \<le> ?y1" if "?y0 < ?q" using below(2)[OF that] dy(3) by linarith
  then show q100: "?q \<le> 100" using y01 by linarith
  assume z: "size_at cr ?q = Inr z"
  obtain j v mj nj where j: "in_segment c ?q j" "getValueFromPercentile cr ?q = Inr (Some v)" "fst (c ! Suc j) = of_int nj" "py_trunc v \<le> nj"
    and v: "v = fadd (fst (c ! j)) (fmul (fquo (fsub (fst (c ! Suc j)) (fst (c ! j))) (fsub (snd (c ! Suc j)) (snd (c ! j)))) (fsub ?q (snd (c ! j))))"
    by (rule value_size[OF cdf q0 q100]) blast
  have z_eq: "z = py_trunc v" using z j(2) by (simp add: size_at_def)
  show "z \<le> y"
  proof (cases "?y0 < ?q")
    case True
    have "snd (c ! k) < ?q" if "k \<in> {1..i}" for k
      using that True increasing_nth(2)[OF inc(1), of k i] i(1) by (cases "k = i") auto
    then have "in_segment c ?q i" using True q1 i(1) by (auto simp: in_segment_def)
    then have "j = i" using in_segment_unique[OF j(1), of ?q i] in_segment_unique[OF _ j(1), of ?q i] by simp
    then have v': "v = rn (of_int m + rn (rn (of_int (n - m) / ?dy) * rn (?q - ?y0)))"
      unfolding v \<open>j = i\<close> dx(1) by (simp add: m fadd_def fmul_def fquo_def fsub_def[of ?q])
    have "rn (rn (of_int (n - m) / ?dy) * rn (?q - ?y0)) \<le> rn (of_int (y - m))" using below(1)[OF True] by (rule rn_mono)
    also have "\<dots> = of_int (y - m)" using m n mn by (intro rn_of_int) simp
    finally have "v \<le> rn (of_int y)" unfolding v' by (intro rn_mono) simp
    also have "\<dots> = of_int y" using n mn y(3) by (intro rn_of_int) simp
    finally show ?thesis unfolding z_eq using py_trunc_mono[of v "of_int y"] by simp
  next
    case False
    have "Suc j \<le> i"
    proof (rule ccontr)
      assume "\<not> Suc j \<le> i"
      then have "i = 0 \<or> i \<in> {1..j}" by auto
      moreover have "i \<noteq> 0"
      proof
        assume "i = 0"
        then have "?y0 = 0" using inc(2) i(1) by (cases c) auto
        moreover have "rn 1 \<le> ?q" unfolding fsub_def using p(2) by (intro rn_mono) simp
        ultimately show False using False rn_of_int[of 1] by simp
      qed
      ultimately show False using j(1) False by (auto simp: in_segment_def)
    qed
    then have "fst (c ! Suc j) \<le> fst (c ! i)" using increasing_nth(1)[OF inc(1), of "Suc j" i] i(1) by (cases "Suc j = i") auto
    then show ?thesis using j(3,4) m(1) mn(2) z_eq by simp
  qed
qed

section \<open>The loop\<close>

definition bin_state :: "cdf \<Rightarrow> custom_rand \<Rightarrow> int \<Rightarrow> flt \<Rightarrow> bool" where
  "bin_state c cr x p = (fst (hd c) \<le> of_int x \<and> of_int x \<le> fst (last c) \<and> 0 \<le> x \<and>
     (2 < p \<longrightarrow> 0 \<le> fsub p 1 \<and> fsub p 1 \<le> 100 \<and> (\<forall>z. size_at cr (fsub p 1) = Inr z \<longrightarrow> z \<le> x)))"

lemma fsub_one: "0 \<le> p \<Longrightarrow> p \<le> 100 \<Longrightarrow> fsub p 1 \<le> p \<and> fsub p 1 \<le> 100"
  using rn_le_small[of "p - 1"] by (simp add: fsub_def) linarith

lemma bin_state_size:
  assumes "setCdf self0 c = Inr (cr, True)" "float_cdf c" "byte_cdf c" "0 \<le> p" "p \<le> 100" "size_at cr p = Inr x"
  shows "bin_state c cr x p"
proof -
  obtain z where z: "size_at cr p = Inr z" "fst (hd c) \<le> of_int z" "of_int z \<le> fst (last c)" "0 \<le> z"
    by (rule size_at_total[OF assms(1-5)])
  moreover have "0 \<le> fsub p 1 \<and> fsub p 1 \<le> 100 \<and> (\<forall>z. size_at cr (fsub p 1) = Inr z \<longrightarrow> z \<le> x)" if "2 < p"
  proof -
    have "0 \<le> fsub p 1" using that by (simp add: fsub_def rn_nonneg)
    then show ?thesis using fsub_one[OF assms(4,5)] size_at_mono[OF assms(1-3) _ _ assms(5) _ assms(6)] by blast
  qed
  ultimately show ?thesis using assms(6) by (simp add: bin_state_def)
qed

lemma percentile_total:
  assumes "setCdf self0 c = Inr (cr, True)" "float_cdf c" "byte_cdf c" "fst (hd c) \<le> of_int x" "of_int x \<le> fst (last c)" "0 \<le> x"
  shows "\<exists>p. getPercentileFromValue cr (f_of_int x) = Inr (Some p) \<and> 0 \<le> p \<and> f_of_int x = of_int x"
proof -
  have c: "increasing c" "snd (hd c) = 0" "c \<noteq> []" using setCdf_True[OF assms(1)] by (auto simp: valid_cdf_def)
  obtain n where n: "fst (last c) = of_int n" "n \<le> 2 ^ 50" using byte_cdf_nth[OF assms(3), of "length c - 1"] c(3) by (auto simp: last_conv_nth)
  then have f: "f_of_int x = of_int x" using assms(5,6) by (intro f_of_int_small) simp
  obtain i where i: "Suc i < length c" "fst (c ! i) \<le> of_int x"
    and p: "getPercentileFromValue cr (of_int x) = Inr (Some (fadd (snd (c ! i)) (fmul (fquo (fsub (snd (c ! Suc i)) (snd (c ! i)))
       (fsub (fst (c ! Suc i)) (fst (c ! i)))) (fsub (of_int x) (fst (c ! i))))))"
    by (rule percentile_in_segment[OF assms(1,2,4,5)]) (use assms(6) in auto)
  have "0 \<le> snd (c ! i)" using increasing_ends(2)[OF c(1), of i] c(2) i(1) by simp
  then have "0 \<le> fadd (snd (c ! i)) (fmul (fquo (fsub (snd (c ! Suc i)) (snd (c ! i)))
       (fsub (fst (c ! Suc i)) (fst (c ! i)))) (fsub (of_int x) (fst (c ! i))))"
    using increasing_nth[OF c(1) lessI i(1)] i(2)
    by (auto simp: flt_defs intro!: rn_nonneg add_nonneg_nonneg mult_nonneg_nonneg divide_nonneg_nonneg)
  then show ?thesis using p f by auto
qed

definition one_down :: "flt \<Rightarrow> flt" where
  "one_down p = (if 2 < p then fsub p 1 else 1)"

lemma next_bin_spec:
  assumes cdf: "setCdf self0 c = Inr (cr, True)" "float_cdf c" "byte_cdf c" and s: "bin_state c cr x p" "1 < p"
  shows "\<exists>x1 p1. next_bin cr x (one_down p) = Inr (x1, p1) \<and> bin_state c cr x1 p1 \<and> (x div 2 \<le> x1 \<or> x \<le> 1000) \<and>
    (p1 \<le> 1 \<or> 2 < p \<and> x1 \<le> x \<and> p1 = fsub p 1 \<or> 1000 < x \<and> x1 = x div 2)"
proof -
  have p1: "0 \<le> one_down p" "one_down p \<le> 100" using s by (auto simp: one_down_def bin_state_def)
  obtain z where z: "size_at cr (one_down p) = Inr z" "fst (hd c) \<le> of_int z" "of_int z \<le> fst (last c)" "0 \<le> z"
    by (rule size_at_total[OF cdf p1])
  show ?thesis
  proof (cases "z < x div 2 \<and> 1000 < x")
    case True
    let ?y = "x div 2"
    have "?y \<le> x" using True by linarith
    then have y: "fst (hd c) \<le> of_int ?y" "of_int ?y \<le> fst (last c)" "0 \<le> ?y"
      using True z(2,4) s(1) by (auto simp: bin_state_def intro: order_trans)
    obtain q where q: "getPercentileFromValue cr (f_of_int ?y) = Inr (Some q)" "0 \<le> q" "f_of_int ?y = of_int ?y"
      using percentile_total[OF cdf y] by blast
    have "bin_state c cr ?y q" using y below_percentile[OF cdf y, of q] q(1,3) by (auto simp: bin_state_def)
    moreover have "next_bin cr x (one_down p) = Inr (?y, q)" using z(1) True q(1,2) by (simp add: next_bin_def checked_def)
    ultimately show ?thesis using True by blast
  next
    case False
    then have "next_bin cr x (one_down p) = Inr (z, one_down p)" using z(1) p1(1) by (auto simp: next_bin_def checked_def)
    moreover have "bin_state c cr z (one_down p)" by (rule bin_state_size[OF cdf p1 z(1)])
    moreover have "one_down p \<le> 1 \<or> 2 < p \<and> z \<le> x \<and> one_down p = fsub p 1" using s(1) z(1) by (auto simp: one_down_def bin_state_def)
    ultimately show ?thesis using False by (intro exI[of _ z] exI[of _ "one_down p"]) auto
  qed
qed

text \<open>What remains: nothing at the lowest percentage, otherwise the size, and then the percentage.\<close>

definition remaining :: "int \<times> flt \<times> int list \<Rightarrow> nat \<times> nat" where
  "remaining s = (case s of (x, p, bins) \<Rightarrow> (if p \<le> 1 then 0 else nat x, nat \<lceil>p\<rceil>))"

lemma ceiling_down:
  assumes "2 < p" "fsub p 1 \<le> 100"
  shows "nat \<lceil>fsub p 1\<rceil> < nat \<lceil>p\<rceil>"
proof -
  have "p \<le> 257"
  proof (rule ccontr)
    assume "\<not> p \<le> 257"
    then have "rn (of_int 256) \<le> rn (p - 1)" by (intro rn_mono) simp
    then show False using assms(2) rn_of_int[of 256] by (simp add: fsub_def)
  qed
  then have "\<lceil>p\<rceil> \<le> 257" by (simp add: ceiling_le_iff)
  moreover have "2 < \<lceil>p\<rceil>" using assms(1) by (simp add: less_ceiling_iff)
  moreover have "rn (p - 1) \<le> rn (of_int (\<lceil>p\<rceil> - 1))" by (intro rn_mono) simp
  ultimately have "fsub p 1 \<le> of_int (\<lceil>p\<rceil> - 1)" using rn_of_int[of "\<lceil>p\<rceil> - 1"] by (simp add: fsub_def)
  then have "\<lceil>fsub p 1\<rceil> \<le> \<lceil>p\<rceil> - 1" by (simp only: ceiling_le_iff)
  then show ?thesis using \<open>2 < \<lceil>p\<rceil>\<close> by linarith
qed

definition chain :: "int list \<Rightarrow> bool" where
  "chain bins = successively (\<lambda>a b. a div 2 \<le> b \<or> a \<le> 1000) bins"

lemma bins_loop_spec:
  assumes cdf: "setCdf self0 c = Inr (cr, True)" "float_cdf c" "byte_cdf c"
  shows "bin_state c cr x p \<Longrightarrow> chain bins \<Longrightarrow> bins = [] \<or> last bins div 2 \<le> x \<or> last bins \<le> 1000 \<Longrightarrow>
    \<forall>b \<in> set bins. 0 < b \<and> fst (hd c) \<le> of_int b \<and> of_int b \<le> fst (last c) \<Longrightarrow>
    \<exists>fuel bins'. bins_loop fuel cr x p bins = Some (Inr bins') \<and> chain bins' \<and> prefix bins bins' \<and>
      (\<forall>b \<in> set bins'. 0 < b \<and> fst (hd c) \<le> of_int b \<and> of_int b \<le> fst (last c))"
proof (induction "(x, p, bins)" arbitrary: x p bins rule: wf_induct_rule[OF wf_inv_image[OF wf_lex_prod[OF wf_less_than wf_less_than]], of remaining])
  case (1 x p bins)
  show ?case
  proof (cases "x \<le> 0")
    case True
    then show ?thesis using 1(3,5) by (intro exI[of _ 1] exI[of _ bins]) simp
  next
    case x: False
    let ?bins = "if bins = [] \<or> x \<noteq> last bins then bins @ [x] else bins"
    have b: "chain ?bins" "last ?bins = x" "prefix bins ?bins" "\<forall>b \<in> set ?bins. 0 < b \<and> fst (hd c) \<le> of_int b \<and> of_int b \<le> fst (last c)"
      using 1(2-5) x by (auto simp: chain_def successively_append_iff bin_state_def)
    show ?thesis
    proof (cases "1 < p")
      case False
      then have "bins_loop 1 cr x p bins = Some (Inr ?bins)" using x by (simp add: Let_def)
      then show ?thesis using b by blast
    next
      case True
      obtain x1 p1 where n: "next_bin cr x (one_down p) = Inr (x1, p1)" "bin_state c cr x1 p1" "x div 2 \<le> x1 \<or> x \<le> 1000"
          "p1 \<le> 1 \<or> 2 < p \<and> x1 \<le> x \<and> p1 = fsub p 1 \<or> 1000 < x \<and> x1 = x div 2"
        using next_bin_spec[OF cdf 1(2) True] by blast
      have "((x1, p1, ?bins), (x, p, bins)) \<in> inv_image (less_than <*lex*> less_than) remaining"
        using n(4) x True 1(2) ceiling_down[of p] by (auto simp: remaining_def bin_state_def)
      from 1(1)[OF this n(2) b(1) _ b(4)] n(3) b(2) obtain fuel bins' where
        r: "bins_loop fuel cr x1 p1 ?bins = Some (Inr bins')" "chain bins'" "prefix ?bins bins'"
           "\<forall>b \<in> set bins'. 0 < b \<and> fst (hd c) \<le> of_int b \<and> of_int b \<le> fst (last c)" by auto
      have "bins_loop (Suc fuel) cr x p bins = Some (Inr bins')"
        using x True n(1) r(1) by (simp add: Let_def one_down_def[symmetric])
      then show ?thesis using r b(3) prefix_order.trans by blast
    qed
  qed
qed

section \<open>Properties\<close>



end
