(* ===== verification/PyPath.thy ===== *)
theory PyPath
  imports PyFiles "HOL-Library.Sublist"
begin

text \<open>
  The path functions of \<open>os.path\<close> on a POSIX system that look at a path's parts: \<open>normpath\<close>, \<open>abspath\<close>, \<open>relpath\<close>
  and \<open>splitext\<close>, with the working directory as an argument.  The main lemma is that a relative path, followed from
  its start, is the path again.
\<close>

section \<open>Normal paths\<close>

definition norm_step :: "bool \<Rightarrow> string list \<Rightarrow> string \<Rightarrow> string list" where
  "norm_step rooted new part =
     (if part = [] \<or> part = ''.'' then new
      else if part \<noteq> ''..'' \<or> (\<not> rooted \<and> new = []) \<or> (new \<noteq> [] \<and> last new = ''..'') then new @ [part]
      else butlast new)"

definition norm_parts :: "bool \<Rightarrow> string \<Rightarrow> string list" where
  "norm_parts rooted p = foldl (norm_step rooted) [] (split_on (CHR ''/'') p)"

definition leading_slashes :: "string \<Rightarrow> nat" where
  "leading_slashes p = (if startswith ''//'' p \<and> \<not> startswith ''///'' p then 2 else if startswith ''/'' p then 1 else 0)"

definition normpath :: "string \<Rightarrow> string" where
  "normpath p = (if p = [] then ''.''
     else let n = leading_slashes p; q = replicate n (CHR ''/'') @ join ''/'' (norm_parts (n \<noteq> 0) p)
          in if q = [] then ''.'' else q)"

definition abspath :: "string \<Rightarrow> string \<Rightarrow> string" where
  "abspath cwd p = normpath (path_join cwd p)"

definition path_list :: "string \<Rightarrow> string \<Rightarrow> string list" where
  "path_list cwd p = filter (\<lambda>x. x \<noteq> []) (split_on (CHR ''/'') (abspath cwd p))"

definition relpath :: "string \<Rightarrow> string \<Rightarrow> string \<Rightarrow> string res" where
  "relpath cwd path start =
     (if path = [] then Inl ValueError
      else let start_list = path_list cwd start; path_list = path_list cwd path;
               i = length (longest_common_prefix start_list path_list);
               rel_list = replicate (length start_list - i) ''..'' @ drop i path_list
           in Inr (if rel_list = [] then ''.'' else join ''/'' rel_list))"

text \<open>\<open>os.path.splitext (p) [0]\<close> of a name without a slash: dots in front belong to the name.\<close>

definition splitext_root :: "string \<Rightarrow> string" where
  "splitext_root p =
     (let ext = takeWhile (\<lambda>c. c \<noteq> CHR ''.'') (rev p); root = take (length p - length ext - 1) p
      in if CHR ''.'' \<in> set p \<and> (\<exists>c \<in> set root. c \<noteq> CHR ''.'') then root else p)"

section \<open>Parts\<close>

text \<open>A proper part is a name: not empty, without a slash, and neither the directory itself nor its parent.\<close>

definition proper_part :: "string \<Rightarrow> bool" where
  "proper_part x = (x \<noteq> [] \<and> CHR ''/'' \<notin> set x \<and> x \<noteq> ''.'' \<and> x \<noteq> ''..'')"

lemma norm_step_proper: "list_all proper_part new \<Longrightarrow> CHR ''/'' \<notin> set x \<Longrightarrow> list_all proper_part (norm_step True new x)"
  by (cases new rule: rev_cases) (auto simp: norm_step_def proper_part_def)

lemma norm_parts_proper: "list_all proper_part (norm_parts True p)"
proof -
  have "list_all proper_part (foldl (norm_step True) new xs)" if "list_all proper_part new" "\<And>x. x \<in> set xs \<Longrightarrow> CHR ''/'' \<notin> set x" for new xs
    using that by (induction xs arbitrary: new) (auto simp: norm_step_proper)
  then show ?thesis unfolding norm_parts_def using split_on_no_sep by auto
qed

lemma norm_names: "list_all proper_part xs \<Longrightarrow> list_all proper_part new \<Longrightarrow> foldl (norm_step True) new xs = new @ xs"
proof (induction xs arbitrary: new)
  case (Cons x xs)
  then have "norm_step True new x = new @ [x]" by (auto simp: norm_step_def proper_part_def)
  then show ?case using Cons.IH[of "new @ [x]"] Cons.prems by simp
qed simp

lemma norm_parents:
  assumes "list_all proper_part new" "k \<le> length new"
  shows "foldl (norm_step True) new (replicate k ''..'') = take (length new - k) new"
  using assms
proof (induction k arbitrary: new)
  case (Suc k)
  then obtain ys y where new: "new = ys @ [y]" by (cases new rule: rev_cases) auto
  then have "norm_step True new ''..'' = ys" using Suc.prems(1) by (auto simp: norm_step_def proper_part_def)
  then show ?case using Suc.IH[of ys] Suc.prems by (simp add: new)
qed simp

lemma norm_parts_join:
  assumes "\<And>x. x \<in> set xs \<Longrightarrow> CHR ''/'' \<notin> set x"
  shows "norm_parts True (replicate n (CHR ''/'') @ join ''/'' xs) = foldl (norm_step True) [] xs"
proof -
  have "foldl (norm_step True) [] (split_on (CHR ''/'') (replicate n (CHR ''/'') @ s)) = foldl (norm_step True) [] (split_on (CHR ''/'') s)" for s
    by (induction n) (simp_all add: norm_step_def)
  moreover have "foldl (norm_step True) [] (split_on (CHR ''/'') (join ''/'' xs)) = foldl (norm_step True) [] xs"
    using assms by (cases "xs = []") (simp_all add: split_on_join norm_step_def)
  ultimately show ?thesis by (simp add: norm_parts_def)
qed

lemma split_on_append_slash:
  "split_on c (a @ c # b) = split_on c a @ split_on c b"
  by (induction a) (auto split: list.splits)

text \<open>An absolute path is one slash and the names of its parts.\<close>

definition absolute :: "string \<Rightarrow> bool" where
  "absolute p = (leading_slashes p = 1)"

lemma absolute_startswith: "absolute p \<Longrightarrow> \<exists>q. p = CHR ''/'' # q"
  by (cases p) (auto simp: absolute_def leading_slashes_def split: if_splits)

definition parts :: "string \<Rightarrow> string list" where
  "parts p = norm_parts True p"

lemma normpath_absolute: "absolute p \<Longrightarrow> normpath p = CHR ''/'' # join ''/'' (parts p)"
  using absolute_startswith[of p] by (auto simp: normpath_def absolute_def parts_def)

lemma leading_slashes_join:
  assumes "list_all proper_part xs"
  shows "leading_slashes (CHR ''/'' # join ''/'' xs) = 1"
proof (cases xs)
  case (Cons x ys)
  then obtain c w where "x = c # w" "c \<noteq> CHR ''/''" using assms by (cases x) (auto simp: proper_part_def)
  then show ?thesis using Cons by (cases ys) (simp_all add: leading_slashes_def)
qed (simp add: leading_slashes_def)

lemma absolute_normpath: "absolute p \<Longrightarrow> absolute (normpath p)"
  using norm_parts_proper[of p] by (simp add: normpath_absolute absolute_def leading_slashes_join parts_def)

lemma parts_normal: "list_all proper_part xs \<Longrightarrow> parts (CHR ''/'' # join ''/'' xs) = xs"
  using norm_parts_join[of xs 1] norm_names[of xs "[]"] by (simp add: parts_def list_all_iff proper_part_def)

lemma parts_normpath [simp]: "absolute p \<Longrightarrow> parts (normpath p) = parts p"
  using norm_parts_proper[of p] parts_normal[of "parts p"] by (simp add: normpath_absolute parts_def)

lemma path_list_parts:
  assumes "absolute (path_join cwd p)"
  shows "path_list cwd p = parts (path_join cwd p)"
proof -
  let ?xs = "parts (path_join cwd p)"
  have xs: "list_all proper_part ?xs" unfolding parts_def by (rule norm_parts_proper)
  then have "?xs \<noteq> [] \<Longrightarrow> split_on (CHR ''/'') (join ''/'' ?xs) = ?xs"
    by (intro split_on_join) (auto simp: list_all_iff proper_part_def)
  moreover have "filter (\<lambda>x. x \<noteq> []) ?xs = ?xs" using xs by (auto simp: list_all_iff proper_part_def filter_id_conv)
  ultimately show ?thesis
    using normpath_absolute[OF assms] by (cases "?xs = []") (simp_all add: path_list_def abspath_def)
qed

text \<open>The parts of a relative path, followed from a start.\<close>

lemma parts_follow:
  assumes "absolute a" "absolute (path_join a r)" "\<not> startswith ''/'' r"
  shows "parts (path_join a r) = foldl (norm_step True) (parts a) (split_on (CHR ''/'') r)"
proof (cases "last a = CHR ''/''")
  case True
  obtain b where a: "a = b @ ''/''" using True absolute_startswith[OF assms(1)] by (metis append_butlast_last_id list.distinct(1))
  have "split_on (CHR ''/'') (b @ CHR ''/'' # r) = split_on (CHR ''/'') b @ split_on (CHR ''/'') r" by (rule split_on_append_slash)
  moreover have "parts a = foldl (norm_step True) [] (split_on (CHR ''/'') b)"
    unfolding parts_def norm_parts_def a using split_on_append_slash[of "CHR ''/''" b "[]"] by (simp add: norm_step_def)
  moreover have "path_join a r = b @ CHR ''/'' # r" using True assms(3) by (simp add: path_join_def a)
  ultimately show ?thesis by (simp add: parts_def norm_parts_def)
next
  case False
  then have "path_join a r = a @ CHR ''/'' # r" using absolute_startswith[OF assms(1)] assms(3) by (auto simp: path_join_def)
  then show ?thesis using split_on_append_slash[of "CHR ''/''" a r] by (simp add: parts_def norm_parts_def)
qed

lemma absolute_follow:
  assumes "list_all proper_part xs" "\<not> startswith ''/'' r"
  shows "absolute (path_join (CHR ''/'' # join ''/'' xs) r)"
proof (cases xs)
  case Nil
  then show ?thesis using assms(2) by (cases r) (simp_all add: path_join_def absolute_def leading_slashes_def)
next
  case (Cons x ys)
  then obtain c w where x: "x = c # w" "c \<noteq> CHR ''/''" using assms(1) by (cases x) (auto simp: proper_part_def)
  have "\<exists>q. path_join (CHR ''/'' # join ''/'' xs) r = CHR ''/'' # c # q"
    using Cons x(1) assms(2) by (cases ys) (auto simp: path_join_def)
  then show ?thesis using x(2) by (auto simp: absolute_def leading_slashes_def)
qed

section \<open>Relative paths\<close>

lemma longest_common:
  "length (longest_common_prefix xs ys) \<le> length xs"
  "take (length (longest_common_prefix xs ys)) xs = take (length (longest_common_prefix xs ys)) ys"
proof -
  obtain zs ws where z: "xs = longest_common_prefix xs ys @ zs" and w: "ys = longest_common_prefix xs ys @ ws"
    using longest_common_prefix_prefix1[of xs ys] longest_common_prefix_prefix2[of xs ys] by (auto elim!: prefixE)
  from z have "length xs = length (longest_common_prefix xs ys) + length zs" by (metis length_append)
  then show "length (longest_common_prefix xs ys) \<le> length xs" by simp
  from z w show "take (length (longest_common_prefix xs ys)) xs = take (length (longest_common_prefix xs ys)) ys"
    by (metis append_eq_conv_conj)
qed

lemma followed_parts:
  fixes i :: nat
  assumes "list_all proper_part s" "list_all proper_part p" "i \<le> length s" "take i s = take i p"
    and "r = (if rel = [] then ''.'' else join ''/'' rel)" "rel = replicate (length s - i) ''..'' @ drop i p"
  shows "\<not> startswith ''/'' r" "foldl (norm_step True) s (split_on (CHR ''/'') r) = p"
proof -
  have part: "x \<noteq> [] \<and> CHR ''/'' \<notin> set x" if "x \<in> set rel" for x
  proof -
    have "x \<in> set (replicate (length s - i) ''..'') \<or> x \<in> set (drop i p)" using that unfolding assms(6) set_append by (rule UnE) simp_all
    then have "x = ''..'' \<or> x \<in> set (drop i p)" by (simp only: in_set_replicate) metis
    moreover have "x \<in> set (drop i p) \<Longrightarrow> x \<in> set p" by (rule in_set_dropD)
    ultimately have "x = ''..'' \<or> x \<in> set p" by blast
    moreover have "proper_part x" if "x \<in> set p" using assms(2) that unfolding list_all_iff by (rule bspec)
    ultimately show ?thesis unfolding proper_part_def by fastforce
  qed
  show "\<not> startswith ''/'' r"
  proof (cases rel)
    case (Cons x xs)
    then obtain c w where "x = c # w" "c \<noteq> CHR ''/''" using part[of x] by (cases x) auto
    then show ?thesis using Cons by (cases xs) (simp_all add: assms(5))
  qed (simp add: assms(5))
  have "foldl (norm_step True) s (split_on (CHR ''/'') r) = foldl (norm_step True) s rel"
  proof (cases "rel = []")
    case False
    then show ?thesis using part split_on_join[of rel "CHR ''/''"] by (simp add: assms(5))
  qed (simp add: assms(5) norm_step_def)
  also have "\<dots> = foldl (norm_step True) (take i s) (drop i p)"
    using norm_parents[OF assms(1), of "length s - i"] assms(3) by (simp add: assms(6))
  also have "\<dots> = take i s @ drop i p"
    by (rule norm_names) (use assms(1,2) in \<open>auto simp: list_all_iff dest: in_set_takeD in_set_dropD\<close>)
  finally show "foldl (norm_step True) s (split_on (CHR ''/'') r) = p" by (simp add: assms(4))
qed

lemma relpath_parts:
  assumes "absolute (path_join cwd path)" "absolute (path_join cwd start)" "relpath cwd path start = Inr r"
  shows "\<not> startswith ''/'' r" "foldl (norm_step True) (parts (path_join cwd start)) (split_on (CHR ''/'') r) = parts (path_join cwd path)"
proof -
  define s p where sp: "s = parts (path_join cwd start)" "p = parts (path_join cwd path)"
  define i where "i = length (longest_common_prefix s p)"
  have proper: "list_all proper_part s" "list_all proper_part p" unfolding sp parts_def by (rule norm_parts_proper)+
  have lists: "path_list cwd start = s" "path_list cwd path = p" using assms(1,2) by (simp_all add: path_list_parts sp)
  have r: "r = (if replicate (length s - i) ''..'' @ drop i p = [] then ''.'' else join ''/'' (replicate (length s - i) ''..'' @ drop i p))"
    using assms(3) unfolding relpath_def lists Let_def i_def[symmetric] by (cases "path = []") (simp_all only: if_True if_False simp_thms sum.inject sum.distinct)
  have i: "i \<le> length s" "take i s = take i p" unfolding i_def by (simp_all only: longest_common)
  note followed_parts[OF proper i r refl]
  then show "\<not> startswith ''/'' r" "foldl (norm_step True) (parts (path_join cwd start)) (split_on (CHR ''/'') r) = parts (path_join cwd path)"
    unfolding sp by simp_all
qed

text \<open>Following the relative path from its start gives the path.\<close>

lemma relpath_followed:
  assumes "absolute (path_join cwd path)" "absolute (path_join cwd start)" "relpath cwd path start = Inr r"
  shows "abspath cwd (path_join (abspath cwd start) r) = abspath cwd path"
proof -
  let ?a = "abspath cwd start"
  note rel = relpath_parts[OF assms]
  have a: "?a = CHR ''/'' # join ''/'' (parts (path_join cwd start))" "absolute ?a"
    using normpath_absolute[OF assms(2)] absolute_normpath[OF assms(2)] by (simp_all add: abspath_def)
  have proper: "list_all proper_part (parts (path_join cwd start))" unfolding parts_def by (rule norm_parts_proper)
  have abs: "absolute (path_join ?a r)" unfolding a(1) by (rule absolute_follow[OF proper rel(1)])
  obtain q where "path_join ?a r = CHR ''/'' # q" using absolute_startswith[OF abs] by blast
  then have "path_join cwd (path_join ?a r) = path_join ?a r" by (simp add: path_join_def)
  moreover have "parts ?a = parts (path_join cwd start)" unfolding a(1) by (rule parts_normal[OF proper])
  then have "parts (path_join ?a r) = parts (path_join cwd path)" using parts_follow[OF a(2) abs rel(1)] rel(2) by simp
  ultimately show ?thesis
    using normpath_absolute[OF abs] normpath_absolute[OF assms(1)] by (simp add: abspath_def)
qed

text \<open>Joining paths is following one after the other.\<close>

lemma follow_join:
  assumes "\<not> startswith ''/'' n"
  shows "foldl (norm_step True) new (split_on (CHR ''/'') (path_join r n)) =
    foldl (norm_step True) (foldl (norm_step True) new (split_on (CHR ''/'') r)) (split_on (CHR ''/'') n)"
proof (cases "r = []")
  case True
  then show ?thesis using assms by (simp add: path_join_def norm_step_def)
next
  case False
  show ?thesis
  proof (cases "last r = CHR ''/''")
    case True
    then obtain b where r: "r = b @ ''/''" using False by (metis append_butlast_last_id)
    then show ?thesis using assms split_on_append_slash[of "CHR ''/''" b n] split_on_append_slash[of "CHR ''/''" b "[]"]
      by (simp add: path_join_def norm_step_def)
  next
    case no: False
    then show ?thesis using assms False split_on_append_slash[of "CHR ''/''" r n] by (simp add: path_join_def)
  qed
qed

lemma absolute_join: "absolute p \<Longrightarrow> \<not> startswith ''/'' n \<Longrightarrow> absolute (path_join p n)"
proof -
  assume p: "absolute p" and n: "\<not> startswith ''/'' n"
  obtain q where q: "p = CHR ''/'' # q" using absolute_startswith[OF p] by blast
  show "absolute (path_join p n)"
  proof (cases q)
    case Nil
    then show ?thesis using n q by (cases n) (auto simp: path_join_def absolute_def leading_slashes_def)
  next
    case (Cons c w)
    have "path_join p n = p @ n \<or> path_join p n = p @ ''/'' @ n" using n q by (simp add: path_join_def)
    then obtain v where "path_join p n = p @ v" by blast
    then show ?thesis using p q Cons by (cases w) (auto simp: absolute_def leading_slashes_def split: if_splits)
  qed
qed

lemma absolute_path_join: "absolute p \<Longrightarrow> path_join wd p = p"
  using absolute_startswith[of p] by (auto simp: path_join_def)

end
