(* ===== verification/PlotFct.thy ===== *)
theory PlotFct
  imports FctMerge PyPath
begin

text \<open>
  \<open>analysis/plot_fct_slowdown.py\<close>: the tables of slowdowns as charts.  A table is what pandas makes of a CSV file, a
  frame of named columns whose cells have some type; reading it is an argument.  A chart is the list of the curves
  that are plotted; the fixed settings of its axes are left out, and so is the drawing by matplotlib.  The state
  holds the folders there are and what was done, one entry for every chart saved and every table given up.
\<close>

section \<open>Frames, curves and charts\<close>

record 'v frame =
  columns :: "string list"
  cells :: "string \<Rightarrow> 'v list"

definition column :: "'v frame \<Rightarrow> string \<Rightarrow> 'v list res" where
  "column df col = (if col \<in> set (columns df) then Inr (cells df col) else Inl KeyError)"

record 'v curve =
  c_xs :: "'v list"
  c_ys :: "'v list"
  c_marker :: string
  c_color :: string
  c_label :: string
  c_linestyle :: "string option"
  c_markevery :: nat

record 'v chart =
  c_title :: string
  c_curves :: "'v curve list"

datatype 'v log_entry =
    Saved string "'v chart"
  | Failed string py_error

record 'v gallery =
  folders :: "string list"
  journal :: "'v log_entry list"

type_synonym ('v, 'a) plotting = "('v gallery, 'a) act"

section \<open>One table\<close>

definition line_colors :: "string list" where
  "line_colors = [''#1f77b4'', ''#ff7f0e'', ''#2ca02c'', ''#d62728'', ''#9467bd'', ''#8c564b'', ''#e377c2'', ''#7f7f7f'', ''#bcbd22'', ''#17becf'']"

definition markers :: "string list" where
  "markers = [''o'', ''s'', ''^'', ''D'', ''v'', ''<'', ''>'', ''p'', ''*'', ''h'']"

definition algorithm_columns :: "string list \<Rightarrow> string list" where
  "algorithm_columns cols = filter (\<lambda>col. col \<notin> set [''Percentile'', ''FlowSize'']) cols"

definition columns_with :: "string \<Rightarrow> string list \<Rightarrow> string list" where
  "columns_with tag cols = filter (contains tag) cols"

text \<open>The curve of a column: \<open>ending\<close> is cut from its name, and \<open>mark\<close> is put behind it.\<close>

definition curve_of :: "'v frame \<Rightarrow> 'v list \<Rightarrow> string \<Rightarrow> string \<Rightarrow> string option \<Rightarrow> nat \<times> string \<Rightarrow> 'v curve res" where
  "curve_of df flow_sizes ending mark linestyle = (\<lambda>(idx, col). rbind (column df col) (\<lambda>ys.
     Inr \<lparr>c_xs = flow_sizes, c_ys = ys, c_marker = markers ! (idx mod length markers), c_color = line_colors ! (idx mod length line_colors),
       c_label = replace_str ending [] col @ mark, c_linestyle = linestyle, c_markevery = max 1 (length flow_sizes div 10)\<rparr>))"

definition curves_of :: "'v frame \<Rightarrow> 'v list \<Rightarrow> string \<Rightarrow> string \<Rightarrow> string option \<Rightarrow> string list \<Rightarrow> 'v curve list res" where
  "curves_of df flow_sizes ending mark linestyle cols = rmap (curve_of df flow_sizes ending mark linestyle) (List.enumerate 0 cols)"

text \<open>\<open>os.makedirs\<close> makes the folder and the folders above it; there is no folder with the empty name.\<close>

definition above :: "string \<Rightarrow> string list" where
  "above d = map (\<lambda>i. take i d) (filter (\<lambda>i. d ! i = CHR ''/'' \<and> i \<noteq> 0) [0..<length d])"

definition ensure_folder :: "string \<Rightarrow> ('v, unit) plotting" where
  "ensure_folder d = abind (gets folders) (\<lambda>there.
     if d \<noteq> [] \<and> d \<in> set there then ret ()
     else if d = [] then raise FileNotFoundError
     else update (\<lambda>g. g\<lparr>folders := d # above d @ folders g\<rparr>))"

definition output_folder :: "string \<Rightarrow> string option \<Rightarrow> string" where
  "output_folder csv_file output_dir = (case output_dir of None \<Rightarrow> dirname csv_file | Some d \<Rightarrow> d)"

definition base_name :: "string \<Rightarrow> string" where
  "base_name csv_file = splitext_root (basename csv_file)"

definition save :: "string \<Rightarrow> 'v chart \<Rightarrow> ('v, unit) plotting" where
  "save file chart = update (\<lambda>g. g\<lparr>journal := journal g @ [Saved file chart]\<rparr>)"

definition plot_fct_slowdown :: "(string \<Rightarrow> 'v frame res) \<Rightarrow> string \<Rightarrow> string option \<Rightarrow> ('v, unit) plotting" where
  "plot_fct_slowdown read csv_file output_dir =
     abind (lift (read csv_file)) (\<lambda>df.
     let folder = output_folder csv_file output_dir; base = base_name csv_file in
     also_do (ensure_folder folder)
    (abind (lift (column df ''FlowSize'')) (\<lambda>flow_sizes.
     let cols = algorithm_columns (columns df) in
     abind (lift (curves_of df flow_sizes ''-fct_p50'' '' (p50)'' (Some ''-'') (columns_with ''p50'' cols))) (\<lambda>solid.
     abind (lift (curves_of df flow_sizes ''-fct_p99'' '' (p99)'' (Some ''--'') (columns_with ''p99'' cols))) (\<lambda>dashed.
     save (path_join folder (base @ ''_combined.png''))
       \<lparr>c_title = ''FCT Slowdown Comparison (p50 & p99)'' @ [nl] @ base, c_curves = solid @ dashed\<rparr>)))))"

definition plot_fct_slowdown_separate :: "(string \<Rightarrow> 'v frame res) \<Rightarrow> string \<Rightarrow> string option \<Rightarrow> ('v, unit) plotting" where
  "plot_fct_slowdown_separate read csv_file output_dir =
     abind (lift (read csv_file)) (\<lambda>df.
     let folder = output_folder csv_file output_dir; base = base_name csv_file in
     also_do (ensure_folder folder)
    (abind (lift (column df ''FlowSize'')) (\<lambda>flow_sizes.
     let cols = algorithm_columns (columns df) in
     abind (lift (curves_of df flow_sizes ''-fct_p50'' [] None (columns_with ''p50'' cols))) (\<lambda>p50.
     also_do (save (path_join folder (base @ ''_p50.png''))
       \<lparr>c_title = ''FCT Slowdown Comparison (p50)'' @ [nl] @ base, c_curves = p50\<rparr>)
    (abind (lift (curves_of df flow_sizes ''-fct_p99'' [] None (columns_with ''p99'' cols))) (\<lambda>p99.
     save (path_join folder (base @ ''_p99.png''))
       \<lparr>c_title = ''FCT Slowdown Comparison (p99)'' @ [nl] @ base, c_curves = p99\<rparr>))))))"

section \<open>All tables of a folder\<close>

text \<open>\<open>except Exception\<close>: every exception but the end of the program.\<close>

definition or_logged :: "string \<Rightarrow> ('v, unit) plotting \<Rightarrow> ('v, unit) plotting" where
  "or_logged csv_path m g = (case m g of
       (Inl e, g') \<Rightarrow> (case e of SysExit n \<Rightarrow> (Inl e, g') | _ \<Rightarrow> (Inr (), g'\<lparr>journal := journal g' @ [Failed csv_path e]\<rparr>))
     | r \<Rightarrow> r)"

definition is_table :: "string \<Rightarrow> bool" where
  "is_table file = (endswith ''.csv'' file \<and> contains ''FCTslowdown'' file)"

definition folder_of :: "string \<Rightarrow> string \<Rightarrow> string option \<Rightarrow> string \<Rightarrow> string res" where
  "folder_of cwd input_dir output_dir root' = (case output_dir of
       Some d \<Rightarrow> if d = [] then Inr root' else rbind (relpath cwd root' input_dir) (\<lambda>rel. Inr (path_join d rel))
     | None \<Rightarrow> Inr root')"

text \<open>\<open>os.walk\<close> gives the folders below a folder, each with its files.\<close>

definition plot_file ::
  "string \<Rightarrow> (string \<Rightarrow> 'v frame res) \<Rightarrow> string \<Rightarrow> string option \<Rightarrow> string \<Rightarrow> string \<Rightarrow> ('v, unit) plotting" where
  "plot_file cwd read input_dir output_dir root' file =
     (if is_table file then
        let csv_path = path_join root' file in
        abind (lift (folder_of cwd input_dir output_dir root')) (\<lambda>current_output_dir.
        or_logged csv_path (plot_fct_slowdown read csv_path (Some current_output_dir)))
      else ret ())"

definition batch_plot ::
  "string \<Rightarrow> (string \<Rightarrow> 'v frame res) \<Rightarrow> (string \<Rightarrow> (string \<times> string list) list) \<Rightarrow> string \<Rightarrow> string option \<Rightarrow> ('v, unit) plotting" where
  "batch_plot cwd read walk input_dir output_dir =
     each (\<lambda>(root', files). each (plot_file cwd read input_dir output_dir root') files) (walk input_dir)"

record plot_args =
  p_input :: "string option"
  p_input_dir :: string
  p_output_dir :: "string option"
  p_mode :: string

definition main_plot ::
  "string \<Rightarrow> (string \<Rightarrow> 'v frame res) \<Rightarrow> (string \<Rightarrow> (string \<times> string list) list) \<Rightarrow> (string \<Rightarrow> bool) \<Rightarrow> plot_args \<Rightarrow> ('v, unit) plotting" where
  "main_plot cwd read walk present args =
     (if p_mode args \<notin> set [''single'', ''batch''] then raise (SysExit 2)
      else if p_mode args = ''single'' then
        (case p_input args of
           None \<Rightarrow> raise (SysExit 1)
         | Some csv_file \<Rightarrow>
             if csv_file = [] \<or> \<not> present csv_file then raise (SysExit 1)
             else plot_fct_slowdown read csv_file (p_output_dir args))
      else if \<not> present (p_input_dir args) then raise (SysExit 1)
      else batch_plot cwd read walk (p_input_dir args) (p_output_dir args))"

section \<open>The names of the columns\<close>

text \<open>A word with a character that occurs first at \<open>k\<close> cannot begin earlier in front of itself, in a text without that
  character.\<close>

lemma startswith_shifted:
  assumes "startswith w (a @ w @ b)" "k < length w" "w ! k \<notin> set (take k w)" "w ! k \<notin> set a"
  shows "a = []"
proof (rule ccontr)
  assume "a \<noteq> []"
  have "take (length w) (a @ w @ b) ! k = w ! k" using assms(1) by (simp add: startswith_def)
  then have at_k: "(a @ w @ b) ! k = w ! k" by (simp only: nth_take[OF assms(2)])
  show False
  proof (cases "k < length a")
    case True
    then show ?thesis using at_k assms(4) nth_mem[OF True] by (simp add: nth_append)
  next
    case False
    then have "k - length a < k" using \<open>a \<noteq> []\<close> by (cases a) auto
    moreover from this have "w ! (k - length a) \<in> set (take k w)" using assms(2) by (auto simp: in_set_conv_nth intro!: exI[of _ "k - length a"])
    ultimately show ?thesis using assms(2,3) at_k False by (auto simp: nth_append)
  qed
qed

lemma cut_ending:
  assumes "w \<noteq> []" "\<And>a. a \<noteq> [] \<Longrightarrow> set a \<subseteq> set n \<Longrightarrow> \<not> startswith w (a @ w)"
  shows "replace_str w [] (n @ w) = n"
proof -
  have "set a \<subseteq> set n \<Longrightarrow> split_str_acc w acc (a @ w) = [rev acc @ a, []]" for a acc
  proof (induction a arbitrary: acc)
    case Nil
    have "split_str_acc w [] [] = [[]]" by (subst split_str_acc.simps) simp
    then show ?case using assms(1) by (subst split_str_acc.simps) (simp add: startswith_def)
  next
    case (Cons x a)
    then have "\<not> startswith w (x # a @ w)" using assms(2)[of "x # a"] by simp
    then show ?case using Cons by (subst split_str_acc.simps) simp
  qed
  from this[of n "[]"] show ?thesis by (simp add: replace_str_def split_str_def)
qed

lemma contains_skip: "c \<notin> set a \<Longrightarrow> contains (c # w) (a @ b) = contains (c # w) b"
  by (induction a) auto

text \<open>Names of an algorithm and a congestion control without the letter p.\<close>

definition plain_name :: "string \<Rightarrow> bool" where
  "plain_name n = (CHR ''p'' \<notin> set n)"

lemma plain_name_columns:
  assumes "plain_name n"
  shows "contains ''p50'' (n @ ''-fct_p50'')" "\<not> contains ''p50'' (n @ ''-fct_p99'')"
    "contains ''p99'' (n @ ''-fct_p99'')" "\<not> contains ''p99'' (n @ ''-fct_p50'')"
    "replace_str ''-fct_p50'' [] (n @ ''-fct_p50'') = n" "replace_str ''-fct_p99'' [] (n @ ''-fct_p99'') = n"
proof -
  have n: "CHR ''p'' \<notin> set n" using assms by (simp add: plain_name_def)
  show "contains ''p50'' (n @ ''-fct_p50'')" "\<not> contains ''p50'' (n @ ''-fct_p99'')"
    "contains ''p99'' (n @ ''-fct_p99'')" "\<not> contains ''p99'' (n @ ''-fct_p50'')"
    by (simp_all add: contains_skip[OF n])
  have "\<not> startswith ''-fct_p50'' (a @ ''-fct_p50'')" "\<not> startswith ''-fct_p99'' (a @ ''-fct_p99'')" if "a \<noteq> []" "set a \<subseteq> set n" for a
    using that n startswith_shifted[of "''-fct_p50''" a "[]" 5] startswith_shifted[of "''-fct_p99''" a "[]" 5]
    by auto
  then show "replace_str ''-fct_p50'' [] (n @ ''-fct_p50'') = n" "replace_str ''-fct_p99'' [] (n @ ''-fct_p99'') = n"
    by (intro cut_ending; simp)+
qed

lemma not_a_key: "n @ ''-fct_p50'' \<notin> set [''Percentile'', ''FlowSize'']" "n @ ''-fct_p99'' \<notin> set [''Percentile'', ''FlowSize'']"
  by (auto dest: arg_cong[of _ _ last])

section \<open>The curves of a merged table\<close>

definition slowdown_columns :: "string list \<Rightarrow> string list" where
  "slowdown_columns ns = concat (map (\<lambda>n. [n @ ''-fct_p50'', n @ ''-fct_p99'']) ns)"

lemma slowdown_columns_split:
  assumes "list_all plain_name ns"
  shows "columns_with ''p50'' (algorithm_columns ([''Percentile'', ''FlowSize''] @ slowdown_columns ns)) = map (\<lambda>n. n @ ''-fct_p50'') ns"
    and "columns_with ''p99'' (algorithm_columns ([''Percentile'', ''FlowSize''] @ slowdown_columns ns)) = map (\<lambda>n. n @ ''-fct_p99'') ns"
  using assms not_a_key
  by (induction ns) (auto simp: columns_with_def algorithm_columns_def slowdown_columns_def plain_name_columns)

definition style_of :: "'v list \<Rightarrow> 'v list \<Rightarrow> nat \<Rightarrow> string \<Rightarrow> string option \<Rightarrow> 'v curve" where
  "style_of xs ys k label linestyle = \<lparr>c_xs = xs, c_ys = ys, c_marker = markers ! (k mod 10), c_color = line_colors ! (k mod 10),
     c_label = label, c_linestyle = linestyle, c_markevery = max 1 (length xs div 10)\<rparr>"

definition curve_list :: "'v frame \<Rightarrow> string \<Rightarrow> string \<Rightarrow> string option \<Rightarrow> string list \<Rightarrow> 'v curve list" where
  "curve_list df ending mark linestyle cols = map (\<lambda>k. style_of (cells df ''FlowSize'') (cells df (cols ! k)) k
     (replace_str ending [] (cols ! k) @ mark) linestyle) [0..<length cols]"

lemma curves_total:
  assumes "set cols \<subseteq> set (columns df)"
  shows "curves_of df (cells df ''FlowSize'') ending mark linestyle cols = Inr (curve_list df ending mark linestyle cols)"
proof -
  let ?g = "\<lambda>(k, col). style_of (cells df ''FlowSize'') (cells df col) k (replace_str ending [] col @ mark) linestyle"
  have "rmap (curve_of df (cells df ''FlowSize'') ending mark linestyle) (List.enumerate 0 cols) = Inr (map ?g (List.enumerate 0 cols))"
  proof (rule rmap_eq_map)
    fix x assume "x \<in> set (List.enumerate 0 cols)"
    then obtain k where "k < length cols" "x = (k, cols ! k)" by (auto simp: enumerate_nth)
    moreover from this have "cols ! k \<in> set (columns df)" using assms nth_mem by blast
    ultimately show "curve_of df (cells df ''FlowSize'') ending mark linestyle x = Inr (?g x)"
      by (simp add: curve_of_def column_def style_of_def markers_def line_colors_def)
  qed
  then show ?thesis by (simp add: curves_of_def curve_list_def enumerate_nth)
qed

lemma algorithm_columns_in: "set (columns_with tag (algorithm_columns cols)) \<subseteq> set cols"
  by (auto simp: columns_with_def algorithm_columns_def)

text \<open>What becomes of a table: the chart of its frame, or the reason that there is none.\<close>

definition chart_of :: "string \<Rightarrow> 'v frame \<Rightarrow> 'v chart" where
  "chart_of csv df = \<lparr>c_title = ''FCT Slowdown Comparison (p50 & p99)'' @ [nl] @ base_name csv,
     c_curves = curve_list df ''-fct_p50'' '' (p50)'' (Some ''-'') (columns_with ''p50'' (algorithm_columns (columns df))) @
       curve_list df ''-fct_p99'' '' (p99)'' (Some ''--'') (columns_with ''p99'' (algorithm_columns (columns df)))\<rparr>"

definition plotted :: "(string \<Rightarrow> 'v frame res) \<Rightarrow> string \<Rightarrow> string \<Rightarrow> (string \<times> 'v chart) res" where
  "plotted read csv folder = rbind (read csv) (\<lambda>df.
     if folder = [] then Inl FileNotFoundError
     else if ''FlowSize'' \<notin> set (columns df) then Inl KeyError
     else Inr (path_join folder (base_name csv @ ''_combined.png''), chart_of csv df))"

lemma ensured: "d \<noteq> [] \<Longrightarrow> \<exists>fs. ensure_folder d g = (Inr (), g\<lparr>folders := fs\<rparr>)"
  by (cases "d \<in> set (folders g)") (auto simp: ensure_folder_def intro: exI[of _ "folders g"])

lemma plot_outcome:
  "case plotted read csv (output_folder csv od) of
     Inl e \<Rightarrow> \<exists>fs. plot_fct_slowdown read csv od g = (Inl e, g\<lparr>folders := fs\<rparr>)
   | Inr (target, chart) \<Rightarrow> \<exists>fs. plot_fct_slowdown read csv od g = (Inr (), g\<lparr>folders := fs, journal := journal g @ [Saved target chart]\<rparr>)"
proof (cases "read csv")
  case (Inl e)
  then show ?thesis by (auto simp: plotted_def plot_fct_slowdown_def intro: exI[of _ "folders g"])
next
  case (Inr df)
  let ?f = "output_folder csv od"
  show ?thesis
  proof (cases "?f = []")
    case True
    then show ?thesis using Inr
      by (auto simp: plotted_def plot_fct_slowdown_def Let_def ensure_folder_def also_do_def abind_def intro: exI[of _ "folders g"])
  next
    case False
    then obtain fs where fs: "ensure_folder ?f g = (Inr (), g\<lparr>folders := fs\<rparr>)" using ensured by blast
    show ?thesis
    proof (cases "''FlowSize'' \<in> set (columns df)")
      case True
      then show ?thesis using Inr False fs
        by (auto simp: plotted_def plot_fct_slowdown_def act_simps Let_def column_def curves_total[OF algorithm_columns_in] save_def chart_of_def
            intro!: exI[of _ fs])
    next
      case no: False
      then show ?thesis using Inr False fs
        by (auto simp: plotted_def plot_fct_slowdown_def act_simps Let_def column_def intro!: exI[of _ fs])
    qed
  qed
qed

lemma curve_list_names:
  assumes "\<And>n. n \<in> set ns \<Longrightarrow> replace_str ending [] (n @ ending) = n"
  shows "curve_list df ending mark linestyle (map (\<lambda>n. n @ ending) ns) =
    map (\<lambda>k. style_of (cells df ''FlowSize'') (cells df (ns ! k @ ending)) k (ns ! k @ mark) linestyle) [0..<length ns]"
  using assms by (auto simp: curve_list_def)

section \<open>From the merge to the chart\<close>

text \<open>What pandas makes of a table with a header of different names: \<open>conv\<close> is its reading of a cell.\<close>

definition frame_of :: "(string \<Rightarrow> 'v) \<Rightarrow> csv_rows \<Rightarrow> 'v frame \<Rightarrow> bool" where
  "frame_of conv table df = (columns df = hd table \<and>
     (\<forall>j < length (hd table). cells df (hd table ! j) = map (\<lambda>row. conv (row ! j)) (tl table)))"

definition reads_tables :: "(string \<Rightarrow> 'v) \<Rightarrow> (files \<Rightarrow> string \<Rightarrow> 'v frame res) \<Rightarrow> bool" where
  "reads_tables conv read = (\<forall>d path t. d path = Some t \<and> csv_read t \<noteq> [] \<and> distinct (hd (csv_read t)) \<longrightarrow>
     (\<exists>df. read d path = Inr df \<and> frame_of conv (csv_read t) df))"

lemma nth_pairs:
  assumes "k < length xs" "\<And>x. x \<in> set xs \<Longrightarrow> length (f x) = 2"
  shows "concat (map f xs) ! (2 * k) = f (xs ! k) ! 0" "concat (map f xs) ! Suc (2 * k) = f (xs ! k) ! 1"
  using assms by (induction xs arbitrary: k) (auto simp: nth_append nth_Cons' less_Suc_eq_0_disj split: nat.split)

lemma slowdown_columns_nth:
  assumes "k < length ns"
  shows "slowdown_columns ns ! (2 * k) = ns ! k @ ''-fct_p50''" "slowdown_columns ns ! Suc (2 * k) = ns ! k @ ''-fct_p99''"
    "Suc (2 * k) < length (slowdown_columns ns)"
  unfolding slowdown_columns_def using nth_pairs[OF assms, of "\<lambda>n. [n @ ''-fct_p50'', n @ ''-fct_p99'']"] assms
  by (simp_all add: length_concat o_def sum_list_triv)

lemma slowdown_columns_distinct: "distinct ns \<Longrightarrow> distinct ([''Percentile'', ''FlowSize''] @ slowdown_columns ns)"
proof (induction ns)
  case (Cons n ns)
  have "n @ ''-fct_p50'' \<notin> set (slowdown_columns ns)" "n @ ''-fct_p99'' \<notin> set (slowdown_columns ns)"
    using Cons.prems by (auto simp: slowdown_columns_def)
  then show ?case using Cons not_a_key[of n] by (auto simp: slowdown_columns_def)
qed (simp add: slowdown_columns_def)

definition cc_name :: "string \<Rightarrow> string" where
  "cc_name r = r @ ''-dcqcn''"

lemma header_columns: "drop 2 (header_batch r CCs_batch) = [cc_name r @ ''-fct_p50'', cc_name r @ ''-fct_p99'']"
  by (simp add: header_batch_def CCs_batch_def cc_name_def)

lemma merged_header:
  "concat (map (\<lambda>r. drop 2 (header_batch r CCs_batch)) rs) = slowdown_columns (map cc_name rs)"
  by (simp add: header_columns slowdown_columns_def o_def)

text \<open>The columns of the merged rows as pandas reads them.\<close>

lemma merged_frame:
  assumes "full_tables rs rows n" "rs \<noteq> []" "\<And>r x. r \<in> set rs \<Longrightarrow> x \<in> set (rows r) \<Longrightarrow> length x = 4"
    and "frame_of conv (([''Percentile'', ''FlowSize''] @ slowdown_columns (map cc_name rs)) #
      map (\<lambda>i. take 2 (rows (hd rs) ! i) @ concat (map (\<lambda>r. drop 2 (rows r ! i)) rs)) [0..<n]) df"
  shows "cells df ''FlowSize'' = map (\<lambda>i. conv (rows (hd rs) ! i ! 1)) [0..<n]"
    and "k < length rs \<Longrightarrow> cells df (cc_name (rs ! k) @ ''-fct_p50'') = map (\<lambda>i. conv (rows (rs ! k) ! i ! 2)) [0..<n]"
    and "k < length rs \<Longrightarrow> cells df (cc_name (rs ! k) @ ''-fct_p99'') = map (\<lambda>i. conv (rows (rs ! k) ! i ! 3)) [0..<n]"
proof -
  let ?head = "[''Percentile'', ''FlowSize''] @ slowdown_columns (map cc_name rs)"
  let ?row = "\<lambda>i. take 2 (rows (hd rs) ! i) @ concat (map (\<lambda>r. drop 2 (rows r ! i)) rs)"
  have cell: "cells df (?head ! j) = map (\<lambda>i. conv (?row i ! j)) [0..<n]" if "j < length ?head" for j
    using assms(4) that by (simp add: frame_of_def o_def)
  have len: "length (rows r ! i) = 4" if "r \<in> set rs" "i < n" for r i
    using assms(1,3) that by (auto simp: full_tables_def list_all_iff)
  then have hd: "length (rows (hd rs) ! i) = 4" if "i < n" for i using assms(2) that by simp
  show "cells df ''FlowSize'' = map (\<lambda>i. conv (rows (hd rs) ! i ! 1)) [0..<n]"
    using cell[of 1] hd by (simp add: nth_append)
  assume k: "k < length rs"
  have row: "?row i ! (2 + 2 * k) = rows (rs ! k) ! i ! 2" "?row i ! (2 + Suc (2 * k)) = rows (rs ! k) ! i ! 3" if "i < n" for i
    using nth_pairs[OF k, of "\<lambda>r. drop 2 (rows r ! i)"] len hd that k by (simp_all add: nth_append)
  note col = slowdown_columns_nth[of k "map cc_name rs"]
  have "cells df (?head ! (2 + 2 * k)) = map (\<lambda>i. conv (rows (rs ! k) ! i ! 2)) [0..<n]"
    using cell[of "2 + 2 * k"] col(3) k row(1) by simp
  then show "cells df (cc_name (rs ! k) @ ''-fct_p50'') = map (\<lambda>i. conv (rows (rs ! k) ! i ! 2)) [0..<n]" using col(1) k by simp
  have "cells df (?head ! (2 + Suc (2 * k))) = map (\<lambda>i. conv (rows (rs ! k) ! i ! 3)) [0..<n]"
    using cell[of "2 + Suc (2 * k)"] col(3) k row(2) by simp
  then show "cells df (cc_name (rs ! k) @ ''-fct_p99'') = map (\<lambda>i. conv (rows (rs ! k) ! i ! 3)) [0..<n]" using col(2) k by simp
qed

section \<open>Properties\<close>

text \<open>The chart of a merged table: the solid curves of all routings, then the dashed ones, a color and a marker for each routing.\<close>

definition named_curve :: "'v frame \<Rightarrow> string list \<Rightarrow> string \<Rightarrow> string \<Rightarrow> string \<Rightarrow> nat \<Rightarrow> 'v curve" where
  "named_curve df ns ending mark linestyle k =
     style_of (cells df ''FlowSize'') (cells df (ns ! k @ ending)) k (ns ! k @ mark) (Some linestyle)"

lemma merged_chart:
  assumes "list_all plain_name ns" "columns df = [''Percentile'', ''FlowSize''] @ slowdown_columns ns"
  shows "c_curves (chart_of csv df) = map (named_curve df ns ''-fct_p50'' '' (p50)'' ''-'') [0..<length ns] @
    map (named_curve df ns ''-fct_p99'' '' (p99)'' ''--'') [0..<length ns]"
proof -
  have replaced: "replace_str ''-fct_p50'' [] (n @ ''-fct_p50'') = n" "replace_str ''-fct_p99'' [] (n @ ''-fct_p99'') = n" if "n \<in> set ns" for n
    using assms(1) that by (auto simp: list_all_iff plain_name_columns)
  show ?thesis
    using curve_list_names[of ns "''-fct_p50''" df "'' (p50)''" "Some ''-''", OF replaced(1)]
      curve_list_names[of ns "''-fct_p99''" df "'' (p99)''" "Some ''--''", OF replaced(2)]
    unfolding chart_of_def assms(2) slowdown_columns_split[OF assms(1)] chart.simps named_curve_def by (simp only:)
qed

lemma curve_colors: "n \<le> 10 \<Longrightarrow> distinct (map (\<lambda>k. c_color (named_curve df ns ending mark linestyle k)) [0..<n])"
proof -
  have "distinct line_colors" by code_simp
  then show "n \<le> 10 \<Longrightarrow> ?thesis"
    by (auto simp: named_curve_def style_of_def distinct_map inj_on_def nth_eq_iff_index_eq line_colors_def)
qed


definition text_frame :: "files \<Rightarrow> string \<Rightarrow> string frame res" where
  "text_frame d path = (case d path of None \<Rightarrow> Inl FileNotFoundError
     | Some t \<Rightarrow> (case csv_read t of [] \<Rightarrow> Inl ValueError
       | head # rows \<Rightarrow> Inr \<lparr>columns = head, cells = (\<lambda>c. case map_of (zip head [0..<length head]) c of None \<Rightarrow> [] | Some j \<Rightarrow> map (\<lambda>row. row ! j) rows)\<rparr>))"

lemma text_frame_reads: "reads_tables id text_frame"
proof -
  have idx: "map_of (zip h [0..<length h]) (h ! j) = Some j" if "distinct h" "j < length h" for h :: "string list" and j
    using map_of_zip_nth[of h "[0..<length h]" j] that by simp
  show ?thesis unfolding reads_tables_def text_frame_def frame_of_def by (auto split: list.split simp: idx)
qed


definition tables_below :: "(string \<times> string list) list \<Rightarrow> (string \<times> string) list" where
  "tables_below tree = concat (map (\<lambda>(folder, files). map (Pair folder) (filter is_table files)) tree)"

definition entry_of :: "(string \<Rightarrow> 'v frame res) \<Rightarrow> string \<Rightarrow> string \<Rightarrow> 'v log_entry" where
  "entry_of read csv folder = (case plotted read csv folder of Inl e \<Rightarrow> Failed csv e | Inr (target, chart) \<Rightarrow> Saved target chart)"

lemma each_log:
  assumes "\<And>x g. x \<in> set xs \<Longrightarrow> \<exists>fs. f x g = (Inr (), g\<lparr>folders := fs, journal := journal g @ h x\<rparr>)"
  shows "\<exists>fs. each f xs g = (Inr (), g\<lparr>folders := fs, journal := journal g @ concat (map h xs)\<rparr>)"
  using assms
proof (induction xs arbitrary: g)
  case Nil
  then show ?case by (auto intro: exI[of _ "folders g"])
next
  case (Cons x xs)
  obtain fs where "f x g = (Inr (), g\<lparr>folders := fs, journal := journal g @ h x\<rparr>)" using Cons.prems by fastforce
  moreover obtain fs' where "each f xs (g\<lparr>folders := fs, journal := journal g @ h x\<rparr>) =
      (Inr (), (g\<lparr>folders := fs, journal := journal g @ h x\<rparr>)\<lparr>folders := fs', journal := (journal g @ h x) @ concat (map h xs)\<rparr>)"
    using Cons.IH[of "g\<lparr>folders := fs, journal := journal g @ h x\<rparr>"] Cons.prems by auto
  ultimately show ?case by (auto simp: act_simps)
qed

lemma plot_file_log:
  assumes "\<And>csv e n. read csv = Inl e \<Longrightarrow> e \<noteq> SysExit n" "folder_of cwd input_dir output_dir folder = Inr out_dir"
  shows "\<exists>fs. plot_file cwd read input_dir output_dir folder name g = (Inr (), g\<lparr>folders := fs,
    journal := journal g @ (if is_table name then [entry_of read (path_join folder name) out_dir] else [])\<rparr>)"
proof (cases "is_table name")
  case True
  let ?csv = "path_join folder name"
  have out: "output_folder ?csv (Some out_dir) = out_dir" by (simp add: output_folder_def)
  show ?thesis
  proof (cases "plotted read ?csv out_dir")
    case (Inl e)
    then have "e \<noteq> SysExit n" for n using assms(1) by (auto simp: plotted_def rbind_eq_Inl split: if_splits)
    moreover obtain fs where "plot_fct_slowdown read ?csv (Some out_dir) g = (Inl e, g\<lparr>folders := fs\<rparr>)"
      using plot_outcome[of read ?csv "Some out_dir" g] by (auto simp: out Inl)
    ultimately show ?thesis using True assms(2) Inl
      by (auto simp: plot_file_def Let_def or_logged_def entry_of_def split: py_error.split intro!: exI[of _ fs])
  next
    case (Inr r)
    obtain target chart where r: "r = (target, chart)" by (cases r)
    obtain fs where "plot_fct_slowdown read ?csv (Some out_dir) g = (Inr (), g\<lparr>folders := fs, journal := journal g @ [Saved target chart]\<rparr>)"
      using plot_outcome[of read ?csv "Some out_dir" g] by (auto simp: out Inr r)
    then show ?thesis using True assms(2) Inr
      by (auto simp: plot_file_def Let_def or_logged_def entry_of_def r intro!: exI[of _ fs])
  qed
qed (auto simp: plot_file_def intro: exI[of _ "folders g"])

text \<open>All tables of a folder are gone through, in the order of \<open>os.walk\<close>: each gets its chart or the reason why not.\<close>

theorem every_table_plotted:
  assumes "\<And>csv e n. read csv = Inl e \<Longrightarrow> e \<noteq> SysExit n"
    and "\<And>folder files. (folder, files) \<in> set (walk input_dir) \<Longrightarrow> folder_of cwd input_dir output_dir folder = Inr (out_dir folder)"
  shows "\<exists>g'. batch_plot cwd read walk input_dir output_dir g = (Inr (), g') \<and>
    journal g' = journal g @ map (\<lambda>(folder, name). entry_of read (path_join folder name) (out_dir folder)) (tables_below (walk input_dir))"
proof -
  let ?h = "\<lambda>folder name. if is_table name then [entry_of read (path_join folder name) (out_dir folder)] else []"
  have "\<exists>fs. each (\<lambda>(folder, files). each (plot_file cwd read input_dir output_dir folder) files) (walk input_dir) g =
    (Inr (), g\<lparr>folders := fs, journal := journal g @ concat (map (\<lambda>(folder, files). concat (map (?h folder) files)) (walk input_dir))\<rparr>)"
    by (rule each_log) (auto intro!: each_log plot_file_log assms)
  moreover have "concat (map (?h folder) files) = map (\<lambda>(folder, name). entry_of read (path_join folder name) (out_dir folder)) (map (Pair folder) (filter is_table files))"
    for folder files by (induction files) auto
  then have "concat (map (\<lambda>(folder, files). concat (map (?h folder) files)) tree) =
      map (\<lambda>(folder, name). entry_of read (path_join folder name) (out_dir folder)) (tables_below tree)" for tree
    by (induction tree) (auto simp: tables_below_def)
  ultimately show ?thesis by (auto simp: batch_plot_def)
qed

theorem every_table_plotted_witness:
  "let read = (\<lambda>csv. if csv = ''result/a/FCTslowdown.csv'' then Inr \<lparr>columns = [''FlowSize''], cells = \<lambda>_. [0 :: nat]\<rparr> else Inl ValueError)
   in \<exists>g'. batch_plot ''/home'' read (\<lambda>_. [(''result'', [''x.txt'', ''old-FCTslowdown.csv'']), (''result/a'', [''FCTslowdown.csv''])]) ''result'' None
        \<lparr>folders = [], journal = []\<rparr> = (Inr (), g') \<and>
      (\<exists>chart. journal g' = [Failed ''result/old-FCTslowdown.csv'' ValueError, Saved ''result/a/FCTslowdown_combined.png'' chart])"
proof -
  let ?read = "\<lambda>csv. if csv = ''result/a/FCTslowdown.csv'' then Inr \<lparr>columns = [''FlowSize''], cells = \<lambda>_. [0 :: nat]\<rparr> else Inl ValueError"
  let ?tree = "[(''result'', [''x.txt'', ''old-FCTslowdown.csv'']), (''result/a'', [''FCTslowdown.csv''])]"
  have "\<exists>g'. batch_plot ''/home'' ?read (\<lambda>_. ?tree) ''result'' None \<lparr>folders = [], journal = []\<rparr> = (Inr (), g') \<and>
    journal g' = journal \<lparr>folders = [], journal = []\<rparr> @ map (\<lambda>(folder, name). entry_of ?read (path_join folder name) (id folder)) (tables_below ?tree)"
    by (rule every_table_plotted) (auto simp: folder_of_def split: if_splits)
  moreover have "tables_below ?tree = [(''result'', ''old-FCTslowdown.csv''), (''result/a'', ''FCTslowdown.csv'')]" by code_simp
  moreover have "path_join ''result'' ''old-FCTslowdown.csv'' = ''result/old-FCTslowdown.csv''"
    "path_join ''result/a'' ''FCTslowdown.csv'' = ''result/a/FCTslowdown.csv''"
    "path_join ''result/a'' (base_name ''result/a/FCTslowdown.csv'' @ ''_combined.png'') = ''result/a/FCTslowdown_combined.png''"
    by code_simp+
  ultimately show ?thesis unfolding Let_def by (auto simp: entry_of_def plotted_def)
qed

text \<open>A table named without a folder has no folder to put its chart into: \<open>os.makedirs\<close> fails on the empty name.\<close>

theorem bare_name_fails:
  assumes "CHR ''/'' \<notin> set csv" "csv \<noteq> []" "present csv" "read csv = Inr df"
  shows "main_plot cwd read walk present \<lparr>p_input = Some csv, p_input_dir = d, p_output_dir = None, p_mode = ''single''\<rparr> g = (Inl FileNotFoundError, g)"
proof -
  have "\<forall>c \<in> set (rev csv). c \<noteq> CHR ''/''" using assms(1) unfolding set_rev by blast
  then have "dropWhile (\<lambda>c. c \<noteq> CHR ''/'') (rev csv) = []" by (simp only: dropWhile_eq_Nil_conv)
  moreover have "rstrip_by P [] = []" for P by (simp add: rstrip_by_def)
  ultimately have "dirname csv = []" unfolding dirname_def Let_def by (simp only: rev.simps if_cancel)
  then show ?thesis using assms(2-4)
    by (simp add: main_plot_def plot_fct_slowdown_def output_folder_def Let_def ensure_folder_def also_do_def abind_def)
qed

theorem bare_name_fails_witness:
  "main_plot ''/home'' (\<lambda>_. Inr \<lparr>columns = [''FlowSize''], cells = \<lambda>_. [0 :: nat]\<rparr>) (\<lambda>_. []) (\<lambda>p. p = ''t.csv'')
     \<lparr>p_input = Some ''t.csv'', p_input_dir = ''result'', p_output_dir = None, p_mode = ''single''\<rparr> \<lparr>folders = [], journal = []\<rparr> =
   (Inl FileNotFoundError, \<lparr>folders = [], journal = []\<rparr>)"
  by (rule bare_name_fails) simp_all

end
