(* ===== verification/BuildCommand.thy ===== *)
theory BuildCommand
  imports ShellCmd
begin

text \<open>
  \<open>simulation/waf-tools/command.py\<close>: a build task that runs a command line of theory \<open>ShellCmd\<close>.  The line is parsed
  first, and then \<open>$$\<close> and \<open>${name code}\<close> are replaced in every word of the parsed pipeline.  Evaluating \<open>name code\<close> in
  the variables of the task is an argument, \<open>eval\<close> of Python; a node of the build tree is the two paths the task asks
  it for.  How waf makes the task and finds its nodes is not modelled.
\<close>

section \<open>Substitution\<close>

text \<open>\<open>(\$\$)|(\$\{(\w+)(.*?)\})\<close>\<close>

datatype arg_match = Dollar | Subst string string

definition arg_rx :: "string \<Rightarrow> (arg_match \<times> string) option" where
  "arg_rx s = (case s of
       d # x # r \<Rightarrow>
         if d = CHR ''$'' \<and> x = CHR ''$'' then Some (Dollar, r)
         else if d = CHR ''$'' \<and> x = CHR ''{'' then
           (let var = takeWhile name_char r; tail = dropWhile name_char r;
                code = takeWhile (\<lambda>c. c \<noteq> CHR ''}'') tail; rest = dropWhile (\<lambda>c. c \<noteq> CHR ''}'') tail
            in if var \<noteq> [] \<and> rest \<noteq> [] \<and> nl \<notin> set code then Some (Subst var code, tl rest) else None)
         else None
     | _ \<Rightarrow> None)"

lemma arg_rx_shorter: "arg_rx s = Some (m, rest) \<Longrightarrow> length rest < length s"
proof -
  assume m: "arg_rx s = Some (m, rest)"
  then obtain d x r where s: "s = d # x # r" by (auto simp: arg_rx_def split: list.splits)
  have "length (tl (dropWhile P (dropWhile Q r))) \<le> length r" for P Q
    using length_dropWhile_le[of P "dropWhile Q r"] length_dropWhile_le[of Q r] by simp
  then show ?thesis using m s by (auto simp: arg_rx_def Let_def less_Suc_eq_le le_SucI split: if_splits)
qed

text \<open>\<open>arg_rx.sub\<close>: matches are replaced from left to right.\<close>

function sub :: "(arg_match \<Rightarrow> string res) \<Rightarrow> string \<Rightarrow> string res" where
  "sub repl s =
     (if s = [] then Inr []
      else case arg_rx s of
          Some (m, rest) \<Rightarrow> rbind (repl m) (\<lambda>v. rbind (sub repl rest) (\<lambda>t. Inr (v @ t)))
        | None \<Rightarrow> rbind (sub repl (tl s)) (\<lambda>t. Inr (hd s # t)))"
  by pat_completeness auto
termination
  by (relation "measure (\<lambda>(repl, s). length s)") (auto dest: arg_rx_shorter)

declare sub.simps [simp del]

record tree_node =
  bld_path :: string
  src_path :: string

text \<open>The results of \<open>eval\<close> that are told apart; the lists of inputs and outputs are known by identity.\<close>

datatype eval_result = OfNode tree_node | TheInputs | TheOutputs | OfList "string list" | OfText string | OfOther

record task =
  task_command :: string
  task_inputs :: "tree_node list"
  task_outputs :: "tree_node list"

definition repl :: "task \<Rightarrow> (string \<Rightarrow> eval_result res) \<Rightarrow> arg_match \<Rightarrow> string res" where
  "repl t ev m = (case m of
       Dollar \<Rightarrow> Inr ''$''
     | Subst var code \<Rightarrow> rbind (ev (var @ code)) (\<lambda>result. case result of
           OfNode n \<Rightarrow> if var = ''TGT'' then Inr (bld_path n) else if var = ''SRC'' then Inr (src_path n) else Inl ValueError
         | TheInputs \<Rightarrow> (case task_inputs t of [n] \<Rightarrow> Inr (src_path n) | _ \<Rightarrow> Inl ValueError)
         | TheOutputs \<Rightarrow> (case task_outputs t of [n] \<Rightarrow> Inr (bld_path n) | _ \<Rightarrow> Inl ValueError)
         | OfList xs \<Rightarrow> (case xs of [x] \<Rightarrow> Inr x | _ \<Rightarrow> Inl AssertionError)
         | OfText s \<Rightarrow> Inr s
         | OfOther \<Rightarrow> Inl TypeError))"

definition subst_arg :: "task \<Rightarrow> (string \<Rightarrow> eval_result res) \<Rightarrow> string \<Rightarrow> string res" where
  "subst_arg t ev arg = sub (repl t ev) arg"

section \<open>The parsed pipeline\<close>

definition subst_optional :: "(string \<Rightarrow> string res) \<Rightarrow> string option \<Rightarrow> string option res" where
  "subst_optional f x = (case x of None \<Rightarrow> Inr None | Some s \<Rightarrow> rbind (f s) (\<lambda>s. Inr (Some s)))"

definition subst_target :: "(string \<Rightarrow> string res) \<Rightarrow> target option \<Rightarrow> target option res" where
  "subst_target f x = (case x of Some (ToFile s) \<Rightarrow> rbind (f s) (\<lambda>s. Inr (Some (ToFile s))) | _ \<Rightarrow> Inr x)"

definition subst_env :: "(string \<Rightarrow> string res) \<Rightarrow> (string \<times> string) list option \<Rightarrow> (string \<times> string) list option res" where
  "subst_env f x = (case x of None \<Rightarrow> Inr None
     | Some es \<Rightarrow> rbind (rmap (\<lambda>(name, value). rbind (f value) (\<lambda>v. Inr (name, v))) es) (\<lambda>es. Inr (Some es)))"

definition subst_command :: "(string \<Rightarrow> string res) \<Rightarrow> command \<Rightarrow> command res" where
  "subst_command f c =
     rbind (subst_optional f (stdin c)) (\<lambda>i. rbind (subst_target f (stdout c)) (\<lambda>o'. rbind (subst_target f (stderr c)) (\<lambda>e.
     rbind (rmap f (argv c)) (\<lambda>args. rbind (subst_env f (env_vars c)) (\<lambda>env.
       Inr \<lparr>argv = args, stdin = i, stdout = o', stderr = e, env_vars = env\<rparr>)))))"

text \<open>A directory that is missing is \<open>None\<close>, no string to search in.\<close>

definition subst_node :: "(string \<Rightarrow> string res) \<Rightarrow> node \<Rightarrow> node res" where
  "subst_node f n = (case n of
       Command c \<Rightarrow> rbind (subst_command f c) (\<lambda>c. Inr (Command c))
     | Chdir None \<Rightarrow> Inl TypeError
     | Chdir (Some d) \<Rightarrow> rbind (f d) (\<lambda>d. Inr (Chdir (Some d)))
     | _ \<Rightarrow> Inr n)"

definition task_pipeline :: "task \<Rightarrow> (string \<Rightarrow> eval_result res) \<Rightarrow> node list res" where
  "task_pipeline t ev = rbind (parse (task_command t)) (rmap (subst_node (subst_arg t ev)))"

definition task_run :: "system \<Rightarrow> bool \<Rightarrow> task \<Rightarrow> (string \<Rightarrow> eval_result res) \<Rightarrow> int option run" where
  "task_run S verbose t ev = abind (lift (task_pipeline t ev)) (run_pipeline S verbose)"

definition task_str :: "(tree_node \<Rightarrow> string) \<Rightarrow> task \<Rightarrow> string res" where
  "task_str nice_path t = rbind (parse (task_command t)) (\<lambda>p.
     Inr (''command ('' @ get_abbreviated_command p @ ''): '' @ join '' '' (map nice_path (task_inputs t)) @
       (if task_outputs t \<noteq> [] then '' -> '' else []) @ join '' '' (map nice_path (task_outputs t)) @ [nl]))"

section \<open>The words of a text with variables\<close>

datatype piece = Literal string | Dollars | Variable string string

fun piece_text :: "piece \<Rightarrow> string" where
  "piece_text (Literal s) = s"
| "piece_text Dollars = ''$$''"
| "piece_text (Variable var code) = ''${'' @ var @ code @ ''}''"

fun piece_ok :: "piece \<Rightarrow> bool" where
  "piece_ok (Literal s) = (CHR ''$'' \<notin> set s)"
| "piece_ok Dollars = True"
| "piece_ok (Variable var code) = (var \<noteq> [] \<and> list_all name_char var \<and> (code = [] \<or> \<not> name_char (hd code)) \<and>
     CHR ''}'' \<notin> set code \<and> nl \<notin> set code)"

fun piece_value :: "(arg_match \<Rightarrow> string res) \<Rightarrow> piece \<Rightarrow> string res" where
  "piece_value r (Literal s) = Inr s"
| "piece_value r Dollars = r Dollar"
| "piece_value r (Variable var code) = r (Subst var code)"

lemma sub_Nil [simp]: "sub r [] = Inr []"
  by (subst sub.simps) simp

lemma sub_literal: "CHR ''$'' \<notin> set s \<Longrightarrow> sub r (s @ t) = rbind (sub r t) (\<lambda>v. Inr (s @ v))"
proof (induction s)
  case (Cons c s)
  then have "arg_rx ((c # s) @ t) = None" by (auto simp: arg_rx_def split: list.split)
  then show ?case using Cons by (subst sub.simps) (simp add: rbind_assoc)
qed (cases "sub r t"; simp)

lemma arg_rx_dollars: "arg_rx (''$$'' @ t) = Some (Dollar, t)"
  by (simp add: arg_rx_def)

lemma arg_rx_variable:
  assumes "piece_ok (Variable var code)"
  shows "arg_rx (''${'' @ var @ code @ ''}'' @ t) = Some (Subst var code, t)"
proof -
  have brace: "\<not> name_char (CHR ''}'')" by code_simp
  have "takeWhile name_char (var @ code @ ''}'' @ t) = var \<and> dropWhile name_char (var @ code @ ''}'' @ t) = code @ ''}'' @ t"
    using assms brace by (cases code) (auto simp: list_all_iff takeWhile_append dropWhile_append)
  moreover have "takeWhile (\<lambda>c. c \<noteq> CHR ''}'') (code @ ''}'' @ t) = code \<and> dropWhile (\<lambda>c. c \<noteq> CHR ''}'') (code @ ''}'' @ t) = ''}'' @ t"
    using assms by (auto simp: takeWhile_append dropWhile_append)
  ultimately show ?thesis using assms by (simp add: arg_rx_def Let_def)
qed

lemma sub_match: "arg_rx s = Some (m, rest) \<Longrightarrow> sub r s = rbind (r m) (\<lambda>v. rbind (sub r rest) (\<lambda>t. Inr (v @ t)))"
  by (subst sub.simps) (auto simp: arg_rx_def)

lemma sub_pieces: "list_all piece_ok ps \<Longrightarrow> sub r (concat (map piece_text ps)) = rbind (rmap (piece_value r) ps) (\<lambda>vs. Inr (concat vs))"
proof (induction ps)
  case (Cons p ps)
  then have IH: "sub r (concat (map piece_text ps)) = rbind (rmap (piece_value r) ps) (\<lambda>vs. Inr (concat vs))" and p: "piece_ok p" by simp_all
  show ?case
  proof (cases p)
    case (Literal s)
    then show ?thesis using p IH by (simp add: sub_literal rbind_assoc)
  next
    case Dollars
    then show ?thesis using sub_match[OF arg_rx_dollars] IH by (simp add: rbind_assoc)
  next
    case (Variable var code)
    then show ?thesis using sub_match[OF arg_rx_variable[of var code]] p IH by (simp add: rbind_assoc)
  qed
qed simp

section \<open>Words that are defined\<close>

text \<open>The words of a node that are replaced, and the node with new words.\<close>

definition target_words :: "target option \<Rightarrow> string list" where
  "target_words x = (case x of Some (ToFile s) \<Rightarrow> [s] | _ \<Rightarrow> [])"

definition node_words :: "node \<Rightarrow> string list" where
  "node_words n = (case n of
       Command c \<Rightarrow> (case stdin c of None \<Rightarrow> [] | Some s \<Rightarrow> [s]) @ target_words (stdout c) @ target_words (stderr c) @ argv c @
         (case env_vars c of None \<Rightarrow> [] | Some es \<Rightarrow> map snd es)
     | Chdir (Some d) \<Rightarrow> [d]
     | _ \<Rightarrow> [])"

definition map_target :: "(string \<Rightarrow> string) \<Rightarrow> target \<Rightarrow> target" where
  "map_target g x = (case x of ToFile s \<Rightarrow> ToFile (g s) | _ \<Rightarrow> x)"

definition map_command :: "(string \<Rightarrow> string) \<Rightarrow> command \<Rightarrow> command" where
  "map_command g c = \<lparr>argv = map g (argv c), stdin = map_option g (stdin c), stdout = map_option (map_target g) (stdout c),
     stderr = map_option (map_target g) (stderr c), env_vars = map_option (map (\<lambda>(k, v). (k, g v))) (env_vars c)\<rparr>"

definition map_node :: "(string \<Rightarrow> string) \<Rightarrow> node \<Rightarrow> node" where
  "map_node g n = (case n of Command c \<Rightarrow> Command (map_command g c) | Chdir d \<Rightarrow> Chdir (map_option g d) | _ \<Rightarrow> n)"

lemma map_node_simps [simp]:
  "map_node g (Command c) = Command (map_command g c)" "map_node g (Chdir d) = Chdir (map_option g d)"
  "map_node g Pipe = Pipe" "map_node g And = And" "map_node g Or = Or"
  by (simp_all add: map_node_def)

lemma map_node_eq [simp]:
  "map_node g n = Pipe \<longleftrightarrow> n = Pipe" "map_node g n = And \<longleftrightarrow> n = And" "map_node g n = Or \<longleftrightarrow> n = Or"
  by (cases n; simp)+

lemma map_target_eq [simp]:
  "map_target g x = ToPipe \<longleftrightarrow> x = ToPipe" "map_target g x = ToStdout \<longleftrightarrow> x = ToStdout"
  by (cases x; simp add: map_target_def)+

lemma map_command_stdout [simp]:
  "argv (map_command g c) = map g (argv c)"
  "stdout (map_command g c) = Some ToPipe \<longleftrightarrow> stdout c = Some ToPipe"
  "stdout (map_command g c) = Some ToStdout \<longleftrightarrow> stdout c = Some ToStdout"
  by (simp_all add: map_command_def map_option_eq_Some)

lemma subst_node_defined:
  assumes "\<And>s. s \<in> set (node_words n) \<Longrightarrow> f s = Inr (g s)" "n \<noteq> Chdir None"
  shows "subst_node f n = Inr (map_node g n)"
proof (cases n)
  case (Command c)
  have word: "f s = Inr (g s)" if "s \<in> set (argv c) \<or> stdin c = Some s \<or> stdout c = Some (ToFile s) \<or> stderr c = Some (ToFile s) \<or>
      (\<exists>es k. env_vars c = Some es \<and> (k, s) \<in> set es)" for s
    using that assms(1)[of s] by (force simp: Command node_words_def target_words_def)
  have target: "subst_target f (stdout c) = Inr (map_option (map_target g) (stdout c))" "subst_target f (stderr c) = Inr (map_option (map_target g) (stderr c))"
    using word by (auto simp: subst_target_def map_target_def split: option.splits target.splits)
  have "subst_optional f (stdin c) = Inr (map_option g (stdin c))" using word by (auto simp: subst_optional_def split: option.splits)
  moreover have "rmap f (argv c) = Inr (map g (argv c))" using word by (intro rmap_eq_map) blast
  moreover have "subst_env f (env_vars c) = Inr (map_option (map (\<lambda>(k, v). (k, g v))) (env_vars c))"
  proof (cases "env_vars c")
    case (Some es)
    have "f v = Inr (g v)" if "(k, v) \<in> set es" for k v using word Some that by blast
    then have "rmap (\<lambda>(name, value). rbind (f value) (\<lambda>v. Inr (name, v))) es = Inr (map (\<lambda>(k, v). (k, g v)) es)"
      by (intro rmap_eq_map) auto
    then show ?thesis by (simp add: subst_env_def Some)
  qed (simp add: subst_env_def)
  ultimately show ?thesis by (simp add: Command subst_node_def subst_command_def target map_command_def)
next
  case (Chdir d)
  then show ?thesis using assms by (auto simp: subst_node_def node_words_def split: option.splits)
qed (simp_all add: subst_node_def)

lemma shaped_map: "shaped (map (map_node g) nodes) = shaped nodes"
  by (induction nodes rule: shaped.induct) (auto split: node.splits simp: map_node_def)

lemma runnable_map: "runnable nodes \<Longrightarrow> runnable (map (map_node g) nodes)"
  unfolding runnable_def shaped_map
  by (cases "nodes = []") (auto simp: last_map map_node_def split: node.splits)

lemma outcome_map: "outcome code k (map (map_node g) nodes) = map_prod id (map (map g)) (outcome code k nodes)"
  by (induction code k nodes rule: outcome.induct) (auto simp: split: prod.split)

section \<open>Properties\<close>

text \<open>In a word made of literal text, \<open>$$\<close> and variables, each variable is replaced by its value, from left to right, and
  the first that has none ends the substitution.\<close>

theorem word_substituted:
  assumes "list_all piece_ok ps"
  shows "subst_arg t ev (concat (map piece_text ps)) = rbind (rmap (piece_value (repl t ev)) ps) (\<lambda>vs. Inr (concat vs))"
  unfolding subst_arg_def using assms by (rule sub_pieces)

text \<open>C33. The task starts the commands that the exit codes ask for in the line as it is written, each with its words
  replaced: what a variable stands for is one word, never split and never taken for an operator.\<close>

theorem task_outcome:
  assumes "permissive S" "parse (task_command t) = Inr nodes" "Chdir None \<notin> set nodes" "last nodes = Command c"
    and "\<And>n s. n \<in> set nodes \<Longrightarrow> s \<in> set (node_words n) \<Longrightarrow> subst_arg t ev s = Inr (g s)"
  shows "\<exists>x w cs. task_run S False t ev \<lparr>spawned = 0, happened = []\<rparr> = (Inr (Some x), w) \<and>
    outcome (exit_code S) 0 nodes = (Some x, cs) \<and> started (happened w) = map (map g) cs"
proof -
  obtain tokens where "parse_tokens tokens = Inr nodes" using assms(2) by (auto simp: parse_def rbind_eq_Inr)
  then have "runnable nodes" using assms(3,4) parse_shaped by (auto simp: runnable_def)
  then have run: "runnable (map (map_node g) nodes)" by (rule runnable_map)
  have "rmap (subst_node (subst_arg t ev)) nodes = Inr (map (map_node g) nodes)"
    using assms(3,5) by (intro rmap_eq_map subst_node_defined) auto
  then have p: "task_pipeline t ev = Inr (map (map_node g) nodes)" by (simp add: task_pipeline_def assms(2))
  obtain x cs where out: "outcome (exit_code S) 0 nodes = (x, cs)" by (cases "outcome (exit_code S) 0 nodes")
  have init: "in_pipe new_locals \<longrightarrow> piped new_locals \<noteq> []" by (simp add: new_locals_def)
  obtain y es where "run_nodes S False new_locals (map (map_node g) nodes) \<lparr>spawned = 0, happened = []\<rparr> =
      (Inr (Some y), later \<lparr>spawned = 0, happened = []\<rparr> (length (started es)) es)"
    "outcome (exit_code S) 0 (map (map_node g) nodes) = (Some y, started es)"
    using runs_nodes[OF assms(1) run init, of "\<lparr>spawned = 0, happened = []\<rparr>"] by (auto simp: runs_def)
  then show ?thesis using out by (auto simp: task_run_def p run_pipeline_def outcome_map)
qed

definition demo_task :: task where
  "demo_task = \<lparr>task_command = ''gen ${SRC} -o ${TGT} && ls $$HOME'', task_inputs = [\<lparr>bld_path = ''/b/a b'', src_path = ''/s/a b''\<rparr>],
     task_outputs = [\<lparr>bld_path = ''/b/c'', src_path = ''/s/c''\<rparr>]\<rparr>"

definition demo_eval :: "string \<Rightarrow> eval_result res" where
  "demo_eval s = (if s = ''SRC'' then Inr TheInputs else if s = ''TGT'' then Inr TheOutputs else Inl (Raised ''NameError''))"

theorem word_substituted_witness:
  "subst_arg demo_task demo_eval ''-o${TGT}$$'' = Inr ''-o/b/c$''"
  using word_substituted[of "[Literal ''-o'', Variable ''TGT'' [], Dollars]" demo_task demo_eval]
  by (simp add: name_char_def repl_def demo_eval_def demo_task_def)

theorem task_outcome_witness:
  "\<exists>x w. task_run (demo_system\<lparr>exit_code := \<lambda>_. 0\<rparr>) False demo_task demo_eval \<lparr>spawned = 0, happened = []\<rparr> = (Inr (Some x), w) \<and>
     started (happened w) = [[''gen'', ''/s/a b'', ''-o'', ''/b/c''], [''ls'', ''$HOME'']]"
proof -
  let ?S = "demo_system\<lparr>exit_code := \<lambda>_. 0\<rparr>"
  let ?nodes = "[Command ((new_command ''gen'')\<lparr>argv := [''gen'', ''${SRC}'', ''-o'', ''${TGT}'']\<rparr>), And,
    Command ((new_command ''ls'')\<lparr>argv := [''ls'', ''$$HOME'']\<rparr>)]"
  let ?g = "\<lambda>s. if s = ''${SRC}'' then ''/s/a b'' else if s = ''${TGT}'' then ''/b/c'' else if s = ''$$HOME'' then ''$HOME'' else s"
  have words: "subst_arg demo_task demo_eval ''gen'' = Inr ''gen''" "subst_arg demo_task demo_eval ''${SRC}'' = Inr ''/s/a b''"
    "subst_arg demo_task demo_eval ''-o'' = Inr ''-o''" "subst_arg demo_task demo_eval ''${TGT}'' = Inr ''/b/c''"
    "subst_arg demo_task demo_eval ''ls'' = Inr ''ls''" "subst_arg demo_task demo_eval ''$$HOME'' = Inr ''$HOME''"
    by code_simp+
  have "\<exists>x w cs. task_run ?S False demo_task demo_eval \<lparr>spawned = 0, happened = []\<rparr> = (Inr (Some x), w) \<and>
    outcome (exit_code ?S) 0 ?nodes = (Some x, cs) \<and> started (happened w) = map (map ?g) cs"
  proof (rule task_outcome)
    show "parse (task_command demo_task) = Inr ?nodes" by code_simp
    show "last ?nodes = Command ((new_command ''ls'')\<lparr>argv := [''ls'', ''$$HOME'']\<rparr>)" by simp
    show "permissive ?S" by (simp add: permissive_def demo_system_def)
    show "subst_arg demo_task demo_eval s = Inr (?g s)" if "n \<in> set ?nodes" "s \<in> set (node_words n)" for n s
      using that words by (auto simp: node_words_def target_words_def new_command_def)
  qed simp
  then show ?thesis by (auto simp: new_command_def)
qed

end
