(* ===== verification/RunProgram.thy ===== *)
theory RunProgram
  imports ShellCmd PyPath
begin

text \<open>
  \<open>simulation/wutils.py\<close>: running the programs of the simulator from the build.  A program is looked up by its name or
  by its path from the directory waf was started in; its command line is the words behind the name, or a template with
  the program's path; its environment has the paths of the build put in front.  The task generators of waf, the
  configuration and the options are records, starting a process is an argument, and the texts of the exceptions are
  left out.
\<close>

section \<open>The configuration\<close>

record task_gen =
  tg_name :: string
  tg_path :: string
  tg_bld_path :: string
  tg_is_program :: bool
  tg_target_path :: string

record run_options =
  opt_template :: "string option"
  opt_valgrind :: bool
  opt_cwd_launch :: string
  default_cwd_launch :: string

type_synonym process_env = "string \<Rightarrow> string option"

record build_conf =
  platform :: string
  os_environ :: process_env
  ns3_module_path :: "string list"
  ns3_executable_path :: "string list"
  pymoddir :: string
  pyvizdir :: string
  valgrind_program :: string
  python_program :: string

definition WafError :: py_error where
  "WafError = Raised ''WafError''"

section \<open>Programs\<close>

definition get_command_template :: "run_options \<Rightarrow> string list \<Rightarrow> string" where
  "get_command_template opts arguments =
     foldl (\<lambda>cmd arg. cmd @ '' '' @ arg) (case opt_template opts of None \<Rightarrow> ''%s'' | Some t \<Rightarrow> if t = [] then ''%s'' else t) arguments"

definition below_launch_dir :: "string \<Rightarrow> task_gen \<Rightarrow> bool" where
  "below_launch_dir launch_dir obj = (startswith launch_dir (tg_path obj) \<or> startswith launch_dir (tg_bld_path obj))"

fun find_program_in :: "string \<Rightarrow> string \<Rightarrow> string \<Rightarrow> task_gen list \<Rightarrow> task_gen res" where
  "find_program_in wd launch_dir program_name [] = Inl ValueError"
| "find_program_in wd launch_dir program_name (obj # objs) =
     (if \<not> tg_is_program obj \<or> \<not> below_launch_dir launch_dir obj then find_program_in wd launch_dir program_name objs
      else rbind (relpath wd (tg_path obj) launch_dir) (\<lambda>rel.
        if program_name \<in> set [tg_name obj, path_join rel (tg_name obj)] then Inr obj
        else find_program_in wd launch_dir program_name objs))"

definition find_program :: "string \<Rightarrow> string \<Rightarrow> task_gen list \<Rightarrow> string \<Rightarrow> task_gen res" where
  "find_program wd launch all_task_gen program_name = find_program_in wd (abspath wd launch) program_name all_task_gen"

text \<open>\<open>template % (path,)\<close>: what \<open>%s\<close> and \<open>%%\<close> stand for; the other conversions are an argument.\<close>

fun percent :: "(string \<Rightarrow> string list \<Rightarrow> string res) \<Rightarrow> string \<Rightarrow> string list \<Rightarrow> string res" where
  "percent other [] args = (if args = [] then Inr [] else Inl TypeError)"
| "percent other (c # s) args =
     (if c \<noteq> CHR 0x25 then rbind (percent other s args) (\<lambda>t. Inr (c # t))
      else (case s of [] \<Rightarrow> Inl ValueError
        | d # s' \<Rightarrow>
            if d = CHR 0x25 then rbind (percent other s' args) (\<lambda>t. Inr (CHR 0x25 # t))
            else if d = CHR ''s'' then (case args of [] \<Rightarrow> Inl TypeError | a # args \<Rightarrow> rbind (percent other s' args) (\<lambda>t. Inr (a @ t)))
            else other s args))"

definition found :: "task_gen res \<Rightarrow> task_gen res" where
  "found r = (case r of Inl e \<Rightarrow> if e = ValueError then Inl WafError else Inl e | Inr obj \<Rightarrow> Inr obj)"

definition get_run_program ::
  "(string \<Rightarrow> string list \<Rightarrow> string res) \<Rightarrow> string \<Rightarrow> string \<Rightarrow> task_gen list \<Rightarrow> string \<Rightarrow> string option \<Rightarrow> (string \<times> string list) res" where
  "get_run_program other wd launch gens program_string command_template =
     (if command_template = None \<or> command_template = Some ''%s'' then
        rbind (shlex_split program_string) (\<lambda>args.
        rbind (py_get args 0) (\<lambda>program_name.
        rbind (found (find_program wd launch gens program_name)) (\<lambda>program_obj.
          Inr (program_name, tg_target_path program_obj # tl args))))
      else
        rbind (found (find_program wd launch gens program_string)) (\<lambda>program_obj.
        rbind (percent other (the command_template) [tg_target_path program_obj]) (\<lambda>tmpl.
        rbind (shlex_split (replace_str [backslash] [backslash, backslash] tmpl)) (\<lambda>execvec.
          Inr (program_string, execvec)))))"

section \<open>Processes\<close>

definition path_variable :: "string \<Rightarrow> string" where
  "path_variable plat =
     (if plat = ''linux2'' then ''LD_LIBRARY_PATH''
      else if plat = ''darwin'' then ''DYLD_LIBRARY_PATH''
      else if plat = ''win32'' then ''PATH''
      else if plat = ''cygwin'' then ''PATH''
      else ''LD_LIBRARY_PATH'')"

definition pathsep :: "string \<Rightarrow> string" where
  "pathsep plat = (if plat = ''win32'' then '';'' else '':'')"

definition put_in_front :: "string \<Rightarrow> string list \<Rightarrow> string \<Rightarrow> process_env \<Rightarrow> process_env" where
  "put_in_front sep paths var env =
     (case env var of Some old \<Rightarrow> env(var \<mapsto> join sep (paths @ [old])) | None \<Rightarrow> env(var \<mapsto> join sep paths))"

definition get_proc_env :: "build_conf \<Rightarrow> process_env option \<Rightarrow> process_env" where
  "get_proc_env conf os_env =
     (let sep = pathsep (platform conf);
          proc_env = os_environ conf ++ (case os_env of None \<Rightarrow> Map.empty | Some e \<Rightarrow> e);
          proc_env = put_in_front sep (ns3_module_path conf) (path_variable (platform conf)) proc_env;
          proc_env = put_in_front sep [pymoddir conf, pyvizdir conf] ''PYTHONPATH'' proc_env
      in put_in_front sep (ns3_executable_path conf) ''PATH'' proc_env)"

text \<open>A started process gives the lines of its error stream and its exit code, or cannot be started.\<close>

type_synonym starter = "string list \<Rightarrow> process_env \<Rightarrow> string option \<Rightarrow> (string list \<times> int) res"

definition checked_exit :: "int \<Rightarrow> int res" where
  "checked_exit retval = (if retval \<noteq> 0 then Inl WafError else Inr retval)"

definition run_argv ::
  "starter \<Rightarrow> run_options \<Rightarrow> build_conf \<Rightarrow> string list \<Rightarrow> process_env option \<Rightarrow> string option \<Rightarrow> bool \<Rightarrow> int res" where
  "run_argv start opts conf args os_env wd force_no_valgrind =
     (let proc_env = get_proc_env conf os_env in
      if opt_valgrind opts \<and> \<not> force_no_valgrind then
        (if opt_template opts \<noteq> None \<and> opt_template opts \<noteq> Some [] then Inl WafError
         else if valgrind_program conf = [] then Inl WafError
         else rbind (start ([valgrind_program conf, ''--leak-check=full'', ''--show-reachable=yes'', ''--error-exitcode=1''] @ args) proc_env wd)
           (\<lambda>(err, retval). checked_exit (if retval = 0 \<and> (\<exists>line \<in> set err. contains ''== LEAK SUMMARY'' line) then 1 else retval)))
      else rbind (start args proc_env wd) (\<lambda>(err, retval). checked_exit retval))"

definition launch_cwd :: "run_options \<Rightarrow> string option \<Rightarrow> string option" where
  "launch_cwd opts wd = (case wd of Some d \<Rightarrow> Some d
     | None \<Rightarrow> Some (if opt_cwd_launch opts \<noteq> [] then opt_cwd_launch opts else default_cwd_launch opts))"

definition visual :: "string list \<Rightarrow> bool \<Rightarrow> string list" where
  "visual execvec visualize = (if visualize then execvec @ [''--SimulatorImplementationType=ns3::VisualSimulatorImpl''] else execvec)"

definition run_program ::
  "(string \<Rightarrow> string list \<Rightarrow> string res) \<Rightarrow> starter \<Rightarrow> run_options \<Rightarrow> build_conf \<Rightarrow> string \<Rightarrow> string \<Rightarrow> task_gen list \<Rightarrow>
     string \<Rightarrow> string option \<Rightarrow> string option \<Rightarrow> bool \<Rightarrow> int res" where
  "run_program other start opts conf here launch gens program_string command_template wd visualize =
     rbind (get_run_program other here launch gens program_string command_template) (\<lambda>(_, execvec).
       run_argv start opts conf (visual execvec visualize) None (launch_cwd opts wd) False)"

definition run_python_program :: "starter \<Rightarrow> run_options \<Rightarrow> build_conf \<Rightarrow> string \<Rightarrow> bool \<Rightarrow> int res" where
  "run_python_program start opts conf program_string visualize =
     rbind (shlex_split program_string) (\<lambda>execvec.
       run_argv start opts conf (python_program conf # visual execvec visualize) None (launch_cwd opts None) False)"

section \<open>Looking a program up\<close>

lemma find_program_in_Inr:
  "find_program_in wd launch_dir name objs = Inr obj \<Longrightarrow>
    obj \<in> set objs \<and> tg_is_program obj \<and> below_launch_dir launch_dir obj \<and>
    (\<exists>rel. relpath wd (tg_path obj) launch_dir = Inr rel \<and> (name = tg_name obj \<or> name = path_join rel (tg_name obj)))"
  by (induction objs) (auto simp: rbind_eq_Inr split: if_splits)

text \<open>A program named by its path is the one at that path from the directory the build was started in.\<close>

lemma found_path:
  assumes "absolute p" "absolute (path_join wd launch)" "relpath wd p (abspath wd launch) = Inr rel" "\<not> startswith ''/'' n"
  shows "abspath wd (path_join (abspath wd launch) (path_join rel n)) = abspath wd (path_join p n)"
proof -
  let ?l = "abspath wd launch" and ?name = "path_join rel n"
  have l: "absolute ?l" "path_join wd ?l = ?l" "path_join wd p = p"
    using absolute_normpath[OF assms(2)] assms(1) by (simp_all add: abspath_def absolute_path_join)
  note rel = relpath_parts[of wd p ?l rel, unfolded l, OF assms(1) l(1) assms(3)]
  have name: "\<not> startswith ''/'' ?name" using rel(1) assms(4) by (cases rel) (auto simp: path_join_def)
  have abs: "absolute (path_join ?l ?name)" "absolute (path_join p n)" using absolute_join l(1) name assms(1,4) by blast+
  have "parts (path_join ?l ?name) = foldl (norm_step True) (parts p) (split_on (CHR ''/'') n)"
    using parts_follow[OF l(1) abs(1) name] follow_join[OF assms(4)] rel(2) by simp
  also have "\<dots> = parts (path_join p n)" using parts_follow[OF assms(1) abs(2) assms(4)] by simp
  finally show ?thesis using abs by (simp add: abspath_def absolute_path_join normpath_absolute)
qed

section \<open>Command lines\<close>

lemma template_join: "foldl (\<lambda>cmd arg. cmd @ '' '' @ arg) t arguments = join '' '' (t # arguments)"
proof (induction arguments arbitrary: t)
  case (Cons a as)
  show ?case using Cons.IH[of "t @ '' '' @ a"] by (cases as) simp_all
qed simp

lemma percent_none: "CHR 0x25 \<notin> set s \<Longrightarrow> percent other s [] = Inr s"
  by (induction s) auto

lemma percent_path: "CHR 0x25 \<notin> set s \<Longrightarrow> percent other (''%s'' @ s) [path] = Inr (path @ s)"
  by (simp add: percent_none)

lemma replace_absent: "c \<notin> set s \<Longrightarrow> replace_str [c] r s = s"
proof -
  have "c \<notin> set s \<Longrightarrow> split_str_acc [c] acc s = [rev acc @ s]" for acc
    by (induction s arbitrary: acc) (subst split_str_acc.simps, auto)+
  then show "c \<notin> set s \<Longrightarrow> replace_str [c] r s = s" by (simp add: replace_str_def split_str_def)
qed

lemma set_join: "set (join sep xs) \<subseteq> set sep \<union> \<Union> (set ` set xs)"
  by (induction xs rule: join.induct) auto

section \<open>Properties\<close>

text \<open>The program that is found for a name that is not its own is the one that the name, as a path from the directory
  the build was started in, leads to.\<close>

theorem program_found:
  assumes "find_program wd launch objs name = Inr obj" "name \<noteq> tg_name obj"
    and "absolute (path_join wd launch)" "absolute (tg_path obj)" "\<not> startswith ''/'' (tg_name obj)"
  shows "obj \<in> set objs \<and> tg_is_program obj \<and>
    abspath wd (path_join (abspath wd launch) name) = abspath wd (path_join (tg_path obj) (tg_name obj))"
  using find_program_in_Inr[OF assms(1)[unfolded find_program_def]] assms(2) found_path[OF assms(4,3) _ assms(5)] by auto

definition demo_program :: task_gen where
  "demo_program = \<lparr>tg_name = ''third'', tg_path = ''/ns3/scratch'', tg_bld_path = ''/ns3/build/scratch'', tg_is_program = True,
     tg_target_path = ''/ns3/build/scratch/third''\<rparr>"

theorem program_found_witness:
  "find_program ''/ns3/src'' ''..'' [demo_program] ''scratch/third'' = Inr demo_program \<and>
   abspath ''/ns3/src'' (path_join (abspath ''/ns3/src'' ''..'') ''scratch/third'') = abspath ''/ns3/src'' (path_join ''/ns3/scratch'' ''third'')"
proof -
  have found: "find_program ''/ns3/src'' ''..'' [demo_program] ''scratch/third'' = Inr demo_program" by code_simp
  have "absolute (path_join ''/ns3/src'' ''..'')" "absolute (tg_path demo_program)" "\<not> startswith ''/'' (tg_name demo_program)"
    "''scratch/third'' \<noteq> tg_name demo_program"
    unfolding absolute_def by code_simp+
  then show ?thesis using found program_found[OF found] by (simp add: demo_program_def)
qed

text \<open>C30. The words behind the name and the template made of them give the same command line: the program's path and the
  words, as long as neither has white space, quotes, backslashes or, in the template, per cent signs.\<close>

theorem command_lines_agree:
  assumes "find_program wd launch objs name = Inr obj" "opt_template opts = None" "bare name" "bare (tg_target_path obj)" "list_all bare words"
    and "\<forall>w \<in> set words. CHR 0x25 \<notin> set w"
  shows "get_run_program other wd launch objs (join '' '' (name # words)) None = Inr (name, tg_target_path obj # words) \<and>
    get_run_program other wd launch objs name (Some (get_command_template opts words)) = Inr (name, tg_target_path obj # words)"
proof (intro conjI)
  have split: "shlex_split (join '' '' (x # words)) = Inr (x # words)" if "bare x" for x
    using shlex_join[of "x # words"] that assms(5) by (simp add: shlex_split_def)
  show "get_run_program other wd launch objs (join '' '' (name # words)) None = Inr (name, tg_target_path obj # words)"
    using split[OF assms(3)] assms(1) by (simp add: get_run_program_def found_def py_get_def)
  have template: "get_command_template opts words = join '' '' (''%s'' # words)"
    unfolding get_command_template_def assms(2) option.case by (rule template_join)
  show "get_run_program other wd launch objs name (Some (get_command_template opts words)) = Inr (name, tg_target_path obj # words)"
  proof (cases words)
    case Nil
    then show ?thesis using template split[OF assms(3)] assms(1) by (simp add: get_run_program_def found_def py_get_def)
  next
    case (Cons w ws)
    let ?rest = "sp # join '' '' words"
    have rest: "join '' '' (x # words) = x @ ?rest" for x using Cons by (simp add: join_Cons)
    have "CHR 0x25 \<notin> set ?rest" using assms(6) set_join[of "'' ''" words] by auto
    then have "percent other (get_command_template opts words) [tg_target_path obj] = Inr (join '' '' (tg_target_path obj # words))"
      unfolding template rest by (rule percent_path)
    moreover have "backslash \<notin> set (join '' '' (tg_target_path obj # words))"
    proof -
      have "backslash \<notin> set x" if "x \<in> set (tg_target_path obj # words)" for x
        using that assms(4,5) by (auto simp: bare_def list_all_iff)
      then show ?thesis using set_join[of "'' ''" "tg_target_path obj # words"] by (auto simp: backslash_def)
    qed
    moreover have "get_command_template opts words \<noteq> ''%s''" unfolding template rest by simp
    ultimately show ?thesis using split[OF assms(4)] assms(1) by (simp add: get_run_program_def found_def replace_absent)
  qed
qed

text \<open>A run that succeeds has started its command with the paths of the build in front of the variables, and the process
  has ended with 0; under valgrind it has reported no leak.\<close>

theorem run_succeeds:
  assumes "run_argv start opts conf args os_env wd no_valgrind = Inr r" "path_variable (platform conf) \<noteq> ''PATH''"
  shows "r = 0 \<and> (\<exists>full env err. start full env wd = Inr (err, 0) \<and> suffix args full \<and>
    (opt_valgrind opts \<and> \<not> no_valgrind \<longrightarrow> (\<forall>line \<in> set err. \<not> contains ''== LEAK SUMMARY'' line)) \<and>
    (let base = os_environ conf ++ (case os_env of None \<Rightarrow> Map.empty | Some e \<Rightarrow> e); old = (\<lambda>v. case base v of None \<Rightarrow> [] | Some s \<Rightarrow> [s]) in
      env (path_variable (platform conf)) = Some (join '':'' (ns3_module_path conf @ old (path_variable (platform conf)))) \<and>
      env ''PYTHONPATH'' = Some (join '':'' ([pymoddir conf, pyvizdir conf] @ old ''PYTHONPATH'')) \<and>
      env ''PATH'' = Some (join '':'' (ns3_executable_path conf @ old ''PATH'')) \<and>
      (\<forall>v. v \<notin> {path_variable (platform conf), ''PYTHONPATH'', ''PATH''} \<longrightarrow> env v = base v)))"
proof -
  have "pathsep (platform conf) = '':''" "path_variable (platform conf) \<noteq> ''PYTHONPATH''"
    using assms(2) by (auto simp: pathsep_def path_variable_def)
  then have env: "let base = os_environ conf ++ (case os_env of None \<Rightarrow> Map.empty | Some e \<Rightarrow> e); old = (\<lambda>v. case base v of None \<Rightarrow> [] | Some s \<Rightarrow> [s]);
        env = get_proc_env conf os_env in
      env (path_variable (platform conf)) = Some (join '':'' (ns3_module_path conf @ old (path_variable (platform conf)))) \<and>
      env ''PYTHONPATH'' = Some (join '':'' ([pymoddir conf, pyvizdir conf] @ old ''PYTHONPATH'')) \<and>
      env ''PATH'' = Some (join '':'' (ns3_executable_path conf @ old ''PATH'')) \<and>
      (\<forall>v. v \<notin> {path_variable (platform conf), ''PYTHONPATH'', ''PATH''} \<longrightarrow> env v = base v)"
    using assms(2) by (auto simp: get_proc_env_def put_in_front_def Let_def split: option.splits)
  have "\<exists>full err. start full (get_proc_env conf os_env) wd = Inr (err, 0) \<and> suffix args full \<and> r = 0 \<and>
    (opt_valgrind opts \<and> \<not> no_valgrind \<longrightarrow> (\<forall>line \<in> set err. \<not> contains ''== LEAK SUMMARY'' line))"
  proof (cases "opt_valgrind opts \<and> \<not> no_valgrind")
    case True
    let ?full = "[valgrind_program conf, ''--leak-check=full'', ''--show-reachable=yes'', ''--error-exitcode=1''] @ args"
    obtain err where "start ?full (get_proc_env conf os_env) wd = Inr (err, 0)" "r = 0" "\<forall>line \<in> set err. \<not> contains ''== LEAK SUMMARY'' line"
      using assms(1) True by (auto simp: run_argv_def checked_exit_def Let_def rbind_eq_Inr split: if_splits)
    moreover have "suffix args ?full" by (rule suffixI) (rule refl)
    ultimately show ?thesis by blast
  next
    case False
    then obtain err where "start args (get_proc_env conf os_env) wd = Inr (err, 0)" "r = 0"
      using assms(1) by (auto simp: run_argv_def checked_exit_def Let_def rbind_eq_Inr split: if_splits)
    then show ?thesis using False by blast
  qed
  with env show ?thesis unfolding Let_def by blast
qed

definition demo_opts :: run_options where
  "demo_opts = \<lparr>opt_template = None, opt_valgrind = True, opt_cwd_launch = [], default_cwd_launch = ''/ns3''\<rparr>"

definition demo_conf :: build_conf where
  "demo_conf = \<lparr>platform = ''linux2'', os_environ = [''PATH'' \<mapsto> ''/bin''], ns3_module_path = [''/ns3/build''], ns3_executable_path = [''/ns3/build/bin''],
     pymoddir = ''/ns3/build/py'', pyvizdir = ''/ns3/viz'', valgrind_program = ''/bin/valgrind'', python_program = ''/bin/python''\<rparr>"

theorem command_lines_agree_witness:
  "get_run_program (\<lambda>_ _. Inl ValueError) ''/ns3/src'' ''..'' [demo_program] ''third mix/config.txt'' None =
     Inr (''third'', [''/ns3/build/scratch/third'', ''mix/config.txt'']) \<and>
   get_run_program (\<lambda>_ _. Inl ValueError) ''/ns3/src'' ''..'' [demo_program] ''third'' (Some (get_command_template demo_opts [''mix/config.txt''])) =
     Inr (''third'', [''/ns3/build/scratch/third'', ''mix/config.txt''])"
proof -
  have "find_program ''/ns3/src'' ''..'' [demo_program] ''third'' = Inr demo_program" by code_simp
  moreover have "bare ''third''" "bare (tg_target_path demo_program)" "list_all bare [''mix/config.txt'']"
    "\<forall>w \<in> set [''mix/config.txt'']. CHR 0x25 \<notin> set w"
    by code_simp+
  ultimately show ?thesis
    using command_lines_agree[of "''/ns3/src''" "''..''" "[demo_program]" "''third''" demo_program demo_opts "[''mix/config.txt'']" "\<lambda>_ _. Inl ValueError"]
    by (simp add: demo_opts_def demo_program_def)
qed

definition demo_start :: starter where
  "demo_start = (\<lambda>args env wd.
     if env ''PATH'' = Some ''/ns3/build/bin:/bin'' \<and> env ''LD_LIBRARY_PATH'' = Some ''/ns3/build'' then Inr ([''ok''], 0) else Inr ([], 1))"

theorem run_succeeds_witness:
  "\<exists>full env err. demo_start full env None = Inr (err, 0) \<and> suffix [''third''] full \<and> env ''PATH'' = Some ''/ns3/build/bin:/bin''"
proof -
  have run: "run_argv demo_start demo_opts demo_conf [''third''] None None False = Inr 0" by code_simp
  have platform: "path_variable (platform demo_conf) \<noteq> ''PATH''" by code_simp
  from run_succeeds[OF run platform] obtain full env err where
    "demo_start full env None = Inr (err, 0)" "suffix [''third''] full" by blast
  moreover from this(1) have "env ''PATH'' = Some ''/ns3/build/bin:/bin''" by (simp add: demo_start_def split: if_splits)
  ultimately show ?thesis by blast
qed

text \<open>The test for the launch directory compares texts: a program of a directory beside it is found too.\<close>

theorem sibling_found:
  "let obj = demo_program\<lparr>tg_path := ''/ns3/src-old'', tg_bld_path := ''/ns3/build/src-old''\<rparr>
   in find_program ''/ns3/src'' ''.'' [obj] ''third'' = Inr obj"
  by code_simp

text \<open>A blank in the program's path splits the template's command line, but not the words'.\<close>

theorem blank_splits_template:
  "let obj = demo_program\<lparr>tg_target_path := ''/my ns3/third''\<rparr>; other = (\<lambda>_ _. Inl ValueError)
   in get_run_program other ''/ns3'' ''.'' [obj] ''third -v'' None = Inr (''third'', [''/my ns3/third'', ''-v'']) \<and>
      get_run_program other ''/ns3'' ''.'' [obj] ''third'' (Some ''%s -v'') = Inr (''third'', [''/my'', ''ns3/third'', ''-v''])"
  by code_simp

end
