(* ===== verification/ScanHook.thy ===== *)
theory ScanHook
  imports PyPath PyWorld "HOL-Library.AList"
begin

text \<open>
  The hooks of \<open>simulation/bindings/python/ns3modulescan.py\<close> and \<open>ns3modulescan-modular.py\<close>: for every declaration that
  gccxml has found they decide how it is wrapped, by annotations.  A declaration is the record of what the hooks ask
  of it, the annotations are dictionaries as association lists, and the state of a hook holds the shared table of
  annotations, which the hook changes, too.  The search for the header's place below \<open>ns3\<close> may never end in the first
  script: it is a partial function, and \<open>None\<close> is no result.  The parser of the headers is not in the repository.
\<close>

section \<open>The path of a header\<close>

text \<open>\<open>os.path.join (*l)\<close> needs an argument.\<close>

definition join_all :: "string list \<Rightarrow> string res" where
  "join_all l = (case l of [] \<Rightarrow> Inl TypeError | x # xs \<Rightarrow> Inr (foldl path_join x xs))"

partial_function (option) header_loop :: "string list \<Rightarrow> string \<Rightarrow> string res option" where
  "header_loop l head =
     (if head = [] then Some (Inl AssertionError)
      else if basename head = ''ns3'' then Some (join_all l)
      else header_loop (basename head # l) (dirname head))"

definition get_ns3_relative_path :: "string \<Rightarrow> string res option" where
  "get_ns3_relative_path path = header_loop [] path"

lemma prefix_rev_dropWhile: "prefix (rev (dropWhile P (rev s))) s"
  using suffix_dropWhile[of P "rev s"] by (simp add: suffix_to_prefix)

lemma dirname_prefix: "prefix (dirname p) p"
proof -
  let ?h = "rev (dropWhile (\<lambda>c. c \<noteq> CHR ''/'') (rev p))"
  have "prefix (rstrip_by (\<lambda>c. c = CHR ''/'') ?h) ?h" unfolding rstrip_by_def by (rule prefix_rev_dropWhile)
  moreover have "prefix ?h p" by (rule prefix_rev_dropWhile)
  ultimately have "prefix (rstrip_by (\<lambda>c. c = CHR ''/'') ?h) p" by (rule prefix_order.trans)
  then show ?thesis unfolding dirname_def Let_def using \<open>prefix ?h p\<close> by (cases "rstrip_by (\<lambda>c. c = CHR ''/'') ?h = []") simp_all
qed

lemma dirname_shorter: "dirname p \<noteq> p \<Longrightarrow> length (dirname p) < length p"
proof -
  assume "dirname p \<noteq> p"
  moreover obtain q where "p = dirname p @ q" using dirname_prefix[of p] by (rule prefixE)
  ultimately have "q \<noteq> []" by auto
  then show ?thesis using \<open>p = dirname p @ q\<close> by (metis length_append length_greater_0_conv less_add_same_cancel1)
qed

function header_loop_modular :: "string list \<Rightarrow> string \<Rightarrow> string res" where
  "header_loop_modular l head =
     (if head = [] then Inl AssertionError
      else if dirname head = head then Inl ValueError
      else if basename head = ''ns3'' then join_all l
      else header_loop_modular (basename head # l) (dirname head))"
  by pat_completeness auto
termination
  by (relation "measure (\<lambda>(l, head). length head)") (auto simp: dirname_shorter)

declare header_loop_modular.simps [simp del]

definition get_ns3_relative_path_modular :: "string \<Rightarrow> string res" where
  "get_ns3_relative_path_modular path = header_loop_modular [] path"

section \<open>Annotations\<close>

datatype avalue = Text string | Nothing | Truth | Params "(string \<times> (string \<times> string) list) list"

type_synonym annotations = "(string \<times> avalue) list"

definition type_annotations :: "(string \<times> annotations) list" where
  "type_annotations = [
  (''::ns3::AttributeChecker'',
     [(''automatic_type_narrowing'', Text ''true''), (''allow_subclassing'', Text ''false'')]),
  (''::ns3::AttributeValue'',
     [(''automatic_type_narrowing'', Text ''true''), (''allow_subclassing'', Text ''false'')]),
  (''::ns3::CommandLine'',
     [(''allow_subclassing'', Text ''true'')]),
  (''::ns3::NscTcpL4Protocol'',
     [(''ignore'', Text ''true'')]),
  (''ns3::RandomVariable::RandomVariable(ns3::RandomVariableBase const & variable) [constructor]'',
     [(''ignore'', Nothing)]),
  (''ns3::RandomVariableBase * ns3::RandomVariable::Peek() const [member function]'',
     [(''ignore'', Nothing)]),
  (''void ns3::RandomVariable::GetSeed(uint32_t * seed) const [member function]'',
     [(''params'', Params [(''seed'', [(''direction'', ''out''), (''array_length'', ''6'')])])]),
  (''bool ns3::TypeId::LookupAttributeByName(std::string name, ns3::TypeId::AttributeInformation * info) const [member function]'',
     [(''params'', Params [(''info'', [(''transfer_ownership'', ''false'')])])]),
  (''static bool ns3::TypeId::LookupByNameFailSafe(std::string name, ns3::TypeId * tid) [member function]'',
     [(''ignore'', Nothing)]),
  (''bool ns3::TraceSourceAccessor::ConnectWithoutContext(ns3::ObjectBase * obj, ns3::CallbackBase const & cb) const [member function]'',
     [(''params'', Params [(''obj'', [(''transfer_ownership'', ''false'')])])]),
  (''bool ns3::TraceSourceAccessor::Connect(ns3::ObjectBase * obj, std::string context, ns3::CallbackBase const & cb) const [member function]'',
     [(''params'', Params [(''obj'', [(''transfer_ownership'', ''false'')])])]),
  (''bool ns3::TraceSourceAccessor::DisconnectWithoutContext(ns3::ObjectBase * obj, ns3::CallbackBase const & cb) const [member function]'',
     [(''params'', Params [(''obj'', [(''transfer_ownership'', ''false'')])])]),
  (''bool ns3::TraceSourceAccessor::Disconnect(ns3::ObjectBase * obj, std::string context, ns3::CallbackBase const & cb) const [member function]'',
     [(''params'', Params [(''obj'', [(''transfer_ownership'', ''false'')])])]),
  (''bool ns3::AttributeAccessor::Set(ns3::ObjectBase * object, ns3::AttributeValue const & value) const [member function]'',
     [(''params'', Params [(''object'', [(''transfer_ownership'', ''false'')])])]),
  (''ns3::EmpiricalVariable::EmpiricalVariable(ns3::RandomVariableBase const & variable) [constructor]'',
     [(''ignore'', Nothing)]),
  (''static ns3::AttributeList * ns3::AttributeList::GetGlobal() [member function]'',
     [(''caller_owns_return'', Text ''false'')]),
  (''void ns3::CommandLine::Parse(int argc, char * * argv) const [member function]'',
     [(''ignore'', Nothing)]),
  (''extern void ns3::PythonCompleteConstruct(ns3::Ptr<ns3::Object> object, ns3::TypeId typeId, ns3::AttributeList const & attributes) [free function]'',
     [(''ignore'', Nothing)]),
  (''ns3::Ptr<ns3::Ipv4RoutingProtocol> ns3::Ipv4ListRouting::GetRoutingProtocol(uint32_t index, int16_t & priority) const [member function]'',
     [(''params'', Params [(''priority'', [(''direction'', ''out'')])])]),
  (''ns3::Ipv4RoutingTableEntry * ns3::GlobalRouter::GetInjectedRoute(uint32_t i) [member function]'',
     [(''params'', Params [(''return'', [(''caller_owns_return'', ''false'')])])]),
  (''ns3::Ipv4RoutingTableEntry * ns3::Ipv4GlobalRouting::GetRoute(uint32_t i) const [member function]'',
     [(''params'', Params [(''return'', [(''caller_owns_return'', ''false'')])])]),
  (''::ns3::TestCase'',
     [(''ignore'', Text ''true'')]),
  (''::ns3::TestRunner'',
     [(''ignore'', Text ''true'')]),
  (''::ns3::TestSuite'',
     [(''ignore'', Text ''true'')])]"

section \<open>Declarations\<close>

datatype decl_kind = Class_t | Enumeration_t | Free_function_t | Member_function_t | Constructor_t | Other_calldef_t | Other_t

text \<open>The template arguments of the demangled name; whether the declaration is an instance of a template, and the
  headers of its arguments, where they have one; the default values of its arguments.\<close>

record decl =
  d_kind :: decl_kind
  d_file_name :: string
  d_str :: string
  d_name :: string
  d_parent_name :: string
  d_template_args :: "string list"
  d_decl_string :: string
  d_instantiation :: bool
  d_param_files :: "string option list"

record hook_state =
  h_table :: "(string \<times> annotations) list"
  h_global :: annotations
  h_params :: "(string \<times> (string \<times> string) list) list"
  h_defaults :: "string option list"

type_synonym 'a hook = "(hook_state, 'a) act"

definition set_global :: "string \<Rightarrow> avalue \<Rightarrow> unit hook" where
  "set_global k v = update (\<lambda>s. s\<lparr>h_global := AList.update k v (h_global s)\<rparr>)"

definition update_all :: "(string \<times> 'v) list \<Rightarrow> (string \<times> 'v) list \<Rightarrow> (string \<times> 'v) list" where
  "update_all new d = fold (\<lambda>(k, v). AList.update k v) new d"

definition when_do :: "bool \<Rightarrow> unit hook \<Rightarrow> unit hook" where
  "when_do b m = (if b then m else ret ())"

definition is_calldef :: "decl \<Rightarrow> bool" where
  "is_calldef d = (d_kind d \<in> {Free_function_t, Member_function_t, Constructor_t, Other_calldef_t})"

definition fix_default :: "string option \<Rightarrow> string option" where
  "fix_default v =
     (if v = Some ''ns3::MilliSeconds( )'' then Some ''ns3::MilliSeconds(0)''
      else if v = Some ''ns3::Seconds( )'' then Some ''ns3::Seconds(0)''
      else v)"

definition manual_rules :: "decl \<Rightarrow> unit hook" where
  "manual_rules d =
     also_do (when_do (d_kind d = Member_function_t \<and> d_parent_name d = ''Object'' \<and> d_name d = ''GetObject'' \<and> d_template_args d = [''ns3::Object''])
       (set_global ''template_instance_names'' (Text ''ns3::Object=>GetObject'')))
    (also_do (when_do (d_kind d = Member_function_t \<and> d_parent_name d = ''Simulator'' \<and> startswith ''Schedule'' (d_name d))
       (set_global ''ignore'' Nothing))
    (also_do (when_do (d_kind d = Member_function_t \<and> d_parent_name d = ''Simulator'' \<and> d_name d = ''Run'')
       (set_global ''ignore'' Truth))
    (when_do (is_calldef d) (update (\<lambda>s. s\<lparr>h_defaults := map fix_default (h_defaults s)\<rparr>)))))"

definition class_rules :: "decl \<Rightarrow> unit hook" where
  "class_rules d =
     (if startswith ''::ns3::SimpleRefCount<'' (d_decl_string d) then
        also_do (set_global ''incref_method'' (Text ''Ref''))
       (also_do (set_global ''decref_method'' (Text ''Unref''))
       (also_do (set_global ''peekref_method'' (Text ''GetReferenceCount''))
          (set_global ''automatic_type_narrowing'' (Text ''true''))))
      else if startswith ''::ns3::Callback<'' (d_decl_string d) then set_global ''ignore'' Nothing
      else if startswith ''::ns3::TracedCallback<'' (d_decl_string d) then set_global ''ignore'' Nothing
      else if startswith ''::ns3::Ptr<'' (d_decl_string d) then set_global ''ignore'' Nothing
      else abind (gets h_table) (\<lambda>table. case map_of table (d_decl_string d) of
          None \<Rightarrow> ret ()
        | Some annotations \<Rightarrow> update (\<lambda>s. s\<lparr>h_global := update_all annotations (h_global s)\<rparr>)))"

text \<open>The loop over the entry's items: parameters are taken out of the shared entry.\<close>

definition take_params :: "string \<Rightarrow> string \<times> avalue \<Rightarrow> unit hook" where
  "take_params key = (\<lambda>(k, value).
     if k = ''params'' then
       (case value of
          Params v \<Rightarrow> update (\<lambda>s. s\<lparr>h_params := update_all v (h_params s),
            h_table := AList.update key (AList.delete ''params'' (the (map_of (h_table s) key))) (h_table s)\<rparr>)
        | Text _ \<Rightarrow> raise ValueError
        | _ \<Rightarrow> raise TypeError)
     else ret ())"

definition table_rules :: "decl \<Rightarrow> unit hook" where
  "table_rules d = abind (gets h_table) (\<lambda>table. case map_of table (d_str d) of
       None \<Rightarrow> ret ()
     | Some annotations \<Rightarrow>
         also_do (each (take_params (d_str d)) annotations)
           (update (\<lambda>s. s\<lparr>h_global := update_all (the (map_of (h_table s) (d_str d))) (h_global s)\<rparr>)))"

definition scan_rules :: "decl \<Rightarrow> string \<Rightarrow> unit hook" where
  "scan_rules d ns3_header =
     also_do (set_global ''pygen_comment'' (Text (ns3_header @ '': '' @ d_str d)))
    (also_do (manual_rules d)
      (if d_kind d = Class_t then class_rules d
       else if d_kind d = Free_function_t \<and> d_name d = ''PeekPointer'' then set_global ''ignore'' Nothing
       else when_do (d_kind d \<in> {Free_function_t, Member_function_t, Constructor_t}) (table_rules d)))"

definition pre_scan_hook :: "decl \<Rightarrow> hook_state \<Rightarrow> (unit res \<times> hook_state) option" where
  "pre_scan_hook d s = map_option (\<lambda>r. abind (lift r) (scan_rules d) s) (get_ns3_relative_path (d_file_name d))"

section \<open>The hook of the modular scan\<close>

definition python_name :: "string \<Rightarrow> string" where
  "python_name m = map (\<lambda>c. if c = CHR ''-'' then CHR ''_'' else c) m"

text \<open>The modules of the template's arguments; a header outside of ns-3 is passed over.\<close>

fun param_modules :: "(string \<times> string) list \<Rightarrow> string option list \<Rightarrow> string list res" where
  "param_modules headers [] = Inr []"
| "param_modules headers (None # fs) = param_modules headers fs"
| "param_modules headers (Some f # fs) = (case get_ns3_relative_path_modular f of
       Inl e \<Rightarrow> if e = ValueError then param_modules headers fs else Inl e
     | Inr h \<Rightarrow> rbind (of_option KeyError (map_of headers h)) (\<lambda>m. rbind (param_modules headers fs) (\<lambda>ms. Inr (m # ms))))"

definition class_module :: "(string \<times> string) list \<Rightarrow> string \<Rightarrow> decl \<Rightarrow> string \<Rightarrow> string res" where
  "class_module headers module_name d definition_module =
     (if d_instantiation d then rbind (param_modules headers (d_param_files d)) (\<lambda>ms.
        Inr (if module_name \<in> set ms then module_name else definition_module))
      else Inr definition_module)"

definition module_rules :: "(string \<times> string) list \<Rightarrow> string \<Rightarrow> decl \<Rightarrow> string \<Rightarrow> string \<Rightarrow> unit hook" where
  "module_rules headers module_name d ns3_header definition_module =
     also_do (set_global ''pygen_comment'' (Text (ns3_header @ '' (module '' @ [CHR 0x27] @ definition_module @ [CHR 0x27] @ ''): '' @ d_str d)))
    (also_do (manual_rules d)
      (if d_kind d = Class_t then
         abind (lift (class_module headers module_name d definition_module)) (\<lambda>definition_module.
         also_do (when_do (definition_module \<noteq> module_name) (set_global ''import_from_module'' (Text (''ns.'' @ python_name definition_module))))
           (class_rules d))
       else if d_kind d = Enumeration_t then
         when_do (definition_module \<noteq> module_name) (set_global ''import_from_module'' (Text (''ns.'' @ definition_module)))
       else if d_kind d = Free_function_t \<and> (definition_module \<noteq> module_name \<or> d_name d = ''PeekPointer'') then set_global ''ignore'' Nothing
       else when_do (d_kind d \<in> {Free_function_t, Member_function_t, Constructor_t}) (table_rules d)))"

definition PreScanHook :: "(string \<times> string) list \<Rightarrow> string \<Rightarrow> decl \<Rightarrow> unit hook" where
  "PreScanHook headers module_name d = (case get_ns3_relative_path_modular (d_file_name d) of
       Inl e \<Rightarrow> if e = ValueError then ret () else raise e
     | Inr ns3_header \<Rightarrow> abind (lift (of_option KeyError (map_of headers ns3_header))) (module_rules headers module_name d ns3_header))"

section \<open>Walking up a path\<close>

definition path_of :: "string \<Rightarrow> string list \<Rightarrow> string" where
  "path_of start names = start @ join ''/'' names"

lemma skip_name:
  assumes "c \<notin> set x"
  shows "dropWhile (\<lambda>d. d \<noteq> c) (rev x @ t) = dropWhile (\<lambda>d. d \<noteq> c) t" "takeWhile (\<lambda>d. d \<noteq> c) (rev x @ t) = rev x @ takeWhile (\<lambda>d. d \<noteq> c) t"
proof -
  have d: "d \<noteq> c" if "d \<in> set (rev x)" for d using that assms by auto
  show "dropWhile (\<lambda>d. d \<noteq> c) (rev x @ t) = dropWhile (\<lambda>d. d \<noteq> c) t" by (rule dropWhile_append2) (rule d)
  show "takeWhile (\<lambda>d. d \<noteq> c) (rev x @ t) = rev x @ takeWhile (\<lambda>d. d \<noteq> c) t" by (rule takeWhile_append2) (rule d)
qed

lemma dirname_append: "CHR ''/'' \<notin> set x \<Longrightarrow> dirname (a @ CHR ''/'' # x) = dirname (a @ ''/'')"
  by (simp add: dirname_def skip_name)

lemma plain_name_path:
  assumes "CHR ''/'' \<notin> set x"
  shows "basename x = x" "dirname x = []"
proof -
  have skip: "dropWhile (\<lambda>d. d \<noteq> CHR ''/'') (rev x) = []" "takeWhile (\<lambda>d. d \<noteq> CHR ''/'') (rev x) = rev x"
    using skip_name[OF assms, of "[]"] by (simp_all only: append_Nil2 dropWhile.simps takeWhile.simps)
  show "basename x = x" by (simp only: basename_def skip rev_rev_ident)
  show "dirname x = []" by (simp only: dirname_def skip Let_def rstrip_by_def rev.simps dropWhile.simps if_cancel)
qed

lemma join_last: "xs \<noteq> [] \<Longrightarrow> list_all proper_part xs \<Longrightarrow> join ''/'' xs \<noteq> [] \<and> last (join ''/'' xs) \<noteq> CHR ''/''"
proof (induction xs)
  case (Cons x xs)
  have "x \<noteq> []" "CHR ''/'' \<notin> set x" using Cons.prems(2) by (auto simp: proper_part_def)
  then have x: "x \<noteq> []" "last x \<noteq> CHR ''/''" using last_in_set[of x] by metis+
  show ?case
  proof (cases "xs = []")
    case False
    then show ?thesis using Cons by (simp add: join_Cons)
  qed (use x in simp)
qed simp

lemma walk_up:
  assumes "start = [] \<or> start = ''/''" "list_all proper_part (xs @ [x])"
  shows "basename (path_of start (xs @ [x])) = x" "dirname (path_of start (xs @ [x])) = path_of start xs" "path_of start (xs @ [x]) \<noteq> []"
    "path_of start (xs @ [x]) \<noteq> path_of start xs"
proof -
  have x: "x \<noteq> []" "CHR ''/'' \<notin> set x" using assms(2) by (auto simp: proper_part_def)
  note plain = plain_name_path[OF x(2)]
  have slash: "dirname ''/'' = ''/''" by code_simp
  consider "xs = []" "start = []" | "xs = []" "start = ''/''" | "xs \<noteq> []" using assms(1) by blast
  then have "basename (path_of start (xs @ [x])) = x \<and> dirname (path_of start (xs @ [x])) = path_of start xs"
  proof cases
    case 1
    then show ?thesis using plain by (simp add: path_of_def)
  next
    case 2
    then show ?thesis using x basename_append[of x "[]"] dirname_append[of x "[]"] slash by (simp add: path_of_def)
  next
    case 3
    let ?a = "start @ join ''/'' xs"
    have p: "path_of start (xs @ [x]) = ?a @ CHR ''/'' # x" using 3 by (simp add: path_of_def join_append)
    have "?a \<noteq> []" "last ?a \<noteq> CHR ''/''" using join_last[OF 3] assms(2) by auto
    then show ?thesis unfolding p using basename_append[OF x(2), of ?a] dirname_append[OF x(2), of ?a] dirname_slash[of ?a] by (simp add: path_of_def)
  qed
  then show "basename (path_of start (xs @ [x])) = x" "dirname (path_of start (xs @ [x])) = path_of start xs" by simp_all
  have "length (path_of start xs) < length (path_of start (xs @ [x]))"
    using x(1) by (cases "xs = []") (simp_all add: path_of_def join_append)
  then show "path_of start (xs @ [x]) \<noteq> []" "path_of start (xs @ [x]) \<noteq> path_of start xs" by auto
qed

lemma join_all_names: "xs \<noteq> [] \<Longrightarrow> list_all proper_part xs \<Longrightarrow> join_all xs = Inr (join ''/'' xs)"
proof -
  have "foldl path_join (join ''/'' ys) xs = join ''/'' (ys @ xs)" if "ys \<noteq> []" "list_all proper_part (ys @ xs)" for ys xs
    using that
  proof (induction xs arbitrary: ys)
    case (Cons x xs)
    have ys: "join ''/'' ys \<noteq> []" "last (join ''/'' ys) \<noteq> CHR ''/''" using join_last[of ys] Cons.prems by simp_all
    have "CHR ''/'' \<notin> set x" using Cons.prems(2) by (simp add: proper_part_def)
    then have "\<not> startswith ''/'' x" by (cases x) auto
    then have "path_join (join ''/'' ys) x = join ''/'' (ys @ [x])" using ys Cons.prems(1) by (simp add: path_join_def join_append)
    then show ?case using Cons.IH[of "ys @ [x]"] Cons.prems by simp
  qed simp
  from this[of "[hd xs]" "tl xs"] show "xs \<noteq> [] \<Longrightarrow> list_all proper_part xs \<Longrightarrow> ?thesis" by (cases xs) (simp_all add: join_all_def)
qed

lemma header_loop_up:
  assumes "start = [] \<or> start = ''/''" "list_all proper_part (xs @ b)" "''ns3'' \<notin> set b"
  shows "header_loop l (path_of start (xs @ b)) = header_loop (b @ l) (path_of start xs) \<and>
    header_loop_modular l (path_of start (xs @ b)) = header_loop_modular (b @ l) (path_of start xs)"
  using assms(2,3)
proof (induction b arbitrary: l rule: rev_induct)
  case (snoc x b)
  have "list_all proper_part ((xs @ b) @ [x])" using snoc.prems(1) by simp
  note up = walk_up[OF assms(1) this]
  have "header_loop l (path_of start ((xs @ b) @ [x])) = header_loop (x # l) (path_of start (xs @ b))"
    using up snoc.prems(2) by (subst header_loop.simps) auto
  moreover have "header_loop_modular l (path_of start ((xs @ b) @ [x])) = header_loop_modular (x # l) (path_of start (xs @ b))"
    using up snoc.prems(2) by (subst header_loop_modular.simps) auto
  ultimately show ?case using snoc.IH[of "x # l"] snoc.prems by simp
qed simp

text \<open>At the top of an absolute path the first script goes on for ever.\<close>

lemma header_loop_top: "header_loop l head = Some r \<Longrightarrow> head \<noteq> ''/''"
proof -
  assume loop: "header_loop l head = Some r"
  have top: "basename ''/'' = []" "dirname ''/'' = ''/''" by code_simp+
  show "head \<noteq> ''/''"
  proof (rule header_loop.raw_induct[OF _ loop, of "\<lambda>l head r. head \<noteq> ''/''"], rule notI)
    fix f :: "string list \<Rightarrow> string \<Rightarrow> string res option" and l head r
    assume IH: "\<And>l head r. f l head = Some r \<Longrightarrow> head \<noteq> ''/''" and head: "head = ''/''"
      and "(if head = [] then Some (Inl AssertionError) else if basename head = ''ns3'' then Some (join_all l) else f (basename head # l) (dirname head)) = Some r"
    then have "f ([] # l) ''/'' = Some r" by (simp add: top)
    then show False using IH by blast
  qed
qed

text \<open>The part of the path behind the last \<open>ns3\<close>; without one a relative path is an error, and of an absolute path
  the first script makes no result, while the modular one passes the header over.\<close>

lemma header_paths:
  assumes "start = [] \<or> start = ''/''" "list_all proper_part (xs @ ''ns3'' # b)" "''ns3'' \<notin> set b" "b \<noteq> []"
  shows "get_ns3_relative_path (path_of start (xs @ ''ns3'' # b)) = Some (Inr (join ''/'' b))"
    "get_ns3_relative_path_modular (path_of start (xs @ ''ns3'' # b)) = Inr (join ''/'' b)"
proof -
  have top: "list_all proper_part (xs @ [''ns3''])" using assms(2) by simp
  note up = header_loop_up[OF assms(1), of "xs @ [''ns3'']" b "[]"] walk_up[OF assms(1) top]
  have join: "join_all b = Inr (join ''/'' b)" using join_all_names assms(2,4) by simp
  show "get_ns3_relative_path (path_of start (xs @ ''ns3'' # b)) = Some (Inr (join ''/'' b))"
    using up assms(2,3) join by (simp add: get_ns3_relative_path_def) (subst header_loop.simps, simp)
  show "get_ns3_relative_path_modular (path_of start (xs @ ''ns3'' # b)) = Inr (join ''/'' b)"
    using up assms(2,3) join by (simp add: get_ns3_relative_path_modular_def) (subst header_loop_modular.simps, simp)
qed

lemma header_paths_outside:
  assumes "list_all proper_part xs" "''ns3'' \<notin> set xs"
  shows "get_ns3_relative_path (path_of [] xs) = Some (Inl AssertionError)" "get_ns3_relative_path_modular (path_of [] xs) = Inl AssertionError"
    "get_ns3_relative_path (path_of ''/'' xs) = None" "get_ns3_relative_path_modular (path_of ''/'' xs) = Inl ValueError"
proof -
  have slash: "dirname ''/'' = ''/''" by code_simp
  show "get_ns3_relative_path (path_of [] xs) = Some (Inl AssertionError)"
    using header_loop_up[of "[]" "[]" xs "[]"] assms
    by (simp add: get_ns3_relative_path_def path_of_def) (subst header_loop.simps, simp)
  show "get_ns3_relative_path_modular (path_of [] xs) = Inl AssertionError"
    using header_loop_up[of "[]" "[]" xs "[]"] assms
    by (simp add: get_ns3_relative_path_modular_def path_of_def) (subst header_loop_modular.simps, simp)
  show "get_ns3_relative_path (path_of ''/'' xs) = None"
    using header_loop_up[of "''/''" "[]" xs "[]"] assms header_loop_top[of xs "''/''"]
    by (cases "header_loop xs ''/''") (simp_all add: get_ns3_relative_path_def path_of_def)
  show "get_ns3_relative_path_modular (path_of ''/'' xs) = Inl ValueError"
    using header_loop_up[of "''/''" "[]" xs "[]"] assms slash
    by (simp add: get_ns3_relative_path_modular_def path_of_def) (subst header_loop_modular.simps, simp)
qed

section \<open>Hooks that only differ in a comment\<close>

text \<open>\<open>sim\<close>: the same state but for the comment; an action is blind to it when it does the same on both.\<close>

definition sim :: "hook_state \<Rightarrow> hook_state \<Rightarrow> bool" where
  "sim s t = (h_table s = h_table t \<and> h_params s = h_params t \<and> h_defaults s = h_defaults t \<and>
     (\<forall>k. k \<noteq> ''pygen_comment'' \<longrightarrow> map_of (h_global s) k = map_of (h_global t) k))"

definition blind :: "'a hook \<Rightarrow> bool" where
  "blind m = (\<forall>s t. sim s t \<longrightarrow> fst (m s) = fst (m t) \<and> sim (snd (m s)) (snd (m t)))"

lemma blind_simple [intro]: "blind (ret x)" "blind (raise e)" "blind (lift r)"
  by (simp_all add: blind_def)

lemma blind_table: "blind (gets h_table)"
  by (simp add: blind_def sim_def)

lemma blind_bind [intro]: "blind m \<Longrightarrow> (\<And>x. blind (f x)) \<Longrightarrow> blind (abind m f)"
proof -
  assume m: "blind m" and f: "\<And>x. blind (f x)"
  have "fst (abind m f s) = fst (abind m f t) \<and> sim (snd (abind m f s)) (snd (abind m f t))" if "sim s t" for s t
  proof -
    have "fst (m s) = fst (m t)" "sim (snd (m s)) (snd (m t))" using m that by (auto simp: blind_def)
    then show ?thesis using f by (cases "m s"; cases "m t"; cases "fst (m s)") (auto simp: abind_def blind_def)
  qed
  then show ?thesis by (simp add: blind_def)
qed

lemma blind_also_do [intro]: "blind m \<Longrightarrow> blind k \<Longrightarrow> blind (also_do m k)"
  unfolding also_do_def by blast

lemma blind_when_do [intro]: "blind m \<Longrightarrow> blind (when_do b m)"
  by (auto simp: when_do_def)

lemma blind_each: "(\<And>x. x \<in> set xs \<Longrightarrow> blind (f x)) \<Longrightarrow> blind (each f xs)"
  by (induction xs) auto

lemma map_of_update_all: "map_of (update_all new d) k = (case map_of (rev new) k of None \<Rightarrow> map_of d k | Some v \<Rightarrow> Some v)"
proof (induction new arbitrary: d)
  case (Cons e new)
  have "map_of (update_all (e # new) d) k = map_of (update_all new (AList.update (fst e) (snd e) d)) k" by (simp add: update_all_def split_beta)
  then show ?case by (simp add: Cons map_add_def update_conv' split: option.split)
qed (simp add: update_all_def)

lemma blind_updates [intro]:
  "blind (set_global k v)"
  "blind (update (\<lambda>s. s\<lparr>h_defaults := map fix_default (h_defaults s)\<rparr>))"
  "blind (update (\<lambda>s. s\<lparr>h_global := update_all new (h_global s)\<rparr>))"
  "blind (update (\<lambda>s. s\<lparr>h_params := f (h_params s), h_table := g (h_table s)\<rparr>))"
  "blind (update (\<lambda>s. s\<lparr>h_global := update_all (the (map_of (h_table s) k)) (h_global s)\<rparr>))"
  by (auto simp: blind_def sim_def set_global_def update_conv' map_of_update_all split: option.split)

lemma blind_manual: "blind (manual_rules d)"
  unfolding manual_rules_def by blast

lemma blind_class: "blind (class_rules d)"
  unfolding class_rules_def by (auto intro!: blind_bind[OF blind_table] split: option.split)

lemma blind_table_rules: "blind (table_rules d)"
proof -
  have take: "blind (take_params key e)" for key e
    by (cases e) (auto simp: take_params_def split: avalue.split)
  show ?thesis unfolding table_rules_def
    by (auto intro!: blind_bind[OF blind_table] blind_also_do blind_updates blind_simple blind_each take split: option.split)
qed

text \<open>The two hooks on a declaration of the module itself.\<close>

lemma rules_agree:
  assumes "class_module headers module_name d module_name = Inr module_name"
  shows "let (r, s1) = scan_rules d ns3_header s; (q, s2) = module_rules headers module_name d ns3_header module_name s
    in r = q \<and> sim s1 s2"
proof -
  let ?rest = "also_do (manual_rules d) (if d_kind d = Class_t then class_rules d
       else if d_kind d = Free_function_t \<and> d_name d = ''PeekPointer'' then set_global ''ignore'' Nothing
       else when_do (d_kind d \<in> {Free_function_t, Member_function_t, Constructor_t}) (table_rules d))"
  have "blind ?rest"
    by (auto intro!: blind_also_do blind_when_do blind_updates blind_manual blind_class blind_table_rules)
  moreover have "sim (s\<lparr>h_global := AList.update ''pygen_comment'' v (h_global s)\<rparr>) (s\<lparr>h_global := AList.update ''pygen_comment'' w (h_global s)\<rparr>)" for v w
    by (simp add: sim_def update_conv')
  ultimately have rest: "fst (?rest (s\<lparr>h_global := AList.update ''pygen_comment'' v (h_global s)\<rparr>)) = fst (?rest (s\<lparr>h_global := AList.update ''pygen_comment'' w (h_global s)\<rparr>)) \<and>
      sim (snd (?rest (s\<lparr>h_global := AList.update ''pygen_comment'' v (h_global s)\<rparr>))) (snd (?rest (s\<lparr>h_global := AList.update ''pygen_comment'' w (h_global s)\<rparr>)))" for v w
    unfolding blind_def by blast
  have "scan_rules d ns3_header = also_do (set_global ''pygen_comment'' (Text (ns3_header @ '': '' @ d_str d))) ?rest"
    by (simp add: scan_rules_def)
  moreover have "module_rules headers module_name d ns3_header module_name =
      also_do (set_global ''pygen_comment'' (Text (ns3_header @ '' (module '' @ [CHR 0x27] @ module_name @ [CHR 0x27] @ ''): '' @ d_str d))) ?rest"
    using assms by (auto simp: module_rules_def when_do_def fun_eq_iff also_do_def abind_def ret_def lift_def split: prod.split sum.split)
  ultimately show ?thesis using rest by (simp add: set_global_def also_do_def split_beta)
qed


section \<open>What the rules do to the state\<close>

lemma manual_rules_effect:
  "\<exists>g f. (\<forall>s. manual_rules d s = (Inr (), s\<lparr>h_global := g (h_global s), h_defaults := map f (h_defaults s)\<rparr>)) \<and> (\<forall>v. f (f v) = f v)"
proof -
  define sets :: "bool \<Rightarrow> string \<Rightarrow> avalue \<Rightarrow> annotations \<Rightarrow> annotations" where
    "sets c k v = (if c then AList.update k v else id)" for c k v
  define f where "f = (if is_calldef d then fix_default else id)"
  have each: "also_do (when_do c (set_global k v)) m s = m (s\<lparr>h_global := sets c k v (h_global s)\<rparr>)" for c k v s and m :: "unit hook"
    by (simp add: when_do_def set_global_def sets_def)
  have last: "when_do (is_calldef d) (update (\<lambda>s. s\<lparr>h_defaults := map fix_default (h_defaults s)\<rparr>)) s = (Inr (), s\<lparr>h_defaults := map f (h_defaults s)\<rparr>)" for s
    by (simp add: when_do_def f_def)
  define g where "g = (\<lambda>q. sets (d_kind d = Member_function_t \<and> d_parent_name d = ''Simulator'' \<and> d_name d = ''Run'') ''ignore'' Truth
      (sets (d_kind d = Member_function_t \<and> d_parent_name d = ''Simulator'' \<and> startswith ''Schedule'' (d_name d)) ''ignore'' Nothing
      (sets (d_kind d = Member_function_t \<and> d_parent_name d = ''Object'' \<and> d_name d = ''GetObject'' \<and> d_template_args d = [''ns3::Object''])
        ''template_instance_names'' (Text ''ns3::Object=>GetObject'') q)))"
  have "manual_rules d s = (Inr (), s\<lparr>h_global := g (h_global s), h_defaults := map f (h_defaults s)\<rparr>)" for s
    unfolding manual_rules_def each last by (simp add: g_def)
  moreover have "f (f v) = f v" for v
    by (simp add: f_def fix_default_def)
  ultimately show ?thesis by blast
qed

lemma take_params_others: "''params'' \<notin> set (map fst items) \<Longrightarrow> each (take_params key) items s = (Inr (), s)"
  by (induction items) (auto simp: take_params_def)

lemma take_params_once:
  "map_of items ''params'' = Some (Params v) \<Longrightarrow> distinct (map fst items) \<Longrightarrow>
   each (take_params key) items s = (Inr (), s\<lparr>h_params := update_all v (h_params s),
     h_table := AList.update key (AList.delete ''params'' (the (map_of (h_table s) key))) (h_table s)\<rparr>)"
proof (induction items)
  case (Cons e items)
  show ?case
  proof (cases "fst e = ''params''")
    case True
    then have "snd e = Params v" "''params'' \<notin> set (map fst items)" using Cons.prems by (auto simp: map_of_eq_None_iff split: prod.splits)
    then show ?thesis using True take_params_others[of items] by (cases e) (simp add: take_params_def)
  next
    case False
    then have "take_params key e = ret ()" by (cases e) (simp add: take_params_def)
    then show ?thesis using Cons False by simp
  qed
qed simp

lemma table_rules_params:
  assumes "map_of (h_table s) (d_str d) = Some items" "map_of items ''params'' = Some (Params v)" "distinct (map fst items)"
  shows "table_rules d s = (Inr (), s\<lparr>h_table := AList.update (d_str d) (AList.delete ''params'' items) (h_table s),
    h_params := update_all v (h_params s), h_global := update_all (AList.delete ''params'' items) (h_global s)\<rparr>)"
  using assms take_params_once[OF assms(2,3), of "d_str d" s] by (simp add: table_rules_def also_do_run update_conv')

lemma table_rules_plain:
  assumes "map_of (h_table s) (d_str d) = Some items" "''params'' \<notin> set (map fst items)"
  shows "table_rules d s = (Inr (), s\<lparr>h_global := update_all items (h_global s)\<rparr>)"
  using assms take_params_others[OF assms(2), of "d_str d" s] by (simp add: table_rules_def also_do_run)

text \<open>A declaration of a function or a method whose entry of the table has annotations of parameters.\<close>

definition has_params :: "hook_state \<Rightarrow> decl \<Rightarrow> annotations \<Rightarrow> (string \<times> (string \<times> string) list) list \<Rightarrow> bool" where
  "has_params s d items v = (d_kind d \<in> {Free_function_t, Member_function_t, Constructor_t} \<and> d_name d \<noteq> ''PeekPointer'' \<and>
     map_of (h_table s) (d_str d) = Some items \<and> map_of items ''params'' = Some (Params v) \<and> distinct (map fst items))"

definition rescanned :: "hook_state \<Rightarrow> hook_state \<Rightarrow> hook_state" where
  "rescanned s t = t\<lparr>h_global := h_global s, h_params := h_params s\<rparr>"

lemma second_scan_rules:
  assumes "has_params s d items v"
  shows "\<exists>s1. scan_rules d h s = (Inr (), s1) \<and> h_params s1 = update_all v (h_params s) \<and>
    scan_rules d h (rescanned s s1) = (Inr (), s1\<lparr>h_params := h_params s\<rparr>)"
proof -
  obtain g f where man: "\<And>s. manual_rules d s = (Inr (), s\<lparr>h_global := g (h_global s), h_defaults := map f (h_defaults s)\<rparr>)"
    and idem: "\<And>v. f (f v) = f v"
    using manual_rules_effect by blast
  define g' where "g' = (\<lambda>q. g (AList.update ''pygen_comment'' (Text (h @ '': '' @ d_str d)) q))"
  let ?rest = "AList.delete ''params'' items"
  have kind: "scan_rules d h t = table_rules d (t\<lparr>h_global := g' (h_global t), h_defaults := map f (h_defaults t)\<rparr>)" for t
    using assms by (auto simp: scan_rules_def has_params_def set_global_def g'_def when_do_def also_do_def abind_def man)
  let ?s1 = "s\<lparr>h_table := AList.update (d_str d) ?rest (h_table s), h_params := update_all v (h_params s),
    h_global := update_all ?rest (g' (h_global s)), h_defaults := map f (h_defaults s)\<rparr>"
  have one: "scan_rules d h s = (Inr (), ?s1)"
    unfolding kind using assms by (subst table_rules_params) (auto simp: has_params_def)
  have "scan_rules d h (rescanned s ?s1) = (Inr (), ?s1\<lparr>h_params := h_params s\<rparr>)"
    unfolding kind rescanned_def by (subst table_rules_plain[of _ _ ?rest]) (auto simp: update_conv' idem comp_def delete_notin_dom AList.delete_keys)
  with one show ?thesis by (intro exI[of _ ?s1]) simp
qed

section \<open>Properties\<close>

text \<open>Both searches give the part of an absolute or relative path behind its last directory \<open>ns3\<close>.\<close>

theorem header_found:
  assumes "start = [] \<or> start = ''/''" "list_all proper_part (xs @ ''ns3'' # b)" "''ns3'' \<notin> set b" "b \<noteq> []"
  shows "get_ns3_relative_path (path_of start (xs @ ''ns3'' # b)) = Some (Inr (join ''/'' b)) \<and>
    get_ns3_relative_path_modular (path_of start (xs @ ''ns3'' # b)) = Inr (join ''/'' b)"
  using header_paths[OF assms] by simp

lemma header_found_witness:
  "get_ns3_relative_path ''/usr/ns3/build/ns3/object.h'' = Some (Inr ''object.h'') \<and>
   get_ns3_relative_path_modular ''/usr/ns3/build/ns3/object.h'' = Inr ''object.h''"
  using header_found[of "''/''" "[''usr'', ''ns3'', ''build'']" "[''object.h'']"] by (simp add: path_of_def proper_part_def join_Cons)

text \<open>A relative path without a directory \<open>ns3\<close> is an \<open>AssertionError\<close> for both; of an absolute one the modular
  search makes a \<open>ValueError\<close>, and the first search never ends.\<close>

theorem header_outside:
  assumes "list_all proper_part xs" "''ns3'' \<notin> set xs"
  shows "get_ns3_relative_path (path_of [] xs) = Some (Inl AssertionError) \<and> get_ns3_relative_path_modular (path_of [] xs) = Inl AssertionError \<and>
    get_ns3_relative_path (path_of ''/'' xs) = None \<and> get_ns3_relative_path_modular (path_of ''/'' xs) = Inl ValueError"
  using header_paths_outside[OF assms] by simp

lemma header_outside_witness: "get_ns3_relative_path ''/usr/include/stdio.h'' = None \<and> get_ns3_relative_path_modular ''/usr/include/stdio.h'' = Inl ValueError"
  using header_outside[of "[''usr'', ''include'', ''stdio.h'']"] by (simp add: path_of_def proper_part_def join_Cons)

text \<open>C36. The first scan of a declaration whose entry annotates parameters gives these annotations and deletes them in the
  shared table: a second scan of it, with the annotations it had before, gives the same state but none for its parameters.\<close>

theorem second_scan:
  assumes "get_ns3_relative_path (d_file_name d) = Some (Inr h)" "has_params s d items v"
  shows "\<exists>s1. pre_scan_hook d s = Some (Inr (), s1) \<and> h_params s1 = update_all v (h_params s) \<and>
    pre_scan_hook d (rescanned s s1) = Some (Inr (), s1\<lparr>h_params := h_params s\<rparr>)"
  using second_scan_rules[OF assms(2), of h] assms(1) by (simp add: pre_scan_hook_def)

definition lookup_decl :: decl where
  "lookup_decl = \<lparr>d_kind = Member_function_t, d_file_name = ''ns3/type-id.h'',
     d_str = ''bool ns3::TypeId::LookupAttributeByName(std::string name, ns3::TypeId::AttributeInformation * info) const [member function]'',
     d_name = ''LookupAttributeByName'', d_parent_name = ''TypeId'', d_template_args = [], d_decl_string = ''::ns3::TypeId::LookupAttributeByName'',
     d_instantiation = False, d_param_files = []\<rparr>"

definition start_state :: hook_state where
  "start_state = \<lparr>h_table = type_annotations, h_global = [], h_params = [], h_defaults = []\<rparr>"

lemma lookup_decl_facts: "has_params start_state lookup_decl [(''params'', Params [(''info'', [(''transfer_ownership'', ''false'')])])] [(''info'', [(''transfer_ownership'', ''false'')])]"
  by code_simp

lemma lookup_decl_header:
  "get_ns3_relative_path (d_file_name lookup_decl) = Some (Inr ''type-id.h'')" "get_ns3_relative_path_modular (d_file_name lookup_decl) = Inr ''type-id.h''"
  using header_paths[of "[]" "[]" "[''type-id.h'']"] by (simp_all add: path_of_def proper_part_def join_Cons lookup_decl_def)

lemma second_scan_witness:
  "\<exists>s1. h_params s1 = [(''info'', [(''transfer_ownership'', ''false'')])] \<and> pre_scan_hook lookup_decl start_state = Some (Inr (), s1) \<and>
     pre_scan_hook lookup_decl (rescanned start_state s1) = Some (Inr (), s1\<lparr>h_params := []\<rparr>)"
  using second_scan[OF lookup_decl_header(1) lookup_decl_facts] by (auto simp: update_all_def start_state_def)



text \<open>What is imported of another module: an enumeration from \<open>ns.\<close> with the module's own name, a class from its name with
  \<open>-\<close> replaced by \<open>_\<close>, the only name that a Python module can have.\<close>

theorem import_names:
  assumes "get_ns3_relative_path_modular (d_file_name d) = Inr h" "map_of headers h = Some m" "m \<noteq> own" "\<not> d_instantiation d"
    and "\<forall>items. map_of (h_table s) (d_decl_string d) = Some items \<longrightarrow> ''import_from_module'' \<notin> set (map fst items)"
  shows "(d_kind d = Enumeration_t \<longrightarrow> map_of (h_global (snd (PreScanHook headers own d s))) ''import_from_module'' = Some (Text (''ns.'' @ m))) \<and>
    (d_kind d = Class_t \<longrightarrow> map_of (h_global (snd (PreScanHook headers own d s))) ''import_from_module'' = Some (Text (''ns.'' @ python_name m)))"
proof -
  obtain g f where man: "\<And>s. manual_rules d s = (Inr (), s\<lparr>h_global := g (h_global s), h_defaults := map f (h_defaults s)\<rparr>)"
    using manual_rules_effect by blast
  have none: "k \<notin> fst ` set (x :: annotations) \<Longrightarrow> map_of (rev x) k = None" for k x
    by (simp add: map_of_eq_None_iff)
  have "PreScanHook headers own d s = module_rules headers own d h m s"
    using assms by (simp add: PreScanHook_def of_option_def)
  moreover have "map_of (h_global (snd (class_rules d t))) ''import_from_module'' = map_of (h_global t) ''import_from_module''" if "h_table t = h_table s" for t
    using that assms(5)
    by (auto simp: class_rules_def set_global_def update_conv' map_of_update_all none split: option.split)
  ultimately show ?thesis using assms(3,4)
    by (simp add: module_rules_def set_global_def also_do_def abind_def man when_do_def class_module_def update_conv')
qed

lemma import_names_witness:
  "map_of (h_global (snd (PreScanHook [(''type-id.h'', ''csma-layout'')] ''core'' (lookup_decl\<lparr>d_kind := Enumeration_t\<rparr>) start_state))) ''import_from_module'' = Some (Text ''ns.csma-layout'')"
proof -
  have "map_of (h_table start_state) (d_decl_string lookup_decl) = None" by code_simp
  then show ?thesis
    using import_names[of "lookup_decl\<lparr>d_kind := Enumeration_t\<rparr>" "''type-id.h''" "[(''type-id.h'', ''csma-layout'')]" "''csma-layout''" "''core''" start_state] lookup_decl_header(2)
    by (simp add: lookup_decl_def)
qed

end
