(* ===== verification/RadBits.thy ===== *)
theory RadBits
  imports PyString PyRandom
begin

text \<open>
  The functions on binary numbers of \<open>simulation/bindings/python/rad_util.py\<close>: numbers as text of a given width and
  back, the least significant bits, Gray codes, random vectors and the list of all numbers of a width.  The integers
  are Python's, without bound; an empty slice and a negative bound mean what they mean in Python.
\<close>

unbundle bit_operations_syntax

section \<open>Slices with any bound\<close>

text \<open>\<open>xs[:k]\<close> and \<open>xs[k:]\<close>; a negative bound counts from the end.\<close>

definition up_to :: "'a list \<Rightarrow> int \<Rightarrow> 'a list" where
  "up_to xs k = (if 0 \<le> k then take (nat k) xs else take (length xs - nat (- k)) xs)"

definition from_on :: "'a list \<Rightarrow> int \<Rightarrow> 'a list" where
  "from_on xs k = (if 0 \<le> k then drop (nat k) xs else drop (length xs - nat (- k)) xs)"

section \<open>Numbers as text\<close>

definition hex_char :: "int \<Rightarrow> char" where
  "hex_char d = ''0123456789abcdef'' ! nat d"

function hex_digits :: "int \<Rightarrow> string" where
  "hex_digits n = (if n < 16 then [hex_char n] else hex_digits (n div 16) @ [hex_char (n mod 16)])"
  by pat_completeness auto
termination
  by (relation "measure nat") auto

declare hex_digits.simps [simp del]

text \<open>\<open>hex (i)\<close>; a long, which an integer beyond 64 bits is, ends in \<open>L\<close>.\<close>

definition py_hex :: "int \<Rightarrow> string" where
  "py_hex i = (if i < 0 then ''-0x'' else ''0x'') @ hex_digits \<bar>i\<bar> @ (if i < - (2 ^ 63) \<or> 2 ^ 63 \<le> i then ''L'' else [])"

definition lower_case :: "string \<Rightarrow> string" where
  "lower_case s = map (\<lambda>c. let n = of_char c :: nat in if 65 \<le> n \<and> n \<le> 90 then char_of (n + 32) else c) s"

definition hex2bin :: "char \<Rightarrow> string option" where
  "hex2bin = map_of (zip ''0123456789abcdef'' [''0000'', ''0001'', ''0010'', ''0011'', ''0100'', ''0101'', ''0110'', ''0111'',
     ''1000'', ''1001'', ''1010'', ''1011'', ''1100'', ''1101'', ''1110'', ''1111''])"

definition int2bin :: "int \<Rightarrow> int \<Rightarrow> string res" where
  "int2bin i n = rbind (rmap (\<lambda>x. of_option KeyError (hex2bin x)) (drop 2 (filter (\<lambda>c. c \<noteq> CHR ''l'') (lower_case (py_hex i)))))
     (\<lambda>groups. let result = concat groups
       in if CHR ''1'' \<in> set (up_to result (- n)) then Inl ValueError
          else (let result = from_on result (- n) in Inr (replicate (nat (n - int (length result))) (CHR ''0'') @ result)))"

text \<open>\<open>int (s, 2)\<close>: blanks around it, a sign, the prefix \<open>0b\<close>.\<close>

definition base2_prefix :: "string \<Rightarrow> string" where
  "base2_prefix s = (case s of c # d # ds \<Rightarrow> if c = CHR ''0'' \<and> (d = CHR ''b'' \<or> d = CHR ''B'') then ds else s | _ \<Rightarrow> s)"

definition bin2int :: "string \<Rightarrow> int res" where
  "bin2int s = (let (sg, ds) = read_sign (strip s); ds = base2_prefix (lstrip ds)
     in if ds \<noteq> [] \<and> list_all (\<lambda>c. c = CHR ''0'' \<or> c = CHR ''1'') ds
        then Inr (sg * foldl (\<lambda>n c. 2 * n + (if c = CHR ''1'' then 1 else 0)) 0 ds) else Inl ValueError)"

definition lsb :: "int \<Rightarrow> int \<Rightarrow> int res" where
  "lsb x n = (if n < 0 then Inl TypeError else Inr (x AND (2 ^ nat n - 1)))"

definition gray_encode :: "int \<Rightarrow> int" where
  "gray_encode i = i XOR drop_bit 1 i"

definition reverse_text :: "string \<Rightarrow> string" where
  "reverse_text s = rev s"

section \<open>Random vectors\<close>

primrec draw_vector :: "nat \<Rightarrow> rng \<Rightarrow> string \<Rightarrow> (string \<times> rng) res" where
  "draw_vector 0 g vector = Inr (vector, g)"
| "draw_vector (Suc k) g vector = rbind (random_random g) (\<lambda>(u, g).
     rbind (int2bin (py_trunc (fmul (2 ^ 10) u)) 10) (\<lambda>b. draw_vector k g (vector @ b)))"

definition random_vec :: "nat \<Rightarrow> int option \<Rightarrow> rng \<Rightarrow> (string \<times> rng) res" where
  "random_vec bits max_value g = rbind (draw_vector (bits div 10 + 1) g []) (\<lambda>(vector, g).
     rbind (case max_value of
         Some m \<Rightarrow> if m \<noteq> 0 \<and> m < 2 ^ bits - 1
           then rbind (bin2int vector) (\<lambda>v. if (2 ^ bits - 1 :: int) = 0 then Inl ZeroDivisionError
             else int2bin ((v div (2 ^ bits - 1)) * m) (int bits))
           else Inr vector
       | None \<Rightarrow> Inr vector)
     (\<lambda>vector. Inr (take bits vector, g)))"

section \<open>All numbers of a width\<close>

text \<open>One addition of one: \<open>toggle\<close> holds the carries into the digits.\<close>

function carry_loop :: "nat \<Rightarrow> nat \<Rightarrow> string \<Rightarrow> nat list \<Rightarrow> string \<times> nat list" where
  "carry_loop bits i v toggle =
     (if i < bits \<and> toggle ! i = 1 then
        (if v ! i = CHR ''0'' then carry_loop bits (i + 1) (v[i := CHR ''1'']) (toggle[i + 1 := 0])
         else carry_loop bits (i + 1) (v[i := CHR ''0'']) (toggle[i + 1 := 1]))
      else (v, toggle))"
  by pat_completeness auto
termination
  by (relation "measure (\<lambda>(bits, i, v, toggle). bits - i)") auto

declare carry_loop.simps [simp del]

partial_function (option) binary_loop :: "nat \<Rightarrow> string \<Rightarrow> nat list \<Rightarrow> string list \<Rightarrow> string list option" where
  "binary_loop bits v toggle l =
     (if toggle ! bits = 1 then Some l
      else (let (w, toggle) = carry_loop bits 0 v (1 # replicate bits 0) in binary_loop bits w toggle (l @ [rev v])))"

definition binary_range :: "nat \<Rightarrow> string list option" where
  "binary_range bits = binary_loop bits (replicate bits (CHR ''0'')) (1 # replicate bits 0) []"

section \<open>The bits of a number\<close>

definition bit_char :: "bool \<Rightarrow> char" where
  "bit_char b = (if b then CHR ''1'' else CHR ''0'')"

definition bits_of :: "nat \<Rightarrow> int \<Rightarrow> string" where
  "bits_of n i = map (\<lambda>k. bit_char (bit i k)) (rev [0..<n])"

lemma length_bits_of [simp]: "length (bits_of n i) = n"
  by (simp add: bits_of_def)

lemma bit_char_simps [simp]: "bit_char b = CHR ''1'' \<longleftrightarrow> b" "bit_char b = CHR ''0'' \<longleftrightarrow> \<not> b" "bit_char b = bit_char c \<longleftrightarrow> b = c"
  "CHR ''1'' = bit_char b \<longleftrightarrow> b" "CHR ''0'' = bit_char b \<longleftrightarrow> \<not> b"
  by (auto simp: bit_char_def)

lemma bits_of_chars: "c \<in> set (bits_of n i) \<Longrightarrow> c = CHR ''0'' \<or> c = CHR ''1''"
  by (auto simp: bits_of_def bit_char_def)

lemma bits_of_append: "bits_of (m + n) i = bits_of m (drop_bit n i) @ bits_of n i"
proof -
  have "[0..<m + n] = [0..<n] @ map (\<lambda>k. n + k) [0..<m]"
    using upt_add_eq_append[of 0 n m] map_add_upt[of n m] by (simp add: add.commute)
  then show ?thesis by (simp add: bits_of_def rev_map bit_drop_bit_eq comp_def)
qed

lemma bits_of_Suc: "bits_of (Suc n) i = bit_char (bit i n) # bits_of n i"
  by (simp add: bits_of_def)

lemma bits_of_snoc: "bits_of (Suc n) i = bits_of n (i div 2) @ [bit_char (odd i)]"
  using bits_of_append[of n 1 i] by (simp add: bits_of_def drop_bit_Suc bit_0)

lemma bits_of_take_bit: "bits_of n (take_bit n i) = bits_of n i"
  by (simp add: bits_of_def bit_take_bit_iff)

lemma one_in_bits_of: "CHR ''1'' \<in> set (bits_of n i) \<longleftrightarrow> take_bit n i \<noteq> 0"
proof -
  have "take_bit n i = 0 \<longleftrightarrow> (\<forall>k < n. \<not> bit i k)"
    by (auto simp: bit_eq_iff bit_take_bit_iff)
  then show ?thesis by (auto simp: bits_of_def image_iff)
qed

lemma bits_of_zeros: "0 \<le> i \<Longrightarrow> i < 2 ^ m \<Longrightarrow> bits_of (k + m) i = replicate k (CHR ''0'') @ bits_of m i"
proof -
  assume "0 \<le> i" "i < 2 ^ m"
  then have "drop_bit m i = 0" by (simp add: drop_bit_eq_div)
  then show ?thesis by (simp add: bits_of_append) (simp add: bits_of_def bit_char_def map_replicate_const)
qed


section \<open>Writing a number\<close>

lemma hex_char_facts:
  assumes "0 \<le> d" "d < 16"
  shows "hex2bin (hex_char d) = Some (bits_of 4 d)" "hex_char d \<noteq> CHR ''l''" "lower_case [hex_char d] = [hex_char d]"
proof -
  have "list_all (\<lambda>d. hex2bin (hex_char d) = Some (bits_of 4 d) \<and> hex_char d \<noteq> CHR ''l'' \<and> lower_case [hex_char d] = [hex_char d]) [0..15]"
    by code_simp
  moreover have "d \<in> set [0..15]" using assms by simp
  ultimately have "hex2bin (hex_char d) = Some (bits_of 4 d) \<and> hex_char d \<noteq> CHR ''l'' \<and> lower_case [hex_char d] = [hex_char d]"
    unfolding list_all_iff by blast
  then show "hex2bin (hex_char d) = Some (bits_of 4 d)" "hex_char d \<noteq> CHR ''l''" "lower_case [hex_char d] = [hex_char d]" by blast+
qed

lemma rmap_append: "rmap f (xs @ ys) = rbind (rmap f xs) (\<lambda>a. rbind (rmap f ys) (\<lambda>b. Inr (a @ b)))"
proof (induction xs)
  case Nil
  then show ?case by (cases "rmap f ys") simp_all
qed (simp add: rbind_assoc)

lemma lower_case_append: "lower_case (s @ t) = lower_case s @ lower_case t"
  by (simp add: lower_case_def)

lemma hex_digits_plain: "0 \<le> n \<Longrightarrow> lower_case (hex_digits n) = hex_digits n \<and> CHR ''l'' \<notin> set (hex_digits n)"
proof (induction n rule: hex_digits.induct)
  case (1 n)
  then show ?case
    using hex_char_facts[of n] hex_char_facts[of "n mod 16"]
    by (subst (1 2 3) hex_digits.simps) (auto simp: lower_case_append pos_imp_zdiv_nonneg_iff)
qed

lemma hex_digits_bits:
  "0 \<le> n \<Longrightarrow> \<exists>k gs. rmap (\<lambda>x. of_option KeyError (hex2bin x)) (hex_digits n) = Inr gs \<and> concat gs = bits_of (Suc k) n \<and> n < 2 ^ Suc k"
proof (induction n rule: hex_digits.induct)
  case (1 n)
  show ?case
  proof (cases "n < 16")
    case True
    then have "rmap (\<lambda>x. of_option KeyError (hex2bin x)) (hex_digits n) = Inr [bits_of 4 n]"
      using 1 hex_char_facts[of n] by (subst hex_digits.simps) (simp add: of_option_def)
    then show ?thesis using True by (intro exI[of _ 3] exI[of _ "[bits_of 4 n]"]) simp
  next
    case False
    then obtain k gs where IH: "rmap (\<lambda>x. of_option KeyError (hex2bin x)) (hex_digits (n div 16)) = Inr gs"
      "concat gs = bits_of (Suc k) (n div 16)" "n div 16 < 2 ^ Suc k"
      using 1 by (auto simp: pos_imp_zdiv_nonneg_iff)
    have digit: "hex2bin (hex_char (n mod 16)) = Some (bits_of 4 n)"
      using hex_char_facts[of "n mod 16"] bits_of_take_bit[of 4 n] by (simp add: take_bit_eq_mod)
    have "rmap (\<lambda>x. of_option KeyError (hex2bin x)) (hex_digits n) = Inr (gs @ [bits_of 4 n])"
      using False IH(1) digit by (subst hex_digits.simps) (simp add: rmap_append of_option_def)
    moreover have "concat (gs @ [bits_of 4 n]) = bits_of (Suc (k + 4)) n"
      using bits_of_append[of "Suc k" 4 n] IH(2) by (simp add: drop_bit_eq_div)
    moreover have "n < 2 ^ Suc (k + 4)"
    proof -
      have "n = 16 * (n div 16) + n mod 16" by simp
      moreover have "n mod 16 < 16" by simp
      ultimately show ?thesis using IH(3) by (simp add: power_add)
    qed
    ultimately show ?thesis by blast
  qed
qed

lemma hex_text: "0 \<le> i \<Longrightarrow> drop 2 (filter (\<lambda>c. c \<noteq> CHR ''l'') (lower_case (py_hex i))) = hex_digits i"
proof -
  assume i: "0 \<le> i"
  have "lower_case ''0x'' = ''0x''" "lower_case ''L'' = ''l''" "lower_case [] = []" by code_simp+
  moreover have "filter (\<lambda>c. c \<noteq> CHR ''l'') (hex_digits i) = hex_digits i"
    using hex_digits_plain[OF i] by (intro filter_True) auto
  ultimately show ?thesis using i hex_digits_plain[OF i] by (simp add: py_hex_def lower_case_append del: append_Cons)
qed

lemma negative_hex_text: "i < 0 \<Longrightarrow> \<exists>t. drop 2 (filter (\<lambda>c. c \<noteq> CHR ''l'') (lower_case (py_hex i))) = CHR ''x'' # t"
proof -
  assume "i < 0"
  have "lower_case ''-0x'' = ''-0x''" by code_simp
  then have "drop 2 (filter (\<lambda>c. c \<noteq> CHR ''l'') (lower_case (''-0x'' @ t))) = ''x'' @ filter (\<lambda>c. c \<noteq> CHR ''l'') (lower_case t)" for t
    by (simp add: lower_case_append del: append_Cons)
  with \<open>i < 0\<close> show ?thesis by (simp add: py_hex_def del: append_Cons) simp
qed

lemma from_on_bits:
  assumes "1 \<le> n" "0 \<le> i" "i < 2 ^ m"
  shows "i < 2 ^ nat n \<Longrightarrow> replicate (nat (n - int (length (from_on (bits_of m i) (- n))))) (CHR ''0'') @ from_on (bits_of m i) (- n) = bits_of (nat n) i"
    "CHR ''1'' \<in> set (up_to (bits_of m i) (- n)) \<longleftrightarrow> 2 ^ nat n \<le> i"
proof -
  obtain b where b: "n = int b" "1 \<le> b" using assms(1) by (metis nat_0_le nat_int of_nat_1 of_nat_le_iff order_trans zero_le_one)
  consider (short) k where "m = k + b" | (long) k where "b = k + m" by (metis le_Suc_ex add.commute nat_le_linear)
  then have "(i < 2 ^ b \<longrightarrow> replicate (nat (n - int (length (from_on (bits_of m i) (- n))))) (CHR ''0'') @ from_on (bits_of m i) (- n) = bits_of b i) \<and>
    (CHR ''1'' \<in> set (up_to (bits_of m i) (- n)) \<longleftrightarrow> 2 ^ b \<le> i)"
  proof cases
    case short
    then have split: "bits_of m i = bits_of k (drop_bit b i) @ bits_of b i" by (simp add: bits_of_append)
    have "take_bit k (drop_bit b i) = drop_bit b i"
      using drop_bit_take_bit[of b m i] assms(2,3) short by (simp add: take_bit_int_eq_self)
    moreover have "drop_bit b i = 0 \<longleftrightarrow> i < 2 ^ b" using assms(2) by (auto simp: drop_bit_eq_div zdiv_eq_0_iff)
    ultimately show ?thesis using split short b by (auto simp: from_on_def up_to_def one_in_bits_of)
  next
    case long
    have "(2 :: int) ^ m \<le> 2 ^ b" using long by (intro power_increasing) simp_all
    with assms(3) have "i < 2 ^ b" by (rule less_le_trans)
    then show ?thesis using long b bits_of_zeros[OF assms(2,3), of k] by (auto simp: from_on_def up_to_def)
  qed
  then show "i < 2 ^ nat n \<Longrightarrow> replicate (nat (n - int (length (from_on (bits_of m i) (- n))))) (CHR ''0'') @ from_on (bits_of m i) (- n) = bits_of (nat n) i"
    "CHR ''1'' \<in> set (up_to (bits_of m i) (- n)) \<longleftrightarrow> 2 ^ nat n \<le> i" using b by simp_all
qed

lemma int2bin_spec:
  assumes "1 \<le> n"
  shows "int2bin i n = (if i < 0 then Inl KeyError else if i < 2 ^ nat n then Inr (bits_of (nat n) i) else Inl ValueError)"
proof (cases "i < 0")
  case True
  have "hex2bin CHR ''x'' = None" by code_simp
  then show ?thesis using negative_hex_text[OF True] True by (auto simp: int2bin_def of_option_def)
next
  case False
  then obtain k gs where "rmap (\<lambda>x. of_option KeyError (hex2bin x)) (hex_digits i) = Inr gs" "concat gs = bits_of (Suc k) i" "i < 2 ^ Suc k"
    using hex_digits_bits[of i] by auto
  then show ?thesis using False from_on_bits[OF assms, of i "Suc k"] by (simp add: int2bin_def hex_text Let_def del: replicate_append_same)
qed

text \<open>A width of 0 takes the whole text: \<open>[-0:]\<close> is \<open>[0:]\<close>.\<close>

lemma int2bin_width_0: "0 \<le> i \<Longrightarrow> \<exists>k. int2bin i 0 = Inr (bits_of (Suc k) i) \<and> i < 2 ^ Suc k"
  using hex_digits_bits[of i] by (auto simp: int2bin_def hex_text up_to_def from_on_def)

section \<open>Reading a number\<close>

lemma foldl_bits: "foldl (\<lambda>n c. 2 * n + (if c = CHR ''1'' then 1 else 0)) a (bits_of n i) = a * 2 ^ n + take_bit n (i :: int)"
proof (induction n arbitrary: a)
  case (Suc n)
  have "take_bit (Suc n) i = of_bool (bit i n) * 2 ^ n + take_bit n i"
    using take_bit_Suc_from_most[of n i] by (simp add: mult.commute)
  then show ?case using Suc by (simp add: bits_of_Suc algebra_simps)
qed (auto simp: bits_of_def intro: exI[of _ 0])

lemma bits_text_plain:
  assumes "s \<noteq> []" "\<And>c. c \<in> set s \<Longrightarrow> c = CHR ''0'' \<or> c = CHR ''1''"
  shows "bin2int s = Inr (foldl (\<lambda>n c. 2 * n + (if c = CHR ''1'' then 1 else 0)) 0 s)"
proof -
  have ws: "\<not> is_ws CHR ''0''" "\<not> is_ws CHR ''1''" by code_simp+
  then have "\<not> is_ws c" if "c \<in> set s" for c using assms(2)[OF that] by auto
  then have "strip s = s" by (rule strip_id_all)
  moreover obtain c t where s: "s = c # t" "c = CHR ''0'' \<or> c = CHR ''1''" using assms by (cases s) auto
  moreover have "lstrip s = s" using s ws by (auto simp: lstrip_def)
  moreover have "base2_prefix s = s" using assms(2)[of "hd t"] s by (auto simp: base2_prefix_def split: list.split)
  ultimately have "bin2int s = (if list_all (\<lambda>c. c = CHR ''0'' \<or> c = CHR ''1'') s then Inr (foldl (\<lambda>n c. 2 * n + (if c = CHR ''1'' then 1 else 0)) 0 s) else Inl ValueError)"
    by (auto simp: bin2int_def read_sign_def Let_def)
  then show ?thesis using assms(2) by (simp add: list_all_iff)
qed

lemma bin2int_bits: "1 \<le> n \<Longrightarrow> 0 \<le> i \<Longrightarrow> i < 2 ^ n \<Longrightarrow> bin2int (bits_of n i) = Inr i"
proof -
  assume n: "1 \<le> n" and "0 \<le> i" "i < 2 ^ n"
  moreover have "bits_of n i \<noteq> []" using n by (simp add: bits_of_def)
  ultimately show ?thesis using bits_text_plain[of "bits_of n i", OF _ bits_of_chars] foldl_bits[of 0 n i] by (simp add: take_bit_int_eq_self)
qed

text \<open>Every text of bits is the text of a number.\<close>

lemma bits_text: "(\<And>c. c \<in> set s \<Longrightarrow> c = CHR ''0'' \<or> c = CHR ''1'') \<Longrightarrow> \<exists>i. 0 \<le> i \<and> i < 2 ^ length s \<and> s = bits_of (length s) i"
proof (induction s rule: rev_induct)
  case (snoc c s)
  then obtain i where i: "0 \<le> i" "i < 2 ^ length s" "s = bits_of (length s) i" by auto
  have "bits_of (Suc (length s)) (2 * i + of_bool (c = CHR ''1'')) = s @ [c]"
    using i(3) snoc.prems[of c] by (auto simp: bits_of_snoc bit_char_def)
  then show ?case using i(1,2) by (intro exI[of _ "2 * i + of_bool (c = CHR ''1'')"]) auto
qed (auto simp: bits_of_def intro: exI[of _ 0])

section \<open>Gray codes\<close>

lemma gray_bit: "bit (gray_encode i) k = (bit i k \<noteq> bit i (Suc k))"
  by (simp add: gray_encode_def bit_xor_iff bit_drop_bit_eq)

lemma gray_xor: "gray_encode a XOR gray_encode b = gray_encode (a XOR b)"
  by (rule bit_eqI) (auto simp: gray_bit bit_xor_iff)

lemma gray_bounds: "0 \<le> i \<Longrightarrow> i < 2 ^ n \<Longrightarrow> 0 \<le> gray_encode i \<and> gray_encode i < 2 ^ n"
proof -
  assume i: "0 \<le> i" "i < 2 ^ n"
  then have "take_bit n i = i" by (simp add: take_bit_int_eq_self)
  then have high: "\<not> bit i k" if "n \<le> k" for k using that bit_take_bit_iff[of n i k] by simp
  have "k < n" if "bit (gray_encode i) k" for k
    using that high[of k] high[of "Suc k"] by (cases "k < n") (simp_all add: gray_bit)
  then have "take_bit n (gray_encode i) = gray_encode i"
    by (intro bit_eqI) (auto simp: bit_take_bit_iff)
  then show ?thesis by (metis take_bit_int_less_exp take_bit_nonnegative)
qed

lemma gray_zero: "0 \<le> c \<Longrightarrow> gray_encode c = 0 \<Longrightarrow> c = 0"
proof -
  assume c: "0 \<le> c" and zero: "gray_encode c = 0"
  have same: "bit c (Suc k) = bit c k" for k using gray_bit[of c k] zero by simp
  have all: "bit c k = bit c 0" for k by (induction k) (simp_all only: same)
  obtain n where "c < 2 ^ n" using c by (metis int_nat_eq less_exp of_nat_less_iff of_nat_numeral of_nat_power nat_0_le)
  then have "\<not> bit c n" using c by (metis bit_take_bit_iff order.irrefl take_bit_int_eq_self)
  then have "\<not> bit c k" for k using all by metis
  then show "c = 0" by (simp add: bit_eq_iff)
qed

lemma succ_xor: "0 \<le> i \<Longrightarrow> \<exists>k. (i + 1) XOR i = mask (Suc k)" for i :: int
proof (induction "nat i" arbitrary: i rule: less_induct)
  case less
  show ?case
  proof (cases "even i")
    case True
    then obtain j where "i = 2 * j" by blast
    then have "(i + 1) XOR i = mask (Suc 0)" by (simp add: xor_rec[of "2 * j + 1"])
    then show ?thesis by blast
  next
    case False
    then obtain j where j: "i = 2 * j + 1" by (metis oddE)
    then have "nat j < nat i" "0 \<le> j" using less.prems by auto
    then obtain k where k: "(j + 1) XOR j = mask (Suc k)" using less.hyps by blast
    have "(i + 1) XOR i = 1 + 2 * ((j + 1) XOR j)"
      using j by (subst xor_rec) (simp add: algebra_simps)
    then have "(i + 1) XOR i = mask (Suc (Suc k))" by (simp add: k mask_eq_exp_minus_1)
    then show ?thesis by blast
  qed
qed

lemma gray_mask: "gray_encode (mask (Suc k)) = 2 ^ k"
  by (rule bit_eqI) (auto simp: gray_bit bit_mask_iff bit_exp_iff)

section \<open>Counting up\<close>

text \<open>The digits of the loop are in the order of their weights.\<close>

definition low_first :: "nat \<Rightarrow> int \<Rightarrow> string" where
  "low_first n i = map (\<lambda>k. bit_char (bit i k)) [0..<n]"

lemma low_first_rev: "rev (low_first n i) = bits_of n i"
  by (simp add: low_first_def bits_of_def rev_map)

lemma bit_succ: "bit (i + 1 :: int) k = (bit i k \<noteq> (\<forall>j < k. bit i j))"
proof (induction k arbitrary: i)
  case 0
  then show ?case by (simp add: bit_0)
next
  case (Suc k)
  have "(i + 1) div 2 = (if odd i then i div 2 + 1 else i div 2)" by presburger
  then have "bit (i + 1) (Suc k) = (if odd i then bit (i div 2 + 1) k else bit (i div 2) k)" by (simp add: bit_Suc)
  moreover have "(\<forall>j < Suc k. bit i j) \<longleftrightarrow> odd i \<and> (\<forall>j < k. bit (i div 2) j)"
    by (simp add: All_less_Suc2 bit_0 bit_Suc)
  ultimately show ?case using Suc.IH[of "i div 2"] by (auto simp: bit_Suc)
qed

text \<open>Before digit \<open>j\<close> is looked at, the digits before it are those of the next number, and the carry says whether
  they were all 1.\<close>

lemma carry_loop_run:
  assumes "j \<le> bits" "length toggle = Suc bits" "toggle ! j = 1" "\<forall>k < j. bit i k" "\<forall>k. j < k \<and> k \<le> bits \<longrightarrow> toggle ! k = 0"
    "v = map (\<lambda>k. bit_char (bit (if k < j then i + 1 else i) k)) [0..<bits]"
  shows "\<exists>toggle'. carry_loop bits j v toggle = (low_first bits (i + 1), toggle') \<and> (toggle' ! bits = 1 \<longleftrightarrow> (\<forall>k < bits. bit i k)) \<and> (toggle' ! bits = 1 \<or> toggle' ! bits = 0)"
  using assms
proof (induction "bits - j" arbitrary: j v toggle)
  case 0
  then have "j = bits" by simp
  then have "carry_loop bits j v toggle = (v, toggle)" by (subst carry_loop.simps) simp
  moreover have "v = low_first bits (i + 1)" using 0 \<open>j = bits\<close> by (auto simp: low_first_def)
  ultimately show ?case using 0 \<open>j = bits\<close> by simp
next
  case (Suc x)
  then have j: "j < bits" by simp
  have digit: "v ! j = bit_char (bit i j)" using Suc.prems(6) j by simp
  show ?case
  proof (cases "bit i j")
    case True
    let ?v = "v[j := CHR ''0'']" and ?t = "toggle[Suc j := 1]"
    have "carry_loop bits j v toggle = carry_loop bits (Suc j) ?v ?t"
      using j True digit Suc.prems(3) by (subst carry_loop.simps) (simp add: bit_char_def)
    moreover have "\<exists>toggle'. carry_loop bits (Suc j) ?v ?t = (low_first bits (i + 1), toggle') \<and> (toggle' ! bits = 1 \<longleftrightarrow> (\<forall>k < bits. bit i k)) \<and> (toggle' ! bits = 1 \<or> toggle' ! bits = 0)"
    proof (rule Suc.hyps(1))
      show "\<forall>k < Suc j. bit i k" using True Suc.prems(4) less_Suc_eq by blast
      show "?v = map (\<lambda>k. bit_char (bit (if k < Suc j then i + 1 else i) k)) [0..<bits]"
        (is "_ = ?w")
      proof (rule nth_equalityI)
        have at: "\<not> bit (i + 1) j" using True Suc.prems(4) by (simp add: bit_succ)
        show "?v ! k = ?w ! k" if "k < length ?v" for k
          using that at Suc.prems(6) by (cases k j rule: linorder_cases) (simp_all add: bit_char_def)
      qed (simp add: Suc.prems(6))
    qed (use Suc j in \<open>auto simp: nth_list_update\<close>)
    ultimately show ?thesis by simp
  next
    case False
    let ?v = "v[j := CHR ''1'']" and ?t = "toggle[Suc j := 0]"
    have "carry_loop bits j v toggle = carry_loop bits (Suc j) ?v ?t"
      using j False digit Suc.prems(3) by (subst carry_loop.simps) (simp add: bit_char_def)
    moreover have "carry_loop bits (Suc j) ?v ?t = (?v, ?t)"
      using j Suc.prems(2) by (subst carry_loop.simps) simp
    moreover have "?v = low_first bits (i + 1)"
    proof -
      have above: "bit (i + 1) k = bit i k" if "j < k" for k using False that by (auto simp: bit_succ)
      have at: "bit (i + 1) j" using False Suc.prems(4) by (simp add: bit_succ)
      have "?v ! k = low_first bits (i + 1) ! k" if "k < bits" for k
        using that j above at Suc.prems(6) by (cases k j rule: linorder_cases) (simp_all add: low_first_def bit_char_def)
      then show ?thesis using Suc.prems(6) by (intro nth_equalityI) (simp_all add: low_first_def)
    qed
    moreover have "?t ! bits = 0" using j Suc.prems(2,5) by (cases "Suc j = bits") (auto simp: nth_list_update)
    ultimately show ?thesis using False j by auto
  qed
qed

lemma all_ones: "0 \<le> i \<Longrightarrow> i < 2 ^ n \<Longrightarrow> (\<forall>k < n. bit i k) \<longleftrightarrow> i = 2 ^ n - 1" for i :: int
proof -
  assume i: "0 \<le> i" "i < 2 ^ n"
  then have "take_bit n i = i" by (simp add: take_bit_int_eq_self)
  moreover have "(\<forall>k < n. bit i k) \<longleftrightarrow> take_bit n i = mask n"
    by (auto simp: bit_eq_iff bit_take_bit_iff bit_mask_iff)
  ultimately show ?thesis by (simp add: mask_eq_exp_minus_1)
qed

lemma binary_loop_run:
  assumes "0 \<le> i" "i < 2 ^ bits" "toggle ! bits = 0"
  shows "binary_loop bits (low_first bits i) toggle l = Some (l @ map (bits_of bits) [i..2 ^ bits - 1])"
  using assms
proof (induction "nat (2 ^ bits - i)" arbitrary: i toggle l rule: less_induct)
  case less
  have start: "low_first bits i = map (\<lambda>k. bit_char (bit (if k < 0 then i + 1 else i) k)) [0..<bits]" by (simp add: low_first_def)
  have "\<exists>toggle'. carry_loop bits 0 (low_first bits i) (1 # replicate bits 0) = (low_first bits (i + 1), toggle') \<and>
      (toggle' ! bits = 1 \<longleftrightarrow> (\<forall>k < bits. bit i k)) \<and> (toggle' ! bits = 1 \<or> toggle' ! bits = 0)"
    by (rule carry_loop_run) (use start in \<open>auto simp: nth_Cons'\<close>)
  then obtain toggle' where carry: "carry_loop bits 0 (low_first bits i) (1 # replicate bits 0) = (low_first bits (i + 1), toggle')"
    and ends: "toggle' ! bits = 1 \<longleftrightarrow> i = 2 ^ bits - 1" "toggle' ! bits = 1 \<or> toggle' ! bits = 0"
    using all_ones[OF less.prems(1,2)] by blast
  have step: "binary_loop bits (low_first bits i) toggle l = binary_loop bits (low_first bits (i + 1)) toggle' (l @ [bits_of bits i])"
    using less.prems(3) by (subst binary_loop.simps) (simp add: carry[unfolded One_nat_def] low_first_rev)
  show ?case
  proof (cases "i = 2 ^ bits - 1")
    case True
    then show ?thesis using step ends by (simp add: binary_loop.simps)
  next
    case False
    then have "binary_loop bits (low_first bits (i + 1)) toggle' (l @ [bits_of bits i]) =
        Some ((l @ [bits_of bits i]) @ map (bits_of bits) [i + 1..2 ^ bits - 1])"
      using less.prems ends by (intro less.hyps) auto
    then show ?thesis using step less.prems False by (simp add: upto_rec1[of i])
  qed
qed

section \<open>Drawing bits\<close>

text \<open>\<open>random.random ()\<close> gives multiples of \<open>2^-53\<close> below 1.\<close>

definition fine_draws :: "rng \<Rightarrow> bool" where
  "fine_draws g = list_all (\<lambda>u. \<exists>m. 0 \<le> m \<and> m < 2 ^ 53 \<and> u = of_int m / 2 ^ 53) (floats g)"

lemma draw_range: "0 \<le> m \<Longrightarrow> m < 2 ^ 53 \<Longrightarrow> py_trunc (fmul (2 ^ 10) (of_int m / 2 ^ 53)) = m div 2 ^ 43"
proof -
  assume m: "0 \<le> m" "m < 2 ^ 53"
  have "(2 ^ 10 * (of_int m / 2 ^ 53) :: rat) = of_int m * pow2 (- 43)" by (simp add: pow2_def field_simps)
  then have "fmul (2 ^ 10) (of_int m / 2 ^ 53) = of_int m / 2 ^ 43"
    using rn_scaled_int[of m "- 43"] m by (simp add: fmul_def pow2_def)
  moreover have "(of_int m / 2 ^ 43 :: rat) = of_int m / of_int (2 ^ 43)" by simp
  ultimately show ?thesis using m by (simp only: py_trunc_def floor_divide_of_int_eq) simp
qed

lemma draw_vector_bits:
  "fine_draws g \<Longrightarrow> k \<le> length (floats g) \<Longrightarrow>
   \<exists>w. draw_vector k g v = Inr (v @ w, g\<lparr>floats := drop k (floats g)\<rparr>) \<and> length w = 10 * k \<and> (\<forall>c \<in> set w. c = CHR ''0'' \<or> c = CHR ''1'')"
proof (induction k arbitrary: g v)
  case (Suc k)
  then obtain u us where u: "floats g = u # us" by (cases "floats g") auto
  then obtain m where m: "0 \<le> m" "m < 2 ^ 53" "u = of_int m / 2 ^ 53" using Suc.prems(1) by (auto simp: fine_draws_def)
  let ?b = "bits_of 10 (m div 2 ^ 43)"
  have "m div 2 ^ 43 \<le> (2 ^ 53 - 1) div 2 ^ 43" using m by (intro zdiv_mono1) simp_all
  then have range: "m div 2 ^ 43 < 2 ^ 10" by simp
  have "int2bin (py_trunc (fmul (2 ^ 10) u)) 10 = Inr ?b"
    unfolding m(3) draw_range[OF m(1,2)] using m(1) range by (subst int2bin_spec) (simp_all add: pos_imp_zdiv_nonneg_iff)
  moreover have "random_random g = Inr (u, g\<lparr>floats := us\<rparr>)" using u by (simp add: random_random_def)
  ultimately have "draw_vector (Suc k) g v = draw_vector k (g\<lparr>floats := us\<rparr>) (v @ ?b)" by simp
  moreover have "fine_draws (g\<lparr>floats := us\<rparr>)" "k \<le> length us" using Suc.prems u by (auto simp: fine_draws_def)
  ultimately show ?case using Suc.IH[of "g\<lparr>floats := us\<rparr>" "v @ ?b"] u bits_of_chars by fastforce
qed simp

section \<open>Properties\<close>

text \<open>Writing a number with \<open>n\<close> bits succeeds exactly for the numbers of \<open>n\<close> bits, gives \<open>n\<close> characters and is undone by
  reading; a number that is too large is a \<open>ValueError\<close>, and a negative one a \<open>KeyError\<close>, for the \<open>x\<close> of \<open>-0x\<close>.\<close>

theorem int2bin_bin2int:
  assumes "1 \<le> n"
  shows "(i < 0 \<longrightarrow> int2bin i n = Inl KeyError) \<and> (2 ^ nat n \<le> i \<longrightarrow> int2bin i n = Inl ValueError) \<and>
    (0 \<le> i \<and> i < 2 ^ nat n \<longrightarrow> (\<exists>s. int2bin i n = Inr s \<and> length s = nat n \<and> bin2int s = Inr i))"
proof -
  have "2 ^ nat n \<le> i \<Longrightarrow> 0 \<le> i" by (rule order.trans[OF zero_le_power]) simp_all
  then show ?thesis using int2bin_spec[OF assms, of i] bin2int_bits[of "nat n" i] assms by (auto simp: not_less)
qed

lemma int2bin_bin2int_witness:
  "(\<exists>s. int2bin 123 8 = Inr s \<and> length s = 8 \<and> bin2int s = Inr 123) \<and> int2bin 15 2 = Inl ValueError \<and> int2bin (- 5) 8 = Inl KeyError"
  using int2bin_bin2int[of 8 123] int2bin_bin2int[of 2 15] int2bin_bin2int[of 8 "- 5"] by simp

text \<open>Reading a text of bits and writing it with its own length gives it back.\<close>

theorem bin2int_int2bin:
  assumes "s \<noteq> []" "list_all (\<lambda>c. c = CHR ''0'' \<or> c = CHR ''1'') s"
  shows "\<exists>i. bin2int s = Inr i \<and> int2bin i (int (length s)) = Inr s"
proof -
  obtain i where i: "0 \<le> i" "i < 2 ^ length s" "s = bits_of (length s) i" using bits_text[of s] assms(2) by (auto simp: list_all_iff)
  moreover have "1 \<le> length s" using assms(1) by (simp add: Suc_le_eq)
  ultimately show ?thesis using bin2int_bits[of "length s" i] int2bin_spec[of "int (length s)" i] by auto
qed

lemma bin2int_int2bin_witness: "\<exists>i. bin2int ''0101'' = Inr i \<and> int2bin i 4 = Inr ''0101''"
  using bin2int_int2bin[of "''0101''"] by simp

text \<open>With a width of 0 nothing is cut off and nothing is an error: the number's own hexadecimal digits are written out.\<close>

theorem int2bin_no_width:
  assumes "0 \<le> i"
  shows "\<exists>s. int2bin i 0 = Inr s \<and> s \<noteq> [] \<and> bin2int s = Inr i"
  using int2bin_width_0[OF assms] assms bin2int_bits by (metis length_bits_of le_add1 list.size(3) nat.distinct(1) plus_1_eq_Suc)

lemma int2bin_no_width_witness: "\<exists>s. int2bin 5 0 = Inr s \<and> s \<noteq> [] \<and> bin2int s = Inr 5"
  using int2bin_no_width[of 5] by simp

text \<open>\<open>lsb\<close> is the remainder by the power of two.\<close>

theorem lsb_mod:
  assumes "0 \<le> n"
  shows "lsb x n = Inr (x mod 2 ^ nat n)"
  using assms by (simp add: lsb_def mask_eq_exp_minus_1[symmetric] take_bit_eq_mask[symmetric] take_bit_eq_mod)

lemma lsb_mod_witness: "lsb 13 3 = Inr 5"
  using lsb_mod[of 3 13] by simp

text \<open>Gray codes: the codes of neighbours differ in exactly one bit, and the codes of the numbers of \<open>n\<close> bits are these
  numbers in another order.\<close>

theorem gray_neighbours:
  assumes "0 \<le> i"
  shows "\<exists>k. gray_encode (i + 1) XOR gray_encode i = 2 ^ k"
  using succ_xor[OF assms] gray_mask by (auto simp: gray_xor)

lemma gray_neighbours_witness: "\<exists>k. gray_encode (7 + 1) XOR gray_encode 7 = 2 ^ k"
  using gray_neighbours[of 7] by simp

theorem gray_permutes: "bij_betw gray_encode {0..<2 ^ n} {0..<2 ^ n}"
proof (rule bij_betw_imageI)
  show inj: "inj_on gray_encode {0..<2 ^ n}"
  proof (rule inj_onI)
    fix a b assume ab: "a \<in> {0..<2 ^ n}" "b \<in> {0..<2 ^ n}" "gray_encode a = gray_encode b"
    then have "gray_encode (a XOR b) = 0" by (simp add: gray_xor[symmetric])
    then have "a XOR b = 0" by (rule gray_zero[rotated]) (use ab in simp)
    then have "bit (a XOR b) k = bit (0 :: int) k" for k by simp
    then show "a = b" by (intro bit_eqI) (simp add: bit_xor_iff)
  qed
  have "gray_encode ` {0..<2 ^ n} \<subseteq> {0..<2 ^ n}" using gray_bounds by auto
  then show "gray_encode ` {0..<2 ^ n} = {0..<2 ^ n}" using inj by (intro card_subset_eq) (simp_all add: card_image)
qed

text \<open>C39. The list of all numbers of a width is what writing them one after the other gives; with no digits the list is
  empty, because the flag that ends the loop is set from the start.\<close>

theorem binary_range_all:
  "\<exists>l. binary_range bits = Some l \<and> (if bits = 0 then l = [] else rmap (\<lambda>i. int2bin i (int bits)) [0..2 ^ bits - 1] = Inr l)"
proof (cases "bits = 0")
  case True
  then show ?thesis by (simp add: binary_range_def binary_loop.simps)
next
  case False
  have "low_first bits 0 = replicate bits (CHR ''0'')" by (simp add: low_first_def bit_char_def map_replicate_const)
  then have "binary_range bits = Some (map (bits_of bits) [0..2 ^ bits - 1])"
    using binary_loop_run[of 0 bits "1 # replicate bits 0" "[]"] False by (simp add: binary_range_def nth_Cons')
  moreover have "rmap (\<lambda>i. int2bin i (int bits)) [0..2 ^ bits - 1] = Inr (map (bits_of bits) [0..2 ^ bits - 1])"
    using False by (intro rmap_total) (simp add: int2bin_spec)
  ultimately show ?thesis using False by simp
qed

text \<open>A random vector without a maximum has the length asked for; with one it is a multiple of the maximum: the numbers
  below it, other than 0, are never drawn.\<close>

theorem random_vec_length:
  assumes "fine_draws g" "bits div 10 + 1 \<le> length (floats g)"
  shows "\<exists>v g'. random_vec bits None g = Inr (v, g') \<and> length v = bits \<and> list_all (\<lambda>c. c = CHR ''0'' \<or> c = CHR ''1'') v"
proof -
  obtain w where w: "draw_vector (bits div 10 + 1) g [] = Inr (w, g\<lparr>floats := drop (bits div 10 + 1) (floats g)\<rparr>)"
    "length w = 10 * (bits div 10 + 1)" "\<forall>c \<in> set w. c = CHR ''0'' \<or> c = CHR ''1''"
    using draw_vector_bits[OF assms, of "[]"] by auto
  have "bits \<le> 10 * (bits div 10 + 1)" by presburger
  then show ?thesis using w by (auto simp: random_vec_def list_all_iff dest: in_set_takeD simp del: draw_vector.simps)
qed

lemma random_vec_length_witness:
  "\<exists>v g'. random_vec 8 None \<lparr>floats = [1 / 2], raws = []\<rparr> = Inr (v, g') \<and> length v = 8 \<and> list_all (\<lambda>c. c = CHR ''0'' \<or> c = CHR ''1'') v"
proof -
  have "fine_draws \<lparr>floats = [1 / 2], raws = []\<rparr>" unfolding fine_draws_def by (auto intro!: exI[of _ "2 ^ 52"])
  then show ?thesis using random_vec_length[of "\<lparr>floats = [1 / 2], raws = []\<rparr>" 8] by simp
qed

theorem random_vec_multiples:
  assumes "random_vec bits (Some m) g = Inr (v, g')" "0 < m" "m < 2 ^ bits - 1"
  shows "\<exists>q. bin2int v = Inr (q * m)"
proof -
  have bits: "1 \<le> bits" using assms(2,3) by (cases bits) auto
  obtain w h x where "draw_vector (bits div 10 + 1) g [] = Inr (w, h)" "bin2int w = Inr x"
      "rbind (int2bin ((x div (2 ^ bits - 1)) * m) (int bits)) (\<lambda>vector. Inr (take bits vector, h)) = Inr (v, g')"
    using assms by (auto simp: random_vec_def rbind_eq_Inr split: if_splits)
  then have "v = bits_of bits ((x div (2 ^ bits - 1)) * m)" "0 \<le> (x div (2 ^ bits - 1)) * m" "(x div (2 ^ bits - 1)) * m < 2 ^ bits"
    using bits by (auto simp: int2bin_spec rbind_eq_Inr split: if_splits)
  then show ?thesis using bin2int_bits[OF bits] by blast
qed

lemma random_vec_multiples_witness:
  "\<exists>v g'. random_vec 9 (Some 200) \<lparr>floats = [1023 / 1024], raws = []\<rparr> = Inr (v, g') \<and> bin2int v = Inr 400 \<and> (\<exists>q. bin2int v = Inr (q * 200))"
proof -
  have "int2bin (py_trunc (fmul 1024 (1023 / 1024))) 10 = Inr (bits_of 10 1023)"
    using draw_range[of "1023 * 2 ^ 43"] int2bin_spec[of 10 1023] by simp
  moreover have "bin2int (bits_of 10 1023) = Inr 1023" by (rule bin2int_bits) simp_all
  ultimately have run: "random_vec 9 (Some 200) \<lparr>floats = [1023 / 1024], raws = []\<rparr> = Inr (bits_of 9 400, \<lparr>floats = [], raws = []\<rparr>)"
    using int2bin_spec[of 9 400] by (simp add: random_vec_def random_random_def)
  moreover have "bin2int (bits_of 9 400) = Inr 400" by (rule bin2int_bits) simp_all
  ultimately show ?thesis using random_vec_multiples[OF run] by (simp add: run)
qed

end
