(* ===== verification/RadLists.thy ===== *)
theory RadLists
  imports PyString "HOL-Library.AList" "HOL-Library.Sublist"
begin

text \<open>
  The functions on lists, texts and dictionaries of \<open>simulation/bindings/python/rad_util.py\<close>: permutations, duplicates,
  transposition, the common ends of two texts, dictionaries turned around and the options of a command line.  A
  dictionary is an association list in the order of its items, which Python leaves open.
\<close>

section \<open>Lists\<close>

definition insert_at :: "nat \<Rightarrow> 'a \<Rightarrow> 'a list \<Rightarrow> 'a list" where
  "insert_at i x xs = take i xs @ x # drop i xs"

fun permutations :: "'a list \<Rightarrow> 'a list list" where
  "permutations (item # y # ys) =
     concat (map (\<lambda>sub_list. map (\<lambda>i. insert_at i item sub_list) [0..<length (item # y # ys)]) (permutations (y # ys)))"
| "permutations input_list = [input_list]"

text \<open>\<open>map (list, zip (*matrix))\<close>: rows are cut to the shortest.\<close>

fun shortest_row :: "'a list list \<Rightarrow> nat" where
  "shortest_row [] = 0"
| "shortest_row [r] = length r"
| "shortest_row (r # rs) = min (length r) (shortest_row rs)"

definition py_transpose :: "'a list list \<Rightarrow> 'a list list" where
  "py_transpose matrix = map (\<lambda>k. map (\<lambda>r. r ! k) matrix) [0..<shortest_row matrix]"

text \<open>A dictionary needs hashable items; \<open>keys\<close> is the order in which it gives its keys back.\<close>

definition first_seen :: "'a list \<Rightarrow> 'a list" where
  "first_seen seq = fst (foldl (\<lambda>(out, d). \<lambda>x. if x \<in> set d then (out, d) else (out @ [x], x # d)) ([], []) seq)"

definition slow_unique :: "'a list \<Rightarrow> 'a list" where
  "slow_unique seq = foldl (\<lambda>result x. if x \<in> set result then result else result @ [x]) [] seq"

definition uniquify :: "('a \<Rightarrow> bool) \<Rightarrow> ('a list \<Rightarrow> 'a list) \<Rightarrow> 'a list \<Rightarrow> bool \<Rightarrow> 'a list" where
  "uniquify hashable keys seq preserve_order =
     (if list_all hashable seq then
        (if preserve_order then first_seen seq else keys (map fst (foldl (\<lambda>d x. AList.update x (0 :: int) d) [] seq)))
      else slow_unique seq)"

definition reverse_dict :: "('k \<times> 'v) list \<Rightarrow> ('v \<times> 'k) list" where
  "reverse_dict d = foldl (\<lambda>result (key, value). AList.update value key result) [] d"

section \<open>Texts\<close>

function prefix_loop :: "nat \<Rightarrow> string \<Rightarrow> string \<Rightarrow> nat \<Rightarrow> string" where
  "prefix_loop common_len s1 s2 i =
     (if i < common_len \<and> s1 ! i = s2 ! i then s1 ! i # prefix_loop common_len s1 s2 (i + 1) else [])"
  by pat_completeness auto
termination
  by (relation "measure (\<lambda>(n, _, _, i). n - i)") auto

text \<open>\<open>s[-i]\<close> is the character at \<open>length s - i\<close>; the list that is built is reversed at the end.\<close>

function suffix_loop :: "nat \<Rightarrow> string \<Rightarrow> string \<Rightarrow> nat \<Rightarrow> string" where
  "suffix_loop common_len s1 s2 i =
     (if i < common_len + 1 \<and> s1 ! (length s1 - i) = s2 ! (length s2 - i)
      then s1 ! (length s1 - i) # suffix_loop common_len s1 s2 (i + 1) else [])"
  by pat_completeness auto
termination
  by (relation "measure (\<lambda>(n, _, _, i). n + 1 - i)") auto

declare prefix_loop.simps [simp del] suffix_loop.simps [simp del]

definition find_common_fixes :: "string \<Rightarrow> string \<Rightarrow> string \<times> string" where
  "find_common_fixes s1 s2 = (let common_len = min (length s1) (length s2)
     in (prefix_loop common_len s1 s2 0, rev (suffix_loop common_len s1 s2 1)))"

text \<open>The values of the dictionary of options: texts, \<open>None\<close>, and the list of the other arguments.\<close>

datatype arg_value = ArgText string | ArgNone | ArgList "string list"

definition option_parts :: "string \<Rightarrow> string list" where
  "option_parts arg = split_on CHR ''='' (dropWhile (\<lambda>c. c = CHR ''-'') arg)"

definition add_arg :: "(string \<times> arg_value) list \<times> string list \<Rightarrow> string \<Rightarrow> (string \<times> arg_value) list \<times> string list" where
  "add_arg = (\<lambda>(d, args) arg.
     if startswith ''-'' arg then
       (let parts = option_parts arg
        in (AList.update (parts ! 0) (if length parts = 2 then ArgText (parts ! 1) else ArgNone) d, args))
     else (d, args @ [arg]))"

definition get_args :: "string list \<Rightarrow> (string \<times> arg_value) list" where
  "get_args arguments = (let (d, args) = foldl add_arg ([], []) arguments in AList.update ''args'' (ArgList args) d)"

section \<open>Permutations\<close>

lemma mset_insert_at [simp]: "mset (insert_at i x xs) = add_mset x (mset xs)"
  using append_take_drop_id[of i xs] mset_append[of "take i xs" "drop i xs"] by (simp add: insert_at_def)

lemma permutations_mset: "ys \<in> set (permutations xs) \<Longrightarrow> mset ys = mset xs"
  by (induction xs arbitrary: ys rule: permutations.induct) auto

lemma permutations_complete: "mset ys = mset xs \<Longrightarrow> ys \<in> set (permutations xs)"
proof (induction xs arbitrary: ys rule: permutations.induct)
  case (1 item y zs)
  then have "item \<in> set ys" by (metis list.set_intros(1) set_mset_mset)
  then obtain a b where ys: "ys = a @ item # b" by (meson split_list)
  then have "a @ b \<in> set (permutations (y # zs))" using 1 by simp
  moreover have "ys = insert_at (length a) item (a @ b)" using ys by (simp add: insert_at_def)
  moreover have "length a < length (item # y # zs)" using ys mset_eq_length[OF 1(2)] by simp
  ultimately show ?case by (force simp del: upt_Suc)
qed (auto simp: mset_single_iff_right)

lemma permutations_length: "length (permutations xs) = fact (length xs)"
proof (induction xs rule: permutations.induct)
  case (1 item y zs)
  have "length (concat (map (\<lambda>s. map (\<lambda>i. insert_at i item s) [0..<n]) ps)) = n * length ps" for n and ps :: "'a list list"
    by (induction ps) auto
  then show ?case using 1 by (simp only: permutations.simps length_Cons fact_Suc) simp
qed simp_all

lemma insert_at_inject:
  assumes "insert_at i x s = insert_at j x t" "x \<notin> set s" "x \<notin> set t" "i \<le> length s" "j \<le> length t"
  shows "i = j \<and> s = t"
proof -
  have "x \<notin> set (take i s)" "x \<notin> set (drop i s)" using assms(2) by (auto dest: in_set_takeD in_set_dropD)
  then have "take i s = take j t \<and> drop i s = drop j t"
    using assms(1) by (simp add: insert_at_def append_Cons_eq_iff)
  moreover from this have "length (take i s) = length (take j t)" by simp
  then have "i = j" using assms(4,5) by (simp add: min_absorb2)
  ultimately show ?thesis by (metis append_take_drop_id)
qed

lemma permutations_distinct: "distinct xs \<Longrightarrow> distinct (permutations xs)"
proof (induction xs rule: permutations.induct)
  case (1 item y zs)
  have new: "item \<notin> set s" "length s = length (y # zs)" if "s \<in> set (permutations (y # zs))" for s
    using 1(2) permutations_mset[OF that] mset_eq_setD mset_eq_length by fastforce+
  show ?case unfolding permutations.simps
  proof (rule distinct_concat_map)
    show "distinct (permutations (y # zs))" using 1 by simp
  next
    fix s assume s: "s \<in> set (permutations (y # zs))"
    have "inj_on (\<lambda>i. insert_at i item s) {0..<length (item # y # zs)}"
    proof (rule inj_onI)
      fix i j assume "i \<in> {0..<length (item # y # zs)}" "j \<in> {0..<length (item # y # zs)}" "insert_at i item s = insert_at j item s"
      then show "i = j" using insert_at_inject[of i item s j s] new[OF s] by simp
    qed
    then show "distinct (map (\<lambda>i. insert_at i item s) [0..<length (item # y # zs)])" by (simp only: distinct_map distinct_upt set_upt simp_thms)
  next
    fix s t z assume st: "s \<in> set (permutations (y # zs))" "t \<in> set (permutations (y # zs))"
      and z: "z \<in> set (map (\<lambda>i. insert_at i item s) [0..<length (item # y # zs)])" "z \<in> set (map (\<lambda>i. insert_at i item t) [0..<length (item # y # zs)])"
    obtain i where i: "z = insert_at i item s" "i < length (item # y # zs)" using z(1) by (auto simp del: upt_Suc)
    obtain j where j: "z = insert_at j item t" "j < length (item # y # zs)" using z(2) by (auto simp del: upt_Suc)
    have eq: "insert_at i item s = insert_at j item t" using i j by simp
    have "i \<le> length s" "j \<le> length t" using i j new(2)[OF st(1)] new(2)[OF st(2)] by simp_all
    then show "s = t" using insert_at_inject[OF eq new(1)[OF st(1)] new(1)[OF st(2)]] by simp
  qed
qed simp_all


section \<open>Duplicates\<close>

text \<open>Both algorithms keep the first of equal items.\<close>

definition firsts :: "'a list \<Rightarrow> 'a list" where
  "firsts seq = rev (remdups (rev seq))"

lemma firsts_snoc: "firsts (xs @ [x]) = (if x \<in> set xs then firsts xs else firsts xs @ [x])"
  by (simp add: firsts_def)

lemma firsts_set [simp]: "set (firsts xs) = set xs" "distinct (firsts xs)"
  by (simp_all add: firsts_def)

lemma slow_unique_firsts: "slow_unique seq = firsts seq"
proof (induction seq rule: rev_induct)
  case (snoc x xs)
  then show ?case by (simp add: slow_unique_def firsts_snoc)
qed (simp add: slow_unique_def firsts_def)

lemma first_seen_firsts: "first_seen seq = firsts seq"
proof -
  have "foldl (\<lambda>(out, d). \<lambda>x. if x \<in> set d then (out, d) else (out @ [x], x # d)) ([], []) seq = (firsts seq, rev (firsts seq))"
    by (induction seq rule: rev_induct) (simp_all add: firsts_snoc firsts_def[of "[]"])
  then show ?thesis by (simp add: first_seen_def)
qed

lemma dict_keys: "map fst (foldl (\<lambda>d x. AList.update x (0 :: int) d) [] seq) = firsts seq"
proof (induction seq rule: rev_induct)
  case (snoc x xs)
  then show ?case by (simp add: AList.update_keys firsts_snoc)
qed (simp add: firsts_def)

section \<open>Turning a dictionary around\<close>

lemma reverse_dict_lookup:
  "distinct (map snd d) \<Longrightarrow> map_of (reverse_dict d) v = Some k \<longleftrightarrow> (k, v) \<in> set d"
proof (induction d rule: rev_induct)
  case (snoc e d)
  then show ?case by (cases e) (auto simp: reverse_dict_def update_conv' image_iff)
qed (simp add: reverse_dict_def)

lemma reverse_dict_last: "map_of (reverse_dict d) v = map_of (map (\<lambda>(k, v). (v, k)) (rev d)) v"
  by (induction d rule: rev_induct) (auto simp: reverse_dict_def update_conv' split: prod.split)

section \<open>Common ends\<close>

lemma prefix_loop_lcp:
  "i \<le> min (length s1) (length s2) \<Longrightarrow>
   prefix_loop (min (length s1) (length s2)) s1 s2 i = longest_common_prefix (drop i s1) (drop i s2)"
proof (induction "min (length s1) (length s2) - i" arbitrary: i)
  case 0
  then have "i = min (length s1) (length s2)" by simp
  then have "drop i s1 = [] \<or> drop i s2 = []" by (auto simp: min_def split: if_splits)
  then show ?case using 0 by (subst prefix_loop.simps) (auto split: list.split)
next
  case (Suc n)
  then have i: "i < length s1" "i < length s2" by auto
  have "drop i s1 = s1 ! i # drop (Suc i) s1" "drop i s2 = s2 ! i # drop (Suc i) s2" using i by (simp_all add: Cons_nth_drop_Suc)
  then show ?case using Suc i by (subst prefix_loop.simps) simp
qed

lemma suffix_loop_lcp:
  "i \<le> min (length s1) (length s2) \<Longrightarrow>
   suffix_loop (min (length s1) (length s2)) s1 s2 (Suc i) = longest_common_prefix (drop i (rev s1)) (drop i (rev s2))"
proof (induction "min (length s1) (length s2) - i" arbitrary: i)
  case 0
  then have "i = min (length s1) (length s2)" by simp
  then have "drop i (rev s1) = [] \<or> drop i (rev s2) = []" by (auto simp: min_def split: if_splits)
  then show ?case using 0 by (subst suffix_loop.simps) (auto split: list.split)
next
  case (Suc n)
  then have i: "i < length s1" "i < length s2" by auto
  have "drop i (rev s1) = s1 ! (length s1 - Suc i) # drop (Suc i) (rev s1)" "drop i (rev s2) = s2 ! (length s2 - Suc i) # drop (Suc i) (rev s2)"
    using i Cons_nth_drop_Suc[of i "rev s1"] Cons_nth_drop_Suc[of i "rev s2"] by (simp_all add: rev_nth)
  then show ?case using Suc i by (subst suffix_loop.simps) simp
qed

section \<open>Options\<close>

lemma get_args_fold:
  "foldl add_arg (d, args) arguments = (foldl (\<lambda>d a. fst (add_arg (d, []) a)) d arguments, args @ filter (\<lambda>a. \<not> startswith ''-'' a) arguments)"
  by (induction arguments arbitrary: d args) (auto simp: add_arg_def Let_def)

section \<open>Properties\<close>

text \<open>C40. The list holds every permutation of the list and nothing else, \<open>n!\<close> of them, and none twice when the items differ.\<close>

theorem permutations_correct:
  "(\<forall>ys. ys \<in> set (permutations xs) \<longleftrightarrow> mset ys = mset xs) \<and> length (permutations xs) = fact (length xs) \<and> (distinct xs \<longrightarrow> distinct (permutations xs))"
  using permutations_mset permutations_complete permutations_length permutations_distinct by metis

lemma permutations_correct_witness: "distinct (permutations [1, 2, 3 :: int]) \<and> length (permutations [1, 2, 3 :: int]) = 6"
  using permutations_correct[of "[1, 2, 3 :: int]"] by (simp add: fact_numeral)

text \<open>A matrix with \<open>c > 0\<close> columns: row \<open>k\<close> of the result is column \<open>k\<close>, and transposing again gives the matrix back.\<close>

theorem transpose_twice:
  assumes "matrix \<noteq> []" "0 < c" "\<forall>r \<in> set matrix. length r = c"
  shows "py_transpose (py_transpose matrix) = matrix \<and> length (py_transpose matrix) = c"
proof -
  have short: "shortest_row m = n" if "m \<noteq> []" "\<forall>r \<in> set m. length r = n" for m :: "'a list list" and n
    using that by (induction m rule: shortest_row.induct) auto
  have m: "shortest_row matrix = c" using short assms by blast
  then have t: "shortest_row (py_transpose matrix) = length matrix"
    using short[of "py_transpose matrix" "length matrix"] assms(2) by (simp add: py_transpose_def)
  have "py_transpose (py_transpose matrix) ! k = matrix ! k" if "k < length matrix" for k
    using that m t assms(3) by (intro nth_equalityI) (auto simp: py_transpose_def[of "py_transpose matrix"], simp_all add: py_transpose_def)
  then have "py_transpose (py_transpose matrix) = matrix"
    using t by (intro nth_equalityI) (simp_all add: py_transpose_def[of "py_transpose matrix"])
  then show ?thesis using m by (simp add: py_transpose_def[of matrix])
qed

lemma transpose_twice_witness: "py_transpose (py_transpose [[1, 2], [3, 4], [5, 6 :: int]]) = [[1, 2], [3, 4], [5, 6]]"
  using transpose_twice[of "[[1, 2], [3, 4], [5, 6 :: int]]" 2] by simp

text \<open>With the order kept both algorithms give the first of equal items each; without it, for items that can be hashed,
  the result is the same list in the order of the dictionary.\<close>

theorem uniquify_correct:
  assumes "\<forall>xs. mset (keys xs) = mset xs"
  shows "uniquify hashable keys seq True = rev (remdups (rev seq)) \<and>
    distinct (uniquify hashable keys seq preserve_order) \<and> set (uniquify hashable keys seq preserve_order) = set seq"
proof -
  have "distinct (keys (firsts seq))" using assms firsts_set(2)[of seq] by (metis mset_eq_imp_distinct_iff)
  moreover have "set (keys (firsts seq)) = set seq" using assms firsts_set(1)[of seq] by (metis mset_eq_setD)
  ultimately show ?thesis by (simp add: uniquify_def first_seen_firsts slow_unique_firsts dict_keys firsts_def[symmetric])
qed

lemma uniquify_correct_witness: "uniquify (\<lambda>_. True) rev [3, 3, 1, 2 :: int] True = [3, 1, 2] \<and> distinct (uniquify (\<lambda>_. True) rev [3, 3, 1, 2 :: int] False)"
  using uniquify_correct[of rev "\<lambda>_. True" "[3, 3, 1, 2 :: int]"] by simp

text \<open>A dictionary with distinct items turned around leads from each item to its key.\<close>

theorem reverse_dict_inverse:
  assumes "distinct (map fst d)" "distinct (map snd d)"
  shows "map_of (reverse_dict d) v = Some k \<longleftrightarrow> map_of d k = Some v"
  using reverse_dict_lookup[OF assms(2)] assms(1) by simp

lemma reverse_dict_inverse_witness: "map_of (reverse_dict [(''a'', 1), (''b'', 2 :: int)]) 2 = Some ''b''"
  using reverse_dict_inverse[of "[(''a'', 1), (''b'', 2 :: int)]" 2 "''b''"] by simp

text \<open>The two texts are the longest common prefix and the longest common suffix.\<close>

theorem common_fixes_longest:
  assumes "find_common_fixes s1 s2 = (p, q)"
  shows "prefix p s1 \<and> prefix p s2 \<and> suffix q s1 \<and> suffix q s2 \<and>
    (\<forall>r. prefix r s1 \<and> prefix r s2 \<longrightarrow> prefix r p) \<and> (\<forall>r. suffix r s1 \<and> suffix r s2 \<longrightarrow> suffix r q)"
proof -
  have p: "p = longest_common_prefix s1 s2" and q: "rev q = longest_common_prefix (rev s1) (rev s2)"
    using assms prefix_loop_lcp[of 0 s1 s2] suffix_loop_lcp[of 0 s1 s2] by (auto simp: find_common_fixes_def Let_def)
  show ?thesis
    unfolding suffix_to_prefix p q
    using longest_common_prefix_prefix1 longest_common_prefix_prefix2 longest_common_prefix_max_prefix by blast
qed

lemma common_fixes_longest_witness: "find_common_fixes ''abcelephantdef'' ''abccowdef'' = (''abc'', ''def'') \<and> (\<forall>r. prefix r ''abcelephantdef'' \<and> prefix r ''abccowdef'' \<longrightarrow> prefix r ''abc'')"
proof -
  have "find_common_fixes ''abcelephantdef'' ''abccowdef'' = (''abc'', ''def'')" by code_simp
  then show ?thesis using common_fixes_longest[of "''abcelephantdef''" "''abccowdef''"] by blast
qed

text \<open>The dictionary of options: under \<open>args\<close> the other arguments in order, and the last \<open>--key=value\<close> under its key, but
  \<open>None\<close> when the value has a \<open>=\<close> of its own.\<close>

theorem get_args_options:
  assumes "CHR ''='' \<notin> set k" "\<not> startswith ''-'' k" "k \<noteq> ''args''"
  shows "map_of (get_args (arguments @ [''--'' @ k @ CHR ''='' # v])) k = Some (if CHR ''='' \<in> set v then ArgNone else ArgText v) \<and>
    map_of (get_args arguments) ''args'' = Some (ArgList (filter (\<lambda>a. \<not> startswith ''-'' a) arguments))"
proof -
  have "dropWhile (\<lambda>c. c = CHR ''-'') (''--'' @ k @ CHR ''='' # v) = k @ CHR ''='' # v" using assms(2) by (cases k) auto
  then have parts: "option_parts (''--'' @ k @ CHR ''='' # v) = k # split_on CHR ''='' v" by (simp only: option_parts_def split_on_append[OF assms(1)])
  have "length (split_on CHR ''='' v) = 1 \<longleftrightarrow> CHR ''='' \<notin> set v"
    using join_split_on[of "CHR ''=''" v] split_on_single[of "CHR ''=''" v] split_on_no_sep[of _ "CHR ''=''" v] by (auto simp: length_Suc_conv)
  moreover have "split_on CHR ''='' v = [v]" if "CHR ''='' \<notin> set v" using that by (rule split_on_single)
  ultimately have "fst (add_arg (d, args) (''--'' @ k @ CHR ''='' # v)) = AList.update k (if CHR ''='' \<in> set v then ArgNone else ArgText v) d" for d args
    using parts by (simp add: add_arg_def Let_def)
  then show ?thesis using assms(3) by (simp add: get_args_def get_args_fold split_beta update_conv' del: append_Cons)
qed

lemma get_args_options_witness:
  "map_of (get_args [''in.txt'', ''--mode=fast'']) ''mode'' = Some (ArgText ''fast'') \<and> map_of (get_args [''--filter=a=b'']) ''filter'' = Some ArgNone"
  using get_args_options[of "''mode''" "[''in.txt'']" "''fast''"] get_args_options[of "''filter''" "[]" "''a=b''"] by simp

end
