(* ===== verification/RadArith.thy ===== *)
theory RadArith
  imports PyNum PyString
begin

text \<open>
  The functions on numbers of \<open>simulation/bindings/python/rad_util.py\<close>: common factors and multiples, fractions,
  rounding to a grid, quantiles, areas of polygons, units with prefixes and progressions of floats.  A number is an
  integer or a float, as in \<open>PyNum\<close>; a loop over floats may go on for ever and is a partial function, whose \<open>None\<close> is
  no result.
\<close>

section \<open>Common factors\<close>

definition epsilon :: pnum where
  "epsilon = NFlt (rn (1 / 10 ^ 16))"

partial_function (option) gcf_loop :: "pnum \<Rightarrow> pnum \<Rightarrow> pnum \<Rightarrow> pnum res option" where
  "gcf_loop eps result remainder =
     (if truthy remainder \<and> eps < nabs remainder then
        (case nmod result remainder of
           Inl e \<Rightarrow> Some (Inl e)
         | Inr new_remainder \<Rightarrow> gcf_loop eps remainder new_remainder)
      else Some (Inr (nabs result)))"

definition gcf :: "pnum \<Rightarrow> pnum \<Rightarrow> pnum res option" where
  "gcf a b = gcf_loop epsilon (nmax a b) (nmin a b)"

definition lcm_of :: "pnum \<Rightarrow> pnum \<Rightarrow> pnum res option" where
  "lcm_of a b = map_option (\<lambda>r. rbind r (\<lambda>denom.
     if nval denom = 0 then Inr (NInt 0) else rbind (ndiv b denom) (\<lambda>q. Inr (a * q)))) (gcf a b)"

definition reduce_fraction :: "pnum \<times> pnum \<Rightarrow> (pnum \<times> pnum) res option" where
  "reduce_fraction = (\<lambda>(numerator, denominator). map_option (\<lambda>r. rbind r (\<lambda>f. let common_factor = nabs f in
     rbind (ndiv numerator common_factor) (\<lambda>p. rbind (ndiv denominator common_factor) (\<lambda>q. Inr (p, q))))) (gcf numerator denominator))"

section \<open>Rounding to a grid\<close>

definition round_grid :: "pnum \<Rightarrow> pnum \<Rightarrow> int \<Rightarrow> pnum res" where
  "round_grid value grid mode = rbind (nmod value grid) (\<lambda>off_grid.
     rbind (if mode = 0 then rbind (ndiv grid (NFlt 2)) (\<lambda>half. Inr (if half \<le> off_grid then 1 else 0))
            else if mode = 1 \<and> truthy off_grid then Inr 1
            else if mode = - 1 \<and> truthy off_grid then Inr 0
            else Inl UnboundLocalError) (\<lambda>add_one.
     rbind (ndiv value grid) (\<lambda>q. Inr (NInt (nint q + add_one) * grid))))"

section \<open>Quantiles\<close>

definition quantile :: "pnum list \<Rightarrow> pnum \<Rightarrow> pnum res" where
  "quantile l p = (let l_sort = sort_key nval l; n = int (length l); r = NInt 1 + (NInt (n - 1) * p); i = nint r; f = r - NInt i
     in if i < n then rbind (py_get l_sort (i - 1)) (\<lambda>a. rbind (py_get l_sort i) (\<lambda>b. Inr ((NInt 1 - f) * a + f * b)))
        else py_get l_sort (i - 1))"

definition median_of :: "pnum list \<Rightarrow> pnum res" where
  "median_of l_sort = (let index = int (length l_sort div 2)
     in if even (length l_sort) then
          rbind (py_get l_sort index) (\<lambda>a. rbind (py_get l_sort (index - 1)) (\<lambda>b. Inr (NFlt (fquo (to_flt (a + b)) 2))))
        else py_get l_sort index)"

definition trim :: "pnum list \<Rightarrow> pnum list res" where
  "trim l = (let l_sort = sort_key nval l in
     rbind (median_of l_sort) (\<lambda>median.
     rbind (quantile l_sort (NFlt (1 / 4))) (\<lambda>q1. rbind (quantile l_sort (NFlt (3 / 4))) (\<lambda>q3.
       let iqr_extra = (q3 - q1) * NFlt (3 / 2)
       in Inr (filter (\<lambda>x. q1 - iqr_extra \<le> x \<and> x \<le> q3 + iqr_extra) l_sort)))))"

section \<open>Areas\<close>

definition scale_point :: "int \<Rightarrow> pnum \<times> pnum \<Rightarrow> int \<times> int" where
  "scale_point precision = (\<lambda>(x, y). (nint (x * NInt precision), nint (y * NInt precision)))"

definition closed_points :: "(int \<times> int) list \<Rightarrow> (int \<times> int) list" where
  "closed_points ps = (if last ps \<noteq> hd ps then ps @ [hd ps] else ps)"

fun twice_area :: "(int \<times> int) list \<Rightarrow> int" where
  "twice_area ((x, y) # (x', y') # ps) = x' * y - y' * x + twice_area ((x', y') # ps)"
| "twice_area _ = 0"

text \<open>The area and the caller's list, which has been scaled and closed.\<close>

definition polygon_area :: "(pnum \<times> pnum) list \<Rightarrow> int \<Rightarrow> (flt \<times> (int \<times> int) list) res" where
  "polygon_area points_list precision =
     (if points_list = [] then Inl IndexError
      else (let ps = closed_points (map (scale_point precision) points_list); area = \<bar>twice_area ps div 2\<bar>
        in rbind (fdiv (f_of_int area) (f_of_int (precision ^ 2))) (\<lambda>a. Inr (a, ps))))"

section \<open>Progressions\<close>

partial_function (option) float_loop :: "pnum \<Rightarrow> pnum \<Rightarrow> flt \<Rightarrow> flt list \<Rightarrow> flt list option" where
  "float_loop stop step cur l =
     (if NFlt cur < stop then float_loop stop step (fadd cur (to_flt step)) (l @ [cur]) else Some l)"

definition float_range :: "pnum \<Rightarrow> pnum option \<Rightarrow> pnum option \<Rightarrow> flt list option" where
  "float_range start stop step =
     (let (start, stop) = (case stop of None \<Rightarrow> (NFlt 0, NFlt (to_flt start)) | Some s \<Rightarrow> (start, s));
          step = (case step of None \<Rightarrow> NFlt 1 | Some s \<Rightarrow> s)
      in float_loop stop step (to_flt start) [])"

section \<open>Units\<close>

type_synonym prefixes = "(pnum \<times> string \<times> string) list"

definition si_prefixes :: prefixes where
  "si_prefixes = [(NFlt (rn (10 ^ 24)), ''Y'', ''yotta''), (NFlt (rn (10 ^ 21)), ''Z'', ''zetta''), (NFlt (rn (10 ^ 18)), ''E'', ''exa''),
     (NFlt (rn (10 ^ 15)), ''P'', ''peta''), (NFlt (rn (10 ^ 12)), ''T'', ''tera''), (NFlt (rn (10 ^ 9)), ''G'', ''giga''),
     (NFlt (rn (10 ^ 6)), ''M'', ''mega''), (NFlt (rn (10 ^ 3)), ''k'', ''kilo''), (NFlt (rn (1 / 10 ^ 3)), ''m'', ''milli''),
     (NFlt (rn (1 / 10 ^ 6)), ''u'', ''micro''), (NFlt (rn (1 / 10 ^ 9)), ''n'', ''nano''), (NFlt (rn (1 / 10 ^ 12)), ''p'', ''pico''),
     (NFlt (rn (1 / 10 ^ 15)), ''f'', ''femto''), (NFlt (rn (1 / 10 ^ 18)), ''a'', ''atto''), (NFlt (rn (1 / 10 ^ 21)), ''z'', ''zepto''),
     (NFlt (rn (1 / 10 ^ 24)), ''y'', ''yocto'')]"

definition extra_prefixes :: prefixes where
  "extra_prefixes = [(NFlt (rn (10 ^ 2)), ''h'', ''hecto''), (NFlt (rn 10), ''da'', ''deka''), (NFlt (rn (1 / 10)), ''d'', ''deci''),
     (NFlt (rn (1 / 10 ^ 2)), ''c'', ''centi'')]"

definition bin_prefixes :: prefixes where
  "bin_prefixes = [(NInt (2 ^ 10), ''K'', ''kilo''), (NInt (2 ^ 20), ''M'', ''mega''), (NInt (2 ^ 30), ''G'', ''mega''),
     (NInt (2 ^ 40), ''T'', ''tera''), (NInt (2 ^ 50), ''P'', ''peta''), (NInt (2 ^ 60), ''E'', ''exa'')]"

text \<open>The sorted multipliers with their symbols.\<close>

definition prefix_table :: "bool \<Rightarrow> bool \<Rightarrow> prefixes" where
  "prefix_table use_extra_prefixes bin =
     sort_key (\<lambda>e. nval (fst e)) ((NInt 1, [], []) # (if bin then bin_prefixes
       else si_prefixes @ (if use_extra_prefixes then extra_prefixes else [])))"

definition mult_index :: "pnum list \<Rightarrow> pnum \<Rightarrow> nat" where
  "mult_index multipliers value =
     (case filter (\<lambda>i. multipliers ! i \<le> value \<and> value < multipliers ! (i + 1)) [0..<length multipliers - 1] of
        i # _ \<Rightarrow> i
      | [] \<Rightarrow> if value < multipliers ! 0 then 0 else length multipliers - 1)"

text \<open>\<open>round (x, dp)\<close>: halves are rounded away from zero.\<close>

definition py_round :: "flt \<Rightarrow> nat \<Rightarrow> flt" where
  "py_round x dp = rn (sgn x * of_int \<lfloor>\<bar>x\<bar> * 10 ^ dp + 1 / 2\<rfloor> / 10 ^ dp)"

text \<open>\<open>fmt_g\<close> is the format \<open>%.ng\<close>.\<close>

definition nice_units ::
  "(nat \<Rightarrow> flt \<Rightarrow> string) \<Rightarrow> pnum \<Rightarrow> nat \<Rightarrow> nat option \<Rightarrow> string \<Rightarrow> string \<Rightarrow> bool \<Rightarrow> bool \<Rightarrow> bool \<Rightarrow> string res" where
  "nice_units fmt_g value dp sigfigs unit_suffix space use_extra_prefixes use_full_name bin =
     (let table = prefix_table use_extra_prefixes bin; multipliers = map fst table; i = mult_index multipliers value in
      rbind (ndiv value (multipliers ! i)) (\<lambda>new_value.
      rbind (if sigfigs = None \<and> i < length multipliers - 1 then
               rbind (ndiv (multipliers ! (i + 1)) (multipliers ! i)) (\<lambda>top.
                 if py_round (to_flt new_value) dp = py_round (to_flt top) dp
                 then rbind (ndiv value (multipliers ! (i + 1))) (\<lambda>new_value. Inr (i + 1, new_value)) else Inr (i, new_value))
             else Inr (i, new_value)) (\<lambda>(i, new_value).
        let text = (case sigfigs of None \<Rightarrow> fmt_fixed dp (to_flt new_value) | Some s \<Rightarrow> fmt_g s (to_flt new_value));
            label = snd (table ! i)
        in Inr (text @ space @ (if use_full_name then snd label else fst label) @ unit_suffix))))"

section \<open>Integers\<close>

lemma gcf_loop_int: "gcf_loop epsilon (NInt x) (NInt y) = Some (Inr (NInt (gcd x y)))"
proof (induction "nat \<bar>y\<bar>" arbitrary: x y rule: less_induct)
  case less
  show ?case
  proof (cases "y = 0")
    case True
    then show ?thesis by (simp add: gcf_loop.simps truthy_def nabs_def)
  next
    case False
    have "rn (1 / 10 ^ 16) \<le> rn (1 / 2)" by (rule rn_mono) simp
    also have "rn (1 / 2) = 1 / 2" using rn_scaled_int[of 1 "- 1"] by (simp add: pow2_def)
    finally have "rn (1 / 10 ^ 16) < 1" by simp
    moreover have "(1 :: rat) \<le> of_int \<bar>y\<bar>" using False by (simp add: of_int_abs[symmetric] del: of_int_abs)
    ultimately have big: "epsilon < NInt \<bar>y\<bar>" by (simp only: epsilon_def num_order nval_simps)
    have "\<bar>x mod y\<bar> < \<bar>y\<bar>" using False by (rule abs_mod_less)
    then have "gcf_loop epsilon (NInt y) (NInt (x mod y)) = Some (Inr (NInt (gcd y (x mod y))))" by (intro less) simp
    moreover have "gcf_loop epsilon (NInt x) (NInt y) = gcf_loop epsilon (NInt y) (NInt (x mod y))"
      using False big by (subst gcf_loop.simps) (simp add: truthy_def nabs_def)
    ultimately show ?thesis by (simp add: gcd_red_int[of x y])
  qed
qed

lemma gcf_int: "gcf (NInt a) (NInt b) = Some (Inr (NInt (gcd a b)))"
  by (auto simp: gcf_def nmax_def nmin_def num_order gcf_loop_int gcd.commute)

section \<open>Loops over floats\<close>

lemma float_loop_int:
  assumes "0 < s" "\<bar>a\<bar> \<le> 2 ^ 52" "\<bar>b\<bar> \<le> 2 ^ 52" "s \<le> 2 ^ 52"
  shows "float_loop (NInt b) (NInt s) (of_int a) l = Some (l @ map (\<lambda>k. of_int (a + int k * s)) [0..<nat ((b - a + s - 1) div s)])"
  using assms(2)
proof (induction "nat (b - a)" arbitrary: a l rule: less_induct)
  case less
  show ?case
  proof (cases "a < b")
    case False
    then have "b - a + s - 1 < s" by simp
    then have "(b - a + s - 1) div s \<le> 0" using assms(1) by (cases "0 \<le> b - a + s - 1") (simp_all add: div_pos_pos_trivial pos_imp_zdiv_neg_iff order.strict_implies_order)
    then show ?thesis using False by (simp add: float_loop.simps num_order)
  next
    case True
    have small: "\<bar>a + s\<bar> \<le> 2 ^ 53" using assms less.prems by simp
    then have "fadd (of_int a) (f_of_int s) = of_int (a + s)"
      using assms(1,4) f_of_int_small[of s] rn_of_int[of "a + s"] by (simp add: fadd_def)
    then have step: "float_loop (NInt b) (NInt s) (of_int a) l = float_loop (NInt b) (NInt s) (of_int (a + s)) (l @ [of_int a])"
      using True by (subst float_loop.simps) (simp add: num_order)
    define n where "n = nat ((b - (a + s) + s - 1) div s)"
    have "(b - a + s - 1) div s = (b - (a + s) + s - 1) div s + 1"
      using assms(1) div_add_self2[of s "b - (a + s) + s - 1"] by (simp add: algebra_simps)
    moreover have "0 \<le> (b - (a + s) + s - 1) div s" using True assms(1) by (simp add: pos_imp_zdiv_nonneg_iff)
    ultimately have count: "nat ((b - a + s - 1) div s) = Suc n" by (simp add: n_def nat_add_distrib)
    have list: "of_int a # map (\<lambda>k. of_int (a + s + int k * s)) [0..<n] = map (\<lambda>k. of_int (a + int k * s) :: rat) [0..<Suc n]"
      by (simp only: upt_conv_Cons[OF zero_less_Suc] map_Suc_upt[symmetric] list.map) (simp add: algebra_simps comp_def)
    show ?thesis
    proof (cases "a + s < b")
      case True
      have "float_loop (NInt b) (NInt s) (of_int (a + s)) (l @ [of_int a]) = Some ((l @ [of_int a]) @ map (\<lambda>k. of_int (a + s + int k * s)) [0..<n])"
        unfolding n_def by (rule less.hyps) (use assms less.prems True \<open>a < b\<close> in auto)
      then show ?thesis using step count list by simp
    next
      case False
      then have "float_loop (NInt b) (NInt s) (of_int (a + s)) (l @ [of_int a]) = Some (l @ [of_int a])"
        by (simp add: float_loop.simps num_order)
      moreover have "n = 0"
      proof -
        have "b - (a + s) + s - 1 < s" using False by simp
        then have "(b - (a + s) + s - 1) div s \<le> 0"
          using assms(1) \<open>a < b\<close> by (simp add: div_pos_pos_trivial)
        then show ?thesis by (simp add: n_def)
      qed
      ultimately show ?thesis using step count by simp
    qed
  qed
qed

text \<open>A step that does not lead upwards never ends the loop.\<close>

lemma float_loop_stuck:
  assumes stuck: "\<And>x. P x \<Longrightarrow> P (fadd x (to_flt step)) \<and> NFlt x < stop"
  shows "float_loop stop step cur l = Some r \<Longrightarrow> \<not> P cur"
proof -
  assume loop: "float_loop stop step cur l = Some r"
  show "\<not> P cur"
  proof (rule float_loop.raw_induct[OF _ loop, of "\<lambda>s t cur l r. s = stop \<and> t = step \<longrightarrow> \<not> P cur", simplified])
    fix f :: "pnum \<Rightarrow> pnum \<Rightarrow> flt \<Rightarrow> flt list \<Rightarrow> flt list option" and s t cur l r
    assume IH: "\<And>s t cur l r. f s t cur l = Some r \<Longrightarrow> s = stop \<and> t = step \<longrightarrow> \<not> P cur"
      and run: "(if NFlt cur < s then f s t (fadd cur (to_flt t)) (l @ [cur]) else Some l) = Some r"
    show "s = stop \<and> t = step \<longrightarrow> \<not> P cur"
      using stuck[of cur] run IH by (auto split: if_splits)
  qed
qed

section \<open>Areas of integer polygons\<close>

lemma twice_area_append: "twice_area (ps @ [p] @ qs) = twice_area (ps @ [p]) + twice_area (p # qs)"
  by (induction ps rule: twice_area.induct) (cases p; cases qs; auto)+

lemma twice_area_rev: "twice_area (rev ps) = - twice_area ps"
proof (induction ps rule: twice_area.induct)
  case (1 x y x' y' ps)
  have "twice_area (rev ps @ [(x', y')] @ [(x, y)]) = twice_area (rev ps @ [(x', y')]) + twice_area [(x', y'), (x, y)]"
    by (rule twice_area_append)
  then show ?case using 1 by simp
qed simp_all

lemma twice_area_scaled: "twice_area (map (\<lambda>(x, y). (x * c, y * c)) ps) = c ^ 2 * twice_area ps"
  by (induction ps rule: twice_area.induct) (auto simp: algebra_simps power2_eq_square)

definition int_point :: "int \<times> int \<Rightarrow> pnum \<times> pnum" where
  "int_point = (\<lambda>(x, y). (NInt x, NInt y))"

lemma scale_int_point: "map (scale_point c) (map int_point ps) = map (\<lambda>(x, y). (x * c, y * c)) ps"
  by (auto simp: scale_point_def int_point_def nint_def)

section \<open>Quarters\<close>

lemma quarters: "\<bar>m\<bar> \<le> 2 ^ 53 \<Longrightarrow> rn (of_int m / 4) = of_int m / 4"
  using rn_scaled_int[of m "- 2"] by (simp add: pow2_def)

lemma sort_ints: "sort_key nval (map NInt xs) = map NInt (sort xs)"
proof -
  have "insort_key nval (NInt x) (map NInt ys) = map NInt (insort x ys)" for x ys
    by (induction ys) simp_all
  then show ?thesis by (induction xs) simp_all
qed

text \<open>Quarters of an integer are exact: position \<open>1 + j + r / 4\<close> in a list is computed without rounding.\<close>

lemma quarter_position:
  fixes n k j r :: nat
  assumes "0 < n" "int n \<le> 2 ^ 50" "k \<le> 4" "(n - 1) * k = 4 * j + r" "r < 4" "j < n"
  shows "NInt 1 + (NInt (int n - 1) * NFlt (of_nat k / 4)) = NFlt (of_int (int (4 * (j + 1) + r)) / 4)"
    and "nint (NFlt (of_int (int (4 * (j + 1) + r)) / 4)) = int j + 1"
    and "NFlt (of_int (int (4 * (j + 1) + r)) / 4) - NInt (int j + 1) = NFlt (of_nat r / 4)"
proof -
  have m: "of_int (int n - 1) * (of_nat k / 4 :: rat) = of_int (int (4 * j + r)) / 4"
    using assms(1) by (simp add: assms(4)[symmetric] of_nat_diff)
  have f: "f_of_int (int n - 1) = of_int (int n - 1)" using assms(1,2) by (intro f_of_int_small) simp
  have small: "\<bar>int (4 * j + r)\<bar> \<le> 2 ^ 53" "\<bar>int (4 * (j + 1) + r)\<bar> \<le> 2 ^ 53" using assms(2,5,6) by auto
  have prod: "fmul (f_of_int (int n - 1)) (of_nat k / 4) = of_int (int (4 * j + r)) / 4"
    unfolding fmul_def f m using small(1) by (rule quarters)
  have sum: "(1 :: rat) + of_int (int (4 * j + r)) / 4 = of_int (int (4 * (j + 1) + r)) / 4" by (simp add: field_simps)
  have "fadd 1 (of_int (int (4 * j + r)) / 4) = of_int (int (4 * (j + 1) + r)) / 4"
    unfolding fadd_def sum using small(2) by (rule quarters)
  moreover have "f_of_int 1 = 1" using f_of_int_small[of 1] by simp
  ultimately show "NInt 1 + (NInt (int n - 1) * NFlt (of_nat k / 4)) = NFlt (of_int (int (4 * (j + 1) + r)) / 4)"
    by (simp only: num_flt to_flt_simps prod)
  have "\<lfloor>of_int (int (4 * (j + 1) + r)) / (4 :: rat)\<rfloor> = int (4 * (j + 1) + r) div 4"
    using floor_divide_of_int_eq[of "int (4 * (j + 1) + r)" 4, where ?'a = rat] by simp
  then show "nint (NFlt (of_int (int (4 * (j + 1) + r)) / 4)) = int j + 1"
    using assms(5) by (simp add: nint_def py_trunc_def)
  have diff: "of_int (int (4 * (j + 1) + r)) / 4 - of_int (int j + 1) = (of_int (int r) / 4 :: rat)" by (simp add: field_simps)
  have "\<bar>int r\<bar> \<le> 2 ^ 53" using assms(5) by simp
  then have "fsub (of_int (int (4 * (j + 1) + r)) / 4) (of_int (int j + 1)) = of_int (int r) / 4"
    unfolding fsub_def diff by (rule quarters)
  moreover have "f_of_int (int j + 1) = of_int (int j + 1)" using assms(2,6) by (intro f_of_int_small) simp
  ultimately show "NFlt (of_int (int (4 * (j + 1) + r)) / 4) - NInt (int j + 1) = NFlt (of_nat r / 4)"
    by (simp only: num_flt to_flt_simps of_int_of_nat_eq)
qed

lemma quarter_mix:
  assumes "r < 4" "\<bar>a\<bar> \<le> 2 ^ 50" "\<bar>b\<bar> \<le> 2 ^ 50"
  shows "(NInt 1 - NFlt (of_nat r / 4)) * NInt a + NFlt (of_nat r / 4) * NInt b = NFlt ((of_nat (4 - r) * of_int a + of_nat r * of_int b) / 4)"
proof -
  have r: "r \<in> {0, 1, 2, 3}" using assms(1) by auto
  have small: "\<bar>int (4 - r) * a\<bar> \<le> 2 ^ 52" "\<bar>int r * b\<bar> \<le> 2 ^ 52" "\<bar>int (4 - r) * a + int r * b\<bar> \<le> 2 ^ 53"
    using r assms(2,3) by auto
  have "fsub 1 (of_nat r / 4) = of_int (int (4 - r)) / 4"
    using assms(1) quarters[of "int (4 - r)"] by (simp add: fsub_def of_nat_diff field_simps)
  moreover have "fmul (of_int (int (4 - r)) / 4) (of_int a) = of_int (int (4 - r) * a) / 4"
    using quarters[of "int (4 - r) * a"] small(1) by (simp add: fmul_def)
  moreover have "fmul (of_nat r / 4) (of_int b) = of_int (int r * b) / 4"
    using quarters[of "int r * b"] small(2) by (simp add: fmul_def)
  moreover have "fadd (of_int (int (4 - r) * a) / 4) (of_int (int r * b) / 4) = of_int (int (4 - r) * a + int r * b) / 4"
    using quarters[of "int (4 - r) * a + int r * b"] small(3) by (simp add: fadd_def add_divide_distrib)
  moreover have "f_of_int a = of_int a" "f_of_int b = of_int b" "f_of_int 1 = 1" using assms f_of_int_small by auto
  ultimately have "fadd (fmul (fsub (f_of_int 1) (of_nat r / 4)) (f_of_int a)) (fmul (of_nat r / 4) (f_of_int b)) = of_int (int (4 - r) * a + int r * b) / 4"
    by (simp only:)
  then show ?thesis by (simp add: num_flt)
qed

section \<open>Properties\<close>

text \<open>On integers, not both 0: \<open>gcf\<close> returns the greatest common divisor, \<open>lcm_of\<close> a least common multiple with the sign of
  the product, and a reduced fraction has the same value and no common factor; for 0 and 0 the fraction is a \<open>ZeroDivisionError\<close>.\<close>

theorem factors_of_integers:
  "gcf (NInt a) (NInt b) = Some (Inr (NInt (gcd a b))) \<and>
   lcm_of (NInt a) (NInt b) = Some (Inr (NInt (sgn (a * b) * lcm a b))) \<and>
   (if a = 0 \<and> b = 0 then reduce_fraction (NInt a, NInt b) = Some (Inl ZeroDivisionError)
    else (\<exists>p q. reduce_fraction (NInt a, NInt b) = Some (Inr (NInt p, NInt q)) \<and> coprime p q \<and> p * gcd a b = a \<and> q * gcd a b = b))"
proof -
  have lcm: "a * (b div gcd a b) = sgn (a * b) * lcm a b" if "gcd a b \<noteq> 0"
  proof -
    have "gcd a b * (sgn (a * b) * lcm a b) = sgn (a * b) * (gcd a b * lcm a b)" by (rule mult.left_commute)
    also have "\<dots> = a * b" by (simp only: prod_gcd_lcm_int[symmetric] abs_mult[symmetric] mult_sgn_abs)
    finally have "gcd a b * (sgn (a * b) * lcm a b) = a * b" .
    moreover have "gcd a b * (a * (b div gcd a b)) = a * b" by simp
    ultimately show ?thesis using that by (metis mult_cancel_left)
  qed
  have "coprime (a div gcd a b) (b div gcd a b)" if "a \<noteq> 0 \<or> b \<noteq> 0" using that by (intro div_gcd_coprime) auto
  then show ?thesis using lcm
    by (auto simp: gcf_int lcm_of_def reduce_fraction_def nabs_def)
qed

text \<open>Rounding an integer that is not on the grid goes up to the least or down to the greatest multiple; the nearest multiple
  is at most half a grid away, and halves go up.  On the grid the modes up and down raise an \<open>UnboundLocalError\<close>.\<close>

theorem round_grid_integers:
  assumes "0 < grid" "grid \<le> 2 ^ 53"
  shows "(if grid dvd value then round_grid (NInt value) (NInt grid) 1 = Inl UnboundLocalError \<and> round_grid (NInt value) (NInt grid) (- 1) = Inl UnboundLocalError
    else (\<exists>u d. round_grid (NInt value) (NInt grid) 1 = Inr (NInt u) \<and> round_grid (NInt value) (NInt grid) (- 1) = Inr (NInt d) \<and>
      grid dvd u \<and> grid dvd d \<and> d < value \<and> value < u \<and> u = d + grid)) \<and>
    (\<exists>n. round_grid (NInt value) (NInt grid) 0 = Inr (NInt n) \<and> grid dvd n \<and> - grid \<le> 2 * (value - n) \<and> 2 * (value - n) < grid)"
proof -
  have half: "fquo (f_of_int grid) 2 = of_int grid / 2"
    using rn_scaled_int[of grid "- 1"] assms f_of_int_small[of grid] by (simp add: fquo_def pow2_def)
  define off where "off = value mod grid"
  define base where "base = value div grid * grid"
  have off: "0 \<le> off" "off < grid" "value = base + off" using assms(1) by (simp_all add: off_def base_def)
  have onto: "grid dvd value \<longleftrightarrow> off = 0" "grid dvd base" by (simp_all add: dvd_eq_mod_eq_0 off_def base_def)
  have run: "round_grid (NInt value) (NInt grid) 1 = (if off = 0 then Inl UnboundLocalError else Inr (NInt (base + grid)))"
    "round_grid (NInt value) (NInt grid) (- 1) = (if off = 0 then Inl UnboundLocalError else Inr (NInt base))"
    using assms(1) by (simp_all add: round_grid_def truthy_def nint_def off_def base_def algebra_simps)
  have "round_grid (NInt value) (NInt grid) 0 = Inr (NInt (if of_int grid / 2 \<le> (of_int off :: rat) then base + grid else base))"
    using assms(1) half by (simp add: round_grid_def num_order nint_def off_def[symmetric] base_def algebra_simps)
  moreover have "of_int grid / 2 \<le> (of_int off :: rat) \<longleftrightarrow> grid \<le> 2 * off"
  proof -
    have "of_int grid / 2 \<le> (of_int off :: rat) \<longleftrightarrow> (of_int grid :: rat) \<le> of_int (2 * off)" by (simp add: field_simps)
    then show ?thesis by (simp only: of_int_le_iff)
  qed
  ultimately show ?thesis using run off onto by (auto simp: dvd_add)
qed

lemma round_grid_integers_witness:
  "round_grid (NInt 10) (NInt 5) 1 = Inl UnboundLocalError \<and> (\<exists>u d. round_grid (NInt (- 7)) (NInt 5) 1 = Inr (NInt u) \<and> round_grid (NInt (- 7)) (NInt 5) (- 1) = Inr (NInt d) \<and> d < - 7 \<and> - 7 < u)"
  using round_grid_integers[of 5 10] round_grid_integers[of 5 "- 7"] by auto

text \<open>The quotient of floats is cut off, not rounded down: on a negative float that is off the grid the mode down goes up, to
  the multiple above the number.\<close>

theorem round_grid_negative:
  assumes "nmod (NFlt x) (NInt grid) = Inr m" "truthy m" "fquo x (f_of_int grid) \<le> 0" "grid \<noteq> 0"
  shows "round_grid (NFlt x) (NInt grid) (- 1) = Inr (NInt (\<lceil>fquo x (f_of_int grid)\<rceil> * grid))"
  using assms by (auto simp: round_grid_def nint_def py_trunc_def)

lemma round_grid_negative_witness: "round_grid (NFlt (- 15 / 2)) (NInt 5) (- 1) = Inr (NInt (- 5))"
proof -
  have up: "\<lceil>- (3 / 2) :: rat\<rceil> = - 1" by (rule ceiling_unique) simp_all
  then have facts: "nmod (NFlt (- 15 / 2)) (NInt 5) = Inr (NFlt (5 / 2))" "truthy (NFlt (5 / 2))" "fquo (- 15 / 2) (f_of_int 5) = - 3 / 2"
    by (simp_all add: fmod_def py_trunc_def float_eval fquo_def fadd_def f_of_int_def truthy_def Let_def)
  then show ?thesis using round_grid_negative[OF facts(1,2)] facts(3) up by simp
qed

text \<open>Of integers a quartile is interpolated exactly between two neighbours of the sorted list; an empty list is an
  \<open>IndexError\<close>.\<close>

theorem quartile_exact:
  assumes "xs \<noteq> []" "int (length xs) \<le> 2 ^ 50" "\<forall>x \<in> set xs. \<bar>x\<bar> \<le> 2 ^ 50" "k \<le> 4"
  shows "\<exists>v. quantile (map NInt xs) (NFlt (of_nat k / 4)) = Inr v \<and>
    nval v = (let j = (length xs - 1) * k div 4; r = (length xs - 1) * k mod 4
      in (of_nat (4 - r) * of_int (sort xs ! j) + of_nat r * of_int (sort xs ! min (j + 1) (length xs - 1))) / 4)"
proof -
  define n where "n = length xs"
  define j where "j = (n - 1) * k div 4"
  define r where "r = (n - 1) * k mod 4"
  have jr: "(n - 1) * k = 4 * j + r" "r < 4" by (simp_all add: j_def r_def)
  have n: "0 < n" "int n \<le> 2 ^ 50" using assms(1,2) by (simp_all add: n_def)
  have "4 * j + r \<le> (n - 1) * 4" unfolding jr(1)[symmetric] using assms(4) by (rule mult_le_mono2)
  then have j: "j < n" "\<not> j + 1 < n \<longrightarrow> r = 0 \<and> j = n - 1" using n(1) by auto
  note at = quarter_position[OF n assms(4) jr j(1)]
  have items: "\<bar>sort xs ! i\<bar> \<le> 2 ^ 50" if "i < n" for i using assms(3) that nth_mem[of i "sort xs"] by (simp add: n_def)
  have get: "py_get (map NInt (sort xs)) (int i) = Inr (NInt (sort xs ! i))" if "i < n" for i using that by (simp add: py_get_nat n_def)
  let ?q = "\<lambda>a b. NFlt ((of_nat (4 - r) * of_int a + of_nat r * of_int b) / 4)"
  have "quantile (map NInt xs) (NFlt (of_nat k / 4)) = Inr (if j + 1 < n then ?q (sort xs ! j) (sort xs ! (j + 1)) else NInt (sort xs ! j))"
    using at get[OF j(1)] get[of "j + 1", unfolded of_nat_add of_nat_1] quarter_mix[OF jr(2) items[OF j(1)] items[of "j + 1"]]
    by (simp add: quantile_def sort_ints n_def[symmetric] Let_def)
  moreover have "min (j + 1) (n - 1) = (if j + 1 < n then j + 1 else j)" using j n(1) by auto
  ultimately show ?thesis unfolding Let_def n_def[symmetric] j_def[symmetric] r_def[symmetric] using j(2) by auto
qed

lemma quartile_exact_witness: "\<exists>v. quantile (map NInt [7, 1, 5, 3]) (NFlt (of_nat 1 / 4)) = Inr v \<and> nval v = 5 / 2"
  using quartile_exact[of "[7, 1, 5, 3]" 1] by simp

text \<open>Trimming an empty list is an \<open>IndexError\<close>; otherwise what is left is sorted, and it is the items, as often as they were
  there, at most one and a half quartile ranges below the first or above the third quartile.\<close>

theorem trim_correct:
  "trim [] = Inl IndexError \<and>
   (trim l = Inr out \<longrightarrow> sorted (map nval out) \<and> (\<exists>q1 q3. quantile l (NFlt (1 / 4)) = Inr q1 \<and> quantile l (NFlt (3 / 4)) = Inr q3 \<and>
      mset out = filter_mset (\<lambda>x. q1 - (q3 - q1) * NFlt (3 / 2) \<le> x \<and> x \<le> q3 + (q3 - q1) * NFlt (3 / 2)) (mset l)))"
proof -
  have same: "quantile (sort_key nval l) p = quantile l p" for p
    by (simp add: quantile_def sort_key_id_if_sorted)
  show ?thesis
  proof (intro conjI impI)
    show "trim [] = Inl IndexError" by (simp add: trim_def median_of_def)
  next
    assume "trim l = Inr out"
    then show "sorted (map nval out)" by (auto simp: trim_def Let_def rbind_eq_Inr sorted_filter)
  next
    assume "trim l = Inr out"
    then show "\<exists>q1 q3. quantile l (NFlt (1 / 4)) = Inr q1 \<and> quantile l (NFlt (3 / 4)) = Inr q3 \<and>
      mset out = filter_mset (\<lambda>x. q1 - (q3 - q1) * NFlt (3 / 2) \<le> x \<and> x \<le> q3 + (q3 - q1) * NFlt (3 / 2)) (mset l)"
      unfolding trim_def Let_def same by (fastforce simp: rbind_eq_Inr)
  qed
qed

lemma trim_correct_witness: "trim [] = Inl IndexError"
  using trim_correct[of "[]" "[]"] by simp

text \<open>The area of a closed polygon with integer corners: cutting it along the line between two of its corners adds up, and moving
  it does not change it.  Walked in the other direction a half is rounded the other way: the areas differ by 1 unit
  (\<open>1 / precision^2\<close>) when twice the area is odd.\<close>

theorem area_cut: "twice_area (p # xs @ q # ys @ [p]) = twice_area (p # xs @ [q, p]) + twice_area (p # q # ys @ [p])"
proof -
  have "twice_area ((p # xs) @ [q] @ (ys @ [p])) = twice_area ((p # xs) @ [q]) + twice_area (q # ys @ [p])" by (rule twice_area_append)
  moreover have "twice_area ((p # xs) @ [q] @ [p]) = twice_area ((p # xs) @ [q]) + twice_area [q, p]" by (rule twice_area_append)
  ultimately show ?thesis by (cases p; cases q) simp
qed

theorem area_moved:
  assumes "ps \<noteq> []" "hd ps = last ps"
  shows "twice_area (map (\<lambda>(x, y). (x + a, y + b)) ps) = twice_area ps"
proof -
  have "twice_area (map (\<lambda>(x, y). (x + a, y + b)) ps) = twice_area ps + (fst (last ps) - fst (hd ps)) * b - (snd (last ps) - snd (hd ps)) * a" if "ps \<noteq> []" for ps
    using that by (induction ps rule: twice_area.induct) (auto simp: algebra_simps)
  then show ?thesis using assms by simp
qed

lemma area_moved_witness: "twice_area (map (\<lambda>(x, y). (x + 3, y + 4)) [(0, 0), (0, 1), (1, 0), (0, 0)]) = twice_area [(0, 0), (0, 1), (1, 0), (0, 0)]"
  by (rule area_moved) simp_all

theorem area_direction:
  assumes "ps \<noteq> []" "hd ps = last ps" "0 < precision"
  shows "let k = precision ^ 2 * twice_area ps in
    polygon_area (map int_point ps) precision = Inr (fquo (f_of_int \<bar>k div 2\<bar>) (f_of_int (precision ^ 2)), map (\<lambda>(x, y). (x * precision, y * precision)) ps) \<and>
    polygon_area (map int_point (rev ps)) precision = Inr (fquo (f_of_int (\<bar>k div 2\<bar> + sgn k * (k mod 2))) (f_of_int (precision ^ 2)), map (\<lambda>(x, y). (x * precision, y * precision)) (rev ps))"
proof -
  let ?s = "map (\<lambda>(x, y). (x * precision, y * precision))"
  have closed: "closed_points (?s qs) = ?s qs" if "qs \<noteq> []" "hd qs = last qs" for qs
    using that by (simp add: closed_points_def hd_map last_map)
  have run: "polygon_area (map int_point qs) precision = Inr (fquo (f_of_int \<bar>precision ^ 2 * twice_area qs div 2\<bar>) (f_of_int (precision ^ 2)), ?s qs)"
    if "qs \<noteq> []" "hd qs = last qs" for qs
  proof -
    have "(1 :: rat) \<le> of_int (precision ^ 2)" using assms(3) by (simp only: of_int_1_le_iff) (simp add: int_one_le_iff_zero_less)
    then have "rn 1 \<le> f_of_int (precision ^ 2)" unfolding f_of_int_def by (rule rn_mono)
    then have "f_of_int (precision ^ 2) \<noteq> 0" using rn_numerals(2) by linarith
    then show ?thesis using that closed[OF that]
      by (simp add: polygon_area_def scale_int_point twice_area_scaled Let_def del: map_map)
  qed
  have "\<bar>- k div 2\<bar> = \<bar>k div 2\<bar> + sgn k * (k mod 2)" for k :: int
    by (cases "k = 0"; cases "k < 0") (auto simp: sgn_if, presburger+)
  then show ?thesis using run[OF assms(1,2)] run[of "rev ps"] assms(1,2) twice_area_rev[of ps]
    by (simp add: hd_rev last_rev Let_def)
qed

lemma area_direction_witness:
  "polygon_area (map int_point [(0, 0), (0, 1), (1, 0), (0, 0)]) 1 = Inr (fquo (f_of_int 0) (f_of_int 1), [(0, 0), (0, 1), (1, 0), (0, 0)]) \<and>
   polygon_area (map int_point [(0, 0), (1, 0), (0, 1), (0, 0)]) 1 = Inr (fquo (f_of_int 1) (f_of_int 1), [(0, 0), (1, 0), (0, 1), (0, 0)])"
  using area_direction[of "[(0, 0), (0, 1), (1, 0), (0, 0)]" 1] by simp

text \<open>The caller's list is scaled in place: a second call gets corners with \<open>precision\<close> times the coordinates.\<close>

theorem second_area:
  assumes "ps \<noteq> []" "hd ps = last ps" "0 < precision"
  shows "\<exists>a qs. polygon_area (map int_point ps) precision = Inr (a, qs) \<and> twice_area qs = precision ^ 2 * twice_area ps \<and>
    polygon_area (map int_point qs) precision = Inr (fquo (f_of_int \<bar>precision ^ 4 * twice_area ps div 2\<bar>) (f_of_int (precision ^ 2)),
      map (\<lambda>(x, y). (x * precision, y * precision)) qs)"
proof -
  let ?qs = "map (\<lambda>(x, y). (x * precision, y * precision)) ps"
  have area: "twice_area ?qs = precision ^ 2 * twice_area ps" by (rule twice_area_scaled)
  have "?qs \<noteq> []" "hd ?qs = last ?qs" using assms(1,2) by (simp_all add: hd_map last_map)
  from area_direction[OF this assms(3)] area_direction[OF assms] show ?thesis
    by (simp add: Let_def area power4_eq_xxxx power2_eq_square mult.assoc)
qed

lemma second_area_witness:
  "\<exists>a qs. polygon_area (map int_point [(0, 0), (0, 2), (2, 0), (0, 0)]) 100 = Inr (a, qs) \<and> twice_area qs = 40000"
  using second_area[of "[(0, 0), (0, 2), (2, 0), (0, 0)]" 100] by auto

text \<open>A progression over integers is the list of all items before the end; with a step that is not positive it never ends, nor
  when the step is lost in rounding, if there is anything to list at all.\<close>

theorem float_range_integers:
  assumes "0 < s" "\<bar>a\<bar> \<le> 2 ^ 52" "\<bar>b\<bar> \<le> 2 ^ 52" "s \<le> 2 ^ 52"
  shows "float_range (NInt a) (Some (NInt b)) (Some (NInt s)) = Some (map (\<lambda>k. of_int (a + int k * s)) [0..<nat ((b - a + s - 1) div s)])"
  using float_loop_int[OF assms, of "[]"] f_of_int_small[of a] assms(2) by (simp add: float_range_def)

lemma float_range_integers_witness: "float_range (NInt 1) (Some (NInt 8)) (Some (NInt 3)) = Some [1, 4, 7]"
  using float_range_integers[of 3 1 8] by (simp add: upt_rec)

theorem float_range_endless:
  assumes "is_float (to_flt start)" "NFlt (to_flt start) < stop" "nval step \<le> 0 \<and> to_flt step \<le> 0 \<or> fadd (to_flt start) (to_flt step) = to_flt start"
  shows "float_range start (Some stop) (Some step) = None"
proof (cases "float_range start (Some stop) (Some step)")
  case (Some r)
  define P where "P x = (if fadd (to_flt start) (to_flt step) = to_flt start then x = to_flt start else is_float x \<and> x \<le> to_flt start)" for x
  have "P (fadd x (to_flt step)) \<and> NFlt x < stop" if x: "P x" for x
  proof (cases "fadd (to_flt start) (to_flt step) = to_flt start")
    case False
    then have le: "is_float x" "x \<le> to_flt start" "to_flt step \<le> 0" using x assms(3) by (auto simp: P_def)
    have "rn (x + to_flt step) \<le> rn x" using le(3) by (intro rn_mono) simp
    then have "fadd x (to_flt step) \<le> to_flt start" using le by (simp add: fadd_def is_float_def)
    then show ?thesis using False le assms(2) by (simp add: P_def num_order)
  qed (use x assms(2) in \<open>simp add: P_def\<close>)
  then have "\<not> P (to_flt start)" using float_loop_stuck[of P step stop "to_flt start" "[]" r] Some by (simp add: float_range_def)
  then show ?thesis using assms(1) by (simp add: P_def split: if_splits)
qed simp

lemma float_range_endless_witness: "float_range (NInt (2 ^ 53)) (Some (NInt (2 ^ 54))) (Some (NInt 1)) = None"
proof (rule float_range_endless)
  have start: "to_flt (NInt (2 ^ 53)) = 2 ^ 53" "to_flt (NInt 1) = 1" using f_of_int_small[of "2 ^ 53"] f_of_int_small[of 1] by simp_all
  then show "NFlt (to_flt (NInt (2 ^ 53))) < NInt (2 ^ 54)" by (simp add: num_order)
  show "is_float (to_flt (NInt (2 ^ 53)))" by simp
  have "rn (2 ^ 53 + 1) = 2 ^ 53" by code_simp
  then show "nval (NInt 1) \<le> 0 \<and> to_flt (NInt 1) \<le> 0 \<or> fadd (to_flt (NInt (2 ^ 53))) (to_flt (NInt 1)) = to_flt (NInt (2 ^ 53))"
    unfolding start fadd_def by simp
qed

lemma mult_index_between:
  assumes "multipliers ! 0 \<le> value" "value < multipliers ! (length multipliers - 1)"
  shows "mult_index multipliers value < length multipliers - 1 \<and> multipliers ! mult_index multipliers value \<le> value \<and>
    value < multipliers ! (mult_index multipliers value + 1)"
proof -
  let ?P = "\<lambda>i. multipliers ! i \<le> value \<and> value < multipliers ! (i + 1)"
  have step: "\<exists>i < k. ?P i" if "value < multipliers ! k" for k
    using that
  proof (induction k)
    case 0
    then show ?case using assms(1) by (simp add: num_order)
  next
    case (Suc k)
    then show ?case by (cases "value < multipliers ! k") (auto simp: num_order not_less less_Suc_eq intro: exI[of _ k])
  qed
  obtain j where "j \<in> set (filter ?P [0..<length multipliers - 1])" using step[OF assms(2)] by auto
  then have "filter ?P [0..<length multipliers - 1] \<noteq> []" by (metis empty_iff list.set(1))
  then obtain i rest where eq: "filter ?P [0..<length multipliers - 1] = i # rest" by (cases "filter ?P [0..<length multipliers - 1]") auto
  have "i \<in> set (filter ?P [0..<length multipliers - 1])" unfolding eq by simp
  then have "i < length multipliers - 1 \<and> ?P i" by simp
  then show ?thesis using eq by (simp add: mult_index_def)
qed

lemma mult_index_outside:
  assumes "sorted (map nval multipliers)" "multipliers \<noteq> []"
  shows "value < multipliers ! 0 \<Longrightarrow> mult_index multipliers value = 0"
    "multipliers ! (length multipliers - 1) \<le> value \<Longrightarrow> mult_index multipliers value = length multipliers - 1"
proof -
  have mono: "nval (multipliers ! i) \<le> nval (multipliers ! j)" if "i \<le> j" "j < length multipliers" for i j
    using sorted_nth_mono[OF assms(1), of i j] that by simp
  show "mult_index multipliers value = 0" if v: "value < multipliers ! 0"
  proof -
    have "\<not> multipliers ! i \<le> value" if "i < length multipliers" for i using v mono[of 0 i] that by (simp add: num_order)
    then have "filter (\<lambda>i. multipliers ! i \<le> value \<and> value < multipliers ! (i + 1)) [0..<length multipliers - 1] = []"
      by (auto simp: filter_empty_conv)
    then show ?thesis using v by (simp add: mult_index_def)
  qed
  show "mult_index multipliers value = length multipliers - 1" if v: "multipliers ! (length multipliers - 1) \<le> value"
  proof -
    have below: "\<not> value < multipliers ! i" if "i < length multipliers" for i
    proof -
      have "i \<le> length multipliers - 1" "length multipliers - 1 < length multipliers" using that by auto
      from mono[OF this] v show ?thesis by (simp add: num_order)
    qed
    then have "filter (\<lambda>i. multipliers ! i \<le> value \<and> value < multipliers ! (i + 1)) [0..<length multipliers - 1] = []"
      by (auto simp: filter_empty_conv)
    moreover have "\<not> value < multipliers ! 0" using below[of 0] assms(2) by simp
    ultimately show ?thesis by (simp add: mult_index_def)
  qed
qed

text \<open>The multiplier of a number within the prefixes is the one with the number between it and the next; beyond the greatest it
  is the greatest, and of a number below the least, such as every negative one, it is the least: \<open>y\<close>.\<close>

theorem unit_of_number:
  assumes "multipliers = map fst (prefix_table use_extra_prefixes bin)"
  shows "(if x < multipliers ! 0 then mult_index multipliers x = 0
    else if multipliers ! (length multipliers - 1) \<le> x then mult_index multipliers x = length multipliers - 1
    else mult_index multipliers x < length multipliers - 1 \<and> multipliers ! mult_index multipliers x \<le> x \<and>
      x < multipliers ! (mult_index multipliers x + 1))"
proof -
  have "sorted (map nval multipliers)" unfolding assms prefix_table_def map_map comp_def by (rule sorted_sort_key)
  moreover have "length multipliers \<noteq> 0" unfolding assms prefix_table_def by simp
  ultimately show ?thesis using mult_index_between[of multipliers x] mult_index_outside[of multipliers x]
    by (auto simp: num_order not_less)
qed

text \<open>With binary prefixes integers are divided as integers, so that the digits behind the point are 0, and the name of
  \<open>G\<close> is that of \<open>M\<close>.\<close>

theorem binary_units:
  "nice_units fmt_g (NInt 1536) 1 None ''B'' '' '' False False True = Inr ''1.0 KB'' \<and>
   nice_units fmt_g (NInt (2 ^ 30)) 0 None [] '' '' False True True = Inr ''1 mega''"
  by code_simp

lemma unit_of_number_witness: "mult_index (map fst (prefix_table False True)) (NInt (- 5)) = 0"
proof -
  have "NInt (- 5) < map fst (prefix_table False True) ! 0" by code_simp
  then show ?thesis using unit_of_number[OF refl, where x = "NInt (- 5)" and use_extra_prefixes = False and bin = True] by simp
qed

end
