(* ===== verification/Spec2Isabelle.thy ===== *)
theory Spec2Isabelle
  imports InterDC2 Topology SimConfig FctMerge CheckStyle GridView FlowMon Ns3rc ShellCmd LinkUtil FindCycles ModuleScan Cflags FlowBins PlotFct BuildCommand RunProgram ScanHook RadBits RadLists RadArith
begin

text \<open>
  The Python programs of the LCMP repository as definitions of HOL, and the theorems that make them correct.
  LCMP is a routing scheme for several data centres; its evaluation runs in a chain of Python programs around
  the simulator ns-3 (C++): the traffic and topology generators write the input of the simulator, the batch
  drivers rewrite its configuration and start it, the analysis reads what it has written and the merge and the
  plots put the results together.  Beside them stand the tools of the simulator's tree: the shell and the
  compiler flags of its build, the sorting of dependencies of its bindings, the style checker, the report of the
  flow monitor and the viewer of time lines.

  \<^bold>\<open>What the components share.\<close>
  \<open>Prelude\<close>: exceptions as the datatype \<open>py_error\<close>, results \<open>py_error + 'a\<close> with \<open>rbind\<close>, the loops \<open>rmap\<close> and \<open>rfold\<close>
  that stop at the first exception, list operations that raise, and the locale \<open>res_loop\<close>: a \<open>while\<close> loop
  whose iterations lower a measure keeps what one iteration keeps.  \<open>PyFloat\<close>: binary64 on exact rationals,
  \<open>rn\<close> rounds to nearest even; its locale \<open>float_rounding\<close> is interpreted on \<open>rn\<close>.  \<open>PyNum\<close>: the numbers of
  Python 2, integers or floats.  \<open>PyString\<close>, \<open>PyCsv\<close>: \<open>str\<close>, \<open>int\<close>, \<open>float\<close>, \<open>split\<close>, \<open>strip\<close>, formats and the rows
  of the module \<open>csv\<close>.  \<open>PyHeap\<close>: the contract of \<open>heapq\<close> as the locale \<open>heap_queue\<close>, interpreted on a sorted
  list.  \<open>PyRandom\<close>: the module \<open>random\<close> as the list of the draws it will return.  \<open>PyFiles\<close>, \<open>PyWorld\<close>: files as
  a map from paths to texts, and actions that pass the state on and keep what was written before an exception.

  \<^bold>\<open>The components\<close> (files under \<open>src/\<close>; definitions carry the names of the functions they model).
  \<open>CustomRand\<close>: \<open>traffic_gen/custom_rand.py\<close>, an object is a record with the distribution.  \<open>TrafficGen\<close>,
  \<open>InterDC\<close>, \<open>InterDC2\<close>: the three scripts \<open>traffic_gen*.py\<close>; the state of the event loop (heap, lines, draws) is a
  record, one iteration is \<open>gen_step\<close>, \<open>inter_step\<close>, \<open>pair_step\<close>.  \<open>FlowBins\<close>: \<open>traffic_gen/flow_bins.py\<close>.
  \<open>Topology\<close>: \<open>simulation/mix/config/combined_topology_generator.py\<close>, the parameters are a record and a file a
  list of typed lines that are printed.  \<open>SimConfig\<close>: the eleven \<open>simulation/server_simulation_batch*.py\<close>; the
  simulator is an argument, a run a configuration it sees, and the locale \<open>config_writer\<close> is the contract of
  all drivers.  \<open>FctAnalysis\<close>, \<open>FctMerge\<close>: \<open>analysis/fct_analysis_py3_batch.py\<close>, its variant \<open>_2dc\<close> and
  \<open>merge_fct_results.py\<close>.  \<open>LinkUtil\<close>: the reading of the topology and the windows of
  \<open>analysis/plot_link_utilization.py\<close>.  \<open>PlotFct\<close>: \<open>analysis/plot_fct_slowdown.py\<close>, over \<open>PyPath\<close>, the path functions that look at a
  path's parts.  \<open>ShellCmd\<close>: \<open>simulation/waf-tools/shellcmd.py\<close>, the parser as a state machine over tokens and the
  runner as an action over a system of files and processes.  \<open>BuildCommand\<close>: \<open>simulation/waf-tools/command.py\<close>, the variables in the words of such a line.
  \<open>RunProgram\<close>: \<open>simulation/wutils.py\<close>, the programs of the simulator as the build finds and starts them.  \<open>Cflags\<close>: \<open>simulation/waf-tools/cflags.py\<close>.
  \<open>Ns3rc\<close>: \<open>simulation/utils.py\<close>.  \<open>TopSort\<close>, \<open>FindCycles\<close>, \<open>ModuleScan\<close>:
  \<open>simulation/bindings/python/topsort.py\<close>, \<open>is_rotated\<close> of \<open>rad_util.py\<close>, and the sections of \<open>ns3modulescan.py\<close>.
  \<open>ScanHook\<close>: the hooks of \<open>ns3modulescan.py\<close> and \<open>ns3modulescan-modular.py\<close>,
  which annotate the declarations that are found.  \<open>RadBits\<close>,
  \<open>RadLists\<close>, \<open>RadArith\<close>: \<open>rad_util.py\<close>, on binary numbers, on lists and texts, and on numbers.  \<open>CheckStyle\<close>: \<open>simulation/utils/check-style.py\<close>.  \<open>GridData\<close>, \<open>GridView\<close>: \<open>simulation/utils/grid.py\<close>, its data and
  reader, and its layout and handlers as actions over the widget's state.  \<open>FlowMon\<close>:
  \<open>simulation/src/flow-monitor/examples/flowmon-parse-results.py\<close> over the tree of the parsed document.

  \<^bold>\<open>What the lemmas show.\<close>
  For the generators: sizes stay within the distribution and are monotone in the percentage, whatever the
  rounding; every flow joins legal hosts within the run, in order; the loops end.  For the topology: the
  announced counts, the range of the nodes, connectedness, one leaf per host.  For the drivers: every run sees
  the original configuration with its own parameters.  For the analysis and the merge: the tables read back are
  the statistics, and the two programs in a row keep them; the topology a generator writes is the one the plots
  read.  For the tools: round trips of the diff reader and of the shell's parser, the runner against the
  outcome a pipeline has by its exit codes, sorting and cycles against their specification, the reader of time
  lines against the lines' contents, the window of the viewer as an invariant of its handlers; the two scans of
  the bindings do the same on a module's own declarations; numbers and their binary texts are inverse to each
  other, permutations complete, factors and quartiles of integers exact.  Errors are values:
  a theorem names the exception and what was written before it.

  \<^bold>\<open>Bounds.\<close>
  Distributions of byte sizes have whole sizes up to \<open>2 ^ 50\<close> and percentages at least \<open>2 ^ (- 100)\<close> apart, so that
  three roundings move a size by less than 1; tables have up to \<open>2 ^ 46\<close> records, below which the rounded index of
  the 99th percentile stays inside; times of the viewer stay below \<open>2 ^ 52\<close>, where integers and their halves are
  floats.  The event loops end because each iteration uses up draws; that enough draws give a result is a
  theorem.  The decimal exponent of a float is searched in 400 steps, more than the exponents a binary64 has.  The
  loop of \<open>FlowBins\<close> takes fuel, and some fuel is shown to be enough.
  Loops that may go on for ever are partial functions with values in an option: the search for the directory of a
  header in \<open>ScanHook\<close> and the loops over floats in \<open>RadArith\<close>, for which theorems tell when there is a result and
  when there is none, and the counting loop of \<open>RadBits\<close>, which is shown to end.  All other loops are total functions.

  \<^bold>\<open>Not modelled.\<close>
  The simulator and LCMP's switches (C++), the operating system, \<open>awk\<close>, \<open>sort\<close>, \<open>uncrustify\<close>, \<open>diff\<close>, \<open>math.log\<close>
  and \<open>eval\<close> are parameters.  Progress messages are left out.  pandas, matplotlib, cairo and GTK are not in the
  repository: what is drawn is not modelled, a chart of \<open>PlotFct\<close> is the list of its curves.  The generated descriptions of the bindings are lists of
  calls, and the bindings' generators and the visualizer act on objects of pybindgen and of the simulator only;
  waf is vendored, and the \<open>wscript\<close> files are declarations to it.
\<close>

section \<open>From the analysis to the merged table\<close>

lemma csv_name_output_name:
  assumes "out \<noteq> []" "last out \<noteq> CHR ''/''"
  shows "csv_name out ''0.3util'' r = output_name out ''0.3util'' r"
proof -
  have "dirname (out @ ''/0.3util/'') = out @ ''/0.3util''"
    using dirname_slash[of "out @ ''/0.3util''"] by simp
  then show ?thesis using assms by (simp add: csv_name_def output_name_def path_join_def)
qed

text \<open>C13. The analysis followed by the merge: the merge finds the tables the analysis has written under the
  same directory, and the merged file read back has, for each bucket of step per cent, its percentage, the
  size of the last flow of the first routing, and the median and the 99th percentile of every routing.\<close>

theorem analysis_then_merge:
  assumes "py_int (arg_step args) = Inr (int step)" "0 < step"
    and "\<And>r. r \<in> set ROUTINGs_batch \<Longrightarrow> disk w (input_file here args ''0.3util'' r ''dcqcn'') = Some (content r)"
    and "\<And>d r. r \<in> set ROUTINGs_batch \<Longrightarrow> d (input_file here args ''0.3util'' r ''dcqcn'') = Some (content r) \<Longrightarrow>
      shell d (cmd_batch (input_file here args ''0.3util'' r ''dcqcn'') (arg_type args) (arg_limit args)) = Inr (output_text (ls r))"
    and "\<And>r. r \<in> set ROUTINGs_batch \<Longrightarrow> good_output f step (ls r)"
    and "arg_output args \<noteq> []" "last (arg_output args) \<noteq> CHR ''/''"
  shows "\<exists>w' w'' t. main_fct shell here args w = (Inr (), w') \<and>
    merge_fct_csvs ''0.3util'' (arg_output args) (arg_output args) ROUTINGs_merge w' = (Inr True, w'') \<and>
    disk w'' (merged_name (arg_output args) ''0.3util'') = Some t \<and>
    tl (csv_read t) = map (\<lambda>k.
        [cell_text (FCell (fquo (f_of_int (int (k * step))) 100)),
         str_int (snd (f (last (bucket (butlast (ls ''Ours'')) step (k * step)))))] @
        concat (map (\<lambda>r. map cell_text (tl (bucket_stats (map f (bucket (butlast (ls r)) step (k * step)))))) ROUTINGs_batch))
      [0..<(100 + step - 1) div step]"
proof -
  let ?table = "\<lambda>r. map (map cell_text) (table_of f step (butlast (ls r)))"
  have routings: "ROUTINGs_merge = ROUTINGs_batch" by (simp add: ROUTINGs_merge_def ROUTINGs_batch_def)
  have "\<exists>w'. main_fct shell here args w = (Inr (), w') \<and>
    list_all (\<lambda>r. map_option csv_read (disk w' (output_name (arg_output args) ''0.3util'' r)) =
      Some (header_batch r CCs_batch # ?table r)) ROUTINGs_batch"
    using assms(1-5) by (rule fct_run)
  then obtain w' where w': "main_fct shell here args w = (Inr (), w')"
    "list_all (\<lambda>r. map_option csv_read (disk w' (output_name (arg_output args) ''0.3util'' r)) =
      Some (header_batch r CCs_batch # ?table r)) ROUTINGs_batch"
    by blast
  have disk: "\<exists>t. disk w' (csv_name (arg_output args) ''0.3util'' r) = Some t \<and> csv_read t = header_batch r CCs_batch # ?table r"
    if "r \<in> set ROUTINGs_batch" for r
    using w'(2) that csv_name_output_name[OF assms(6,7), of r] by (auto simp: list_all_iff)
  have full: "full_tables ROUTINGs_batch ?table (n_rows step)"
    by (auto simp: full_tables_def list_all_iff table_of_def bucket_stats_def Let_def)
  have plain: "list_all plain_field x" if "r \<in> set ROUTINGs_batch" "x \<in> set (header_batch r CCs_batch # ?table r)" for r x
    using that header_batch_plain[OF that(1)] by (auto simp: list_all_iff cell_plain)
  have "ROUTINGs_batch \<noteq> []" "distinct ROUTINGs_batch" by (simp_all add: ROUTINGs_batch_def)
  then have "\<exists>t w''. merge_fct_csvs ''0.3util'' (arg_output args) (arg_output args) ROUTINGs_batch w' = (Inr True, w'') \<and>
    disk w'' = (disk w')(merged_name (arg_output args) ''0.3util'' \<mapsto> t) \<and>
    csv_read t = ([''Percentile'', ''FlowSize''] @ concat (map (\<lambda>r. drop 2 (header_batch r CCs_batch)) ROUTINGs_batch)) #
      map (\<lambda>i. take 2 (?table (hd ROUTINGs_batch) ! i) @ concat (map (\<lambda>r. drop 2 (?table r ! i)) ROUTINGs_batch)) [0..<n_rows step]"
    by (intro merge_run full disk plain)
  then obtain t w'' where t: "merge_fct_csvs ''0.3util'' (arg_output args) (arg_output args) ROUTINGs_batch w' = (Inr True, w'')"
    "disk w'' = (disk w')(merged_name (arg_output args) ''0.3util'' \<mapsto> t)"
    "csv_read t = ([''Percentile'', ''FlowSize''] @ concat (map (\<lambda>r. drop 2 (header_batch r CCs_batch)) ROUTINGs_batch)) #
      map (\<lambda>i. take 2 (?table (hd ROUTINGs_batch) ! i) @ concat (map (\<lambda>r. drop 2 (?table r ! i)) ROUTINGs_batch)) [0..<n_rows step]"
    by blast
  have ne: "bucket (butlast (ls r)) step (k * step) \<noteq> []" if "r \<in> set ROUTINGs_batch" "k < n_rows step" for r k
    using assms(5)[OF that(1)] n_rows_less[OF assms(2) that(2)] by (intro bucket_nonempty) (auto simp: good_output_def)
  have "tl (csv_read t) = map (\<lambda>k.
        [cell_text (FCell (fquo (f_of_int (int (k * step))) 100)),
         str_int (snd (f (last (bucket (butlast (ls ''Ours'')) step (k * step)))))] @
        concat (map (\<lambda>r. map cell_text (tl (bucket_stats (map f (bucket (butlast (ls r)) step (k * step)))))) ROUTINGs_batch))
      [0..<n_rows step]"
    unfolding t(3) list.sel using ne[of "''Ours''"]
    by (intro map_cong refl)
      (simp add: ROUTINGs_batch_def table_of_def bucket_stats_def Let_def cell_text_def last_map numeral_2_eq_2)
  then show ?thesis using w'(1) t(1,2) unfolding routings n_rows_def by auto
qed

theorem analysis_then_merge_witness:
  "let args = fct_defaults\<lparr>arg_step := ''50''\<rparr>; ls = [''2 10'', ''1 20'', ''4 30'']; f = parse_or_zero; step = 50 in
    \<exists>w' w'' t. main_fct (\<lambda>d c. Inr (output_text ls)) ''/a'' args \<lparr>disk = \<lambda>_. Some [], console = []\<rparr> = (Inr (), w') \<and>
    merge_fct_csvs ''0.3util'' (arg_output args) (arg_output args) ROUTINGs_merge w' = (Inr True, w'') \<and>
    disk w'' (merged_name (arg_output args) ''0.3util'') = Some t \<and>
    tl (csv_read t) = map (\<lambda>k.
        [cell_text (FCell (fquo (f_of_int (int (k * step))) 100)), str_int (snd (f (last (bucket (butlast ls) step (k * step)))))] @
        concat (map (\<lambda>r. map cell_text (tl (bucket_stats (map f (bucket (butlast ls) step (k * step)))))) ROUTINGs_batch))
      [0..<(100 + step - 1) div step]"
proof -
  let ?args = "fct_defaults\<lparr>arg_step := ''50''\<rparr>" and ?ls = "[''2 10'', ''1 20'', ''4 30'']"
  have "py_int (arg_step ?args) = Inr (int 50)" by code_simp
  moreover have "list_all (\<lambda>l. nl \<notin> set l \<and> parse_record l = Inr (parse_or_zero l)) ?ls" by code_simp
  then have "good_output parse_or_zero 50 ?ls" by (simp add: good_output_def)
  ultimately show ?thesis unfolding Let_def
    by (intro analysis_then_merge[where content = "\<lambda>_. []"]) (simp_all add: fct_defaults_def)
qed

section \<open>The flows the generator writes and the flows the analysis keeps\<close>

text \<open>With 16 hosts per data centre, the flows the generator writes between two given data centres are
  those the analysis with --dcA 1 and --dcB 8 keeps: every source is a host of the first range, every
  destination a host of the second.\<close>

theorem generated_flows_in_ranges:
  assumes "user_src_dc + 1 = dA" "user_dst_dc + 1 = dB" "src \<in> set (dc_hosts user_src_dc 16)" "dst \<in> set (dc_hosts user_dst_dc 16)"
  shows "\<exists>ra rb. parse_dc_or_range (str_int dA) = Inr (ra, Some dA) \<and> parse_dc_or_range (str_int dB) = Inr (rb, Some dB) \<and>
    fst ra \<le> src \<and> src \<le> snd ra \<and> fst rb \<le> dst \<and> dst \<le> snd rb"
proof -
  have "0 \<le> dA" "0 \<le> dB" using assms(1,2) by (auto simp: user_src_dc_def user_dst_dc_def)
  then show ?thesis using parse_dc_number assms by (auto simp: dc_hosts_def)
qed

theorem generated_flows_in_ranges_witness:
  "\<exists>ra rb. parse_dc_or_range (str_int 1) = Inr (ra, Some 1) \<and> parse_dc_or_range (str_int 8) = Inr (rb, Some 8) \<and>
    fst ra \<le> 3 \<and> 3 \<le> snd ra \<and> fst rb \<le> 120 \<and> 120 \<le> snd rb"
  by (rule generated_flows_in_ranges) (simp_all add: user_src_dc_def user_dst_dc_def dc_hosts_def)

end
